(* ===== verification/Prelude.thy ===== *)
theory Prelude
  imports "HOL-Library.Word"
begin

text \<open>
  Shared material of the development: the names of the machine types, the result type of the
  fallible Rust functions with its combinators (\<open>?\<close>, \<open>map_err\<close>, \<open>ok_or\<close>,
  \<open>try_fold\<close>), checked arithmetic at a fixed width, big-endian byte strings, and the
  generic facts on them that the component theories use.

  Every \<^verbatim>\<open>[u8; 32]\<close> newtype of the sources (\<^verbatim>\<open>AssetId\<close>, \<^verbatim>\<open>StateId\<close>, hashes, ...) is a
  \<open>256 word\<close>: the array's bytes are its big-endian representation \<open>to_be_bytes\<close>, and the
  array's derived lexicographic order is the order of the word (\<open>to_be_bytes_less_iff\<close>).
  A \<^verbatim>\<open>Result<T, E>\<close> is a value of \<open>'e + 'a\<close>, with \<open>Inl\<close> for \<^verbatim>\<open>Err\<close>.
  \<^verbatim>\<open>usize\<close> is \<open>nat\<close> with its 64-bit bound written out where the code checks it.
\<close>

subsection \<open>Machine types\<close>

type_synonym byte = "8 word"
type_synonym bytes = "8 word list"
type_synonym u16 = "16 word"
type_synonym u32 = "32 word"
type_synonym u64 = "64 word"
type_synonym i64 = "64 word"
type_synonym u128 = "128 word"
type_synonym id32 = "256 word"

text \<open>SHA-256 comes from the third-party crate \<^verbatim>\<open>sha2\<close>: a parameter of every definition that hashes.\<close>

type_synonym sha256 = "8 word list \<Rightarrow> 256 word"

named_theorems result_simps \<open>rewrite rules of the result combinators\<close>
named_theorems wire_simps \<open>rewrite rules that run a reader over an encoded value\<close>
named_theorems wire_dests \<open>what a successful read says about the bytes it consumed\<close>

subsection \<open>Results\<close>

definition and_then :: "'e + 'a \<Rightarrow> ('a \<Rightarrow> 'e + 'b) \<Rightarrow> 'e + 'b" where
  "and_then r f = (case r of Inl e \<Rightarrow> Inl e | Inr x \<Rightarrow> f x)"

definition map_err :: "('e \<Rightarrow> 'f) \<Rightarrow> 'e + 'a \<Rightarrow> 'f + 'a" where
  "map_err g r = (case r of Inl e \<Rightarrow> Inl (g e) | Inr x \<Rightarrow> Inr x)"

definition ok_or :: "'a option \<Rightarrow> 'e \<Rightarrow> 'e + 'a" where
  "ok_or x e = (case x of None \<Rightarrow> Inl e | Some y \<Rightarrow> Inr y)"

fun try_fold :: "('a \<Rightarrow> 'b \<Rightarrow> 'e + 'a) \<Rightarrow> 'a \<Rightarrow> 'b list \<Rightarrow> 'e + 'a" where
  "try_fold f a [] = Inr a"
| "try_fold f a (x # xs) = and_then (f a x) (\<lambda>a'. try_fold f a' xs)"

fun collect_results :: "('a \<Rightarrow> 'e + 'b) \<Rightarrow> 'a list \<Rightarrow> 'e + 'b list" where
  "collect_results f [] = Inr []"
| "collect_results f (x # xs) =
     and_then (f x) (\<lambda>y. and_then (collect_results f xs) (\<lambda>ys. Inr (y # ys)))"

definition is_ok :: "'e + 'a \<Rightarrow> bool" where
  "is_ok r = (case r of Inl _ \<Rightarrow> False | Inr _ \<Rightarrow> True)"

lemma and_then_simps [simp, result_simps]:
  "and_then (Inl e) f = Inl e" "and_then (Inr x) f = f x"
  by (simp_all add: and_then_def)

lemma and_then_eq_Inr: "and_then r f = Inr y \<longleftrightarrow> (\<exists>x. r = Inr x \<and> f x = Inr y)"
  by (cases r) auto

lemma and_then_eq_Inl:
  "and_then r f = Inl e \<longleftrightarrow> r = Inl e \<or> (\<exists>x. r = Inr x \<and> f x = Inl e)"
  by (cases r) auto

lemma and_then_assoc: "and_then (and_then r f) g = and_then r (\<lambda>x. and_then (f x) g)"
  by (cases r) auto

lemma and_then_Inr_right [simp]: "and_then r Inr = r"
  by (cases r) auto

lemma map_err_simps [simp, result_simps]:
  "map_err g (Inl e) = Inl (g e)" "map_err g (Inr x) = Inr x"
  by (simp_all add: map_err_def)

lemma map_err_eq_Inr [simp]: "map_err g r = Inr x \<longleftrightarrow> r = Inr x"
  by (cases r) auto

lemma map_err_eq_Inl: "map_err g r = Inl e' \<longleftrightarrow> (\<exists>e. r = Inl e \<and> e' = g e)"
  by (cases r) auto

lemma ok_or_simps [simp, result_simps]:
  "ok_or None e = Inl e" "ok_or (Some x) e = Inr x"
  by (simp_all add: ok_or_def)

lemma ok_or_eq_Inr [simp]: "ok_or x e = Inr y \<longleftrightarrow> x = Some y"
  by (cases x) auto

lemma ok_or_eq_Inl [simp]: "ok_or x e = Inl e' \<longleftrightarrow> x = None \<and> e' = e"
  by (cases x) auto

lemma is_ok_simps [simp]: "is_ok (Inl e) = False" "is_ok (Inr x) = True"
  by (simp_all add: is_ok_def)

lemma is_ok_iff: "is_ok r \<longleftrightarrow> (\<exists>x. r = Inr x)"
  by (cases r) auto

lemma if_Inl_eq_Inr [simp]:
  "(if b then Inl e else r) = Inr x \<longleftrightarrow> \<not> b \<and> r = Inr x"
  "(if b then r else Inl e) = Inr x \<longleftrightarrow> b \<and> r = Inr x"
  by auto

lemma try_fold_append:
  "try_fold f a (xs @ ys) = and_then (try_fold f a xs) (\<lambda>a'. try_fold f a' ys)"
  by (induction xs arbitrary: a) (auto simp: and_then_assoc)

text \<open>A property kept by every successful step is kept by a successful fold.\<close>

lemma try_fold_invariant:
  assumes "try_fold f a xs = Inr b" and "P a"
    and "\<And>a x b. P a \<Longrightarrow> x \<in> set xs \<Longrightarrow> f a x = Inr b \<Longrightarrow> P b"
  shows "P b"
  using assms
proof (induction xs arbitrary: a)
  case Nil
  from Nil.prems(1,2) show ?case by simp
next
  case (Cons x xs)
  from Cons.prems(1) obtain a' where a': "f a x = Inr a'" and rest: "try_fold f a' xs = Inr b"
    by (auto simp: and_then_eq_Inr)
  have "P a'" using Cons.prems(2,3) a' by (meson list.set_intros(1))
  with rest show ?case
    by (rule Cons.IH) (use Cons.prems(3) in \<open>meson list.set_intros(2)\<close>)
qed

lemma collect_results_Inr_iff:
  "collect_results f xs = Inr ys \<longleftrightarrow> list_all2 (\<lambda>x y. f x = Inr y) xs ys"
  by (induction xs arbitrary: ys) (auto simp: and_then_eq_Inr list_all2_Cons1)

subsection \<open>Checked arithmetic\<close>

definition checked_add :: "'w::len word \<Rightarrow> 'w word \<Rightarrow> 'w word option" where
  "checked_add a b = (if unat a + unat b < 2 ^ LENGTH('w) then Some (a + b) else None)"

definition checked_add_usize :: "nat \<Rightarrow> nat \<Rightarrow> nat option" where
  "checked_add_usize a b = (if a + b < 2 ^ 64 then Some (a + b) else None)"

definition checked_mul_usize :: "nat \<Rightarrow> nat \<Rightarrow> nat option" where
  "checked_mul_usize a b = (if a * b < 2 ^ 64 then Some (a * b) else None)"

lemma checked_add_Some_iff:
  "checked_add a b = Some (c :: 'w::len word) \<longleftrightarrow> unat c = unat a + unat b"
proof
  assume "checked_add a b = Some c"
  then show "unat c = unat a + unat b"
    by (auto simp: checked_add_def unat_word_ariths split: if_splits)
next
  assume eq: "unat c = unat a + unat b"
  then have "unat a + unat b < 2 ^ LENGTH('w)" by (metis unsigned_less)
  moreover from eq have "c = a + b" by (metis of_nat_add of_nat_unat ucast_id)
  ultimately show "checked_add a b = Some c" by (simp add: checked_add_def)
qed

lemma checked_add_None_iff:
  "checked_add a (b :: 'w::len word) = None \<longleftrightarrow> 2 ^ LENGTH('w) \<le> unat a + unat b"
  by (auto simp: checked_add_def not_less)

lemma checked_add_usize_simps [simp]:
  "a + b < 2 ^ 64 \<Longrightarrow> checked_add_usize a b = Some (a + b)"
  "2 ^ 64 \<le> a + b \<Longrightarrow> checked_add_usize a b = None"
  by (simp_all add: checked_add_usize_def)

lemma checked_add_usize_Some_iff:
  "checked_add_usize a b = Some c \<longleftrightarrow> c = a + b \<and> a + b < 2 ^ 64"
  by (auto simp: checked_add_usize_def)

text \<open>\<^verbatim>\<open>u32::try_from(n: usize)\<close> and its siblings.\<close>

definition try_from_usize :: "nat \<Rightarrow> 'w::len word option" where
  "try_from_usize n = (if n < 2 ^ LENGTH('w) then Some (of_nat n) else None)"

lemma try_from_usize_Some_iff:
  "try_from_usize n = Some (w :: 'w::len word) \<longleftrightarrow> unat w = n"
  by (auto simp: try_from_usize_def unat_of_nat)

lemma try_from_usize_small: "n < 2 ^ LENGTH('w) \<Longrightarrow> try_from_usize n = Some (of_nat n :: 'w::len word)"
  by (simp add: try_from_usize_def)

text \<open>Signed 64-bit arithmetic reads its operands with \<open>sint\<close>.\<close>

definition checked_add_i64 :: "i64 \<Rightarrow> i64 \<Rightarrow> i64 option" where
  "checked_add_i64 a b =
     (if - (2 ^ 63) \<le> sint a + sint b \<and> sint a + sint b < 2 ^ 63 then Some (a + b) else None)"

definition checked_sub_i64 :: "i64 \<Rightarrow> i64 \<Rightarrow> i64 option" where
  "checked_sub_i64 a b =
     (if - (2 ^ 63) \<le> sint a - sint b \<and> sint a - sint b < 2 ^ 63 then Some (a - b) else None)"

lemma sint_small: "unat (w :: i64) < 2 ^ 63 \<Longrightarrow> sint w = int (unat w)"
proof -
  assume "unat w < 2 ^ 63"
  then have "int (unat w) < int (2 ^ 63)" by (simp only: of_nat_less_iff)
  then have u: "uint w < 2 ^ 63" by simp
  have "- (2 ^ 63) \<le> uint w" by (rule order_trans [OF _ uint_ge_0]) simp
  with u have "signed_take_bit 63 (uint w) = uint w" by (intro signed_take_bit_int_eq_self)
  then show ?thesis by (simp add: sint_uint)
qed

lemma sint_range: "- (2 ^ 63) \<le> sint (w :: i64)" "sint (w :: i64) < 2 ^ 63"
  using sint_ge [of w] sint_lt [of w] by simp_all

lemma checked_add_i64_Some_iff: "checked_add_i64 a b = Some c \<longleftrightarrow> sint c = sint a + sint b"
proof
  assume "checked_add_i64 a b = Some c"
  then show "sint c = sint a + sint b"
    by (auto simp: checked_add_i64_def sint_word_ariths signed_take_bit_int_eq_self split: if_splits)
next
  assume c: "sint c = sint a + sint b"
  then have r: "- (2 ^ 63) \<le> sint a + sint b" "sint a + sint b < 2 ^ 63"
    using sint_range [of c] by simp_all
  then have "sint (a + b) = sint c" using c by (simp add: sint_word_ariths signed_take_bit_int_eq_self)
  then have "a + b = c" by (rule signed_word_eqI)
  then show "checked_add_i64 a b = Some c" using r by (simp add: checked_add_i64_def)
qed

lemma checked_sub_i64_Some_iff: "checked_sub_i64 a b = Some c \<longleftrightarrow> sint c = sint a - sint b"
proof
  assume "checked_sub_i64 a b = Some c"
  then show "sint c = sint a - sint b"
    by (auto simp: checked_sub_i64_def sint_word_ariths signed_take_bit_int_eq_self split: if_splits)
next
  assume c: "sint c = sint a - sint b"
  then have r: "- (2 ^ 63) \<le> sint a - sint b" "sint a - sint b < 2 ^ 63"
    using sint_range [of c] by simp_all
  then have "sint (a - b) = sint c" using c by (simp add: sint_word_ariths signed_take_bit_int_eq_self)
  then have "a - b = c" by (rule signed_word_eqI)
  then show "checked_sub_i64 a b = Some c" using r by (simp add: checked_sub_i64_def)
qed

subsection \<open>Big-endian bytes\<close>

fun be_of_nat :: "nat \<Rightarrow> nat \<Rightarrow> bytes" where
  "be_of_nat 0 v = []"
| "be_of_nat (Suc n) v = be_of_nat n (v div 256) @ [of_nat (v mod 256)]"

definition nat_of_be :: "bytes \<Rightarrow> nat" where
  "nat_of_be bs = foldl (\<lambda>acc b. acc * 256 + unat b) 0 bs"

definition to_be_bytes :: "'w::len word \<Rightarrow> bytes" where
  "to_be_bytes w = be_of_nat (LENGTH('w) div 8) (unat w)"

definition from_be_bytes :: "bytes \<Rightarrow> 'w::len word" where
  "from_be_bytes bs = of_nat (nat_of_be bs)"

text \<open>The bytes of a Rust string or byte-string literal.\<close>

definition ascii :: "string \<Rightarrow> bytes" where
  "ascii s = map of_char s"

lemma length_be_of_nat [simp]: "length (be_of_nat n v) = n"
  by (induction n v rule: be_of_nat.induct) auto

lemma nat_of_be_snoc [simp]: "nat_of_be (bs @ [b]) = nat_of_be bs * 256 + unat b"
  by (simp add: nat_of_be_def)

lemma nat_of_be_Nil [simp]: "nat_of_be [] = 0"
  by (simp add: nat_of_be_def)

lemma unat_byte_less: "unat (b :: byte) < 256"
  using unsigned_less [of b, where ?'a = nat] by simp

lemma nat_of_be_less: "nat_of_be bs < 256 ^ length bs"
proof (induction bs rule: rev_induct)
  case Nil
  show ?case by simp
next
  case (snoc b bs)
  have "nat_of_be bs * 256 + unat b < (nat_of_be bs + 1) * 256"
    using unat_byte_less [of b] by simp
  also have "\<dots> \<le> 256 ^ length bs * 256"
    using snoc by (intro mult_right_mono) auto
  finally show ?case by simp
qed

lemma nat_of_be_of_nat: "v < 256 ^ n \<Longrightarrow> nat_of_be (be_of_nat n v) = v"
proof (induction n v rule: be_of_nat.induct)
  case (1 v)
  then show ?case by simp
next
  case (2 n v)
  then have "v div 256 < 256 ^ n" by (simp add: less_mult_imp_div_less mult.commute)
  with 2 have "nat_of_be (be_of_nat n (v div 256)) = v div 256" by simp
  then show ?case by (simp add: unat_of_nat)
qed

lemma be_of_nat_of_be: "be_of_nat (length bs) (nat_of_be bs) = bs"
proof (induction bs rule: rev_induct)
  case Nil
  show ?case by simp
next
  case (snoc b bs)
  then show ?case using unat_byte_less [of b] by simp
qed

lemma length_to_be_bytes [simp]: "length (to_be_bytes (w :: 'w::len word)) = LENGTH('w) div 8"
  by (simp add: to_be_bytes_def)

lemma pow_256: "(256 :: nat) ^ n = 2 ^ (8 * n)"
  by (simp add: power_mult)

lemma from_to_be_bytes [simp]:
  "8 dvd LENGTH('w) \<Longrightarrow> from_be_bytes (to_be_bytes (w :: 'w::len word)) = w"
  using unsigned_less [of w, where ?'a = nat]
  by (simp add: from_be_bytes_def to_be_bytes_def nat_of_be_of_nat pow_256)

lemma to_from_be_bytes:
  assumes "8 dvd LENGTH('w)" and "length bs = LENGTH('w) div 8"
  shows "to_be_bytes (from_be_bytes bs :: 'w::len word) = bs"
proof -
  have "nat_of_be bs < 2 ^ LENGTH('w)"
    using nat_of_be_less [of bs] assms by (simp add: pow_256)
  then have "unat (from_be_bytes bs :: 'w word) = nat_of_be bs"
    by (simp add: from_be_bytes_def unat_of_nat)
  then show ?thesis using be_of_nat_of_be [of bs] assms(2) by (simp add: to_be_bytes_def)
qed

lemma to_be_bytes_inject [simp]:
  "8 dvd LENGTH('w) \<Longrightarrow> to_be_bytes (w :: 'w::len word) = to_be_bytes v \<longleftrightarrow> w = v"
  by (metis from_to_be_bytes)

lemma to_be_bytes_append_inject [simp]:
  "8 dvd LENGTH('w) \<Longrightarrow>
    to_be_bytes (w :: 'w::len word) @ xs = to_be_bytes v @ ys \<longleftrightarrow> w = v \<and> xs = ys"
  by (simp add: append_eq_append_conv)

text \<open>The order of the words is the lexicographic order of their byte arrays.\<close>

lemma nat_of_be_Cons: "nat_of_be (b # bs) = unat b * 256 ^ length bs + nat_of_be bs"
proof (induction bs rule: rev_induct)
  case Nil
  show ?case by (simp add: nat_of_be_def)
next
  case (snoc c bs)
  have "nat_of_be (b # bs @ [c]) = nat_of_be (b # bs) * 256 + unat c"
    using nat_of_be_snoc [of "b # bs" c] by simp
  with snoc show ?case by simp
qed

lemma lexordp_nat_of_be:
  assumes "ord_class.lexordp xs ys" and "length xs = length ys"
  shows "nat_of_be xs < nat_of_be ys"
  using assms
proof (induction xs ys rule: lexordp_induct)
  case (Nil y ys)
  then show ?case by simp
next
  case (Cons x xs y ys)
  have "unat x * 256 ^ length xs + nat_of_be xs < (unat x + 1) * 256 ^ length xs"
    using nat_of_be_less [of xs] by simp
  also have "\<dots> \<le> unat y * 256 ^ length xs"
    using Cons.hyps by (intro mult_right_mono) (auto simp: word_less_nat_alt)
  finally show ?case using Cons.prems by (simp add: nat_of_be_Cons)
next
  case (Cons_eq x xs ys)
  then show ?case by (simp add: nat_of_be_Cons)
qed

lemma to_be_bytes_less_iff:
  assumes "8 dvd LENGTH('w)"
  shows "ord_class.lexordp (to_be_bytes v) (to_be_bytes w) \<longleftrightarrow> v < (w :: 'w::len word)"
proof -
  have less: "x < y" if "ord_class.lexordp (to_be_bytes x) (to_be_bytes y)" for x y :: "'w word"
  proof -
    have "unat z < 256 ^ (LENGTH('w) div 8)" for z :: "'w word"
      using unsigned_less [of z, where ?'a = nat] assms by (simp add: pow_256)
    with lexordp_nat_of_be [OF that] show ?thesis
      by (simp add: to_be_bytes_def nat_of_be_of_nat word_less_nat_alt)
  qed
  show ?thesis
    using less [of v w] less [of w v] lexordp_linear [of "to_be_bytes v" "to_be_bytes w"] assms
    by auto
qed

subsection \<open>Binary search\<close>

text \<open>\<^verbatim>\<open>slice::binary_search_by_key\<close> on \<open>xs[lo..hi]\<close>.\<close>

function binary_search_by_key :: "('a \<Rightarrow> 'k::linorder) \<Rightarrow> 'a list \<Rightarrow> 'k \<Rightarrow> nat \<Rightarrow> nat \<Rightarrow> nat option" where
  "binary_search_by_key f xs k lo hi =
     (if hi \<le> lo then None
      else let mid = lo + (hi - lo) div 2 in
        if f (xs ! mid) = k then Some mid
        else if f (xs ! mid) < k then binary_search_by_key f xs k (Suc mid) hi
        else binary_search_by_key f xs k lo mid)"
  by pat_completeness auto
termination
  by (relation "measure (\<lambda>(f, xs, k, lo, hi). hi - lo)") auto

declare binary_search_by_key.simps [simp del]

lemma binary_search_spec:
  assumes "sorted_wrt (<) (map f xs)" and "hi \<le> length xs"
  shows "case binary_search_by_key f xs k lo hi of
      Some i \<Rightarrow> lo \<le> i \<and> i < hi \<and> f (xs ! i) = k
    | None \<Rightarrow> \<forall>i. lo \<le> i \<longrightarrow> i < hi \<longrightarrow> f (xs ! i) \<noteq> k"
  using assms
proof (induction f xs k lo hi rule: binary_search_by_key.induct)
  case (1 f xs k lo hi)
  let ?mid = "lo + (hi - lo) div 2"
  have less: "i < j \<Longrightarrow> j < hi \<Longrightarrow> f (xs ! i) < f (xs ! j)" for i j
    using sorted_wrt_nth_less [OF 1(3), of i j] 1(4) by simp
  show ?case
  proof (cases "hi \<le> lo")
    case True
    then show ?thesis by (subst binary_search_by_key.simps) auto
  next
    case False
    then have mid: "lo \<le> ?mid" "?mid < hi" by auto
    consider (eq) "f (xs ! ?mid) = k" | (lt) "f (xs ! ?mid) < k" | (gt) "k < f (xs ! ?mid)"
      by (meson linorder_cases)
    then show ?thesis
    proof cases
      case eq
      then show ?thesis using False mid by (subst binary_search_by_key.simps) auto
    next
      case lt
      then have step: "binary_search_by_key f xs k lo hi = binary_search_by_key f xs k (Suc ?mid) hi"
        using False by (subst binary_search_by_key.simps) (auto simp: Let_def)
      have "f (xs ! i) \<noteq> k" if "i \<le> ?mid" for i
        using less [of i ?mid] that mid lt by (cases "i = ?mid") auto
      moreover from lt have "f (xs ! ?mid) \<noteq> k" by simp
      ultimately show ?thesis
        using 1(1) [OF False refl _ lt 1(3,4)] mid unfolding step
        by (cases "binary_search_by_key f xs k (Suc ?mid) hi") (simp_all, metis not_less_eq_eq)
    next
      case gt
      then have step: "binary_search_by_key f xs k lo hi = binary_search_by_key f xs k lo ?mid"
        using False by (subst binary_search_by_key.simps) (auto simp: Let_def)
      have "f (xs ! i) \<noteq> k" if "?mid \<le> i" "i < hi" for i
        using less [of ?mid i] that gt by (cases "i = ?mid") auto
      moreover have "?mid \<le> length xs" using mid 1(4) by simp
      moreover from gt have "f (xs ! ?mid) \<noteq> k" "\<not> f (xs ! ?mid) < k" by auto
      ultimately show ?thesis
        using 1(2) [OF False refl _ _ 1(3)] mid unfolding step
        by (cases "binary_search_by_key f xs k lo ?mid") (simp_all, metis not_le)
    qed
  qed
qed

subsection \<open>Hash collisions\<close>

text \<open>Two different inputs, one of each set, with the same hash.\<close>

definition collision_between :: "sha256 \<Rightarrow> bytes set \<Rightarrow> bytes set \<Rightarrow> bool" where
  "collision_between sha A B = (\<exists>u \<in> A. \<exists>v \<in> B. u \<noteq> v \<and> sha u = sha v)"

lemma collision_mono:
  "collision_between sha A B \<Longrightarrow> A \<subseteq> A' \<Longrightarrow> B \<subseteq> B' \<Longrightarrow> collision_between sha A' B'"
  by (auto simp: collision_between_def)

end
