(* ===== verification/Wire.thy ===== *)
theory Wire
  imports Prelude
begin

text \<open>
  The strict byte reader that the codec, record-chain, consensus, checkpoint and block-journal
  crates each declare with the same code and their own error type, and the contract every
  wire format of the protocol meets (\<open>wire_format\<close>): the decoder reads back what the
  encoder wrote and accepts nothing else. The contract is interpreted here for the fixed-width
  integers and identifiers, for byte strings of a given length and for counted sequences; the
  codec theories interpret it for their own messages.
\<close>

subsection \<open>The reader\<close>

record reader =
  rd_bytes :: bytes
  rd_offset :: nat

text \<open>The three error values of a crate's reader.\<close>

record 'e reader_error =
  err_overflow :: 'e
  err_end :: "nat \<Rightarrow> 'e"
  err_trailing :: "nat \<Rightarrow> 'e"

definition new_reader :: "bytes \<Rightarrow> reader" where
  "new_reader bs = \<lparr>rd_bytes = bs, rd_offset = 0\<rparr>"

definition read_exact :: "'e reader_error \<Rightarrow> nat \<Rightarrow> reader \<Rightarrow> 'e + (bytes \<times> reader)" where
  "read_exact E n r =
     and_then (ok_or (checked_add_usize (rd_offset r) n) (err_overflow E)) (\<lambda>stop.
       if stop \<le> length (rd_bytes r)
       then Inr (take n (drop (rd_offset r) (rd_bytes r)), r\<lparr>rd_offset := stop\<rparr>)
       else Inl (err_end E (rd_offset r)))"

definition read_array :: "'e reader_error \<Rightarrow> nat \<Rightarrow> reader \<Rightarrow> 'e + (bytes \<times> reader)" where
  "read_array E n r =
     and_then (read_exact E n r) (\<lambda>(bs, r').
       if length bs = n then Inr (bs, r') else Inl (err_end E (rd_offset r')))"

definition read_word :: "'e reader_error \<Rightarrow> reader \<Rightarrow> 'e + ('w::len word \<times> reader)" where
  "read_word E r =
     and_then (read_array E (LENGTH('w) div 8) r) (\<lambda>(bs, r'). Inr (from_be_bytes bs, r'))"

definition rd_remaining :: "reader \<Rightarrow> nat" where
  "rd_remaining r = length (rd_bytes r) - rd_offset r"

definition finish :: "'e reader_error \<Rightarrow> reader \<Rightarrow> 'e + unit" where
  "finish E r = (if rd_remaining r = 0 then Inr () else Inl (err_trailing E (rd_remaining r)))"

text \<open>The loop \<^verbatim>\<open>for _ in 0..n { values.push(read(reader)?) }\<close>.\<close>

fun read_many :: "(reader \<Rightarrow> 'e + ('a \<times> reader)) \<Rightarrow> nat \<Rightarrow> reader \<Rightarrow> 'e + ('a list \<times> reader)" where
  "read_many rd 0 r = Inr ([], r)"
| "read_many rd (Suc n) r =
     and_then (rd r) (\<lambda>(x, r1). and_then (read_many rd n r1) (\<lambda>(xs, r2). Inr (x # xs, r2)))"

subsection \<open>A reader in the middle of its input\<close>

text \<open>\<open>reader_at pre rest\<close> has consumed \<open>pre\<close> and has \<open>rest\<close> in front of it.\<close>

definition reader_at :: "bytes \<Rightarrow> bytes \<Rightarrow> reader" where
  "reader_at pre rest = \<lparr>rd_bytes = pre @ rest, rd_offset = length pre\<rparr>"

lemma new_reader_at [simp]: "new_reader bs = reader_at [] bs"
  by (simp add: new_reader_def reader_at_def)

lemma reader_at_simps [simp]:
  "rd_bytes (reader_at pre rest) = pre @ rest"
  "rd_offset (reader_at pre rest) = length pre"
  "rd_remaining (reader_at pre rest) = length rest"
  by (simp_all add: reader_at_def rd_remaining_def)

lemma read_exact_at:
  "read_exact E n (reader_at pre inp) =
     (if 2 ^ 64 \<le> length pre + n then Inl (err_overflow E)
      else if n \<le> length inp then Inr (take n inp, reader_at (pre @ take n inp) (drop n inp))
      else Inl (err_end E (length pre)))"
  by (auto simp: read_exact_def reader_at_def min_def)

lemma read_array_at:
  "read_array E n (reader_at pre inp) = read_exact E n (reader_at pre inp)"
  by (auto simp: read_array_def read_exact_at)

lemma finish_at [simp]:
  "finish E (reader_at pre inp) = (if inp = [] then Inr () else Inl (err_trailing E (length inp)))"
  by (simp add: finish_def)

subsection \<open>The contract of a wire format\<close>

locale wire_format =
  fixes enc :: "'a \<Rightarrow> bytes"
    and dec :: "reader \<Rightarrow> 'e + ('a \<times> reader)"
    and valid :: "'a \<Rightarrow> bool"
  assumes reads_back: "valid x \<Longrightarrow> length pre + length (enc x) + length rest < 2 ^ 64 \<Longrightarrow>
      dec (reader_at pre (enc x @ rest)) = Inr (x, reader_at (pre @ enc x) rest)"
    and accepts_only: "dec (reader_at pre inp) = Inr (x, r) \<Longrightarrow>
      valid x \<and> (\<exists>rest. inp = enc x @ rest \<and> r = reader_at (pre @ enc x) rest)"
begin

lemma reads_back_end: "valid x \<Longrightarrow> length pre + length (enc x) < 2 ^ 64 \<Longrightarrow>
    dec (reader_at pre (enc x)) = Inr (x, reader_at (pre @ enc x) [])"
  using reads_back [of x pre "[]"] by simp

text \<open>Two valid values whose encodings start the same input are equal: the format is prefix-free.\<close>

lemma prefix_free:
  assumes "valid x" "valid y" and eq: "enc x @ xs = enc y @ ys"
    and "length (enc x) + length xs < 2 ^ 64"
  shows "x = y \<and> xs = ys"
proof -
  have "length (enc y) + length ys < 2 ^ 64"
    using assms(4) arg_cong [OF eq, of length] by simp
  with reads_back [of x "[]" xs] reads_back [of y "[]" ys] assms
  have "(x, reader_at (enc x) xs) = (y, reader_at (enc y) ys)" by simp
  with eq show ?thesis by simp
qed

lemma enc_inject:
  assumes "valid x" "valid y" "enc x = enc y" "length (enc x) < 2 ^ 64"
  shows "x = y"
  using prefix_free [of x y "[]" "[]"] assms by simp

text \<open>A message made of one value and nothing after it.\<close>

lemma whole_message:
  assumes "valid x" "length (enc x) < 2 ^ 64"
  shows "and_then (dec (new_reader (enc x))) (\<lambda>(y, r). and_then (finish E r) (\<lambda>_. Inr y)) = Inr x"
  using reads_back [of x "[]" "[]"] assms by simp

lemma whole_message_only:
  assumes "and_then (dec (new_reader bs)) (\<lambda>(y, r). and_then (finish E r) (\<lambda>_. Inr y)) = Inr x"
  shows "valid x \<and> bs = enc x"
  using assms by (auto simp: and_then_eq_Inr dest!: accepts_only)

text \<open>Counted sequences of values.\<close>

lemma read_many_back:
  assumes "\<forall>x \<in> set xs. valid x"
    and "length pre + length (concat (map enc xs)) + length rest < 2 ^ 64"
  shows "read_many dec (length xs) (reader_at pre (concat (map enc xs) @ rest)) =
     Inr (xs, reader_at (pre @ concat (map enc xs)) rest)"
  using assms by (induction xs arbitrary: pre) (auto simp: reads_back)

lemma read_many_only:
  assumes "read_many dec n (reader_at pre inp) = Inr (xs, r)"
  shows "length xs = n \<and> (\<forall>x \<in> set xs. valid x) \<and>
     (\<exists>rest. inp = concat (map enc xs) @ rest \<and> r = reader_at (pre @ concat (map enc xs)) rest)"
  using assms
proof (induction n arbitrary: pre inp xs)
  case 0
  then show ?case by simp
next
  case (Suc n)
  from Suc.prems obtain y r1 ys where y: "dec (reader_at pre inp) = Inr (y, r1)"
    and ys: "read_many dec n r1 = Inr (ys, r)" and xs: "xs = y # ys"
    by (auto simp: and_then_eq_Inr)
  from accepts_only [OF y] obtain inp1 where v: "valid y" and inp: "inp = enc y @ inp1"
    and r1: "r1 = reader_at (pre @ enc y) inp1" by auto
  from Suc.IH [OF ys [unfolded r1]] v inp xs show ?case by auto
qed

end

subsection \<open>Integers, identifiers and byte strings meet the contract\<close>

lemma wire_format_word:
  assumes "8 dvd LENGTH('w::len)"
  shows "wire_format (to_be_bytes :: 'w word \<Rightarrow> bytes) (read_word E) (\<lambda>_. True)"
proof
  fix x :: "'w word" and pre rest :: bytes
  assume "length pre + length (to_be_bytes x) + length rest < 2 ^ 64"
  then show "read_word E (reader_at pre (to_be_bytes x @ rest)) =
      Inr (x, reader_at (pre @ to_be_bytes x) rest)"
    using assms by (simp add: read_word_def read_array_at read_exact_at)
next
  fix pre inp :: bytes and r and x :: "'w word"
  assume "read_word E (reader_at pre inp) = Inr (x, r)"
  then have le: "LENGTH('w) div 8 \<le> length inp"
    and x: "x = from_be_bytes (take (LENGTH('w) div 8) inp)"
    and r: "r = reader_at (pre @ take (LENGTH('w) div 8) inp) (drop (LENGTH('w) div 8) inp)"
    by (auto simp: read_word_def read_array_at read_exact_at and_then_eq_Inr split: if_splits)
  from le x assms have "to_be_bytes x = take (LENGTH('w) div 8) inp"
    by (simp add: to_from_be_bytes)
  with r show "True \<and> (\<exists>rest. inp = to_be_bytes x @ rest \<and> r = reader_at (pre @ to_be_bytes x) rest)"
    by (auto intro: exI [of _ "drop (LENGTH('w) div 8) inp"])
qed

interpretation u16: wire_format "to_be_bytes :: u16 \<Rightarrow> bytes" "read_word E" "\<lambda>_. True"
  for E :: "'e reader_error"
  by (rule wire_format_word) simp

interpretation u32: wire_format "to_be_bytes :: u32 \<Rightarrow> bytes" "read_word E" "\<lambda>_. True"
  for E :: "'e reader_error"
  by (rule wire_format_word) simp

interpretation u64: wire_format "to_be_bytes :: u64 \<Rightarrow> bytes" "read_word E" "\<lambda>_. True"
  for E :: "'e reader_error"
  by (rule wire_format_word) simp

interpretation u128: wire_format "to_be_bytes :: u128 \<Rightarrow> bytes" "read_word E" "\<lambda>_. True"
  for E :: "'e reader_error"
  by (rule wire_format_word) simp

interpretation id32: wire_format "to_be_bytes :: id32 \<Rightarrow> bytes" "read_word E" "\<lambda>_. True"
  for E :: "'e reader_error"
  by (rule wire_format_word) simp

lemma to_be_bytes_byte [simp]: "to_be_bytes (b :: byte) = [b]"
  using unat_byte_less [of b] by (simp add: to_be_bytes_def)

lemma to_be_bytes_byte_fun: "(to_be_bytes :: byte \<Rightarrow> bytes) = (\<lambda>b. [b])"
  by (rule ext) simp

interpretation u8: wire_format "\<lambda>b :: byte. [b]" "read_word E" "\<lambda>_. True"
  for E :: "'e reader_error"
  using wire_format_word [where ?'w = 8, of E] by (simp add: to_be_bytes_byte_fun)

text \<open>\<^verbatim>\<open>read_exact\<close> with a length known beforehand.\<close>

interpretation raw: wire_format "\<lambda>bs. bs" "read_exact E n" "\<lambda>bs. length bs = n"
  for E :: "'e reader_error" and n
proof
  fix pre inp bs :: bytes and r
  assume "read_exact E n (reader_at pre inp) = Inr (bs, r)"
  then have "n \<le> length inp" "bs = take n inp" "r = reader_at (pre @ take n inp) (drop n inp)"
    by (auto simp: read_exact_at split: if_splits)
  then show "length bs = n \<and> (\<exists>rest. inp = bs @ rest \<and> r = reader_at (pre @ bs) rest)"
    by (auto intro: exI [of _ "drop n inp"])
qed (auto simp: read_exact_at)

lemma read_word_back [wire_simps]:
  fixes w :: "'w::len word"
  assumes "8 dvd LENGTH('w)" and "length pre + LENGTH('w) div 8 + length rest < 2 ^ 64"
  shows "read_word E (reader_at pre (to_be_bytes w @ rest)) =
    Inr (w, reader_at (pre @ to_be_bytes w) rest)"
  using wire_format.reads_back [OF wire_format_word [OF assms(1)], of pre w rest E] assms(2) by simp

lemma read_word_back_end [wire_simps]:
  fixes w :: "'w::len word"
  assumes "8 dvd LENGTH('w)" and "length pre + LENGTH('w) div 8 < 2 ^ 64"
  shows "read_word E (reader_at pre (to_be_bytes w)) = Inr (w, reader_at (pre @ to_be_bytes w) [])"
  using read_word_back [OF assms(1), of pre "[]" E w] assms(2) by simp

lemma read_byte_back [wire_simps]:
  "length pre + 1 + length rest < 2 ^ 64 \<Longrightarrow>
    read_word E (reader_at pre ((b :: byte) # rest)) = Inr (b, reader_at (pre @ [b]) rest)"
  using u8.reads_back [of pre b rest E] by simp

lemma read_exact_back [wire_simps]:
  "length bs = n \<Longrightarrow> length pre + n + length rest < 2 ^ 64 \<Longrightarrow>
    read_exact E n (reader_at pre (bs @ rest)) = Inr (bs, reader_at (pre @ bs) rest)"
  using raw.reads_back [of bs n pre rest E] by simp

lemma read_exact_back_end [wire_simps]:
  "length bs = n \<Longrightarrow> length pre + n < 2 ^ 64 \<Longrightarrow>
    read_exact E n (reader_at pre bs) = Inr (bs, reader_at (pre @ bs) [])"
  using read_exact_back [of bs n pre "[]" E] by simp

lemma read_array_back [wire_simps]:
  "length bs = n \<Longrightarrow> length pre + n + length rest < 2 ^ 64 \<Longrightarrow>
    read_array E n (reader_at pre (bs @ rest)) = Inr (bs, reader_at (pre @ bs) rest)"
  by (simp add: read_array_at read_exact_back)

lemma read_word_only [wire_dests]:
  fixes w :: "'w::len word"
  assumes "read_word E (reader_at pre inp) = Inr (w, r)" and "8 dvd LENGTH('w)"
  shows "\<exists>rest. inp = to_be_bytes w @ rest \<and> r = reader_at (pre @ to_be_bytes w) rest"
  using wire_format.accepts_only [OF wire_format_word [OF assms(2)] assms(1)] by simp

lemma read_exact_only [wire_dests]:
  assumes "read_exact E n (reader_at pre inp) = Inr (bs, r)"
  shows "length bs = n \<and> (\<exists>rest. inp = bs @ rest \<and> r = reader_at (pre @ bs) rest)"
  using raw.accepts_only [OF assms] .

lemma read_array_only [wire_dests]:
  assumes "read_array E n (reader_at pre inp) = Inr (bs, r)"
  shows "length bs = n \<and> (\<exists>rest. inp = bs @ rest \<and> r = reader_at (pre @ bs) rest)"
  using read_exact_only [of E n pre inp bs r] assms by (simp add: read_array_at)

lemma finish_only: "finish E (reader_at pre inp) = Inr u \<Longrightarrow> inp = []"
  by (simp split: if_splits)

end
