(* ===== verification/Noxis_Types.thy ===== *)
theory Noxis_Types
  imports Wire
begin

text \<open>
  The domain primitives of \<^verbatim>\<open>crates/noxis-types\<close>: the fixed 32-byte identifiers, amounts, asset
  definitions and the chain anchor. \<^verbatim>\<open>Amount\<close> is a \<open>u128\<close> whose only constructor refuses
  zero; a ticker is the byte string of its Rust \<^verbatim>\<open>String\<close>.
\<close>

type_synonym asset_id = id32
type_synonym commitment = id32
type_synonym nullifier = id32
type_synonym transaction_id = id32
type_synonym transaction_intent_id = id32
type_synonym state_id = id32
type_synonym genesis_id = id32
type_synonym proof_verifier_id = id32
type_synonym mint_policy_id = id32
type_synonym validation_context_id = id32
type_synonym consensus_config_id = id32
type_synonym validator_set_id = id32
type_synonym validator_id = id32
type_synonym block_id = id32
type_synonym finality_certificate_id = id32
type_synonym app_hash = id32

record chain_anchor =
  ca_genesis_id :: genesis_id
  ca_validation_context_id :: validation_context_id
  ca_proof_verifier_id :: proof_verifier_id
  ca_mint_policy_id :: mint_policy_id
  ca_genesis_state_id :: state_id

type_synonym amount = u128

definition Amount_new :: "u128 \<Rightarrow> amount option" where
  "Amount_new units = (if units = 0 then None else Some units)"

definition Amount_checked_add :: "amount \<Rightarrow> amount \<Rightarrow> amount option" where
  "Amount_checked_add a b = checked_add a b"

datatype asset_kind = NativeBacked | Synthetic

datatype asset_error = InvalidTicker

record asset_definition =
  ad_id :: asset_id
  ad_ticker :: bytes
  ad_kind :: asset_kind

definition is_ascii_uppercase :: "byte \<Rightarrow> bool" where
  "is_ascii_uppercase b = (65 \<le> b \<and> b \<le> 90)"

definition valid_ticker :: "bytes \<Rightarrow> bool" where
  "valid_ticker t = (t \<noteq> [] \<and> length t \<le> 16 \<and> (\<forall>b \<in> set t. is_ascii_uppercase b))"

definition AssetDefinition_new ::
  "asset_id \<Rightarrow> bytes \<Rightarrow> asset_kind \<Rightarrow> asset_error + asset_definition" where
  "AssetDefinition_new i ticker kind =
     (if ticker = [] \<or> length ticker > 16 \<or> \<not> (\<forall>b \<in> set ticker. is_ascii_uppercase b)
      then Inl InvalidTicker
      else Inr \<lparr>ad_id = i, ad_ticker = ticker, ad_kind = kind\<rparr>)"

lemma AssetDefinition_new_Inr_iff:
  "AssetDefinition_new i t k = Inr a \<longleftrightarrow>
     valid_ticker t \<and> a = \<lparr>ad_id = i, ad_ticker = t, ad_kind = k\<rparr>"
  by (auto simp: AssetDefinition_new_def valid_ticker_def)

lemma AssetDefinition_new_self:
  "AssetDefinition_new (ad_id a) (ad_ticker a) (ad_kind a) =
     (if valid_ticker (ad_ticker a) then Inr a else Inl InvalidTicker)"
  by (auto simp: AssetDefinition_new_def valid_ticker_def)

lemma Amount_new_Some_iff: "Amount_new u = Some a \<longleftrightarrow> a = u \<and> u \<noteq> 0"
  by (auto simp: Amount_new_def)

lemma Amount_checked_add_nonzero:
  "Amount_checked_add a b = Some c \<Longrightarrow> a \<noteq> 0 \<Longrightarrow> c \<noteq> 0"
  by (auto simp: Amount_checked_add_def checked_add_Some_iff unat_eq_zero)

end
