(* ===== verification/Crypto.thy ===== *)
theory Crypto
  imports Noxis_Types
begin

text \<open>
  The cryptographic contracts of \<^verbatim>\<open>crates/noxis-crypto\<close>: algorithm labels and the role check of a
  suite, the canonical 70-byte validation context with its hash identity, the fail-closed
  settlement authorization, and the statement and interface of a transfer-proof verifier. A
  verifier is a trait object in the sources; here it is a record of its two methods.
\<close>

subsection \<open>Suites\<close>

datatype algorithm_id =
  Sha256 | Sha3_256 | X25519 | MlKem768 | Ed25519 | MlDsa65 | PluggableProofSystem

record crypto_suite =
  cs_version :: u16
  cs_hash :: algorithm_id
  cs_transport_kem :: algorithm_id
  cs_identity_signature :: algorithm_id
  cs_proof_system :: algorithm_id

datatype crypto_suite_field = HashField | TransportKemField | IdentitySignatureField | ProofSystemField

datatype crypto_suite_error =
  ZeroVersion
| AlgorithmRoleMismatch crypto_suite_field algorithm_id

definition RESEARCH_V1 :: crypto_suite where
  "RESEARCH_V1 = \<lparr>cs_version = 1, cs_hash = Sha256, cs_transport_kem = MlKem768,
     cs_identity_signature = MlDsa65, cs_proof_system = PluggableProofSystem\<rparr>"

definition suite_validate :: "crypto_suite \<Rightarrow> crypto_suite_error + unit" where
  "suite_validate s =
     (if cs_version s = 0 then Inl ZeroVersion
      else if cs_hash s \<notin> {Sha256, Sha3_256}
        then Inl (AlgorithmRoleMismatch HashField (cs_hash s))
      else if cs_transport_kem s \<notin> {X25519, MlKem768}
        then Inl (AlgorithmRoleMismatch TransportKemField (cs_transport_kem s))
      else if cs_identity_signature s \<notin> {Ed25519, MlDsa65}
        then Inl (AlgorithmRoleMismatch IdentitySignatureField (cs_identity_signature s))
      else if cs_proof_system s \<notin> {PluggableProofSystem}
        then Inl (AlgorithmRoleMismatch ProofSystemField (cs_proof_system s))
      else Inr ())"

subsection \<open>Validation contexts\<close>

record validation_context =
  vc_crypto_suite :: crypto_suite
  vc_proof_verifier_id :: proof_verifier_id
  vc_mint_policy_id :: mint_policy_id

datatype validation_context_error =
  VcInvalidLength nat nat
| VcUnknownAlgorithm byte
| VcInvalidCryptoSuite crypto_suite_error

datatype service_crypto_eligibility_error =
  UnapprovedValidationContext
| AuthorizationContextMismatch

record settlement_service_authorization =
  ssa_validation_context_id :: validation_context_id

fun protocol_tag :: "algorithm_id \<Rightarrow> byte" where
  "protocol_tag Sha256 = 1"
| "protocol_tag Sha3_256 = 2"
| "protocol_tag X25519 = 3"
| "protocol_tag MlKem768 = 4"
| "protocol_tag Ed25519 = 5"
| "protocol_tag MlDsa65 = 6"
| "protocol_tag PluggableProofSystem = 7"

definition from_protocol_tag :: "byte \<Rightarrow> validation_context_error + algorithm_id" where
  "from_protocol_tag tag =
     (if tag = 1 then Inr Sha256
      else if tag = 2 then Inr Sha3_256
      else if tag = 3 then Inr X25519
      else if tag = 4 then Inr MlKem768
      else if tag = 5 then Inr Ed25519
      else if tag = 6 then Inr MlDsa65
      else if tag = 7 then Inr PluggableProofSystem
      else Inl (VcUnknownAlgorithm tag))"

definition context_validate :: "validation_context \<Rightarrow> validation_context_error + unit" where
  "context_validate c = map_err VcInvalidCryptoSuite (suite_validate (vc_crypto_suite c))"

definition VC_ENCODED_LENGTH :: nat where
  "VC_ENCODED_LENGTH = 2 + 4 + 64"

definition context_encode :: "validation_context \<Rightarrow> bytes" where
  "context_encode c =
     to_be_bytes (cs_version (vc_crypto_suite c)) @
     [protocol_tag (cs_hash (vc_crypto_suite c)),
      protocol_tag (cs_transport_kem (vc_crypto_suite c)),
      protocol_tag (cs_identity_signature (vc_crypto_suite c)),
      protocol_tag (cs_proof_system (vc_crypto_suite c))] @
     to_be_bytes (vc_proof_verifier_id c) @
     to_be_bytes (vc_mint_policy_id c)"

definition context_id :: "sha256 \<Rightarrow> validation_context \<Rightarrow> validation_context_id" where
  "context_id sha c = sha (ascii ''NOXIS/VALIDATION-CONTEXT/V1'' @ [0] @ context_encode c)"

definition context_decode :: "bytes \<Rightarrow> validation_context_error + validation_context" where
  "context_decode bs =
     (if length bs \<noteq> VC_ENCODED_LENGTH then Inl (VcInvalidLength (length bs) VC_ENCODED_LENGTH)
      else
        and_then (from_protocol_tag (bs ! 2)) (\<lambda>h.
        and_then (from_protocol_tag (bs ! 3)) (\<lambda>k.
        and_then (from_protocol_tag (bs ! 4)) (\<lambda>i.
        and_then (from_protocol_tag (bs ! 5)) (\<lambda>p.
        let c = \<lparr>vc_crypto_suite =
                   \<lparr>cs_version = from_be_bytes [bs ! 0, bs ! 1], cs_hash = h,
                    cs_transport_kem = k, cs_identity_signature = i, cs_proof_system = p\<rparr>,
                 vc_proof_verifier_id = from_be_bytes (take 32 (drop 6 bs)),
                 vc_mint_policy_id = from_be_bytes (take 32 (drop 38 bs))\<rparr>
        in and_then (context_validate c) (\<lambda>_. Inr c))))))"

definition authorize_settlement_service ::
  "validation_context \<Rightarrow> service_crypto_eligibility_error + settlement_service_authorization" where
  "authorize_settlement_service c = Inl UnapprovedValidationContext"

definition authorize_research_testing ::
  "sha256 \<Rightarrow> validation_context \<Rightarrow>
     service_crypto_eligibility_error + settlement_service_authorization" where
  "authorize_research_testing sha c =
     (if vc_crypto_suite c \<noteq> RESEARCH_V1 then Inl UnapprovedValidationContext
      else Inr \<lparr>ssa_validation_context_id = context_id sha c\<rparr>)"

definition ensure_matches ::
  "sha256 \<Rightarrow> settlement_service_authorization \<Rightarrow> validation_context \<Rightarrow>
     service_crypto_eligibility_error + unit" where
  "ensure_matches sha a c =
     (if ssa_validation_context_id a \<noteq> context_id sha c
      then Inl AuthorizationContextMismatch else Inr ())"

subsection \<open>Transfer proofs\<close>

record zk_proof =
  zp_suite_version :: u16
  zp_bytes :: bytes

record state_anchor =
  sa_root :: id32
  sa_tree_depth :: byte

record transfer_statement =
  ts_genesis_id :: genesis_id
  ts_validation_context_id :: validation_context_id
  ts_transaction_intent_id :: transaction_intent_id
  ts_state_id :: state_id
  ts_asset_id :: asset_id
  ts_input_nullifiers :: "nullifier list"
  ts_output_commitments :: "commitment list"
  ts_state_anchor :: state_anchor

datatype verification_error = UnsupportedSuite | InvalidProof

record proof_verifier =
  pv_id :: proof_verifier_id
  pv_verify_transfer :: "transfer_statement \<Rightarrow> zk_proof \<Rightarrow> verification_error + unit"

subsection \<open>Facts\<close>

lemma suite_validate_Inr_iff:
  "suite_validate s = Inr () \<longleftrightarrow> cs_version s \<noteq> 0 \<and>
     cs_hash s \<in> {Sha256, Sha3_256} \<and> cs_transport_kem s \<in> {X25519, MlKem768} \<and>
     cs_identity_signature s \<in> {Ed25519, MlDsa65} \<and> cs_proof_system s = PluggableProofSystem"
  by (auto simp: suite_validate_def)

lemma from_protocol_tag_tag [simp]: "from_protocol_tag (protocol_tag a) = Inr a"
  by (cases a) (simp_all add: from_protocol_tag_def)

lemma from_protocol_tag_only: "from_protocol_tag t = Inr a \<Longrightarrow> t = protocol_tag a"
  by (auto simp: from_protocol_tag_def split: if_splits)

lemma length_context_encode [simp]: "length (context_encode c) = VC_ENCODED_LENGTH"
  by (simp add: context_encode_def VC_ENCODED_LENGTH_def)

lemma to_be_bytes_u16_nth:
  "[to_be_bytes (w :: u16) ! 0, to_be_bytes w ! Suc 0] = to_be_bytes w"
proof -
  have "length (to_be_bytes w) = 2" by simp
  then obtain a b where "to_be_bytes w = [a, b]"
    by (metis (no_types, lifting) One_nat_def Suc_1 length_0_conv length_Suc_conv)
  then show ?thesis by simp
qed

lemma crypto_suite_eta [simp]:
  "\<lparr>cs_version = cs_version s, cs_hash = cs_hash s, cs_transport_kem = cs_transport_kem s,
    cs_identity_signature = cs_identity_signature s, cs_proof_system = cs_proof_system s\<rparr> = s"
  by (cases s) simp

lemma validation_context_eta [simp]:
  "\<lparr>vc_crypto_suite = vc_crypto_suite c, vc_proof_verifier_id = vc_proof_verifier_id c,
    vc_mint_policy_id = vc_mint_policy_id c\<rparr> = c"
  by (cases c) simp

lemma context_decode_encode:
  "context_decode (context_encode c) = and_then (context_validate c) (\<lambda>_. Inr c)"
  using to_be_bytes_u16_nth [of "cs_version (vc_crypto_suite c)"]
  by (simp add: context_decode_def Let_def context_encode_def nth_append VC_ENCODED_LENGTH_def)

lemma split_context_bytes:
  assumes "length bs = VC_ENCODED_LENGTH"
  shows "bs = [bs ! 0, bs ! 1] @ [bs ! 2, bs ! 3, bs ! 4, bs ! 5] @ take 32 (drop 6 bs) @
    take 32 (drop 38 bs)"
proof -
  have "bs = take 6 bs @ take 32 (drop 6 bs) @ drop 32 (drop 6 bs)"
    by (metis append_take_drop_id)
  moreover have "drop 32 (drop 6 bs) = take 32 (drop 38 bs)"
    using assms by (simp add: VC_ENCODED_LENGTH_def)
  moreover have "take 6 bs = [bs ! 0, bs ! 1, bs ! 2, bs ! 3, bs ! 4, bs ! 5]"
    using assms by (simp add: VC_ENCODED_LENGTH_def numeral_eq_Suc take_Suc_conv_app_nth)
  ultimately show ?thesis by simp
qed

lemma context_decode_only:
  assumes "context_decode bs = Inr c"
  shows "bs = context_encode c" and "context_validate c = Inr ()"
proof -
  have len: "length bs = VC_ENCODED_LENGTH"
    using assms by (auto simp: context_decode_def split: if_splits)
  from assms len obtain h k i p where tags:
      "bs ! 2 = protocol_tag h" "bs ! 3 = protocol_tag k" "bs ! 4 = protocol_tag i"
      "bs ! 5 = protocol_tag p"
    and c: "c = \<lparr>vc_crypto_suite =
                   \<lparr>cs_version = from_be_bytes [bs ! 0, bs ! 1], cs_hash = h,
                    cs_transport_kem = k, cs_identity_signature = i, cs_proof_system = p\<rparr>,
                 vc_proof_verifier_id = from_be_bytes (take 32 (drop 6 bs)),
                 vc_mint_policy_id = from_be_bytes (take 32 (drop 38 bs))\<rparr>"
    and ok: "context_validate c = Inr ()"
    by (auto simp: context_decode_def and_then_eq_Inr Let_def dest!: from_protocol_tag_only)
  from len have "length (take 32 (drop 6 bs)) = 32" "length (take 32 (drop 38 bs)) = 32"
    by (simp_all add: VC_ENCODED_LENGTH_def)
  then show "bs = context_encode c"
    using split_context_bytes [OF len] tags
    by (simp add: c context_encode_def to_from_be_bytes)
  show "context_validate c = Inr ()" by (rule ok)
qed

lemma context_encode_inject: "context_encode c = context_encode d \<longleftrightarrow> c = d"
proof
  have tag_inj: "protocol_tag a = protocol_tag b \<Longrightarrow> a = b" for a b
    by (metis from_protocol_tag_tag sum.inject(2))
  assume "context_encode c = context_encode d"
  then show "c = d"
    by (cases c; cases d; cases "vc_crypto_suite c"; cases "vc_crypto_suite d")
      (auto simp: context_encode_def dest: tag_inj)
qed simp

end
