(* ===== verification/Merkle.thy ===== *)
theory Merkle
  imports Noxis_Types
begin

text \<open>
  The fixed-depth commitment tree of \<^verbatim>\<open>crates/noxis-merkle\<close>. The operations work level by level
  as the code does, padding an odd level with the cached hash of an empty subtree. They are
  compared with \<open>node_at\<close>, the complete binary tree of \<open>2 ^ depth\<close> leaves in which every unused
  leaf is empty: the padded computation gives its root, a produced proof always verifies, and a
  proof that verifies against a wrong leaf exhibits two different inputs with the same SHA-256
  digest.
\<close>

subsection \<open>Data\<close>

type_synonym hash = id32

record merkle_root =
  mr_digest :: hash
  mr_depth :: byte

record inclusion_proof =
  ip_leaf_index :: u32
  ip_siblings :: "hash list"

record merkle_tree =
  mt_depth :: byte
  mt_commitments :: "commitment list"

datatype merkle_error =
  MeInvalidDepth byte byte byte
| TreeFull nat
| LeafIndexOutOfRange u32 nat
| ProofDepthMismatch byte byte
| IndexOverflow

definition MIN_DEPTH :: byte where "MIN_DEPTH = 1"
definition MAX_DEPTH :: byte where "MAX_DEPTH = 32"
definition MAX_COMMITMENTS :: nat where "MAX_COMMITMENTS = 1048576"

subsection \<open>Hashing\<close>

definition LEAF_DOMAIN :: bytes where "LEAF_DOMAIN = ascii ''NOXIS/MERKLE/V1/LEAF''"
definition EMPTY_LEAF_DOMAIN :: bytes where "EMPTY_LEAF_DOMAIN = ascii ''NOXIS/MERKLE/V1/EMPTY_LEAF''"
definition NODE_DOMAIN :: bytes where "NODE_DOMAIN = ascii ''NOXIS/MERKLE/V1/NODE''"

definition leaf_input :: "commitment \<Rightarrow> bytes" where
  "leaf_input c = LEAF_DOMAIN @ to_be_bytes c"

definition node_input :: "hash \<Rightarrow> hash \<Rightarrow> bytes" where
  "node_input l r = NODE_DOMAIN @ to_be_bytes l @ to_be_bytes r"

definition hash_leaf :: "sha256 \<Rightarrow> commitment \<Rightarrow> hash" where
  "hash_leaf sha c = sha (leaf_input c)"

definition hash_empty_leaf :: "sha256 \<Rightarrow> hash" where
  "hash_empty_leaf sha = sha EMPTY_LEAF_DOMAIN"

definition hash_node :: "sha256 \<Rightarrow> hash \<Rightarrow> hash \<Rightarrow> hash" where
  "hash_node sha l r = sha (node_input l r)"

fun parent_level :: "sha256 \<Rightarrow> hash list \<Rightarrow> hash list" where
  "parent_level sha (l # r # rest) = hash_node sha l r # parent_level sha rest"
| "parent_level sha _ = []"

definition empty_hashes :: "sha256 \<Rightarrow> byte \<Rightarrow> hash list" where
  "empty_hashes sha depth =
     foldl (\<lambda>hashes height. hashes @ [hash_node sha (hashes ! (height - 1)) (hashes ! (height - 1))])
       [hash_empty_leaf sha] [1..<Suc (unat depth)]"

definition pad_level :: "hash list \<Rightarrow> hash list \<Rightarrow> nat \<Rightarrow> hash list" where
  "pad_level empties level height =
     (if length level mod 2 = 1 then level @ [empties ! height] else level)"

definition root_from_commitments :: "sha256 \<Rightarrow> byte \<Rightarrow> commitment list \<Rightarrow> hash" where
  "root_from_commitments sha depth cs =
     (let empties = empty_hashes sha depth in
      if cs = [] then empties ! unat depth
      else foldl (\<lambda>level height. parent_level sha (pad_level empties level height))
             (map (hash_leaf sha) cs) [0..<unat depth] ! 0)"

subsection \<open>Operations\<close>

definition validate_depth :: "byte \<Rightarrow> merkle_error + unit" where
  "validate_depth depth =
     (if \<not> (MIN_DEPTH \<le> depth \<and> depth \<le> MAX_DEPTH)
      then Inl (MeInvalidDepth depth MIN_DEPTH MAX_DEPTH) else Inr ())"

definition maximum_leaf_count :: "byte \<Rightarrow> nat" where
  "maximum_leaf_count depth =
     (let structural_capacity = push_bit (unat depth) (1 :: u64)
      in unat (min structural_capacity (of_nat MAX_COMMITMENTS)))"

definition MerkleTree_new :: "byte \<Rightarrow> merkle_error + merkle_tree" where
  "MerkleTree_new depth =
     and_then (validate_depth depth) (\<lambda>_. Inr \<lparr>mt_depth = depth, mt_commitments = []\<rparr>)"

definition mt_capacity :: "merkle_tree \<Rightarrow> nat" where
  "mt_capacity t = maximum_leaf_count (mt_depth t)"

definition mt_append :: "merkle_tree \<Rightarrow> commitment \<Rightarrow> merkle_error + u32 \<times> merkle_tree" where
  "mt_append t c =
     (if length (mt_commitments t) \<ge> mt_capacity t then Inl (TreeFull (mt_capacity t))
      else if length (mt_commitments t) \<ge> 2 ^ 32 then Inl IndexOverflow
      else Inr (of_nat (length (mt_commitments t)),
                t\<lparr>mt_commitments := mt_commitments t @ [c]\<rparr>))"

definition mt_root :: "sha256 \<Rightarrow> merkle_tree \<Rightarrow> merkle_root" where
  "mt_root sha t =
     \<lparr>mr_digest = root_from_commitments sha (mt_depth t) (mt_commitments t), mr_depth = mt_depth t\<rparr>"

definition sibling_index :: "nat \<Rightarrow> nat" where
  "sibling_index i = (if i mod 2 = 0 then i + 1 else i - 1)"

definition prove_step ::
  "sha256 \<Rightarrow> hash list \<Rightarrow> hash list \<times> nat \<times> hash list \<Rightarrow> nat \<Rightarrow> hash list \<times> nat \<times> hash list" where
  "prove_step sha empties st height =
     (case st of (level, current_index, siblings) \<Rightarrow>
        let level = pad_level empties level height
        in (parent_level sha level, current_index div 2,
            siblings @ [level ! sibling_index current_index]))"

definition mt_prove :: "sha256 \<Rightarrow> merkle_tree \<Rightarrow> u32 \<Rightarrow> merkle_error + inclusion_proof" where
  "mt_prove sha t leaf_index =
     (let index = unat leaf_index in
      if index \<ge> length (mt_commitments t)
      then Inl (LeafIndexOutOfRange leaf_index (length (mt_commitments t)))
      else
        let empties = empty_hashes sha (mt_depth t);
            level = map (hash_leaf sha) (mt_commitments t);
            (_, _, siblings) =
              foldl (prove_step sha empties) (level, index, []) [0..<unat (mt_depth t)]
        in Inr \<lparr>ip_leaf_index = leaf_index, ip_siblings = siblings\<rparr>)"

definition ip_depth :: "inclusion_proof \<Rightarrow> byte" where
  "ip_depth p = of_nat (length (ip_siblings p))"

definition verify_step :: "sha256 \<Rightarrow> hash \<times> u32 \<Rightarrow> hash \<Rightarrow> hash \<times> u32" where
  "verify_step sha st sibling =
     (case st of (current, index) \<Rightarrow>
        (if and index 1 = 0 then hash_node sha current sibling else hash_node sha sibling current,
         drop_bit 1 index))"

definition mt_verify ::
  "sha256 \<Rightarrow> merkle_root \<Rightarrow> commitment \<Rightarrow> inclusion_proof \<Rightarrow> merkle_error + bool" where
  "mt_verify sha root c p =
     and_then (validate_depth (ip_depth p)) (\<lambda>_.
     if ip_depth p \<noteq> mr_depth root then Inl (ProofDepthMismatch (mr_depth root) (ip_depth p))
     else
       let (current, _) = foldl (verify_step sha) (hash_leaf sha c, ip_leaf_index p) (ip_siblings p)
       in Inr (current = mr_digest root))"

definition tree_wf :: "merkle_tree \<Rightarrow> bool" where
  "tree_wf t = (validate_depth (mt_depth t) = Inr () \<and>
     length (mt_commitments t) \<le> mt_capacity t)"

subsection \<open>The complete tree\<close>

fun node_at :: "sha256 \<Rightarrow> commitment list \<Rightarrow> nat \<Rightarrow> nat \<Rightarrow> hash" where
  "node_at sha cs 0 i = (if i < length cs then hash_leaf sha (cs ! i) else hash_empty_leaf sha)"
| "node_at sha cs (Suc h) i =
     hash_node sha (node_at sha cs h (2 * i)) (node_at sha cs h (2 * i + 1))"

fun empty_node :: "sha256 \<Rightarrow> nat \<Rightarrow> hash" where
  "empty_node sha 0 = hash_empty_leaf sha"
| "empty_node sha (Suc h) = hash_node sha (empty_node sha h) (empty_node sha h)"

fun level_width :: "nat \<Rightarrow> nat \<Rightarrow> nat" where
  "level_width n 0 = n"
| "level_width n (Suc h) = (level_width n h + 1) div 2"

definition level_of :: "sha256 \<Rightarrow> commitment list \<Rightarrow> nat \<Rightarrow> hash list" where
  "level_of sha cs h = map (node_at sha cs h) [0..<level_width (length cs) h]"

lemma node_at_unused: "level_width (length cs) h \<le> i \<Longrightarrow> node_at sha cs h i = empty_node sha h"
  by (induction h arbitrary: i) auto

lemma level_width_bound:
  "0 < n \<Longrightarrow> n \<le> 2 ^ (h + k) \<Longrightarrow> 0 < level_width n h \<and> level_width n h \<le> 2 ^ k"
proof (induction h arbitrary: k)
  case (Suc h)
  then have "0 < level_width n h \<and> level_width n h \<le> 2 * 2 ^ k"
    using Suc.IH [of "Suc k"] by simp
  then show ?case by (simp only: level_width.simps) linarith
qed simp

lemma level_width_root: "0 < n \<Longrightarrow> n \<le> 2 ^ d \<Longrightarrow> level_width n d = 1"
  using level_width_bound [of n d 0] by simp

lemma empty_hashes_eq: "empty_hashes sha depth = map (empty_node sha) [0..<Suc (unat depth)]"
proof -
  have "foldl (\<lambda>hs h. hs @ [hash_node sha (hs ! (h - 1)) (hs ! (h - 1))]) [hash_empty_leaf sha]
      [1..<Suc d] = map (empty_node sha) [0..<Suc d]" for d
  proof (induction d)
    case (Suc d)
    have "map (empty_node sha) [0..<Suc d] ! d = empty_node sha d"
      by (subst nth_map) (auto simp: nth_append)
    with Suc show ?case by (simp add: nth_append)
  qed simp
  then show ?thesis by (simp add: empty_hashes_def)
qed

lemma parent_level_map:
  "parent_level sha (map f [0..<2 * m]) = map (\<lambda>i. hash_node sha (f (2 * i)) (f (2 * i + 1))) [0..<m]"
proof (induction m arbitrary: f)
  case (Suc m)
  have "map f [0..<2 * Suc m] = f 0 # f 1 # map (\<lambda>i. f (i + 2)) [0..<2 * m]"
    by (simp add: upt_conv_Cons map_Suc_upt [symmetric] comp_def del: upt_Suc)
  then show ?case
    using Suc [of "\<lambda>i. f (i + 2)"]
    by (simp add: upt_conv_Cons map_Suc_upt [symmetric] comp_def del: upt_Suc)
qed simp

lemma pad_level_of:
  assumes "h \<le> unat depth"
  shows "pad_level (empty_hashes sha depth) (level_of sha cs h) h =
    map (node_at sha cs h) [0..<2 * level_width (length cs) (Suc h)]"
proof -
  let ?w = "level_width (length cs) h"
  have "empty_hashes sha depth ! h = node_at sha cs h ?w"
    using assms by (simp add: empty_hashes_eq node_at_unused del: upt_Suc)
  moreover have "2 * level_width (length cs) (Suc h) = (if ?w mod 2 = 1 then Suc ?w else ?w)"
    by (simp only: level_width.simps) presburger
  ultimately show ?thesis
    by (simp add: pad_level_def level_of_def del: level_width.simps)
qed

lemma parent_level_of:
  "h \<le> unat depth \<Longrightarrow>
     parent_level sha (pad_level (empty_hashes sha depth) (level_of sha cs h) h) =
     level_of sha cs (Suc h)"
  by (simp only: pad_level_of parent_level_map) (simp add: level_of_def)

lemma level_of_0: "level_of sha cs 0 = map (hash_leaf sha) cs"
  by (auto simp: level_of_def intro!: nth_equalityI)

text \<open>The computed root is the root of the complete tree.\<close>

lemma root_loop:
  "d \<le> unat depth \<Longrightarrow>
     foldl (\<lambda>level h. parent_level sha (pad_level (empty_hashes sha depth) level h))
       (map (hash_leaf sha) cs) [0..<d] = level_of sha cs d"
  by (induction d) (simp_all add: level_of_0 parent_level_of)

lemma root_is_node_at:
  assumes "length cs \<le> 2 ^ unat depth"
  shows "root_from_commitments sha depth cs = node_at sha cs (unat depth) 0"
proof (cases "cs = []")
  case True
  have w: "level_width 0 h = 0" for h by (induction h) simp_all
  with True show ?thesis
    by (simp add: root_from_commitments_def empty_hashes_eq node_at_unused nth_append)
next
  case False
  with assms have "level_width (length cs) (unat depth) = 1"
    by (simp add: level_width_root)
  then have "level_of sha cs (unat depth) ! 0 = node_at sha cs (unat depth) 0"
    by (simp add: level_of_def)
  with False root_loop [of "unat depth" depth sha cs] show ?thesis
    by (simp add: root_from_commitments_def Let_def)
qed

text \<open>Proving reads the siblings off the complete tree, and every index it reads is in range.\<close>

lemma sibling_in_range: "i < w \<Longrightarrow> sibling_index i < 2 * ((w + 1) div 2)"
  by (simp add: sibling_index_def) presburger

lemma div_pow_Suc: "(i :: nat) div 2 ^ Suc h = i div 2 ^ h div 2"
  by (metis div_mult2_eq power_Suc2)

lemma level_width_index: "i < n \<Longrightarrow> i div 2 ^ h < level_width n h"
proof (induction h)
  case (Suc h)
  then show ?case by (simp only: div_pow_Suc level_width.simps) simp
qed simp

lemma prove_loop:
  assumes "i < length cs" and "d \<le> unat depth"
  shows "foldl (prove_step sha (empty_hashes sha depth)) (map (hash_leaf sha) cs, i, []) [0..<d] =
    (level_of sha cs d, i div 2 ^ d,
     map (\<lambda>h. node_at sha cs h (sibling_index (i div 2 ^ h))) [0..<d])"
  using assms(2)
proof (induction d)
  case (Suc d)
  have "sibling_index (i div 2 ^ d) < 2 * level_width (length cs) (Suc d)"
    using sibling_in_range [OF level_width_index [OF assms(1)]] by simp
  then show ?case
    using Suc div_pow_Suc [of i d] by (simp add: prove_step_def Let_def parent_level_of) (simp add: pad_level_of)
qed (simp add: level_of_0)

lemma mt_prove_eq:
  "mt_prove sha t i =
     (if unat i < length (mt_commitments t)
      then Inr \<lparr>ip_leaf_index = i, ip_siblings =
             map (\<lambda>h. node_at sha (mt_commitments t) h (sibling_index (unat i div 2 ^ h)))
               [0..<unat (mt_depth t)]\<rparr>
      else Inl (LeafIndexOutOfRange i (length (mt_commitments t))))"
  by (simp add: mt_prove_def Let_def prove_loop)

text \<open>Verification climbs the complete tree.\<close>

fun climb :: "sha256 \<Rightarrow> hash \<Rightarrow> nat \<Rightarrow> hash list \<Rightarrow> hash" where
  "climb sha cur i [] = cur"
| "climb sha cur i (s # ss) =
     climb sha (if even i then hash_node sha cur s else hash_node sha s cur) (i div 2) ss"

lemma unat_drop_bit_1: "unat (drop_bit (Suc 0) (w :: 'a::len word)) = unat w div 2"
  unfolding unsigned_drop_bit_eq
  by (simp add: drop_bit_eq_div take_bit_nat_eq_self [OF unsigned_less])

lemma and_one_even: "and (w :: 'a::len word) 1 = 0 \<longleftrightarrow> even (unat w)"
  using bit_unsigned_iff [of w 0, where ?'a = nat]
  by (simp add: and_one_eq even_iff_mod_2_eq_zero [symmetric] bit_0)

lemma verify_loop: "fst (foldl (verify_step sha) (cur, i) ss) = climb sha cur (unat i) ss"
  by (induction ss arbitrary: cur i) (auto simp: verify_step_def and_one_even unat_drop_bit_1)

lemma mt_verify_eq:
  "mt_verify sha root c p =
     (if validate_depth (ip_depth p) \<noteq> Inr ()
      then Inl (MeInvalidDepth (ip_depth p) MIN_DEPTH MAX_DEPTH)
      else if ip_depth p \<noteq> mr_depth root
      then Inl (ProofDepthMismatch (mr_depth root) (ip_depth p))
      else Inr (climb sha (hash_leaf sha c) (unat (ip_leaf_index p)) (ip_siblings p) =
                mr_digest root))"
  using verify_loop [of sha "hash_leaf sha c" "ip_leaf_index p" "ip_siblings p"]
  by (auto simp: mt_verify_def validate_depth_def split: prod.splits)

lemma climb_siblings:
  "climb sha (node_at sha cs h (i div 2 ^ h)) (i div 2 ^ h)
     (map (\<lambda>h. node_at sha cs h (sibling_index (i div 2 ^ h))) [h..<h + k]) =
   node_at sha cs (h + k) (i div 2 ^ (h + k))"
proof (induction k arbitrary: h)
  case (Suc k)
  let ?j = "i div 2 ^ h"
  have "(if even ?j then hash_node sha (node_at sha cs h ?j) (node_at sha cs h (sibling_index ?j))
      else hash_node sha (node_at sha cs h (sibling_index ?j)) (node_at sha cs h ?j)) =
    node_at sha cs (Suc h) (?j div 2)"
    by (auto simp: sibling_index_def even_iff_mod_2_eq_zero elim!: evenE oddE)
  with Suc.IH [of "Suc h"] show ?case
    by (simp add: upt_conv_Cons div_pow_Suc del: upt_Suc power_Suc)
qed simp

text \<open>A path that reaches the root from a wrong leaf contains a SHA-256 collision.\<close>

fun path_inputs :: "sha256 \<Rightarrow> hash \<Rightarrow> nat \<Rightarrow> hash list \<Rightarrow> bytes list" where
  "path_inputs sha cur i [] = []"
| "path_inputs sha cur i (s # ss) =
     (let inp = (if even i then node_input cur s else node_input s cur)
      in inp # path_inputs sha (sha inp) (i div 2) ss)"

definition proof_inputs :: "sha256 \<Rightarrow> commitment \<Rightarrow> inclusion_proof \<Rightarrow> bytes set" where
  "proof_inputs sha c p = insert (leaf_input c)
     (set (path_inputs sha (hash_leaf sha c) (unat (ip_leaf_index p)) (ip_siblings p)))"

definition node_inputs :: "sha256 \<Rightarrow> commitment list \<Rightarrow> nat \<Rightarrow> bytes set" where
  "node_inputs sha cs n =
     {node_input (node_at sha cs h (2 * i)) (node_at sha cs h (2 * i + 1)) |h i. Suc h \<le> n}"

definition tree_inputs :: "sha256 \<Rightarrow> merkle_tree \<Rightarrow> bytes set" where
  "tree_inputs sha t = insert EMPTY_LEAF_DOMAIN (leaf_input ` set (mt_commitments t)) \<union>
     node_inputs sha (mt_commitments t) (unat (mt_depth t))"

lemma length_domains [simp]:
  "length LEAF_DOMAIN = 20" "length EMPTY_LEAF_DOMAIN = 26" "length NODE_DOMAIN = 20"
  by (simp_all add: LEAF_DOMAIN_def EMPTY_LEAF_DOMAIN_def NODE_DOMAIN_def ascii_def)

lemma node_input_inject [simp]: "node_input l r = node_input l' r' \<longleftrightarrow> l = l' \<and> r = r'"
  by (simp add: node_input_def)

lemma leaf_input_inject [simp]: "leaf_input c = leaf_input c' \<longleftrightarrow> c = c'"
  by (simp add: leaf_input_def)

lemma leaf_input_not_empty: "leaf_input c \<noteq> EMPTY_LEAF_DOMAIN"
proof
  assume "leaf_input c = EMPTY_LEAF_DOMAIN"
  then have "length (leaf_input c) = length EMPTY_LEAF_DOMAIN" by simp
  then show False by (simp add: leaf_input_def)
qed

lemma climb_back:
  assumes "climb sha cur i ss = node_at sha cs (h + length ss) q"
  shows "cur = node_at sha cs h (q * 2 ^ length ss + i mod 2 ^ length ss) \<or>
    collision_between sha (set (path_inputs sha cur i ss)) (node_inputs sha cs (h + length ss))"
  using assms
proof (induction ss arbitrary: cur i h)
  case (Cons s ss)
  let ?inp = "if even i then node_input cur s else node_input s cur"
  let ?j = "q * 2 ^ length ss + (i div 2) mod 2 ^ length ss"
  let ?N = "node_inputs sha cs (Suc h + length ss)"
  have "climb sha (sha ?inp) (i div 2) ss = node_at sha cs (Suc h + length ss) q"
    using Cons.prems by (auto simp: hash_node_def split: if_splits)
  from Cons.IH [OF this] consider
      (eq) "sha ?inp = node_at sha cs (Suc h) ?j"
    | (coll) "collision_between sha (set (path_inputs sha (sha ?inp) (i div 2) ss)) ?N"
    by auto
  then show ?case
  proof cases
    case eq
    let ?v = "node_input (node_at sha cs h (2 * ?j)) (node_at sha cs h (2 * ?j + 1))"
    have mem: "?v \<in> ?N" unfolding node_inputs_def by (intro CollectI exI [of _ h] exI [of _ ?j]) simp
    have idx: "q * 2 ^ Suc (length ss) + i mod 2 ^ Suc (length ss) = 2 * ?j + i mod 2"
      by (simp add: mod_mult2_eq)
    show ?thesis
    proof (cases "?inp = ?v")
      case True
      then have "cur = node_at sha cs h (2 * ?j + i mod 2)"
        by (auto simp: even_iff_mod_2_eq_zero odd_iff_mod_2_eq_one split: if_splits)
      with idx show ?thesis by (simp only: length_Cons simp_thms)
    next
      case False
      moreover have "sha ?inp = sha ?v" using eq by (simp add: hash_node_def)
      ultimately have "collision_between sha {?inp} ?N"
        using mem unfolding collision_between_def by blast
      then show ?thesis
        by (intro disjI2) (erule collision_mono, simp_all add: Let_def)
    qed
  next
    case coll
    then show ?thesis
      by (intro disjI2) (erule collision_mono, auto simp: Let_def)
  qed
qed simp

subsection \<open>The tree as an append-only membership log\<close>

text \<open>
  What the ledger and the wallets rely on: appending keeps the earlier positions, and every
  occupied position can be shown to be a member of the current root.
\<close>

locale membership_log =
  fixes wf :: "'t \<Rightarrow> bool"
    and elems :: "'t \<Rightarrow> 'c list"
    and app :: "'t \<Rightarrow> 'c \<Rightarrow> 'e + 'i \<times> 't"
    and pos :: "'i \<Rightarrow> nat"
    and member :: "'t \<Rightarrow> 'c \<Rightarrow> 'i \<Rightarrow> bool"
  assumes app_elems: "wf t \<Longrightarrow> app t c = Inr (i, t') \<Longrightarrow>
      wf t' \<and> elems t' = elems t @ [c] \<and> pos i = length (elems t)"
    and complete: "wf t \<Longrightarrow> pos i < length (elems t) \<Longrightarrow> member t (elems t ! pos i) i"
begin

lemma app_many_wf:
  "try_fold (\<lambda>t c. and_then (app t c) (\<lambda>x. Inr (snd x))) t cs = Inr t' \<Longrightarrow> wf t \<Longrightarrow>
     wf t' \<and> elems t' = elems t @ cs"
proof (induction cs arbitrary: t)
  case (Cons c cs)
  from Cons.prems(1) obtain i t1 where step: "app t c = Inr (i, t1)"
    and rest: "try_fold (\<lambda>t c. and_then (app t c) (\<lambda>x. Inr (snd x))) t1 cs = Inr t'"
    by (auto simp: and_then_eq_Inr)
  from app_elems [OF Cons.prems(2) step] Cons.IH [OF rest] show ?case by simp
qed simp

lemma member_forever:
  assumes "wf t" and "app t c = Inr (i, t1)"
    and "try_fold (\<lambda>t c. and_then (app t c) (\<lambda>x. Inr (snd x))) t1 cs = Inr t2"
  shows "member t2 c i"
proof -
  from app_elems [OF assms(1,2)] have t1: "wf t1" "elems t1 = elems t @ [c]" "pos i = length (elems t)"
    by simp_all
  with app_many_wf [OF assms(3)] have "wf t2" "elems t2 ! pos i = c" "pos i < length (elems t2)"
    by (simp_all add: nth_append)
  with complete [of t2 i] show ?thesis by simp
qed

end

definition proves_member :: "sha256 \<Rightarrow> merkle_tree \<Rightarrow> commitment \<Rightarrow> u32 \<Rightarrow> bool" where
  "proves_member sha t c i =
     (case mt_prove sha t i of Inl _ \<Rightarrow> False
      | Inr p \<Rightarrow> mt_verify sha (mt_root sha t) c p = Inr True)"

lemma merkle_tree_eta [simp]: "\<lparr>mt_depth = mt_depth t, mt_commitments = mt_commitments t\<rparr> = t"
  by (cases t) simp

lemma validate_depth_iff: "validate_depth d = Inr () \<longleftrightarrow> 1 \<le> unat d \<and> unat d \<le> 32"
  by (auto simp: validate_depth_def MIN_DEPTH_def MAX_DEPTH_def word_le_nat_alt)

lemma maximum_leaf_count_eq:
  assumes "unat d \<le> 32"
  shows "maximum_leaf_count d = min (2 ^ unat d) MAX_COMMITMENTS"
proof -
  have "(2 :: nat) ^ unat d < 2 ^ 64" using assms by (intro power_strict_increasing) auto
  moreover have "push_bit (unat d) (1 :: u64) = of_nat (2 ^ unat d)" by simp
  ultimately have "unat (push_bit (unat d) (1 :: u64)) = 2 ^ unat d"
    by (simp only: unat_of_nat) simp
  then show ?thesis
    by (auto simp: maximum_leaf_count_def MAX_COMMITMENTS_def min_def word_le_nat_alt)
qed

lemma tree_wf_D:
  assumes "tree_wf t"
  shows "validate_depth (mt_depth t) = Inr ()" "length (mt_commitments t) \<le> 2 ^ unat (mt_depth t)"
    "length (mt_commitments t) \<le> MAX_COMMITMENTS"
  using assms by (auto simp: tree_wf_def mt_capacity_def validate_depth_iff maximum_leaf_count_eq)

lemma mt_append_Inr:
  assumes "tree_wf t" "mt_append t c = Inr (i, t')"
  shows "tree_wf t'" "t' = t\<lparr>mt_commitments := mt_commitments t @ [c]\<rparr>"
    "unat i = length (mt_commitments t)"
  using assms by (auto simp: mt_append_def tree_wf_def mt_capacity_def unat_of_nat)

lemma ip_depth_prove:
  "mt_prove sha t i = Inr p \<Longrightarrow> ip_depth p = mt_depth t"
  by (auto simp: mt_prove_eq ip_depth_def split: if_splits)

lemma prove_then_verify:
  assumes "tree_wf t" "unat i < length (mt_commitments t)"
  shows "proves_member sha t (mt_commitments t ! unat i) i"
proof -
  let ?cs = "mt_commitments t" and ?d = "unat (mt_depth t)"
  have "unat i < 2 ^ ?d" using assms tree_wf_D(2) [OF assms(1)] by linarith
  then have "climb sha (hash_leaf sha (?cs ! unat i)) (unat i)
      (map (\<lambda>h. node_at sha ?cs h (sibling_index (unat i div 2 ^ h))) [0..<?d]) =
    mr_digest (mt_root sha t)"
    using climb_siblings [of sha ?cs 0 "unat i" ?d] assms(2)
    by (simp add: mt_root_def root_is_node_at tree_wf_D(2) [OF assms(1)])
  then show ?thesis
    using assms(2) tree_wf_D(1) [OF assms(1)]
    by (simp add: proves_member_def mt_prove_eq mt_verify_eq ip_depth_def mt_root_def)
qed

interpretation ml: membership_log tree_wf mt_commitments mt_append unat "proves_member sha" for sha
proof
  fix t t' :: merkle_tree and c i
  assume "tree_wf t" "mt_append t c = Inr (i, t')"
  then show "tree_wf t' \<and> mt_commitments t' = mt_commitments t @ [c] \<and>
      unat i = length (mt_commitments t)"
    using mt_append_Inr [of t c i t'] by simp
qed (rule prove_then_verify)

subsection \<open>Properties\<close>

lemma climb_append:
  "climb sha cur i (xs @ ys) = climb sha (climb sha cur i xs) (i div 2 ^ length xs) ys"
  by (induction xs arbitrary: cur i) (simp_all add: div_mult2_eq)

lemma path_inputs_append:
  "path_inputs sha cur i (xs @ ys) =
     path_inputs sha cur i xs @ path_inputs sha (climb sha cur i xs) (i div 2 ^ length xs) ys"
  by (induction xs arbitrary: cur i) (auto simp: Let_def div_mult2_eq hash_node_def)

lemma climb_last_input:
  "ss \<noteq> [] \<Longrightarrow> \<exists>l r. climb sha cur i ss = sha (node_input l r) \<and>
     node_input l r \<in> set (path_inputs sha cur i ss)"
proof (induction ss arbitrary: cur i)
  case (Cons s ss)
  show ?case
  proof (cases "ss = []")
    case True
    then show ?thesis by (cases "even i") (auto simp: hash_node_def Let_def)
  next
    case False
    from Cons.IH [OF False] show ?thesis
      by (fastforce simp: hash_node_def Let_def if_distrib)
  qed
qed simp

lemma node_input_other_domain: "node_input l r \<noteq> leaf_input c" "node_input l r \<noteq> EMPTY_LEAF_DOMAIN"
proof -
  have "length (node_input l r) = 84" by (simp add: node_input_def)
  moreover have "length (leaf_input c) = 52" by (simp add: leaf_input_def)
  ultimately show "node_input l r \<noteq> leaf_input c" "node_input l r \<noteq> EMPTY_LEAF_DOMAIN" by auto
qed

lemmas domains_distinct = node_input_other_domain leaf_input_not_empty
  node_input_other_domain [THEN not_sym] leaf_input_not_empty [THEN not_sym]

text \<open>The input of an occupied or empty leaf of the tree.\<close>

lemma leaf_of_tree:
  obtains v where "v \<in> tree_inputs sha t" "node_at sha (mt_commitments t) 0 k = sha v"
    "v = (if k < length (mt_commitments t) then leaf_input (mt_commitments t ! k)
          else EMPTY_LEAF_DOMAIN)"
  by (rule that [of "if k < length (mt_commitments t) then leaf_input (mt_commitments t ! k)
        else EMPTY_LEAF_DOMAIN"])
    (auto simp: tree_inputs_def hash_leaf_def hash_empty_leaf_def)

lemma verify_sound_aux:
  assumes "length (mt_commitments t) \<le> 2 ^ unat (mt_depth t)"
    and "mt_verify sha (mt_root sha t) c p = Inr True"
  defines "k \<equiv> unat (ip_leaf_index p) mod 2 ^ unat (mt_depth t)"
  shows "k < length (mt_commitments t) \<and> mt_commitments t ! k = c \<or>
    collision_between sha (proof_inputs sha c p) (tree_inputs sha t)"
proof -
  let ?cs = "mt_commitments t" and ?d = "unat (mt_depth t)" and ?i = "unat (ip_leaf_index p)"
  let ?n = "length (ip_siblings p) - ?d"
  define lo hi where "lo = take ?n (ip_siblings p)" and "hi = drop ?n (ip_siblings p)"
  from assms(2) have len: "of_nat (length (ip_siblings p)) = mt_depth t" and
    digest: "climb sha (hash_leaf sha c) ?i (ip_siblings p) = mr_digest (mt_root sha t)"
    by (auto simp: mt_verify_eq ip_depth_def mt_root_def split: if_splits)
  have "?d \<le> length (ip_siblings p)" by (simp add: len [symmetric] unat_of_nat)
  then have hi: "length hi = ?d" and ss: "ip_siblings p = lo @ hi"
    by (simp_all add: hi_def lo_def)
  let ?cur = "climb sha (hash_leaf sha c) ?i lo" and ?j = "?i div 2 ^ length lo"
  have "climb sha ?cur ?j hi = node_at sha ?cs (0 + length hi) 0"
    using digest by (simp add: ss climb_append hi mt_root_def root_is_node_at assms(1))
  note down = climb_back [OF this]
  have "set (path_inputs sha ?cur ?j hi) \<subseteq> proof_inputs sha c p"
    by (auto simp: proof_inputs_def ss path_inputs_append)
  moreover have "node_inputs sha ?cs (0 + length hi) \<subseteq> tree_inputs sha t"
    by (auto simp: tree_inputs_def hi)
  ultimately have "collision_between sha (set (path_inputs sha ?cur ?j hi))
      (node_inputs sha ?cs (0 + length hi)) \<Longrightarrow>
    collision_between sha (proof_inputs sha c p) (tree_inputs sha t)"
    by (rule collision_mono [rotated])
  with down consider
      (eq) "?cur = node_at sha ?cs 0 (?j mod 2 ^ ?d)"
    | (coll) "collision_between sha (proof_inputs sha c p) (tree_inputs sha t)"
    unfolding hi mult_zero_left add_0 by blast
  then show ?thesis
  proof cases
    case eq
    obtain v where v: "v \<in> tree_inputs sha t" "?cur = sha v" "v =
        (if ?j mod 2 ^ ?d < length ?cs then leaf_input (?cs ! (?j mod 2 ^ ?d)) else EMPTY_LEAF_DOMAIN)"
      using eq leaf_of_tree [of sha t "?j mod 2 ^ ?d"] by metis
    obtain u where u: "u \<in> proof_inputs sha c p" "?cur = sha u"
      "lo = [] \<and> u = leaf_input c \<or> (\<exists>l r. u = node_input l r)"
      using climb_last_input [of lo sha "hash_leaf sha c" ?i]
      by (cases "lo = []") (auto simp: proof_inputs_def hash_leaf_def ss path_inputs_append)
    show ?thesis
    proof (cases "u = v")
      case True
      with u(3) v(3) show ?thesis
        by (auto simp: k_def domains_distinct split: if_splits)
    next
      case False
      with u v show ?thesis unfolding collision_between_def by metis
    qed
  qed simp
qed

text \<open>Equal nodes of two complete trees have equal leaves below them, or give a collision.\<close>

lemma node_at_binds:
  assumes "node_at sha cs h i = node_at sha ds h i"
  shows "(\<forall>k < 2 ^ h. node_at sha cs 0 (i * 2 ^ h + k) = node_at sha ds 0 (i * 2 ^ h + k)) \<or>
    collision_between sha (node_inputs sha cs h) (node_inputs sha ds h)"
  using assms
proof (induction h arbitrary: i)
  case (Suc h)
  let ?l = "node_input (node_at sha cs h (2 * i)) (node_at sha cs h (2 * i + 1))"
  let ?r = "node_input (node_at sha ds h (2 * i)) (node_at sha ds h (2 * i + 1))"
  have mem: "?l \<in> node_inputs sha cs (Suc h)" "?r \<in> node_inputs sha ds (Suc h)"
    unfolding node_inputs_def by (intro CollectI exI [of _ h] exI [of _ i]; simp)+
  have mono: "node_inputs sha xs h \<subseteq> node_inputs sha xs (Suc h)" for xs
    unfolding node_inputs_def by (auto intro: le_SucI)
  show ?case
  proof (cases "?l = ?r")
    case True
    have idx: "i * 2 ^ Suc h + k = (if k < 2 ^ h then (2 * i) * 2 ^ h + k
        else (2 * i + 1) * 2 ^ h + (k - 2 ^ h))" for k
      by simp
    from True have "node_at sha cs h (2 * i) = node_at sha ds h (2 * i)"
      "node_at sha cs h (2 * i + 1) = node_at sha ds h (2 * i + 1)"
      unfolding node_input_inject by blast+
    from Suc.IH [OF this(1)] Suc.IH [OF this(2)] show ?thesis
    proof (elim disjE)
      assume lo: "\<forall>k < 2 ^ h. node_at sha cs 0 ((2 * i) * 2 ^ h + k) =
          node_at sha ds 0 ((2 * i) * 2 ^ h + k)"
        and hi: "\<forall>k < 2 ^ h. node_at sha cs 0 ((2 * i + 1) * 2 ^ h + k) =
          node_at sha ds 0 ((2 * i + 1) * 2 ^ h + k)"
      have "node_at sha cs 0 (i * 2 ^ Suc h + k) = node_at sha ds 0 (i * 2 ^ Suc h + k)"
        if "k < 2 ^ Suc h" for k
      proof (cases "k < 2 ^ h")
        case True
        with lo show ?thesis by (simp only: idx if_True)
      next
        case False
        then have "k - 2 ^ h < 2 ^ h" using that by simp
        with hi False show ?thesis by (simp only: idx if_False)
      qed
      then show ?thesis by blast
    qed (use collision_mono [OF _ mono mono] in simp_all)
  next
    case False
    moreover have "sha ?l = sha ?r" using Suc.prems by (simp add: hash_node_def)
    ultimately show ?thesis using mem unfolding collision_between_def by blast
  qed
qed simp

lemma leaves_bind:
  assumes "node_at sha (mt_commitments t) 0 k = node_at sha (mt_commitments u) 0 k"
    and "\<not> collision_between sha (tree_inputs sha t) (tree_inputs sha u)"
  shows "k < length (mt_commitments t) \<longleftrightarrow> k < length (mt_commitments u)"
    and "k < length (mt_commitments t) \<Longrightarrow> mt_commitments t ! k = mt_commitments u ! k"
proof -
  obtain v where v: "v \<in> tree_inputs sha t" "node_at sha (mt_commitments t) 0 k = sha v"
    "v = (if k < length (mt_commitments t) then leaf_input (mt_commitments t ! k)
      else EMPTY_LEAF_DOMAIN)"
    by (rule leaf_of_tree)
  obtain w where w: "w \<in> tree_inputs sha u" "node_at sha (mt_commitments u) 0 k = sha w"
    "w = (if k < length (mt_commitments u) then leaf_input (mt_commitments u ! k)
      else EMPTY_LEAF_DOMAIN)"
    by (rule leaf_of_tree)
  have "v = w" using assms v(1,2) w(1,2) unfolding collision_between_def by metis
  then show "k < length (mt_commitments t) \<longleftrightarrow> k < length (mt_commitments u)"
    and "k < length (mt_commitments t) \<Longrightarrow> mt_commitments t ! k = mt_commitments u ! k"
    using v(3) w(3) by (auto simp: domains_distinct split: if_splits)
qed

lemma root_binds_tree_commitments:
  assumes "tree_wf t" and "tree_wf u" and "mt_root sha t = mt_root sha u"
  shows "mt_commitments t = mt_commitments u \<or>
    collision_between sha (tree_inputs sha t) (tree_inputs sha u)"
proof (rule disjCI)
  assume nc: "\<not> collision_between sha (tree_inputs sha t) (tree_inputs sha u)"
  let ?d = "unat (mt_depth t)"
  from assms(3) have d: "mt_depth u = mt_depth t" by (simp add: mt_root_def)
  with assms have "node_at sha (mt_commitments t) ?d 0 = node_at sha (mt_commitments u) ?d 0"
    by (simp add: mt_root_def root_is_node_at tree_wf_D(2) [of t] tree_wf_D(2) [of u, unfolded d])
  moreover have "\<not> collision_between sha (node_inputs sha (mt_commitments t) ?d)
      (node_inputs sha (mt_commitments u) ?d)"
    using nc collision_mono [of sha _ _ "tree_inputs sha t" "tree_inputs sha u"]
    by (auto simp: tree_inputs_def d)
  ultimately have leaf: "k < 2 ^ ?d \<Longrightarrow>
      node_at sha (mt_commitments t) 0 k = node_at sha (mt_commitments u) 0 k" for k
    using node_at_binds [of sha "mt_commitments t" ?d 0 "mt_commitments u"] by auto
  have bounds: "length (mt_commitments t) \<le> 2 ^ ?d" "length (mt_commitments u) \<le> 2 ^ ?d"
    using tree_wf_D(2) [OF assms(1)] tree_wf_D(2) [OF assms(2)] by (simp_all add: d)
  have same: "k < length (mt_commitments t) \<longleftrightarrow> k < length (mt_commitments u)" for k
    using leaves_bind(1) [OF leaf nc] bounds by (cases "k < 2 ^ ?d") auto
  show "mt_commitments t = mt_commitments u"
    using same leaves_bind(2) [OF leaf nc] bounds
    by (intro nth_equalityI) (auto intro: linorder_neqE_nat)
qed

text \<open>C32: A membership proof produced by \<^verbatim>\<open>MerkleTree::prove\<close> for any occupied leaf verifies, as
  that leaf's commitment, against the root that \<^verbatim>\<open>MerkleTree::root\<close> returns.\<close>

theorem prove_verify_complete:
  assumes "tree_wf t" and "unat i < length (mt_commitments t)"
  shows "\<exists>p. mt_prove sha t i = Inr p \<and>
    mt_verify sha (mt_root sha t) (mt_commitments t ! unat i) p = Inr True"
  using prove_then_verify [OF assms, of sha] by (auto simp: proves_member_def split: sum.splits)

theorem prove_verify_complete_witness:
  "\<exists>p. mt_prove (\<lambda>b. of_nat (length b)) \<lparr>mt_depth = 3, mt_commitments = [7, 8, 9]\<rparr> 2 = Inr p \<and>
    mt_verify (\<lambda>b. of_nat (length b))
      (mt_root (\<lambda>b. of_nat (length b)) \<lparr>mt_depth = 3, mt_commitments = [7, 8, 9]\<rparr>) 9 p = Inr True"
  using prove_verify_complete [of "\<lparr>mt_depth = 3, mt_commitments = [7, 8, 9]\<rparr>" 2 "\<lambda>b. of_nat (length b)"]
  by (simp add: tree_wf_def validate_depth_iff mt_capacity_def maximum_leaf_count_eq MAX_COMMITMENTS_def)

text \<open>C22: If \<^verbatim>\<open>MerkleTree::verify\<close> accepts a commitment against the root of a tree, then that
  commitment occupies the leaf the proof's index names (its low \<open>depth\<close> bits), or the hash inputs
  of the proof and of the tree contain two different byte strings with the same digest. Nothing is
  assumed of the proof, not even the number of its siblings.\<close>

theorem verify_sound:
  assumes "tree_wf t" and "mt_verify sha (mt_root sha t) c p = Inr True"
  shows "(let k = unat (ip_leaf_index p) mod 2 ^ unat (mt_depth t) in
      k < length (mt_commitments t) \<and> mt_commitments t ! k = c) \<or>
    collision_between sha (proof_inputs sha c p) (tree_inputs sha t)"
  using verify_sound_aux [OF tree_wf_D(2) [OF assms(1)] assms(2)] by (simp add: Let_def)

lemmas small_tree_simps = tree_wf_def validate_depth_iff mt_capacity_def maximum_leaf_count_eq
  MAX_COMMITMENTS_def

theorem verify_sound_witness:
  "mt_verify (\<lambda>_. 5) (mt_root (\<lambda>_. 5) \<lparr>mt_depth = 1, mt_commitments = [7]\<rparr>) 7
      \<lparr>ip_leaf_index = 0, ip_siblings = [5]\<rparr> = Inr True \<and>
    ((let k = unat (0 :: u32) mod 2 ^ unat (1 :: byte) in k < length [7 :: commitment] \<and> [7] ! k = (7 :: commitment)) \<or>
     collision_between (\<lambda>_. 5) (proof_inputs (\<lambda>_. 5) 7 \<lparr>ip_leaf_index = 0, ip_siblings = [5]\<rparr>)
       (tree_inputs (\<lambda>_. 5) \<lparr>mt_depth = 1, mt_commitments = [7]\<rparr>))"
  using verify_sound [of "\<lparr>mt_depth = 1, mt_commitments = [7]\<rparr>" "\<lambda>_. 5" 7
      "\<lparr>ip_leaf_index = 0, ip_siblings = [5]\<rparr>"]
  by (simp add: small_tree_simps mt_verify_eq ip_depth_def mt_root_def root_is_node_at hash_node_def)

text \<open>The level-by-level root computation with cached empty subtrees returns the root of the
  complete binary tree whose unused leaves are all the empty-leaf hash.\<close>

lemma root_is_complete_tree_root:
  assumes "tree_wf t"
  shows "mt_root sha t =
    \<lparr>mr_digest = node_at sha (mt_commitments t) (unat (mt_depth t)) 0, mr_depth = mt_depth t\<rparr>"
  by (simp add: mt_root_def root_is_node_at tree_wf_D(2) [OF assms])

text \<open>The root commits to the whole list of commitments: two well-formed trees with equal
  roots (digest and depth) hold the same commitments in the same order, or their hash inputs
  contain a SHA-256 collision.\<close>

lemma root_binds_commitments:
  assumes "tree_wf t" and "tree_wf u" and "mt_root sha t = mt_root sha u"
  shows "mt_commitments t = mt_commitments u \<or>
    collision_between sha (tree_inputs sha t) (tree_inputs sha u)"
  by (rule root_binds_tree_commitments [OF assms])

text \<open>A commitment appended at index \<open>i\<close> stays provable at \<open>i\<close> after every further sequence
  of successful appends: its proof against the then current root verifies.\<close>

lemma appended_commitment_stays_provable:
  assumes "tree_wf t" and "mt_append t c = Inr (i, t1)"
    and "try_fold (\<lambda>t c. and_then (mt_append t c) (\<lambda>x. Inr (snd x))) t1 cs = Inr t2"
  shows "\<exists>p. mt_prove sha t2 i = Inr p \<and> mt_verify sha (mt_root sha t2) c p = Inr True"
  using ml.member_forever [OF assms, of sha] by (auto simp: proves_member_def split: sum.splits)

end
