(* ===== verification/Machine.thy ===== *)
theory Machine
  imports Prelude
begin

text \<open>
  State machines whose steps may fail, the shape shared by the ledger, the block executor, the
  journals and the application: a run is \<open>try_fold\<close> of the step over the inputs. The first locale
  carries an invariant along a run, the second a simulation of a guarded specification.
\<close>

fun guarded_run :: "('a \<Rightarrow> 'i \<Rightarrow> bool) \<Rightarrow> ('a \<Rightarrow> 'i \<Rightarrow> 'a) \<Rightarrow> 'a \<Rightarrow> 'i list \<Rightarrow> 'a option" where
  "guarded_run en nxt a [] = Some a"
| "guarded_run en nxt a (i # is) = (if en a i then guarded_run en nxt (nxt a i) is else None)"

lemma guarded_run_map:
  "guarded_run (\<lambda>a i. en a (f i)) (\<lambda>a i. nxt a (f i)) a is = guarded_run en nxt a (map f is)"
  by (induction "is" arbitrary: a) auto

lemma guarded_run_append:
  "guarded_run en nxt a (xs @ ys) =
     (case guarded_run en nxt a xs of None \<Rightarrow> None | Some b \<Rightarrow> guarded_run en nxt b ys)"
  by (induction xs arbitrary: a) auto

locale fallible_machine =
  fixes step :: "'s \<Rightarrow> 'i \<Rightarrow> 'e + 's"
    and inv :: "'s \<Rightarrow> bool"
    and typed :: "'i \<Rightarrow> bool"
  assumes step_inv: "inv s \<Longrightarrow> typed i \<Longrightarrow> step s i = Inr s' \<Longrightarrow> inv s'"
begin

lemma run_inv:
  assumes "try_fold step s is = Inr s'" "inv s" "\<forall>i \<in> set is. typed i"
  shows "inv s'"
  using assms
proof (induction "is" arbitrary: s)
  case (Cons i "is")
  then obtain s1 where "step s i = Inr s1" "try_fold step s1 is = Inr s'"
    by (auto simp: and_then_eq_Inr)
  with Cons step_inv show ?case by auto
qed simp

end

locale refined_machine = fallible_machine step inv typed
  for step :: "'s \<Rightarrow> 'i \<Rightarrow> 'e + 's" and inv :: "'s \<Rightarrow> bool" and typed :: "'i \<Rightarrow> bool" +
  fixes abs :: "'s \<Rightarrow> 'a"
    and en :: "'a \<Rightarrow> 'i \<Rightarrow> bool"
    and nxt :: "'a \<Rightarrow> 'i \<Rightarrow> 'a"
  assumes step_refines:
    "inv s \<Longrightarrow> typed i \<Longrightarrow> step s i = Inr s' \<Longrightarrow> en (abs s) i \<and> abs s' = nxt (abs s) i"
begin

lemma run_refines:
  assumes "try_fold step s is = Inr s'" "inv s" "\<forall>i \<in> set is. typed i"
  shows "guarded_run en nxt (abs s) is = Some (abs s')"
  using assms
proof (induction "is" arbitrary: s)
  case (Cons i "is")
  then obtain s1 where s1: "step s i = Inr s1" "try_fold step s1 is = Inr s'"
    by (auto simp: and_then_eq_Inr)
  with Cons.prems have "inv s1" "en (abs s) i" "abs s1 = nxt (abs s) i"
    using step_inv [of s i s1] step_refines [of s i s1] by auto
  with Cons.IH [OF s1(2)] Cons.prems(3) show ?case by simp
qed simp

end

end
