(* ===== verification/Ledger.thy ===== *)
theory Ledger
  imports Crypto Merkle Machine "HOL-Library.Finite_Map"
begin

text \<open>
  The public ledger of \<^verbatim>\<open>crates/noxis-ledger\<close>: transactions and the mint-policy boundary
  (\<^verbatim>\<open>model.rs\<close>), the state with its snapshot and state identity (\<^verbatim>\<open>state.rs\<close>), transition
  validation and snapshot canonicalization (\<^verbatim>\<open>invariants.rs\<close>) and the mutations
  (\<^verbatim>\<open>mutation.rs\<close>). A \<^verbatim>\<open>HashMap\<close> is a finite map and a \<^verbatim>\<open>HashSet\<close> a finite set. A method that
  takes \<^verbatim>\<open>&mut self\<close> returns the new state; no method writes a field before its last failing
  step, so an \<open>Inl\<close> result leaves the caller with the state it passed in.
\<close>

subsection \<open>Transactions and policies\<close>

record transfer =
  tr_asset_id :: asset_id
  tr_input_nullifiers :: "nullifier list"
  tr_output_commitments :: "commitment list"
  tr_proof :: zk_proof

record mint =
  mi_asset_id :: asset_id
  mi_amount :: amount
  mi_output_commitments :: "commitment list"
  mi_authorization :: bytes

datatype operation = Transfer transfer | Mint mint

record transaction =
  tx_id :: transaction_id
  tx_suite :: crypto_suite
  tx_operation :: operation

record transaction_validation_context =
  tvc_genesis_id :: genesis_id
  tvc_validation_context_id :: validation_context_id
  tvc_transaction_intent_id :: transaction_intent_id
  tvc_state_id :: state_id

record mint_statement =
  ms_genesis_id :: genesis_id
  ms_validation_context_id :: validation_context_id
  ms_transaction_intent_id :: transaction_intent_id
  ms_state_id :: state_id
  ms_asset_id :: asset_id
  ms_amount :: amount
  ms_output_commitments :: "commitment list"
  ms_state_anchor :: state_anchor
  ms_issued_supply_before :: "amount option"

datatype mint_authorization_error = Denied

record mint_policy =
  mp_id :: mint_policy_id
  mp_authorize :: "mint_statement \<Rightarrow> bytes \<Rightarrow> mint_authorization_error + unit"

definition DenyAllMints :: mint_policy where
  "DenyAllMints = \<lparr>mp_id = 0, mp_authorize = (\<lambda>_ _. Inl Denied)\<rparr>"

subsection \<open>Errors\<close>

datatype ledger_error =
  AssetAlreadyRegistered asset_id
| UnknownAsset asset_id
| DuplicateTransaction transaction_id
| NullifierAlreadySpent nullifier
| CommitmentAlreadyExists commitment
| EmptyField string
| SupplyOverflow asset_id
| ValidationStateIdMismatch state_id state_id
| LedgerMerkle merkle_error
| LedgerMintAuthorization mint_authorization_error
| LedgerProof verification_error

datatype ledger_snapshot_error =
  SnapshotMerkle merkle_error
| SnapshotLedger ledger_error
| AssetsNotStrictlySorted nat
| InvalidAsset nat asset_error
| DuplicateCommitment commitment
| NullifiersNotStrictlySorted
| SupplyNotStrictlySorted nat
| SupplyForUnknownAsset asset_id
| TransactionsNotStrictlySorted

subsection \<open>State\<close>

record ledger_state =
  ls_assets :: "(asset_id, asset_definition) fmap"
  ls_commitments :: "commitment fset"
  ls_commitment_tree :: merkle_tree
  ls_spent_nullifiers :: "nullifier fset"
  ls_issued_supply :: "(asset_id, amount) fmap"
  ls_accepted_transactions :: "transaction_id fset"

record ledger_snapshot =
  snap_tree_depth :: byte
  snap_assets :: "asset_definition list"
  snap_commitments :: "commitment list"
  snap_spent_nullifiers :: "nullifier list"
  snap_issued_supply :: "(asset_id \<times> amount) list"
  snap_accepted_transactions :: "transaction_id list"

definition LedgerState_new :: "byte \<Rightarrow> ledger_error + ledger_state" where
  "LedgerState_new tree_depth =
     and_then (map_err LedgerMerkle (MerkleTree_new tree_depth)) (\<lambda>tree.
     Inr \<lparr>ls_assets = fmempty, ls_commitments = {||}, ls_commitment_tree = tree,
          ls_spent_nullifiers = {||}, ls_issued_supply = fmempty,
          ls_accepted_transactions = {||}\<rparr>)"

definition ledger_merkle_root :: "sha256 \<Rightarrow> ledger_state \<Rightarrow> merkle_root" where
  "ledger_merkle_root sha s = mt_root sha (ls_commitment_tree s)"

definition ledger_state_anchor :: "sha256 \<Rightarrow> ledger_state \<Rightarrow> state_anchor" where
  "ledger_state_anchor sha s =
     (let root = ledger_merkle_root sha s
      in \<lparr>sa_root = mr_digest root, sa_tree_depth = mr_depth root\<rparr>)"

definition prove_commitment ::
  "sha256 \<Rightarrow> ledger_state \<Rightarrow> u32 \<Rightarrow> ledger_error + inclusion_proof" where
  "prove_commitment sha s leaf_index =
     map_err LedgerMerkle (mt_prove sha (ls_commitment_tree s) leaf_index)"

text \<open>The values of a map in the order of their own identifiers, and its entries in key order.\<close>

definition sorted_assets :: "ledger_state \<Rightarrow> asset_definition list" where
  "sorted_assets s = sort_key ad_id (map snd (sorted_list_of_fmap (ls_assets s)))"

definition sorted_supplies :: "ledger_state \<Rightarrow> (asset_id \<times> amount) list" where
  "sorted_supplies s = sorted_list_of_fmap (ls_issued_supply s)"

text \<open>
  \<^verbatim>\<open>write_count\<close> panics at \<open>2 ^ 32\<close> elements; below that bound it writes the 32-bit count.
\<close>

definition write_count :: "nat \<Rightarrow> bytes" where
  "write_count count = to_be_bytes (of_nat count :: u32)"

definition write_bytes :: "bytes \<Rightarrow> bytes" where
  "write_bytes bs = write_count (length bs) @ bs"

fun asset_kind_tag :: "asset_kind \<Rightarrow> byte" where
  "asset_kind_tag NativeBacked = 1"
| "asset_kind_tag Synthetic = 2"

definition asset_input :: "asset_definition \<Rightarrow> bytes" where
  "asset_input a = to_be_bytes (ad_id a) @ [asset_kind_tag (ad_kind a)] @ write_bytes (ad_ticker a)"

definition supply_input :: "asset_id \<times> amount \<Rightarrow> bytes" where
  "supply_input e = to_be_bytes (fst e) @ to_be_bytes (snd e)"

definition counted :: "('a \<Rightarrow> bytes) \<Rightarrow> 'a list \<Rightarrow> bytes" where
  "counted f xs = write_count (length xs) @ concat (map f xs)"

definition state_input :: "sha256 \<Rightarrow> genesis_id \<Rightarrow> ledger_state \<Rightarrow> bytes" where
  "state_input sha g s =
     ascii ''NOXIS/STATE/V2'' @ [0] @ to_be_bytes g @
     [mr_depth (ledger_merkle_root sha s)] @ to_be_bytes (mr_digest (ledger_merkle_root sha s)) @
     counted asset_input (sorted_assets s) @
     counted supply_input (sorted_supplies s) @
     counted to_be_bytes (sorted_list_of_fset (ls_spent_nullifiers s)) @
     counted to_be_bytes (sorted_list_of_fset (ls_accepted_transactions s))"

definition ledger_state_id :: "sha256 \<Rightarrow> genesis_id \<Rightarrow> ledger_state \<Rightarrow> state_id" where
  "ledger_state_id sha g s = sha (state_input sha g s)"

subsection \<open>Transition validation\<close>

datatype validated_transition = ValidTransfer transfer | ValidMint mint amount

definition ensure_new_transaction :: "ledger_state \<Rightarrow> transaction_id \<Rightarrow> ledger_error + unit" where
  "ensure_new_transaction s i =
     (if i |\<notin>| ls_accepted_transactions s then Inr () else Inl (DuplicateTransaction i))"

definition ensure_registered_asset :: "ledger_state \<Rightarrow> asset_id \<Rightarrow> ledger_error + unit" where
  "ensure_registered_asset s a =
     (if a |\<in>| fmdom (ls_assets s) then Inr () else Inl (UnknownAsset a))"

definition ensure_non_empty :: "'a list \<Rightarrow> string \<Rightarrow> ledger_error + unit" where
  "ensure_non_empty items label = (if items = [] then Inl (EmptyField label) else Inr ())"

text \<open>The loop shared by \<^verbatim>\<open>ensure_unique_nullifiers\<close> and \<^verbatim>\<open>ensure_new_commitments\<close>.\<close>

fun ensure_fresh :: "('a \<Rightarrow> ledger_error) \<Rightarrow> 'a fset \<Rightarrow> 'a fset \<Rightarrow> 'a list \<Rightarrow> ledger_error + unit" where
  "ensure_fresh err known seen [] = Inr ()"
| "ensure_fresh err known seen (x # xs) =
     (if x |\<in>| seen \<or> x |\<in>| known then Inl (err x)
      else ensure_fresh err known (finsert x seen) xs)"

definition ensure_unique_nullifiers :: "ledger_state \<Rightarrow> nullifier list \<Rightarrow> ledger_error + unit" where
  "ensure_unique_nullifiers s ns =
     ensure_fresh NullifierAlreadySpent (ls_spent_nullifiers s) {||} ns"

definition ensure_new_commitments :: "ledger_state \<Rightarrow> commitment list \<Rightarrow> ledger_error + unit" where
  "ensure_new_commitments s cs =
     and_then (ensure_non_empty cs ''output commitments'') (\<lambda>_.
     and_then (ensure_fresh CommitmentAlreadyExists (ls_commitments s) {||} cs) (\<lambda>_.
     and_then (ok_or (checked_add_usize (length (mt_commitments (ls_commitment_tree s))) (length cs))
         (LedgerMerkle IndexOverflow)) (\<lambda>resulting_count.
     if resulting_count > mt_capacity (ls_commitment_tree s)
     then Inl (LedgerMerkle (TreeFull (mt_capacity (ls_commitment_tree s))))
     else Inr ())))"

definition transfer_statement_of ::
  "sha256 \<Rightarrow> ledger_state \<Rightarrow> transfer \<Rightarrow> transaction_validation_context \<Rightarrow> transfer_statement" where
  "transfer_statement_of sha s t ctx =
     \<lparr>ts_genesis_id = tvc_genesis_id ctx,
      ts_validation_context_id = tvc_validation_context_id ctx,
      ts_transaction_intent_id = tvc_transaction_intent_id ctx,
      ts_state_id = tvc_state_id ctx,
      ts_asset_id = tr_asset_id t,
      ts_input_nullifiers = tr_input_nullifiers t,
      ts_output_commitments = tr_output_commitments t,
      ts_state_anchor = ledger_state_anchor sha s\<rparr>"

definition validate_transfer ::
  "sha256 \<Rightarrow> ledger_state \<Rightarrow> crypto_suite \<Rightarrow> transfer \<Rightarrow> proof_verifier \<Rightarrow>
     transaction_validation_context \<Rightarrow> ledger_error + unit" where
  "validate_transfer sha s suite t verifier ctx =
     and_then (ensure_registered_asset s (tr_asset_id t)) (\<lambda>_.
     and_then (ensure_non_empty (tr_input_nullifiers t) ''input nullifiers'') (\<lambda>_.
     and_then (ensure_unique_nullifiers s (tr_input_nullifiers t)) (\<lambda>_.
     and_then (ensure_new_commitments s (tr_output_commitments t)) (\<lambda>_.
     if zp_suite_version (tr_proof t) \<noteq> cs_version suite then Inl (LedgerProof UnsupportedSuite)
     else map_err LedgerProof
       (pv_verify_transfer verifier (transfer_statement_of sha s t ctx) (tr_proof t))))))"

definition mint_statement_of ::
  "sha256 \<Rightarrow> ledger_state \<Rightarrow> mint \<Rightarrow> transaction_validation_context \<Rightarrow> mint_statement" where
  "mint_statement_of sha s m ctx =
     \<lparr>ms_genesis_id = tvc_genesis_id ctx,
      ms_validation_context_id = tvc_validation_context_id ctx,
      ms_transaction_intent_id = tvc_transaction_intent_id ctx,
      ms_state_id = tvc_state_id ctx,
      ms_asset_id = mi_asset_id m,
      ms_amount = mi_amount m,
      ms_output_commitments = mi_output_commitments m,
      ms_state_anchor = ledger_state_anchor sha s,
      ms_issued_supply_before = fmlookup (ls_issued_supply s) (mi_asset_id m)\<rparr>"

definition validate_mint ::
  "sha256 \<Rightarrow> ledger_state \<Rightarrow> mint \<Rightarrow> mint_policy \<Rightarrow> transaction_validation_context \<Rightarrow>
     ledger_error + amount" where
  "validate_mint sha s m policy ctx =
     and_then (ensure_registered_asset s (mi_asset_id m)) (\<lambda>_.
     and_then (ensure_new_commitments s (mi_output_commitments m)) (\<lambda>_.
     let issued_supply_before = fmlookup (ls_issued_supply s) (mi_asset_id m) in
     and_then (map_err LedgerMintAuthorization
         (mp_authorize policy (mint_statement_of sha s m ctx) (mi_authorization m))) (\<lambda>_.
     ok_or (case issued_supply_before of None \<Rightarrow> Some (mi_amount m)
            | Some current \<Rightarrow> Amount_checked_add current (mi_amount m))
       (SupplyOverflow (mi_asset_id m)))))"

definition prepare_transition ::
  "sha256 \<Rightarrow> ledger_state \<Rightarrow> transaction \<Rightarrow> proof_verifier \<Rightarrow> mint_policy \<Rightarrow>
     transaction_validation_context \<Rightarrow> ledger_error + validated_transition" where
  "prepare_transition sha s tx verifier policy ctx =
     (let computed_state_id = ledger_state_id sha (tvc_genesis_id ctx) s in
      if computed_state_id \<noteq> tvc_state_id ctx
      then Inl (ValidationStateIdMismatch computed_state_id (tvc_state_id ctx))
      else and_then (ensure_new_transaction s (tx_id tx)) (\<lambda>_.
        case tx_operation tx of
          Transfer t \<Rightarrow>
            and_then (validate_transfer sha s (tx_suite tx) t verifier ctx)
              (\<lambda>_. Inr (ValidTransfer t))
        | Mint m \<Rightarrow>
            and_then (validate_mint sha s m policy ctx)
              (\<lambda>resulting_supply. Inr (ValidMint m resulting_supply))))"

subsection \<open>Mutations\<close>

definition register_asset :: "ledger_state \<Rightarrow> asset_definition \<Rightarrow> ledger_error + ledger_state" where
  "register_asset s a =
     (if ad_id a |\<in>| fmdom (ls_assets s) then Inl (AssetAlreadyRegistered (ad_id a))
      else Inr (s\<lparr>ls_assets := fmupd (ad_id a) a (ls_assets s)\<rparr>))"

definition append_commitments :: "ledger_state \<Rightarrow> commitment list \<Rightarrow> ledger_error + ledger_state" where
  "append_commitments s cs =
     and_then (try_fold (\<lambda>tree c. map_err LedgerMerkle
         (and_then (mt_append tree c) (\<lambda>x. Inr (snd x)))) (ls_commitment_tree s) cs) (\<lambda>next_tree.
     Inr (s\<lparr>ls_commitment_tree := next_tree,
            ls_commitments := ls_commitments s |\<union>| fset_of_list cs\<rparr>))"

definition commit_transition ::
  "ledger_state \<Rightarrow> transaction_id \<Rightarrow> validated_transition \<Rightarrow> ledger_error + ledger_state" where
  "commit_transition s i transition =
     and_then
       (case transition of
          ValidTransfer t \<Rightarrow>
            and_then (append_commitments s (tr_output_commitments t)) (\<lambda>s.
            Inr (s\<lparr>ls_spent_nullifiers :=
                   ls_spent_nullifiers s |\<union>| fset_of_list (tr_input_nullifiers t)\<rparr>))
        | ValidMint m resulting_supply \<Rightarrow>
            and_then (append_commitments s (mi_output_commitments m)) (\<lambda>s.
            Inr (s\<lparr>ls_issued_supply :=
                   fmupd (mi_asset_id m) resulting_supply (ls_issued_supply s)\<rparr>)))
       (\<lambda>s. Inr (s\<lparr>ls_accepted_transactions := finsert i (ls_accepted_transactions s)\<rparr>))"

definition ledger_apply ::
  "sha256 \<Rightarrow> ledger_state \<Rightarrow> transaction \<Rightarrow> proof_verifier \<Rightarrow> mint_policy \<Rightarrow>
     transaction_validation_context \<Rightarrow> ledger_error + ledger_state" where
  "ledger_apply sha s tx verifier policy ctx =
     and_then (prepare_transition sha s tx verifier policy ctx) (\<lambda>transition.
     commit_transition s (tx_id tx) transition)"

subsection \<open>Invariant\<close>

definition assets_ok :: "(asset_id, asset_definition) fmap \<Rightarrow> bool" where
  "assets_ok m = (\<forall>k a. fmlookup m k = Some a \<longrightarrow> ad_id a = k \<and> valid_ticker (ad_ticker a))"

definition ledger_inv :: "ledger_state \<Rightarrow> bool" where
  "ledger_inv s =
     (tree_wf (ls_commitment_tree s) \<and>
      distinct (mt_commitments (ls_commitment_tree s)) \<and>
      fset (ls_commitments s) = set (mt_commitments (ls_commitment_tree s)) \<and>
      assets_ok (ls_assets s) \<and>
      fmdom (ls_issued_supply s) |\<subseteq>| fmdom (ls_assets s) \<and>
      0 \<notin> fset (fmran (ls_issued_supply s)))"

definition tx_typed :: "transaction \<Rightarrow> bool" where
  "tx_typed tx = (case tx_operation tx of Transfer _ \<Rightarrow> True | Mint m \<Rightarrow> mi_amount m \<noteq> 0)"

subsection \<open>Abstract specification\<close>

text \<open>
  What the ledger promises: an ordered list of notes that only grows, a set of spent nullifiers, the
  issued supply as an unbounded number, and the set of accepted transaction identifiers.
\<close>

record abs_ledger =
  al_assets :: "asset_id set"
  al_notes :: "commitment list"
  al_spent :: "nullifier set"
  al_supply :: "asset_id \<Rightarrow> nat"
  al_seen :: "transaction_id set"

definition op_outputs :: "operation \<Rightarrow> commitment list" where
  "op_outputs p = (case p of Transfer t \<Rightarrow> tr_output_commitments t | Mint m \<Rightarrow> mi_output_commitments m)"

definition op_inputs :: "operation \<Rightarrow> nullifier list" where
  "op_inputs p = (case p of Transfer t \<Rightarrow> tr_input_nullifiers t | Mint m \<Rightarrow> [])"

definition op_asset :: "operation \<Rightarrow> asset_id" where
  "op_asset p = (case p of Transfer t \<Rightarrow> tr_asset_id t | Mint m \<Rightarrow> mi_asset_id m)"

definition op_issued :: "operation \<Rightarrow> asset_id \<Rightarrow> nat" where
  "op_issued p a =
     (case p of Transfer t \<Rightarrow> 0 | Mint m \<Rightarrow> if a = mi_asset_id m then unat (mi_amount m) else 0)"

definition spec_enabled :: "abs_ledger \<Rightarrow> transaction \<Rightarrow> bool" where
  "spec_enabled a tx =
     (tx_id tx \<notin> al_seen a \<and>
      op_asset (tx_operation tx) \<in> al_assets a \<and>
      (case tx_operation tx of Transfer t \<Rightarrow> tr_input_nullifiers t \<noteq> [] | Mint m \<Rightarrow> True) \<and>
      distinct (op_inputs (tx_operation tx)) \<and> set (op_inputs (tx_operation tx)) \<inter> al_spent a = {} \<and>
      op_outputs (tx_operation tx) \<noteq> [] \<and>
      distinct (op_outputs (tx_operation tx)) \<and>
      set (op_outputs (tx_operation tx)) \<inter> set (al_notes a) = {} \<and>
      al_supply a (op_asset (tx_operation tx)) + op_issued (tx_operation tx) (op_asset (tx_operation tx))
        < 2 ^ 128)"

definition spec_step :: "abs_ledger \<Rightarrow> transaction \<Rightarrow> abs_ledger" where
  "spec_step a tx =
     a\<lparr>al_notes := al_notes a @ op_outputs (tx_operation tx),
       al_spent := al_spent a \<union> set (op_inputs (tx_operation tx)),
       al_supply := (\<lambda>k. al_supply a k + op_issued (tx_operation tx) k),
       al_seen := insert (tx_id tx) (al_seen a)\<rparr>"

definition supply_of :: "ledger_state \<Rightarrow> asset_id \<Rightarrow> nat" where
  "supply_of s k = (case fmlookup (ls_issued_supply s) k of None \<Rightarrow> 0 | Some u \<Rightarrow> unat u)"

definition abs_of :: "ledger_state \<Rightarrow> abs_ledger" where
  "abs_of s =
     \<lparr>al_assets = fset (fmdom (ls_assets s)),
      al_notes = mt_commitments (ls_commitment_tree s),
      al_spent = fset (ls_spent_nullifiers s),
      al_supply = supply_of s,
      al_seen = fset (ls_accepted_transactions s)\<rparr>"

definition op_authorized ::
  "sha256 \<Rightarrow> ledger_state \<Rightarrow> transaction \<Rightarrow> proof_verifier \<Rightarrow> mint_policy \<Rightarrow>
     transaction_validation_context \<Rightarrow> bool" where
  "op_authorized sha s tx verifier policy ctx =
     (case tx_operation tx of
        Transfer t \<Rightarrow> zp_suite_version (tr_proof t) = cs_version (tx_suite tx) \<and>
          pv_verify_transfer verifier (transfer_statement_of sha s t ctx) (tr_proof t) = Inr ()
      | Mint m \<Rightarrow>
          mp_authorize policy (mint_statement_of sha s m ctx) (mi_authorization m) = Inr ())"

subsection \<open>Validation, branch by branch\<close>

lemma ensure_fresh_Inr_iff:
  "ensure_fresh err known seen xs = Inr () \<longleftrightarrow>
     distinct xs \<and> set xs \<inter> (fset known \<union> fset seen) = {}"
  by (induction xs arbitrary: seen) auto

lemma ensure_non_empty_Inr_iff [simp]: "ensure_non_empty xs l = Inr () \<longleftrightarrow> xs \<noteq> []"
  by (simp add: ensure_non_empty_def)

lemma ensure_new_commitments_Inr_iff:
  assumes "tree_wf (ls_commitment_tree s)"
  shows "ensure_new_commitments s cs = Inr () \<longleftrightarrow>
    cs \<noteq> [] \<and> distinct cs \<and> set cs \<inter> fset (ls_commitments s) = {} \<and>
    length (mt_commitments (ls_commitment_tree s)) + length cs \<le> mt_capacity (ls_commitment_tree s)"
proof -
  let ?t = "ls_commitment_tree s"
  have "mt_capacity ?t \<le> MAX_COMMITMENTS"
    using tree_wf_D(1) [OF assms]
    by (simp add: mt_capacity_def validate_depth_iff maximum_leaf_count_eq)
  then show ?thesis
    by (auto simp: ensure_new_commitments_def and_then_eq_Inr ensure_fresh_Inr_iff
        checked_add_usize_Some_iff MAX_COMMITMENTS_def)
qed

lemma append_tree:
  assumes "tree_wf t" and "length (mt_commitments t) + length cs \<le> mt_capacity t"
  shows "try_fold (\<lambda>t c. map_err LedgerMerkle (and_then (mt_append t c) (\<lambda>x. Inr (snd x)))) t cs =
    Inr (t\<lparr>mt_commitments := mt_commitments t @ cs\<rparr>)"
  using assms
proof (induction cs arbitrary: t)
  case (Cons c cs)
  let ?t = "t\<lparr>mt_commitments := mt_commitments t @ [c]\<rparr>"
  have "length (mt_commitments t) < 2 ^ 32"
    using tree_wf_D(3) [OF Cons.prems(1)] by (simp add: MAX_COMMITMENTS_def)
  then have step: "mt_append t c = Inr (of_nat (length (mt_commitments t)), ?t)"
    using Cons.prems(2) by (simp add: mt_append_def)
  from mt_append_Inr(1) [OF Cons.prems(1) step] have "tree_wf ?t" .
  moreover have "mt_capacity ?t = mt_capacity t" by (simp add: mt_capacity_def)
  ultimately show ?case using Cons.IH [of ?t] Cons.prems(2) step by simp
qed simp

lemma tree_wf_grow:
  "tree_wf t \<Longrightarrow> length (mt_commitments t) + length cs \<le> mt_capacity t \<Longrightarrow>
     tree_wf (t\<lparr>mt_commitments := mt_commitments t @ cs\<rparr>)"
  by (simp add: tree_wf_def mt_capacity_def)

text \<open>The state that a committed transaction leaves.\<close>

definition ledger_effect :: "ledger_state \<Rightarrow> transaction \<Rightarrow> ledger_state" where
  "ledger_effect s tx =
     s\<lparr>ls_commitments := ls_commitments s |\<union>| fset_of_list (op_outputs (tx_operation tx)),
       ls_commitment_tree := (ls_commitment_tree s)
         \<lparr>mt_commitments := mt_commitments (ls_commitment_tree s) @ op_outputs (tx_operation tx)\<rparr>,
       ls_spent_nullifiers := ls_spent_nullifiers s |\<union>| fset_of_list (op_inputs (tx_operation tx)),
       ls_issued_supply := (case tx_operation tx of Transfer t \<Rightarrow> ls_issued_supply s
         | Mint m \<Rightarrow> fmupd (mi_asset_id m)
             (of_nat (supply_of s (mi_asset_id m) + unat (mi_amount m))) (ls_issued_supply s)),
       ls_accepted_transactions := finsert (tx_id tx) (ls_accepted_transactions s)\<rparr>"

definition fits_tree :: "ledger_state \<Rightarrow> transaction \<Rightarrow> bool" where
  "fits_tree s tx =
     (length (mt_commitments (ls_commitment_tree s)) + length (op_outputs (tx_operation tx))
       \<le> mt_capacity (ls_commitment_tree s))"

lemma new_supply:
  "(case fmlookup (ls_issued_supply s) k of None \<Rightarrow> Some u
    | Some current \<Rightarrow> Amount_checked_add current u) =
   (if supply_of s k + unat u < 2 ^ 128 then Some (of_nat (supply_of s k + unat u)) else None)"
  using unsigned_less [of u, where ?'a = nat]
  by (auto simp: supply_of_def Amount_checked_add_def checked_add_def split: option.splits)

lemma ledger_inv_D:
  assumes "ledger_inv s"
  shows "tree_wf (ls_commitment_tree s)" "distinct (mt_commitments (ls_commitment_tree s))"
    "fset (ls_commitments s) = set (mt_commitments (ls_commitment_tree s))"
    "assets_ok (ls_assets s)" "fmdom (ls_issued_supply s) |\<subseteq>| fmdom (ls_assets s)"
    "0 \<notin> fset (fmran (ls_issued_supply s))"
  using assms by (simp_all add: ledger_inv_def)

definition transition_of :: "ledger_state \<Rightarrow> transaction \<Rightarrow> validated_transition" where
  "transition_of s tx = (case tx_operation tx of Transfer t \<Rightarrow> ValidTransfer t
     | Mint m \<Rightarrow> ValidMint m (of_nat (supply_of s (mi_asset_id m) + unat (mi_amount m))))"

lemmas op_simps = op_outputs_def op_inputs_def op_asset_def op_issued_def

lemma supply_of_less: "supply_of s k < 2 ^ 128"
  using unsigned_less [where ?'a = nat and ?'b = 128]
  by (auto simp: supply_of_def split: option.splits)

lemma prepare_Inr_iff:
  assumes "ledger_inv s"
  shows "prepare_transition sha s tx v mp ctx = Inr tr \<longleftrightarrow>
    ledger_state_id sha (tvc_genesis_id ctx) s = tvc_state_id ctx \<and>
    spec_enabled (abs_of s) tx \<and> fits_tree s tx \<and> op_authorized sha s tx v mp ctx \<and>
    tr = transition_of s tx"
proof (cases "tx_operation tx")
  case (Transfer t)
  then show ?thesis
    using ledger_inv_D(3) [OF assms] supply_of_less [of s "tr_asset_id t"]
    by (auto simp: prepare_transition_def Let_def and_then_eq_Inr validate_transfer_def
        ensure_new_transaction_def ensure_registered_asset_def ensure_unique_nullifiers_def
        ensure_fresh_Inr_iff ensure_new_commitments_Inr_iff [OF ledger_inv_D(1) [OF assms]]
        spec_enabled_def abs_of_def fits_tree_def op_authorized_def transition_of_def op_simps)
next
  case (Mint m)
  then show ?thesis
    using ledger_inv_D(3) [OF assms]
    by (auto simp: prepare_transition_def Let_def and_then_eq_Inr validate_mint_def new_supply
        ensure_new_transaction_def ensure_registered_asset_def
        ensure_new_commitments_Inr_iff [OF ledger_inv_D(1) [OF assms]]
        spec_enabled_def abs_of_def fits_tree_def op_authorized_def transition_of_def op_simps)
qed

lemma commit_transition_of:
  assumes "ledger_inv s" and "fits_tree s tx"
  shows "commit_transition s (tx_id tx) (transition_of s tx) = Inr (ledger_effect s tx)"
proof -
  have "append_commitments s (op_outputs (tx_operation tx)) =
    Inr (s\<lparr>ls_commitment_tree := (ls_commitment_tree s)\<lparr>mt_commitments :=
             mt_commitments (ls_commitment_tree s) @ op_outputs (tx_operation tx)\<rparr>,
           ls_commitments := ls_commitments s |\<union>| fset_of_list (op_outputs (tx_operation tx))\<rparr>)"
    using append_tree [OF ledger_inv_D(1) [OF assms(1)], of "op_outputs (tx_operation tx)"] assms(2)
    by (simp add: append_commitments_def fits_tree_def)
  then show ?thesis
    by (cases "tx_operation tx")
      (simp_all add: commit_transition_def transition_of_def op_simps ledger_effect_def)
qed

lemma ledger_apply_Inr_iff:
  assumes "ledger_inv s"
  shows "ledger_apply sha s tx v mp ctx = Inr s' \<longleftrightarrow>
    ledger_state_id sha (tvc_genesis_id ctx) s = tvc_state_id ctx \<and>
    spec_enabled (abs_of s) tx \<and> fits_tree s tx \<and> op_authorized sha s tx v mp ctx \<and>
    s' = ledger_effect s tx"
  using commit_transition_of [OF assms]
  by (auto simp: ledger_apply_def and_then_eq_Inr prepare_Inr_iff [OF assms])

lemma abs_of_effect:
  assumes "spec_enabled (abs_of s) tx"
  shows "abs_of (ledger_effect s tx) = spec_step (abs_of s) tx"
proof -
  have "supply_of (ledger_effect s tx) k = supply_of s k + op_issued (tx_operation tx) k" for k
    using assms
    by (cases "tx_operation tx")
      (auto simp: ledger_effect_def supply_of_def [of "_\<lparr>ls_accepted_transactions := _\<rparr>"] op_simps
        spec_enabled_def abs_of_def unat_of_nat supply_of_def [symmetric] simp del: of_nat_add)
  then show ?thesis
    by (simp add: abs_of_def spec_step_def fun_eq_iff) (auto simp: ledger_effect_def fset_of_list.rep_eq)
qed

lemma ledger_effect_inv:
  assumes "ledger_inv s" "spec_enabled (abs_of s) tx" "fits_tree s tx" "tx_typed tx"
  shows "ledger_inv (ledger_effect s tx)"
proof -
  let ?p = "tx_operation tx"
  have tree: "tree_wf (ls_commitment_tree (ledger_effect s tx))"
    using tree_wf_grow [OF ledger_inv_D(1) [OF assms(1)], of "op_outputs ?p"] assms(3)
    by (simp add: ledger_effect_def fits_tree_def)
  moreover have "0 \<notin> fset (fmran (ls_issued_supply (ledger_effect s tx)))"
  proof (cases ?p)
    case (Mint m)
    let ?n = "supply_of s (mi_asset_id m) + unat (mi_amount m)"
    have "?n < 2 ^ 128" "?n \<noteq> 0" using assms Mint
      by (auto simp: spec_enabled_def op_simps abs_of_def tx_typed_def unat_eq_zero)
    moreover from this have "unat (of_nat ?n :: amount) = ?n"
      by (simp add: unat_of_nat del: of_nat_add)
    ultimately have "(of_nat ?n :: amount) \<noteq> 0" by (metis unsigned_0)
    then show ?thesis
      using ledger_inv_D(6) [OF assms(1)] Mint
      by (auto simp: ledger_effect_def fmlookup_ran_iff split: if_splits)
  qed (use ledger_inv_D(6) [OF assms(1)] in \<open>simp add: ledger_effect_def\<close>)
  ultimately show ?thesis
    using assms(1,2) unfolding ledger_inv_def
    by (cases ?p) (auto simp: ledger_effect_def spec_enabled_def abs_of_def op_simps fset_of_list.rep_eq)
qed

subsection \<open>Runs of accepted transactions\<close>

type_synonym ledger_input = "transaction_validation_context \<times> transaction"

definition apply_all ::
  "sha256 \<Rightarrow> proof_verifier \<Rightarrow> mint_policy \<Rightarrow> ledger_state \<Rightarrow> ledger_input list \<Rightarrow>
     ledger_error + ledger_state" where
  "apply_all sha v mp s inputs =
     try_fold (\<lambda>s (ctx, tx). ledger_apply sha s tx v mp ctx) s inputs"

abbreviation spec_run :: "abs_ledger \<Rightarrow> transaction list \<Rightarrow> abs_ledger option" where
  "spec_run \<equiv> guarded_run spec_enabled spec_step"

interpretation lm: refined_machine "\<lambda>s (ctx, tx). ledger_apply sha s tx v mp ctx" ledger_inv
  "\<lambda>i. tx_typed (snd i)" abs_of "\<lambda>a i. spec_enabled a (snd i)" "\<lambda>a i. spec_step a (snd i)"
  for sha v mp
  by unfold_locales (auto simp: ledger_apply_Inr_iff ledger_effect_inv abs_of_effect)

lemma apply_all_refines:
  assumes "apply_all sha v mp s inputs = Inr s'" "ledger_inv s" "\<forall>i \<in> set inputs. tx_typed (snd i)"
  shows "spec_run (abs_of s) (map snd inputs) = Some (abs_of s')" "ledger_inv s'"
  using lm.run_refines [OF assms [unfolded apply_all_def]] lm.run_inv [OF assms [unfolded apply_all_def]]
  by (simp_all add: guarded_run_map)

lemma spec_run_effects:
  assumes "spec_run a txs = Some b"
  shows "al_assets b = al_assets a"
    and "al_notes b = al_notes a @ concat (map (op_outputs \<circ> tx_operation) txs)"
    and "al_spent b = al_spent a \<union> set (concat (map (op_inputs \<circ> tx_operation) txs))"
    and "al_supply b k = al_supply a k + (\<Sum>tx \<leftarrow> txs. op_issued (tx_operation tx) k)"
    and "al_seen b = al_seen a \<union> set (map tx_id txs)"
  using assms
  by (induction txs arbitrary: a) (auto simp: spec_step_def split: if_splits)

lemma spec_run_distinct:
  assumes "spec_run a txs = Some b"
  shows "distinct (concat (map (op_inputs \<circ> tx_operation) txs)) \<and>
    set (concat (map (op_inputs \<circ> tx_operation) txs)) \<inter> al_spent a = {} \<and>
    distinct (map tx_id txs) \<and> set (map tx_id txs) \<inter> al_seen a = {} \<and>
    (distinct (al_notes a) \<longrightarrow> distinct (al_notes b))"
  using assms
proof (induction txs arbitrary: a)
  case (Cons tx txs)
  from Cons.prems have en: "spec_enabled a tx" and run: "spec_run (spec_step a tx) txs = Some b"
    by (auto split: if_splits)
  from Cons.IH [OF run] en show ?case by (auto simp: spec_enabled_def spec_step_def)
qed simp

lemma spec_run_supply_bound:
  assumes "spec_run a txs = Some b" and "al_supply a k < 2 ^ 128"
  shows "al_supply b k < 2 ^ 128"
  using assms
proof (induction txs arbitrary: a)
  case (Cons tx txs)
  then have "spec_enabled a tx" and run: "spec_run (spec_step a tx) txs = Some b"
    by (auto split: if_splits)
  then have "al_supply (spec_step a tx) k < 2 ^ 128"
    using Cons.prems(2)
    by (cases "tx_operation tx") (auto simp: spec_enabled_def spec_step_def op_simps)
  with Cons.IH [OF run] show ?case .
qed simp

subsection \<open>A concrete run\<close>

definition sample_state :: ledger_state where
  "sample_state =
     \<lparr>ls_assets = fmupd 1 \<lparr>ad_id = 1, ad_ticker = [78, 79, 88], ad_kind = Synthetic\<rparr> fmempty,
      ls_commitments = {||}, ls_commitment_tree = \<lparr>mt_depth = 4, mt_commitments = []\<rparr>,
      ls_spent_nullifiers = {||}, ls_issued_supply = fmempty, ls_accepted_transactions = {||}\<rparr>"

definition sample_mint :: transaction where
  "sample_mint = \<lparr>tx_id = 10, tx_suite = RESEARCH_V1, tx_operation = Mint \<lparr>mi_asset_id = 1,
     mi_amount = 100, mi_output_commitments = [21, 22], mi_authorization = []\<rparr>\<rparr>"

definition sample_transfer :: transaction where
  "sample_transfer = \<lparr>tx_id = 11, tx_suite = RESEARCH_V1, tx_operation = Transfer \<lparr>tr_asset_id = 1,
     tr_input_nullifiers = [31], tr_output_commitments = [23],
     tr_proof = \<lparr>zp_suite_version = 1, zp_bytes = []\<rparr>\<rparr>\<rparr>"

definition sample_ctx :: "sha256 \<Rightarrow> ledger_state \<Rightarrow> transaction_validation_context" where
  "sample_ctx sha s = \<lparr>tvc_genesis_id = 0, tvc_validation_context_id = 0,
     tvc_transaction_intent_id = 0, tvc_state_id = ledger_state_id sha 0 s\<rparr>"

definition sample_verifier :: proof_verifier where
  "sample_verifier = \<lparr>pv_id = 0, pv_verify_transfer = (\<lambda>_ _. Inr ())\<rparr>"

definition sample_policy :: mint_policy where
  "sample_policy = \<lparr>mp_id = 0, mp_authorize = (\<lambda>_ _. Inr ())\<rparr>"

definition sample_minted :: ledger_state where
  "sample_minted = ledger_effect sample_state sample_mint"

definition sample_final :: ledger_state where
  "sample_final = ledger_effect sample_minted sample_transfer"

lemmas sample_simps = sample_state_def sample_mint_def sample_transfer_def sample_ctx_def
  sample_verifier_def sample_policy_def small_tree_simps RESEARCH_V1_def

lemma sample_state_inv: "ledger_inv sample_state"
  by (simp add: ledger_inv_def sample_simps assets_ok_def valid_ticker_def is_ascii_uppercase_def
      fmlookup_ran_iff)

lemma sample_typed: "tx_typed sample_mint" "tx_typed sample_transfer"
  by (simp_all add: sample_simps tx_typed_def)

lemma sample_mint_accepted:
  "ledger_apply sha sample_state sample_mint v sample_policy (sample_ctx sha sample_state) =
     Inr sample_minted"
  by (simp add: ledger_apply_Inr_iff [OF sample_state_inv] sample_minted_def)
    (simp add: sample_simps spec_enabled_def abs_of_def supply_of_def op_simps fits_tree_def
      op_authorized_def)

lemma sample_minted_inv: "ledger_inv sample_minted"
  using lm.step_inv [of sample_state "(sample_ctx (\<lambda>_. 0) sample_state, sample_mint)" "\<lambda>_. 0" _ sample_policy]
  by (simp add: sample_state_inv sample_typed sample_mint_accepted)

lemma sample_transfer_accepted:
  "ledger_apply sha sample_minted sample_transfer sample_verifier mp (sample_ctx sha sample_minted) =
     Inr sample_final"
  by (simp add: ledger_apply_Inr_iff [OF sample_minted_inv] sample_final_def)
    (simp add: sample_minted_def ledger_effect_def sample_simps spec_enabled_def abs_of_def
      supply_of_def op_simps fits_tree_def op_authorized_def)

lemma sample_run:
  "apply_all sha sample_verifier sample_policy sample_state
     [(sample_ctx sha sample_state, sample_mint), (sample_ctx sha sample_minted, sample_transfer)] =
   Inr sample_final"
  by (simp add: apply_all_def sample_mint_accepted sample_transfer_accepted)

subsection \<open>Properties\<close>

text \<open>C8: No double spend. Over any sequence of transactions the ledger accepts from a
  well-formed state, all input nullifiers are pairwise different, none of them was spent before, and
  the final spent set is exactly the initial one with them added.\<close>

theorem no_double_spend:
  assumes "apply_all sha v mp s inputs = Inr s'" and "ledger_inv s"
    and "\<forall>i \<in> set inputs. tx_typed (snd i)"
  shows "distinct (concat (map (op_inputs \<circ> tx_operation) (map snd inputs))) \<and>
    set (concat (map (op_inputs \<circ> tx_operation) (map snd inputs))) \<inter> fset (ls_spent_nullifiers s) = {} \<and>
    fset (ls_spent_nullifiers s') = fset (ls_spent_nullifiers s) \<union>
      set (concat (map (op_inputs \<circ> tx_operation) (map snd inputs)))"
  using spec_run_distinct [OF apply_all_refines(1) [OF assms]]
    spec_run_effects(3) [OF apply_all_refines(1) [OF assms]]
  by (simp add: abs_of_def)

theorem no_double_spend_witness:
  "fset (ls_spent_nullifiers sample_final) = {31}"
  using no_double_spend [OF sample_run [of "\<lambda>_. 0"] sample_state_inv]
  by (simp add: sample_typed) (simp add: sample_simps op_simps)

text \<open>C23: Supply accounting. Over any accepted sequence, an asset's issued supply grows by
  exactly the sum of the accepted mint amounts of that asset, taken as unbounded numbers, and stays
  below \<open>2 ^ 128\<close>: no mint wraps around and nothing else issues.\<close>

theorem supply_is_sum_of_mints:
  assumes "apply_all sha v mp s inputs = Inr s'" and "ledger_inv s"
    and "\<forall>i \<in> set inputs. tx_typed (snd i)"
  shows "supply_of s' k = supply_of s k + (\<Sum>tx \<leftarrow> map snd inputs. op_issued (tx_operation tx) k) \<and>
    supply_of s' k < 2 ^ 128"
  using spec_run_effects(4) [OF apply_all_refines(1) [OF assms], of k] supply_of_less [of s' k]
  by (simp add: abs_of_def)

theorem supply_is_sum_of_mints_witness: "supply_of sample_final 1 = 100"
  using supply_is_sum_of_mints [OF sample_run [of "\<lambda>_. 0"] sample_state_inv, of 1]
  by (simp add: sample_typed) (simp add: sample_simps op_simps supply_of_def)

text \<open>The note list is append-only: an accepted sequence adds exactly the outputs of its
  transactions, in order, at the end of the commitment tree, and no commitment ever occurs twice.\<close>

lemma notes_append_only:
  assumes "apply_all sha v mp s inputs = Inr s'" and "ledger_inv s"
    and "\<forall>i \<in> set inputs. tx_typed (snd i)"
  shows "mt_commitments (ls_commitment_tree s') = mt_commitments (ls_commitment_tree s) @
      concat (map (op_outputs \<circ> tx_operation) (map snd inputs)) \<and>
    distinct (mt_commitments (ls_commitment_tree s'))"
  using spec_run_effects(2) [OF apply_all_refines(1) [OF assms]]
    ledger_inv_D(2) [OF apply_all_refines(2) [OF assms]]
  by (simp add: abs_of_def)

text \<open>C4: The ledger refines its specification: an accepted transaction is enabled in the
  abstract ledger, moves it by the abstract step, and keeps the state invariant.\<close>

theorem ledger_apply_refines:
  assumes "ledger_inv s" and "tx_typed tx" and "ledger_apply sha s tx v mp ctx = Inr s'"
  shows "spec_enabled (abs_of s) tx \<and> abs_of s' = spec_step (abs_of s) tx \<and> ledger_inv s'"
  using assms by (auto simp: ledger_apply_Inr_iff abs_of_effect ledger_effect_inv)

theorem ledger_apply_refines_witness:
  "abs_of sample_minted = spec_step (abs_of sample_state) sample_mint \<and> ledger_inv sample_minted"
  using ledger_apply_refines [OF sample_state_inv sample_typed(1) sample_mint_accepted [of "\<lambda>_. 0" sample_verifier]]
  by simp

text \<open>C31: The ledger accepts a transaction exactly when the supplied state identity is the
  current one, the specification enables it, its outputs fit the tree, and the proof verifier or the
  mint policy authorizes the statement built from the current state; the result is then determined.\<close>

theorem ledger_apply_accepts_iff:
  assumes "ledger_inv s"
  shows "ledger_apply sha s tx v mp ctx = Inr s' \<longleftrightarrow>
    ledger_state_id sha (tvc_genesis_id ctx) s = tvc_state_id ctx \<and> spec_enabled (abs_of s) tx \<and>
    fits_tree s tx \<and> op_authorized sha s tx v mp ctx \<and> s' = ledger_effect s tx"
  by (rule ledger_apply_Inr_iff [OF assms])

theorem ledger_apply_accepts_iff_witness:
  "spec_enabled (abs_of sample_state) sample_mint \<and> fits_tree sample_state sample_mint \<and>
   op_authorized (\<lambda>_. 0) sample_state sample_mint sample_verifier sample_policy
     (sample_ctx (\<lambda>_. 0) sample_state) \<and>
   sample_minted = ledger_effect sample_state sample_mint"
  using ledger_apply_accepts_iff [OF sample_state_inv, of "\<lambda>_. 0" sample_mint sample_verifier
      sample_policy "sample_ctx (\<lambda>_. 0) sample_state" sample_minted]
  by (simp add: sample_mint_accepted)

text \<open>Committing cannot fail after validation: whenever \<^verbatim>\<open>prepare_transition\<close> succeeds on a
  well-formed state, \<^verbatim>\<open>commit_transition\<close> of its plan succeeds too, so an error of \<^verbatim>\<open>apply\<close> is
  always a validation error.\<close>

lemma commit_never_fails_after_prepare:
  assumes "ledger_inv s" and "prepare_transition sha s tx v mp ctx = Inr tr"
  shows "\<exists>s'. commit_transition s (tx_id tx) tr = Inr s'"
  using assms commit_transition_of [OF assms(1)] by (auto simp: prepare_Inr_iff)

text \<open>Replay protection. The identifiers of an accepted sequence are pairwise different and
  new, and afterwards every transaction that reuses one of them is refused as a duplicate.\<close>

lemma replay_rejected:
  assumes "apply_all sha v mp s inputs = Inr s'" and "ledger_inv s"
    and "\<forall>i \<in> set inputs. tx_typed (snd i)"
    and "tx_id tx \<in> tx_id ` snd ` set inputs"
    and "tvc_state_id ctx = ledger_state_id sha (tvc_genesis_id ctx) s'"
  shows "distinct (map (tx_id \<circ> snd) inputs) \<and>
    ledger_apply sha s' tx v' mp' ctx = Inl (DuplicateTransaction (tx_id tx))"
  using spec_run_distinct [OF apply_all_refines(1) [OF assms(1-3)]]
    spec_run_effects(5) [OF apply_all_refines(1) [OF assms(1-3)]] assms(4,5)
  by (auto simp: abs_of_def comp_assoc ledger_apply_def prepare_transition_def ensure_new_transaction_def)

text \<open>Under \<^verbatim>\<open>DenyAllMints\<close> an accepted sequence contains no mint and leaves the issued
  supply map as it was.\<close>

lemma deny_all_mints_keeps_supply:
  assumes "apply_all sha v DenyAllMints s inputs = Inr s'" and "ledger_inv s"
  shows "ls_issued_supply s' = ls_issued_supply s \<and>
    (\<forall>i \<in> set inputs. \<exists>t. tx_operation (snd i) = Transfer t)"
  using assms
proof (induction inputs arbitrary: s)
  case (Cons i inputs)
  obtain ctx tx where i: "i = (ctx, tx)" by fastforce
  from Cons.prems(1) i obtain s1 where step: "ledger_apply sha s tx v DenyAllMints ctx = Inr s1"
    and rest: "apply_all sha v DenyAllMints s1 inputs = Inr s'"
    by (auto simp: apply_all_def and_then_eq_Inr)
  from step Cons.prems(2) have "op_authorized sha s tx v DenyAllMints ctx" "s1 = ledger_effect s tx"
    "spec_enabled (abs_of s) tx" "fits_tree s tx"
    by (simp_all add: ledger_apply_Inr_iff)
  moreover from this obtain t where t: "tx_operation tx = Transfer t"
    by (cases "tx_operation tx") (auto simp: op_authorized_def DenyAllMints_def)
  ultimately have "ledger_inv s1" "ls_issued_supply s1 = ls_issued_supply s"
    using ledger_effect_inv [OF Cons.prems(2), of tx]
    by (simp_all add: tx_typed_def ledger_effect_def)
  with Cons.IH [OF rest] t i show ?case by simp
qed (simp add: apply_all_def)

end
