(* ===== verification/Ledger_Snapshot.thy ===== *)
theory Ledger_Snapshot
  imports Ledger
begin

text \<open>
  Snapshots of the ledger state and what its state identity commits to: the canonicalization of
  \<^verbatim>\<open>invariants.rs\<close>, export and restore (\<^verbatim>\<open>snapshot\<close>, \<^verbatim>\<open>from_snapshot\<close>), the exact inverse between
  them, and the binding of every component of a state by its \<^verbatim>\<open>state_id\<close>.
\<close>

subsection \<open>Canonical snapshots\<close>

fun canonical_assets ::
  "nat \<Rightarrow> asset_id option \<Rightarrow> asset_definition list \<Rightarrow> ledger_snapshot_error + asset_definition list" where
  "canonical_assets index prior [] = Inr []"
| "canonical_assets index prior (a # rest) =
     (if (case prior of None \<Rightarrow> False | Some previous \<Rightarrow> previous \<ge> ad_id a)
      then Inl (AssetsNotStrictlySorted index)
      else and_then (map_err (InvalidAsset index)
          (AssetDefinition_new (ad_id a) (ad_ticker a) (ad_kind a))) (\<lambda>canonical.
        and_then (canonical_assets (Suc index) (Some (ad_id canonical)) rest) (\<lambda>canonicals.
        Inr (canonical # canonicals))))"

fun snapshot_tree ::
  "commitment fset \<Rightarrow> merkle_tree \<Rightarrow> commitment list \<Rightarrow> ledger_snapshot_error + merkle_tree" where
  "snapshot_tree seen tree [] = Inr tree"
| "snapshot_tree seen tree (c # cs) =
     (if c |\<in>| seen then Inl (DuplicateCommitment c)
      else and_then (map_err SnapshotMerkle (mt_append tree c)) (\<lambda>x.
        snapshot_tree (finsert c seen) (snd x) cs))"

fun ensure_strictly_sorted :: "'a::linorder list \<Rightarrow> bool" where
  "ensure_strictly_sorted (a # b # rest) = (a < b \<and> ensure_strictly_sorted (b # rest))"
| "ensure_strictly_sorted _ = True"

fun canonical_supply ::
  "asset_id set \<Rightarrow> nat \<Rightarrow> asset_id option \<Rightarrow> (asset_id \<times> amount) list \<Rightarrow>
     ledger_snapshot_error + unit" where
  "canonical_supply ids index prior [] = Inr ()"
| "canonical_supply ids index prior (e # rest) =
     (if (case prior of None \<Rightarrow> False | Some previous \<Rightarrow> previous \<ge> fst e)
      then Inl (SupplyNotStrictlySorted index)
      else if fst e \<notin> ids then Inl (SupplyForUnknownAsset (fst e))
      else canonical_supply ids (Suc index) (Some (fst e)) rest)"

definition from_canonical_parts ::
  "byte \<Rightarrow> asset_definition list \<Rightarrow> commitment list \<Rightarrow> nullifier list \<Rightarrow>
     (asset_id \<times> amount) list \<Rightarrow> transaction_id list \<Rightarrow> ledger_snapshot_error + ledger_snapshot" where
  "from_canonical_parts tree_depth assets commitments nullifiers supply transactions =
     and_then (canonical_assets 0 None assets) (\<lambda>canonicals.
     and_then (map_err SnapshotMerkle (MerkleTree_new tree_depth)) (\<lambda>tree.
     and_then (snapshot_tree {||} tree commitments) (\<lambda>_.
     if \<not> ensure_strictly_sorted nullifiers then Inl NullifiersNotStrictlySorted
     else if \<not> ensure_strictly_sorted transactions then Inl TransactionsNotStrictlySorted
     else and_then (canonical_supply (set (map ad_id canonicals)) 0 None supply) (\<lambda>_.
       Inr \<lparr>snap_tree_depth = tree_depth, snap_assets = canonicals,
            snap_commitments = commitments, snap_spent_nullifiers = nullifiers,
            snap_issued_supply = supply, snap_accepted_transactions = transactions\<rparr>))))"

text \<open>\<^verbatim>\<open>snapshot\<close> unwraps this result with \<^verbatim>\<open>expect\<close>: an \<open>Inl\<close> is a panic.\<close>

definition snapshot :: "ledger_state \<Rightarrow> ledger_snapshot_error + ledger_snapshot" where
  "snapshot s =
     from_canonical_parts (mt_depth (ls_commitment_tree s)) (sorted_assets s)
       (mt_commitments (ls_commitment_tree s)) (sorted_list_of_fset (ls_spent_nullifiers s))
       (sorted_supplies s) (sorted_list_of_fset (ls_accepted_transactions s))"

definition restore_commitment :: "ledger_state \<Rightarrow> commitment \<Rightarrow> ledger_snapshot_error + ledger_state" where
  "restore_commitment s c =
     and_then (map_err SnapshotMerkle (mt_append (ls_commitment_tree s) c)) (\<lambda>x.
     Inr (s\<lparr>ls_commitment_tree := snd x, ls_commitments := finsert c (ls_commitments s)\<rparr>))"

definition from_snapshot :: "ledger_snapshot \<Rightarrow> ledger_snapshot_error + ledger_state" where
  "from_snapshot p =
     and_then (from_canonical_parts (snap_tree_depth p) (snap_assets p) (snap_commitments p)
       (snap_spent_nullifiers p) (snap_issued_supply p) (snap_accepted_transactions p)) (\<lambda>p.
     and_then (map_err SnapshotLedger (LedgerState_new (snap_tree_depth p))) (\<lambda>s.
     and_then (try_fold (\<lambda>s a. map_err SnapshotLedger (register_asset s a)) s (snap_assets p)) (\<lambda>s.
     and_then (try_fold restore_commitment s (snap_commitments p)) (\<lambda>s.
     Inr (s\<lparr>ls_spent_nullifiers :=
              ls_spent_nullifiers s |\<union>| fset_of_list (snap_spent_nullifiers p),
            ls_issued_supply :=
              fold (\<lambda>(k, u) m. fmupd k u m) (snap_issued_supply p) (ls_issued_supply s),
            ls_accepted_transactions :=
              ls_accepted_transactions s |\<union>| fset_of_list (snap_accepted_transactions p)\<rparr>)))))"

subsection \<open>When parts are canonical\<close>

definition snapshot_ok :: "ledger_snapshot \<Rightarrow> bool" where
  "snapshot_ok p =
     (sorted_wrt (<) (map ad_id (snap_assets p)) \<and>
      (\<forall>a \<in> set (snap_assets p). valid_ticker (ad_ticker a)) \<and>
      tree_wf \<lparr>mt_depth = snap_tree_depth p, mt_commitments = snap_commitments p\<rparr> \<and>
      distinct (snap_commitments p) \<and>
      sorted_wrt (<) (snap_spent_nullifiers p) \<and>
      sorted_wrt (<) (snap_accepted_transactions p) \<and>
      sorted_wrt (<) (map fst (snap_issued_supply p)) \<and>
      (\<forall>e \<in> set (snap_issued_supply p). fst e \<in> ad_id ` set (snap_assets p)))"

lemma ensure_strictly_sorted_iff: "ensure_strictly_sorted xs \<longleftrightarrow> sorted_wrt (<) xs"
  by (induction xs rule: ensure_strictly_sorted.induct) (auto dest: order.strict_trans)

lemma canonical_assets_Inr_iff:
  "canonical_assets n prior as = Inr bs \<longleftrightarrow>
     bs = as \<and> sorted_wrt (<) (map ad_id as) \<and> (\<forall>a \<in> set as. valid_ticker (ad_ticker a)) \<and>
     (\<forall>p. prior = Some p \<longrightarrow> (\<forall>a \<in> set as. p < ad_id a))"
proof (induction as arbitrary: n prior bs)
  case (Cons a as)
  show ?case
    by (auto simp: AssetDefinition_new_self and_then_eq_Inr Cons split: option.splits if_splits)
qed auto

lemma canonical_supply_Inr_iff:
  "canonical_supply ids n prior es = Inr () \<longleftrightarrow>
     sorted_wrt (<) (map fst es) \<and> (\<forall>e \<in> set es. fst e \<in> ids) \<and>
     (\<forall>p. prior = Some p \<longrightarrow> (\<forall>e \<in> set es. p < fst e))"
proof (induction es arbitrary: n prior)
  case (Cons e es)
  show ?case by (cases e) (auto simp: Cons split: option.splits if_splits)
qed auto

lemma snapshot_tree_ok_iff:
  assumes "tree_wf t"
  shows "(\<exists>t'. snapshot_tree seen t cs = Inr t') \<longleftrightarrow>
    distinct cs \<and> set cs \<inter> fset seen = {} \<and> length (mt_commitments t) + length cs \<le> mt_capacity t"
  using assms
proof (induction cs arbitrary: seen t)
  case (Cons c cs)
  let ?t = "t\<lparr>mt_commitments := mt_commitments t @ [c]\<rparr>"
  have cap: "mt_capacity ?t = mt_capacity t" by (simp add: mt_capacity_def)
  have small: "\<not> 2 ^ 32 \<le> length (mt_commitments t)"
    using tree_wf_D(3) [OF Cons.prems] by (simp add: MAX_COMMITMENTS_def)
  show ?case
  proof (cases "length (mt_commitments t) < mt_capacity t")
    case True
    then have step: "mt_append t c = Inr (of_nat (length (mt_commitments t)), ?t)"
      using small by (simp add: mt_append_def)
    show ?thesis
      using Cons.IH [OF mt_append_Inr(1) [OF Cons.prems step], of "finsert c seen"]
      by (auto simp: step cap)
  next
    case False
    then show ?thesis by (simp add: mt_append_def)
  qed
qed (simp add: tree_wf_def)

lemma from_canonical_parts_Inr_iff:
  "from_canonical_parts d as cs ns es txs = Inr p \<longleftrightarrow>
     p = \<lparr>snap_tree_depth = d, snap_assets = as, snap_commitments = cs, snap_spent_nullifiers = ns,
          snap_issued_supply = es, snap_accepted_transactions = txs\<rparr> \<and> snapshot_ok p"
proof (cases "validate_depth d = Inr ()")
  case True
  then have wf: "tree_wf \<lparr>mt_depth = d, mt_commitments = []\<rparr>" by (simp add: tree_wf_def)
  from True have new: "MerkleTree_new d = Inr \<lparr>mt_depth = d, mt_commitments = []\<rparr>"
    by (simp add: MerkleTree_new_def)
  have "(\<exists>t. snapshot_tree {||} \<lparr>mt_depth = d, mt_commitments = []\<rparr> cs = Inr t) \<longleftrightarrow>
      distinct cs \<and> tree_wf \<lparr>mt_depth = d, mt_commitments = cs\<rparr>"
    using True by (simp add: snapshot_tree_ok_iff [OF wf] tree_wf_def mt_capacity_def)
  then show ?thesis
    by (fastforce simp: from_canonical_parts_def and_then_eq_Inr canonical_assets_Inr_iff new
        ensure_strictly_sorted_iff canonical_supply_Inr_iff snapshot_ok_def)
next
  case False
  then show ?thesis
    by (auto simp: from_canonical_parts_def and_then_eq_Inr MerkleTree_new_def snapshot_ok_def tree_wf_def)
qed

lemma from_canonical_parts_self:
  "from_canonical_parts (snap_tree_depth p) (snap_assets p) (snap_commitments p)
     (snap_spent_nullifiers p) (snap_issued_supply p) (snap_accepted_transactions p) = Inr q \<longleftrightarrow>
   q = p \<and> snapshot_ok p"
  by (cases p) (auto simp: from_canonical_parts_Inr_iff)

subsection \<open>Restoring\<close>

definition assets_map :: "asset_definition list \<Rightarrow> (asset_id, asset_definition) fmap" where
  "assets_map as = fmap_of_list (map (\<lambda>a. (ad_id a, a)) as)"

definition restored :: "ledger_snapshot \<Rightarrow> ledger_state" where
  "restored p =
     \<lparr>ls_assets = assets_map (snap_assets p),
      ls_commitments = fset_of_list (snap_commitments p),
      ls_commitment_tree = \<lparr>mt_depth = snap_tree_depth p, mt_commitments = snap_commitments p\<rparr>,
      ls_spent_nullifiers = fset_of_list (snap_spent_nullifiers p),
      ls_issued_supply = fmap_of_list (snap_issued_supply p),
      ls_accepted_transactions = fset_of_list (snap_accepted_transactions p)\<rparr>"

lemma register_all:
  assumes "distinct (map ad_id as)" and "\<forall>a \<in> set as. ad_id a |\<notin>| fmdom (ls_assets s)"
  shows "try_fold (\<lambda>s a. map_err SnapshotLedger (register_asset s a)) s as =
    Inr (s\<lparr>ls_assets := ls_assets s ++\<^sub>f assets_map as\<rparr>)"
  using assms
proof (induction as arbitrary: s)
  case (Cons a as)
  have "fmupd (ad_id a) a (ls_assets s) ++\<^sub>f assets_map as = ls_assets s ++\<^sub>f assets_map (a # as)"
    using Cons.prems(1)
    by (intro fmap_ext) (auto simp: assets_map_def fmlookup_of_list map_of_eq_None_iff fset_of_list.rep_eq
        image_iff split: option.splits)
  moreover have "register_asset s a = Inr (s\<lparr>ls_assets := fmupd (ad_id a) a (ls_assets s)\<rparr>)"
    using Cons.prems(2) by (simp add: register_asset_def)
  moreover have "\<forall>b \<in> set as. ad_id b \<noteq> ad_id a" using Cons.prems(1) by (auto simp: image_iff)
  ultimately show ?case
    using Cons.IH [of "s\<lparr>ls_assets := fmupd (ad_id a) a (ls_assets s)\<rparr>"] Cons.prems by simp
qed (simp add: assets_map_def)

lemma restore_all:
  assumes "tree_wf (ls_commitment_tree s)"
    and "length (mt_commitments (ls_commitment_tree s)) + length cs \<le> mt_capacity (ls_commitment_tree s)"
  shows "try_fold restore_commitment s cs =
    Inr (s\<lparr>ls_commitment_tree := (ls_commitment_tree s)
             \<lparr>mt_commitments := mt_commitments (ls_commitment_tree s) @ cs\<rparr>,
           ls_commitments := ls_commitments s |\<union>| fset_of_list cs\<rparr>)"
  using assms
proof (induction cs arbitrary: s)
  case (Cons c cs)
  let ?t = "(ls_commitment_tree s)\<lparr>mt_commitments := mt_commitments (ls_commitment_tree s) @ [c]\<rparr>"
  let ?s = "s\<lparr>ls_commitment_tree := ?t, ls_commitments := finsert c (ls_commitments s)\<rparr>"
  have "\<not> 2 ^ 32 \<le> length (mt_commitments (ls_commitment_tree s))"
    using tree_wf_D(3) [OF Cons.prems(1)] by (simp add: MAX_COMMITMENTS_def)
  then have step: "mt_append (ls_commitment_tree s) c =
      Inr (of_nat (length (mt_commitments (ls_commitment_tree s))), ?t)"
    using Cons.prems(2) by (simp add: mt_append_def)
  from mt_append_Inr(1) [OF Cons.prems(1) step] have "tree_wf ?t" .
  then have "try_fold restore_commitment ?s cs = Inr (?s\<lparr>ls_commitment_tree :=
      (ls_commitment_tree ?s)\<lparr>mt_commitments := mt_commitments (ls_commitment_tree ?s) @ cs\<rparr>,
      ls_commitments := ls_commitments ?s |\<union>| fset_of_list cs\<rparr>)"
    using Cons.IH [of ?s] Cons.prems(2) by (simp add: mt_capacity_def)
  moreover have "restore_commitment s c = Inr ?s" by (simp add: restore_commitment_def step)
  ultimately show ?case by simp
qed simp

lemma fold_fmupd:
  "distinct (map fst es) \<Longrightarrow> fold (\<lambda>(k, u) m. fmupd k u m) es m = m ++\<^sub>f fmap_of_list es"
proof (induction es arbitrary: m)
  case (Cons e es)
  then show ?case
    by (cases e) (force simp: fmlookup_of_list map_of_eq_None_iff fset_of_list.rep_eq intro!: fmap_ext
        split: option.splits)
qed simp

lemma from_snapshot_Inr_iff: "from_snapshot p = Inr s \<longleftrightarrow> snapshot_ok p \<and> s = restored p"
proof (cases "snapshot_ok p")
  case True
  let ?t = "\<lparr>mt_depth = snap_tree_depth p, mt_commitments = []\<rparr>"
  from True have wf: "tree_wf \<lparr>mt_depth = snap_tree_depth p, mt_commitments = snap_commitments p\<rparr>"
    by (simp add: snapshot_ok_def)
  then have t: "MerkleTree_new (snap_tree_depth p) = Inr ?t" "tree_wf ?t"
    "length (snap_commitments p) \<le> mt_capacity ?t"
    by (simp_all add: MerkleTree_new_def tree_wf_def mt_capacity_def)
  have d: "distinct (map ad_id (snap_assets p))" "distinct (map fst (snap_issued_supply p))"
    using True by (simp_all add: snapshot_ok_def strict_sorted_iff)
  show ?thesis
    using True t d
    by (auto simp: from_snapshot_def from_canonical_parts_self and_then_eq_Inr LedgerState_new_def
        register_all restore_all fold_fmupd restored_def)
qed (simp add: from_snapshot_def from_canonical_parts_self and_then_eq_Inr)

subsection \<open>Exporting\<close>

definition snapshot_record :: "ledger_state \<Rightarrow> ledger_snapshot" where
  "snapshot_record s =
     \<lparr>snap_tree_depth = mt_depth (ls_commitment_tree s), snap_assets = sorted_assets s,
      snap_commitments = mt_commitments (ls_commitment_tree s),
      snap_spent_nullifiers = sorted_list_of_fset (ls_spent_nullifiers s),
      snap_issued_supply = sorted_supplies s,
      snap_accepted_transactions = sorted_list_of_fset (ls_accepted_transactions s)\<rparr>"

lemma snapshot_Inr_iff: "snapshot s = Inr p \<longleftrightarrow> p = snapshot_record s \<and> snapshot_ok p"
  by (simp add: snapshot_def from_canonical_parts_Inr_iff snapshot_record_def)

lemma sorted_fset [simp]: "sorted_wrt (<) (sorted_list_of_fset (A :: 'a::linorder fset))"
  by (simp add: sorted_list_of_fset.rep_eq)

lemma sorted_list_of_fset_unique:
  "sorted_wrt (<) xs \<Longrightarrow> sorted_list_of_fset (fset_of_list xs) = (xs :: 'a::linorder list)"
  by (simp add: sorted_list_of_fset.rep_eq fset_of_list.rep_eq strict_sorted_iff
      sorted_list_of_set.idem_if_sorted_distinct)

lemma fmlookup_in_dom: "k |\<in>| fmdom m \<Longrightarrow> fmlookup m k = Some (the (fmlookup m k))"
  by (metis fmdom_notD fmlookup_dom_iff option.collapse option.distinct(1))

lemma sorted_assets_eq:
  assumes "assets_ok (ls_assets s)"
  shows "sorted_assets s = map (\<lambda>k. the (fmlookup (ls_assets s) k)) (sorted_list_of_fset (fmdom (ls_assets s)))"
    and "map ad_id (sorted_assets s) = sorted_list_of_fset (fmdom (ls_assets s))"
proof -
  let ?ks = "sorted_list_of_fset (fmdom (ls_assets s))"
  let ?as = "map (\<lambda>k. the (fmlookup (ls_assets s) k)) ?ks"
  have "ad_id (the (fmlookup (ls_assets s) k)) = k" if "k |\<in>| fmdom (ls_assets s)" for k
    using assms fmlookup_in_dom [OF that] unfolding assets_ok_def by blast
  then have ids: "map ad_id ?as = ?ks" unfolding map_map comp_def by (intro map_idI) simp
  have "sorted (map ad_id ?as)" unfolding ids by (rule strict_sorted_imp_sorted) simp
  then have "sort_key ad_id ?as = ?as" by (rule sort_key_id_if_sorted)
  then show eq: "sorted_assets s = ?as"
    by (simp add: sorted_assets_def sorted_list_of_fmap_def comp_def)
  show "map ad_id (sorted_assets s) = ?ks" unfolding eq by (rule ids)
qed

lemma map_fst_sorted_supplies:
  "map fst (sorted_supplies s) = sorted_list_of_fset (fmdom (ls_issued_supply s))"
  by (simp add: sorted_supplies_def sorted_list_of_fmap_def comp_def)

lemma snapshot_record_ok:
  assumes "ledger_inv s"
  shows "snapshot_ok (snapshot_record s)"
proof -
  note inv = ledger_inv_D [OF assms]
  have "valid_ticker (ad_ticker a)" if "a \<in> set (sorted_assets s)" for a
  proof -
    from that obtain k where "k |\<in>| fmdom (ls_assets s)" "a = the (fmlookup (ls_assets s) k)"
      by (auto simp: sorted_assets_eq(1) [OF inv(4)])
    with fmlookup_in_dom [of k "ls_assets s"] inv(4) show ?thesis
      unfolding assets_ok_def by metis
  qed
  moreover have "ad_id ` set (sorted_assets s) = fset (fmdom (ls_assets s))"
    using arg_cong [OF sorted_assets_eq(2) [OF inv(4)], of set] by simp
  moreover have "fst e \<in> fset (fmdom (ls_assets s))" if "e \<in> set (sorted_supplies s)" for e
  proof -
    have "fst e \<in> set (map fst (sorted_supplies s))" using that by simp
    then show ?thesis using inv(5) unfolding map_fst_sorted_supplies by auto
  qed
  ultimately show ?thesis
    using inv(1,2) sorted_assets_eq(2) [OF inv(4)]
    by (simp add: snapshot_ok_def snapshot_record_def map_fst_sorted_supplies)
qed

lemma assets_map_sorted:
  assumes "assets_ok (ls_assets s)"
  shows "assets_map (sorted_assets s) = ls_assets s"
proof -
  have "map (\<lambda>a. (ad_id a, a)) (sorted_assets s) = zip (map ad_id (sorted_assets s)) (sorted_assets s)"
    by (simp add: zip_map1 zip_same_conv_map)
  also have "\<dots> = sorted_list_of_fmap (ls_assets s)"
    unfolding sorted_assets_eq(2) [OF assms]
    by (simp add: sorted_assets_eq(1) [OF assms] sorted_list_of_fmap_def zip_map2 zip_same_conv_map)
  finally have "assets_map (sorted_assets s) = fmap_of_list (sorted_list_of_fmap (ls_assets s))"
    by (simp add: assets_map_def)
  also have "\<dots> = ls_assets s" by (intro fmap_ext) (simp add: fmlookup_of_list)
  finally show ?thesis .
qed

lemma restored_snapshot_record:
  assumes "ledger_inv s"
  shows "restored (snapshot_record s) = s"
proof -
  have "fmap_of_list (sorted_supplies s) = ls_issued_supply s"
    by (intro fmap_ext) (simp add: fmlookup_of_list sorted_supplies_def)
  moreover have "fset_of_list (mt_commitments (ls_commitment_tree s)) = ls_commitments s"
    using ledger_inv_D(3) [OF assms] by (simp add: fset_inject [symmetric] fset_of_list.rep_eq)
  ultimately show ?thesis
    by (simp add: restored_def snapshot_record_def assets_map_sorted ledger_inv_D(4) [OF assms])
qed

lemma snapshot_record_restored:
  assumes "snapshot_ok p" and "\<forall>e \<in> set (snap_issued_supply p). snd e \<noteq> 0"
  shows "ledger_inv (restored p)" and "snapshot_record (restored p) = p"
proof -
  let ?as = "snap_assets p" and ?es = "snap_issued_supply p"
  have sorted: "sorted_wrt (<) (map ad_id ?as)" "sorted_wrt (<) (map fst ?es)"
    "sorted_wrt (<) (snap_spent_nullifiers p)" "sorted_wrt (<) (snap_accepted_transactions p)"
    using assms(1) by (simp_all add: snapshot_ok_def)
  have lookup: "fmlookup (assets_map ?as) k = Some a \<longleftrightarrow> a \<in> set ?as \<and> ad_id a = k" for k a
    using sorted(1) by (auto simp: assets_map_def fmlookup_of_list strict_sorted_iff comp_def)
  have dom: "fset (fmdom (assets_map ?as)) = ad_id ` set ?as"
    by (simp add: assets_map_def comp_def fset_of_list.rep_eq image_image)
  have ok: "assets_ok (assets_map ?as)"
    using assms(1) by (auto simp: assets_ok_def lookup snapshot_ok_def)
  have ran: "0 \<notin> fset (fmran (fmap_of_list ?es))"
    using assms(2) by (auto simp: fmlookup_ran_iff dest!: fmap_of_list_SomeD)
  have "fset (fmdom (fmap_of_list ?es)) \<subseteq> fset (fmdom (assets_map ?as))"
    using assms(1) by (simp add: dom fset_of_list.rep_eq snapshot_ok_def image_subset_iff)
  then show "ledger_inv (restored p)"
    using assms(1) ok ran
    by (simp add: ledger_inv_def restored_def snapshot_ok_def fset_of_list.rep_eq less_eq_fset.rep_eq)
  have ids: "sorted_list_of_fset (fmdom (assets_map ?as)) = map ad_id ?as"
    using sorted_list_of_fset_unique [OF sorted(1)] by (simp add: assets_map_def comp_def)
  have "map (\<lambda>k. the (fmlookup (assets_map ?as) k)) (map ad_id ?as) = ?as"
    unfolding map_map comp_def by (intro map_idI) (metis lookup option.sel)
  then have "sorted_assets (restored p) = ?as"
    using ok ids by (subst sorted_assets_eq(1)) (simp_all add: restored_def)
  moreover have "map (\<lambda>k. (k, the (fmlookup (fmap_of_list ?es) k))) (map fst ?es) = ?es"
    using sorted(2) by (auto intro!: map_idI simp: comp_def fmlookup_of_list strict_sorted_iff)
  then have "sorted_supplies (restored p) = ?es"
    using sorted_list_of_fset_unique [OF sorted(2)]
    by (simp add: sorted_supplies_def sorted_list_of_fmap_def restored_def)
  ultimately show "snapshot_record (restored p) = p"
    using sorted(3,4) by (cases p) (simp add: snapshot_record_def restored_def sorted_list_of_fset_unique)
qed

subsection \<open>What the state identity commits to\<close>

lemma snapshot_supply_nonzero:
  assumes "ledger_inv s" and "snapshot s = Inr p" and "e \<in> set (snap_issued_supply p)"
  shows "snd e \<noteq> 0"
proof -
  have "(a, n) \<in> set (sorted_list_of_fmap m) \<Longrightarrow> n |\<in>| fmran m" for a n and m :: "(asset_id, amount) fmap"
    by (auto simp: sorted_list_of_fmap_def sorted_list_of_fset.rep_eq fmlookup_dom_iff intro: fmranI)
  then show ?thesis
    using assms by (cases e) (auto simp: snapshot_Inr_iff snapshot_record_def sorted_supplies_def ledger_inv_def)
qed

definition counts_fit :: "ledger_state \<Rightarrow> bool" where
  "counts_fit s = (length (sorted_assets s) < 2 ^ 32 \<and> length (sorted_supplies s) < 2 ^ 32 \<and>
     length (sorted_list_of_fset (ls_spent_nullifiers s)) < 2 ^ 32 \<and>
     length (sorted_list_of_fset (ls_accepted_transactions s)) < 2 ^ 32)"

definition prefix_code :: "('a \<Rightarrow> bool) \<Rightarrow> ('a \<Rightarrow> bytes) \<Rightarrow> bool" where
  "prefix_code P f = (\<forall>a b r r'. P a \<longrightarrow> P b \<longrightarrow> f a @ r = f b @ r' \<longrightarrow> a = b \<and> r = r')"

lemma write_count_inject:
  "m < 2 ^ 32 \<Longrightarrow> n < 2 ^ 32 \<Longrightarrow> write_count m @ r = write_count n @ r' \<longleftrightarrow> m = n \<and> r = r'"
  by (auto simp: write_count_def word_unat_eq_iff unat_of_nat)

lemma prefix_code_concat:
  assumes "prefix_code P f" "length xs = length ys" "\<forall>x \<in> set xs. P x" "\<forall>y \<in> set ys. P y"
    "concat (map f xs) @ r = concat (map f ys) @ r'"
  shows "xs = ys \<and> r = r'"
  using assms(2-)
proof (induction xs ys rule: list_induct2)
  case (Cons x xs y ys)
  have "f x @ (concat (map f xs) @ r) = f y @ (concat (map f ys) @ r')"
    using Cons.prems(3) by simp
  moreover have "P x" "P y" using Cons.prems by simp_all
  ultimately have "x = y" "concat (map f xs) @ r = concat (map f ys) @ r'"
    using assms(1) unfolding prefix_code_def by blast+
  with Cons show ?case by simp
qed simp

lemma counted_inject:
  assumes "prefix_code P f" "length xs < 2 ^ 32" "length ys < 2 ^ 32" "\<forall>x \<in> set xs. P x"
    "\<forall>y \<in> set ys. P y" "counted f xs @ r = counted f ys @ r'"
  shows "xs = ys \<and> r = r'"
proof -
  from assms(6) have "length xs = length ys" "concat (map f xs) @ r = concat (map f ys) @ r'"
    unfolding counted_def append_assoc write_count_inject [OF assms(2,3)] by simp_all
  then show ?thesis by (rule prefix_code_concat [OF assms(1) _ assms(4,5)])
qed

lemma prefix_code_id32: "prefix_code (\<lambda>_. True) (to_be_bytes :: id32 \<Rightarrow> bytes)"
  by (simp add: prefix_code_def)

lemma prefix_code_supply: "prefix_code (\<lambda>_. True) supply_input"
  by (auto simp: prefix_code_def supply_input_def prod_eq_iff)

lemma prefix_code_asset: "prefix_code (\<lambda>a. length (ad_ticker a) < 2 ^ 32) asset_input"
proof -
  have tag: "asset_kind_tag k = asset_kind_tag k' \<longleftrightarrow> k = k'" for k k'
    by (cases k; cases k') simp_all
  show ?thesis
    by (auto simp: prefix_code_def asset_input_def write_bytes_def write_count_inject tag
        intro!: asset_definition.equality)
qed

lemma state_input_inject:
  assumes "ledger_inv s" "ledger_inv t" "counts_fit s" "counts_fit t"
    and eq: "state_input sha g s = state_input sha h t"
  shows "g = h \<and> ledger_merkle_root sha s = ledger_merkle_root sha t \<and> sorted_assets s = sorted_assets t \<and>
    sorted_supplies s = sorted_supplies t \<and> ls_spent_nullifiers s = ls_spent_nullifiers t \<and>
    ls_accepted_transactions s = ls_accepted_transactions t"
proof -
  note fit = assms(3,4) [unfolded counts_fit_def]
  have tickers: "\<forall>a \<in> set (sorted_assets u). length (ad_ticker a) < 2 ^ 32" if "ledger_inv u" for u
    using snapshot_record_ok [OF that]
    by (auto simp: snapshot_ok_def snapshot_record_def valid_ticker_def)
  from eq have g: "g = h" and root: "mr_depth (ledger_merkle_root sha s) = mr_depth (ledger_merkle_root sha t)"
      "mr_digest (ledger_merkle_root sha s) = mr_digest (ledger_merkle_root sha t)"
    and rest: "counted asset_input (sorted_assets s) @
        counted supply_input (sorted_supplies s) @
        counted to_be_bytes (sorted_list_of_fset (ls_spent_nullifiers s)) @
        counted to_be_bytes (sorted_list_of_fset (ls_accepted_transactions s)) =
      counted asset_input (sorted_assets t) @
        counted supply_input (sorted_supplies t) @
        counted to_be_bytes (sorted_list_of_fset (ls_spent_nullifiers t)) @
        counted to_be_bytes (sorted_list_of_fset (ls_accepted_transactions t))"
    by (simp_all add: state_input_def)
  from counted_inject [OF prefix_code_asset _ _ tickers tickers rest] assms fit
  have as: "sorted_assets s = sorted_assets t" and rest1: "counted supply_input (sorted_supplies s) @
        counted to_be_bytes (sorted_list_of_fset (ls_spent_nullifiers s)) @
        counted to_be_bytes (sorted_list_of_fset (ls_accepted_transactions s)) =
      counted supply_input (sorted_supplies t) @
        counted to_be_bytes (sorted_list_of_fset (ls_spent_nullifiers t)) @
        counted to_be_bytes (sorted_list_of_fset (ls_accepted_transactions t))"
    by blast+
  from counted_inject [OF prefix_code_supply _ _ _ _ rest1] fit
  have es: "sorted_supplies s = sorted_supplies t" and
    rest2: "counted to_be_bytes (sorted_list_of_fset (ls_spent_nullifiers s)) @
        counted to_be_bytes (sorted_list_of_fset (ls_accepted_transactions s)) =
      counted to_be_bytes (sorted_list_of_fset (ls_spent_nullifiers t)) @
        counted to_be_bytes (sorted_list_of_fset (ls_accepted_transactions t))"
    by blast+
  from counted_inject [OF prefix_code_id32 _ _ _ _ rest2] fit
  have ns: "sorted_list_of_fset (ls_spent_nullifiers s) = sorted_list_of_fset (ls_spent_nullifiers t)"
    and rest3: "counted to_be_bytes (sorted_list_of_fset (ls_accepted_transactions s)) @ [] =
      counted to_be_bytes (sorted_list_of_fset (ls_accepted_transactions t)) @ []"
    by auto
  from counted_inject [OF prefix_code_id32 _ _ _ _ rest3] fit
  have txs: "sorted_list_of_fset (ls_accepted_transactions s) =
      sorted_list_of_fset (ls_accepted_transactions t)"
    by blast
  from ns txs have "ls_spent_nullifiers s = ls_spent_nullifiers t"
    "ls_accepted_transactions s = ls_accepted_transactions t"
    by (metis sorted_list_of_fset_simps(2))+
  with g root as es show ?thesis by (cases "ledger_merkle_root sha s"; cases "ledger_merkle_root sha t") simp
qed

text \<open>Everything hashed while computing a state's identity.\<close>

definition state_inputs :: "sha256 \<Rightarrow> genesis_id \<Rightarrow> ledger_state \<Rightarrow> bytes set" where
  "state_inputs sha g s = insert (state_input sha g s) (tree_inputs sha (ls_commitment_tree s))"

lemma snapshot_record_inject:
  "ledger_inv s \<Longrightarrow> ledger_inv t \<Longrightarrow> snapshot_record s = snapshot_record t \<Longrightarrow> s = t"
  by (metis restored_snapshot_record)

lemma root_binds_tree:
  assumes "ledger_inv s" "ledger_inv t" "ledger_merkle_root sha s = ledger_merkle_root sha t"
    and "\<not> collision_between sha (tree_inputs sha (ls_commitment_tree s)) (tree_inputs sha (ls_commitment_tree t))"
  shows "ls_commitment_tree s = ls_commitment_tree t"
  using root_binds_tree_commitments [OF ledger_inv_D(1) [OF assms(1)] ledger_inv_D(1) [OF assms(2)]
      assms(3) [unfolded ledger_merkle_root_def]] assms(3,4)
  by (cases "ls_commitment_tree s"; cases "ls_commitment_tree t") (simp add: ledger_merkle_root_def mt_root_def)

subsection \<open>Properties\<close>

text \<open>C25: A state identity commits to the whole ledger: if two well-formed states (each
  collection below \<open>2 ^ 32\<close> entries) have the same \<^verbatim>\<open>state_id\<close>, then the genesis identifiers and the
  states are equal, or the inputs hashed for the two identities contain a SHA-256 collision.\<close>

theorem state_id_binds_state:
  assumes "ledger_inv s" and "ledger_inv t" and "counts_fit s" and "counts_fit t"
    and "ledger_state_id sha g s = ledger_state_id sha h t"
  shows "(g = h \<and> s = t) \<or> collision_between sha (state_inputs sha g s) (state_inputs sha h t)"
proof (rule disjCI)
  assume nc: "\<not> collision_between sha (state_inputs sha g s) (state_inputs sha h t)"
  then have "state_input sha g s = state_input sha h t"
    using assms(5) unfolding ledger_state_id_def collision_between_def state_inputs_def by blast
  note eqs = state_input_inject [OF assms(1-4) this]
  have "\<not> collision_between sha (tree_inputs sha (ls_commitment_tree s)) (tree_inputs sha (ls_commitment_tree t))"
    using nc unfolding state_inputs_def by (blast intro: collision_mono)
  then have "ls_commitment_tree s = ls_commitment_tree t"
    using root_binds_tree [OF assms(1,2)] eqs by blast
  then have "snapshot_record s = snapshot_record t" using eqs by (simp add: snapshot_record_def)
  with snapshot_record_inject [OF assms(1,2)] eqs show "g = h \<and> s = t" by blast
qed

theorem state_id_binds_state_witness:
  "ledger_state_id (\<lambda>_. 5) 0 sample_state = ledger_state_id (\<lambda>_. 5) 0 sample_minted \<and>
   collision_between (\<lambda>_. 5) (state_inputs (\<lambda>_. 5) 0 sample_state) (state_inputs (\<lambda>_. 5) 0 sample_minted)"
proof -
  have "counts_fit sample_state" "counts_fit sample_minted"
    by (simp_all add: counts_fit_def sorted_assets_def sorted_supplies_def sorted_list_of_fmap_def
        sorted_list_of_fset.rep_eq sample_minted_def ledger_effect_def sample_simps op_simps)
  moreover have "mt_commitments (ls_commitment_tree sample_state) \<noteq> mt_commitments (ls_commitment_tree sample_minted)"
    by (simp add: sample_minted_def ledger_effect_def sample_simps op_simps)
  then have "sample_state \<noteq> sample_minted" by auto
  moreover have "ledger_state_id (\<lambda>_. 5) 0 sample_state = ledger_state_id (\<lambda>_. 5) 0 sample_minted"
    by (simp add: ledger_state_id_def)
  ultimately show ?thesis
    using state_id_binds_state [OF sample_state_inv sample_minted_inv, of "\<lambda>_. 5" 0 0] by blast
qed

text \<open>Snapshots are exact. Exporting a well-formed state never panics, and a snapshot restores to a
  state (its amounts being nonzero, as the type \<^verbatim>\<open>Amount\<close> guarantees) precisely when that state is well
  formed and the snapshot is the one it exports: the round trip is the identity both ways, and no two
  accepted snapshots describe the same state.\<close>

lemma snapshot_codec_exact:
  "(from_snapshot p = Inr s \<and> 0 \<notin> snd ` set (snap_issued_supply p) \<longleftrightarrow> ledger_inv s \<and> snapshot s = Inr p) \<and>
   (ledger_inv s \<longrightarrow> (\<exists>q. snapshot s = Inr q))"
proof -
  have nz: "0 \<notin> snd ` set (snap_issued_supply p) \<longleftrightarrow> (\<forall>e \<in> set (snap_issued_supply p). snd e \<noteq> 0)" by force
  have "snapshot s = Inr p \<Longrightarrow> ledger_inv s \<Longrightarrow> 0 \<notin> snd ` set (snap_issued_supply p)"
    using snapshot_supply_nonzero by fastforce
  then show ?thesis
    using snapshot_record_ok [of s] restored_snapshot_record [of s] snapshot_record_restored [of p]
    by (auto simp: from_snapshot_Inr_iff snapshot_Inr_iff nz)
qed

text \<open>
  \<^verbatim>\<open>register_asset\<close> takes any \<^verbatim>\<open>AssetDefinition\<close> value, and the fields of that struct are public, so
  an asset with an empty ticker can be registered. The next \<^verbatim>\<open>snapshot\<close> then fails its own
  canonicality check, which the code unwraps as impossible.
\<close>

theorem unvalidated_asset_breaks_snapshot:
  "register_asset sample_state \<lparr>ad_id = 2, ad_ticker = [], ad_kind = Synthetic\<rparr> = Inr s \<Longrightarrow>
     \<exists>e. snapshot s = Inl e"
proof -
  let ?bad = "\<lparr>ad_id = 2, ad_ticker = [], ad_kind = Synthetic\<rparr>"
  assume "register_asset sample_state ?bad = Inr s"
  then have "fmlookup (ls_assets s) 2 = Some ?bad"
    by (auto simp: register_asset_def sample_state_def)
  then have "?bad \<in> set (sorted_assets s)"
    by (force simp: sorted_assets_def sorted_list_of_fmap_def intro!: image_eqI [of _ _ 2]
        fmdomI)
  then have "\<not> snapshot_ok (snapshot_record s)"
    by (force simp: snapshot_ok_def snapshot_record_def valid_ticker_def)
  then show ?thesis
    by (cases "snapshot s") (auto simp: snapshot_Inr_iff)
qed

end
