(* ===== verification/Codec.thy ===== *)
theory Codec
  imports Ledger
begin

text \<open>
  The transaction codec of \<^verbatim>\<open>crates/noxis-codec\<close>: the canonical wire form of a transaction, its
  decoder, and the semantic intent encoding and identity. Each part of the format is shown to meet
  the \<open>wire_format\<close> contract; the whole message then reads back exactly and has one encoding.
\<close>

subsection \<open>Constants and errors\<close>

definition TRANSACTION_MAGIC :: bytes where "TRANSACTION_MAGIC = ascii ''NOXT''"
definition TRANSACTION_FORMAT_VERSION :: u16 where "TRANSACTION_FORMAT_VERSION = 1"
definition MAX_COLLECTION_ITEMS :: u32 where "MAX_COLLECTION_ITEMS = 65536"
definition MAX_OPAQUE_BYTES :: u32 where "MAX_OPAQUE_BYTES = 16 * 1024 * 1024"
definition OPERATION_TRANSFER :: byte where "OPERATION_TRANSFER = 1"
definition OPERATION_MINT :: byte where "OPERATION_MINT = 2"

datatype codec_error =
  InvalidMagic
| UnsupportedFormatVersion u16
| UnknownOperation byte
| UnknownAlgorithm byte
| InvalidCryptoSuite crypto_suite_error
| UnexpectedEnd nat
| TrailingBytes nat
| LengthOverflow
| CollectionTooLarge nat u32
| OpaqueDataTooLarge nat u32
| EmptyRequiredField string
| ZeroMintAmount
| ProofSuiteVersionMismatch u16 u16

definition codec_reader :: "codec_error reader_error" where
  "codec_reader = \<lparr>err_overflow = LengthOverflow, err_end = UnexpectedEnd, err_trailing = TrailingBytes\<rparr>"

lemma length_magic [simp]: "length TRANSACTION_MAGIC = 4"
  by (simp add: TRANSACTION_MAGIC_def ascii_def)

subsection \<open>Limits\<close>

definition codec_ensure_non_empty :: "nat \<Rightarrow> string \<Rightarrow> codec_error + unit" where
  "codec_ensure_non_empty len field = (if len = 0 then Inl (EmptyRequiredField field) else Inr ())"

definition ensure_collection_limit :: "nat \<Rightarrow> codec_error + unit" where
  "ensure_collection_limit len =
     (if len > unat MAX_COLLECTION_ITEMS then Inl (CollectionTooLarge len MAX_COLLECTION_ITEMS)
      else Inr ())"

definition ensure_opaque_limit :: "nat \<Rightarrow> codec_error + unit" where
  "ensure_opaque_limit len =
     (if len > unat MAX_OPAQUE_BYTES then Inl (OpaqueDataTooLarge len MAX_OPAQUE_BYTES) else Inr ())"

definition validate_transaction_shape :: "transaction \<Rightarrow> codec_error + unit" where
  "validate_transaction_shape tx =
     and_then (map_err InvalidCryptoSuite (suite_validate (tx_suite tx))) (\<lambda>_.
     case tx_operation tx of
       Transfer t \<Rightarrow>
         and_then (codec_ensure_non_empty (length (tr_input_nullifiers t)) ''transfer input nullifiers'') (\<lambda>_.
         and_then (codec_ensure_non_empty (length (tr_output_commitments t)) ''transfer output commitments'') (\<lambda>_.
         and_then (ensure_collection_limit (length (tr_input_nullifiers t))) (\<lambda>_.
         and_then (ensure_collection_limit (length (tr_output_commitments t))) (\<lambda>_.
         and_then (ensure_opaque_limit (length (zp_bytes (tr_proof t)))) (\<lambda>_.
         if cs_version (tx_suite tx) \<noteq> zp_suite_version (tr_proof t)
         then Inl (ProofSuiteVersionMismatch (cs_version (tx_suite tx)) (zp_suite_version (tr_proof t)))
         else Inr ())))))
     | Mint m \<Rightarrow>
         and_then (codec_ensure_non_empty (length (mi_output_commitments m)) ''mint output commitments'') (\<lambda>_.
         and_then (ensure_collection_limit (length (mi_output_commitments m))) (\<lambda>_.
         ensure_opaque_limit (length (mi_authorization m)))))"

subsection \<open>Writing\<close>

fun encode_algorithm :: "algorithm_id \<Rightarrow> byte" where
  "encode_algorithm Sha3_256 = 1"
| "encode_algorithm X25519 = 2"
| "encode_algorithm MlKem768 = 3"
| "encode_algorithm Ed25519 = 4"
| "encode_algorithm MlDsa65 = 5"
| "encode_algorithm PluggableProofSystem = 6"
| "encode_algorithm Sha256 = 7"

definition write_suite :: "crypto_suite \<Rightarrow> bytes" where
  "write_suite s = to_be_bytes (cs_version s) @
     [encode_algorithm (cs_hash s), encode_algorithm (cs_transport_kem s),
      encode_algorithm (cs_identity_signature s), encode_algorithm (cs_proof_system s)]"

definition write_identifiers :: "id32 list \<Rightarrow> codec_error + bytes" where
  "write_identifiers values =
     and_then (ensure_collection_limit (length values)) (\<lambda>_.
     and_then (ok_or (try_from_usize (length values))
         (CollectionTooLarge (length values) MAX_COLLECTION_ITEMS)) (\<lambda>len :: u32.
     Inr (to_be_bytes len @ concat (map to_be_bytes values))))"

definition codec_write_bytes :: "bytes \<Rightarrow> codec_error + bytes" where
  "codec_write_bytes bs =
     and_then (ensure_opaque_limit (length bs)) (\<lambda>_.
     and_then (ok_or (try_from_usize (length bs))
         (OpaqueDataTooLarge (length bs) MAX_OPAQUE_BYTES)) (\<lambda>len :: u32.
     Inr (to_be_bytes len @ bs)))"

definition encode_transaction :: "transaction \<Rightarrow> codec_error + bytes" where
  "encode_transaction tx =
     and_then (validate_transaction_shape tx) (\<lambda>_.
     let output = TRANSACTION_MAGIC @ to_be_bytes TRANSACTION_FORMAT_VERSION @
           to_be_bytes (tx_id tx) @ write_suite (tx_suite tx)
     in case tx_operation tx of
       Transfer t \<Rightarrow>
         and_then (write_identifiers (tr_input_nullifiers t)) (\<lambda>inputs.
         and_then (write_identifiers (tr_output_commitments t)) (\<lambda>outputs.
         and_then (codec_write_bytes (zp_bytes (tr_proof t))) (\<lambda>proof_bytes.
         Inr (output @ [OPERATION_TRANSFER] @ to_be_bytes (tr_asset_id t) @ inputs @ outputs @
              to_be_bytes (zp_suite_version (tr_proof t)) @ proof_bytes))))
     | Mint m \<Rightarrow>
         and_then (write_identifiers (mi_output_commitments m)) (\<lambda>outputs.
         and_then (codec_write_bytes (mi_authorization m)) (\<lambda>authorization.
         Inr (output @ [OPERATION_MINT] @ to_be_bytes (mi_asset_id m) @ to_be_bytes (mi_amount m) @
              outputs @ authorization))))"

definition encode_transaction_intent :: "transaction \<Rightarrow> codec_error + bytes" where
  "encode_transaction_intent tx =
     and_then (validate_transaction_shape tx) (\<lambda>_.
     let output = ascii ''NXTI'' @ to_be_bytes (1 :: u16) @ write_suite (tx_suite tx)
     in case tx_operation tx of
       Transfer t \<Rightarrow>
         and_then (write_identifiers (tr_input_nullifiers t)) (\<lambda>inputs.
         and_then (write_identifiers (tr_output_commitments t)) (\<lambda>outputs.
         Inr (output @ [OPERATION_TRANSFER] @ to_be_bytes (tr_asset_id t) @ inputs @ outputs)))
     | Mint m \<Rightarrow>
         and_then (write_identifiers (mi_output_commitments m)) (\<lambda>outputs.
         Inr (output @ [OPERATION_MINT] @ to_be_bytes (mi_asset_id m) @ to_be_bytes (mi_amount m) @
              outputs)))"

definition transaction_intent_id :: "sha256 \<Rightarrow> transaction \<Rightarrow> codec_error + transaction_intent_id" where
  "transaction_intent_id sha tx =
     and_then (encode_transaction_intent tx) (\<lambda>intent.
     and_then (ok_or (try_from_usize (length intent)) LengthOverflow) (\<lambda>len :: u32.
     Inr (sha (ascii ''NOXIS/TX-INTENT-ID/V1'' @ [0] @ to_be_bytes len @ intent))))"

subsection \<open>Reading\<close>

definition decode_algorithm :: "byte \<Rightarrow> codec_error + algorithm_id" where
  "decode_algorithm code =
     (if code = 1 then Inr Sha3_256
      else if code = 2 then Inr X25519
      else if code = 3 then Inr MlKem768
      else if code = 4 then Inr Ed25519
      else if code = 5 then Inr MlDsa65
      else if code = 6 then Inr PluggableProofSystem
      else if code = 7 then Inr Sha256
      else Inl (UnknownAlgorithm code))"

definition read_algorithm :: "reader \<Rightarrow> codec_error + algorithm_id \<times> reader" where
  "read_algorithm r =
     and_then (read_word codec_reader r) (\<lambda>(code, r).
     and_then (decode_algorithm code) (\<lambda>a. Inr (a, r)))"

definition read_suite :: "reader \<Rightarrow> codec_error + crypto_suite \<times> reader" where
  "read_suite r =
     and_then (read_word codec_reader r) (\<lambda>(version, r).
     and_then (read_algorithm r) (\<lambda>(h, r).
     and_then (read_algorithm r) (\<lambda>(k, r).
     and_then (read_algorithm r) (\<lambda>(i, r).
     and_then (read_algorithm r) (\<lambda>(p, r).
     Inr (\<lparr>cs_version = version, cs_hash = h, cs_transport_kem = k, cs_identity_signature = i,
           cs_proof_system = p\<rparr>, r))))))"

definition read_collection_length :: "reader \<Rightarrow> codec_error + nat \<times> reader" where
  "read_collection_length r =
     and_then (read_word codec_reader r) (\<lambda>(len :: u32, r).
     if len > MAX_COLLECTION_ITEMS then Inl (CollectionTooLarge (unat len) MAX_COLLECTION_ITEMS)
     else and_then (ok_or (checked_mul_usize (unat len) 32) LengthOverflow) (\<lambda>byte_count.
       if rd_remaining r < byte_count then Inl (UnexpectedEnd (rd_offset r))
       else Inr (unat len, r)))"

definition read_identifiers :: "reader \<Rightarrow> codec_error + id32 list \<times> reader" where
  "read_identifiers r =
     and_then (read_collection_length r) (\<lambda>(len, r). read_many (read_word codec_reader) len r)"

definition read_bytes :: "reader \<Rightarrow> codec_error + bytes \<times> reader" where
  "read_bytes r =
     and_then (read_word codec_reader r) (\<lambda>(len :: u32, r).
     if len > MAX_OPAQUE_BYTES then Inl (OpaqueDataTooLarge (unat len) MAX_OPAQUE_BYTES)
     else read_exact codec_reader (unat len) r)"

definition read_transfer :: "reader \<Rightarrow> codec_error + transfer \<times> reader" where
  "read_transfer r =
     and_then (read_word codec_reader r) (\<lambda>(asset_id, r).
     and_then (read_identifiers r) (\<lambda>(input_nullifiers, r).
     and_then (read_identifiers r) (\<lambda>(output_commitments, r).
     and_then (read_word codec_reader r) (\<lambda>(suite_version, r).
     and_then (read_bytes r) (\<lambda>(proof_bytes, r).
     Inr (\<lparr>tr_asset_id = asset_id, tr_input_nullifiers = input_nullifiers,
           tr_output_commitments = output_commitments,
           tr_proof = \<lparr>zp_suite_version = suite_version, zp_bytes = proof_bytes\<rparr>\<rparr>, r))))))"

definition read_mint :: "reader \<Rightarrow> codec_error + mint \<times> reader" where
  "read_mint r =
     and_then (read_word codec_reader r) (\<lambda>(asset_id, r).
     and_then (read_word codec_reader r) (\<lambda>(units, r).
     and_then (ok_or (Amount_new units) ZeroMintAmount) (\<lambda>amount.
     and_then (read_identifiers r) (\<lambda>(output_commitments, r).
     and_then (read_bytes r) (\<lambda>(authorization, r).
     Inr (\<lparr>mi_asset_id = asset_id, mi_amount = amount, mi_output_commitments = output_commitments,
           mi_authorization = authorization\<rparr>, r))))))"

definition read_operation :: "reader \<Rightarrow> codec_error + operation \<times> reader" where
  "read_operation r =
     and_then (read_word codec_reader r) (\<lambda>(tag, r).
     if tag = OPERATION_TRANSFER
     then and_then (read_transfer r) (\<lambda>(t, r). Inr (Transfer t, r))
     else if tag = OPERATION_MINT
     then and_then (read_mint r) (\<lambda>(m, r). Inr (Mint m, r))
     else Inl (UnknownOperation tag))"

definition decode_transaction :: "bytes \<Rightarrow> codec_error + transaction" where
  "decode_transaction bs =
     and_then (read_array codec_reader 4 (new_reader bs)) (\<lambda>(magic, r).
     if magic \<noteq> TRANSACTION_MAGIC then Inl InvalidMagic
     else and_then (read_word codec_reader r) (\<lambda>(version, r).
     if version \<noteq> TRANSACTION_FORMAT_VERSION then Inl (UnsupportedFormatVersion version)
     else and_then (read_word codec_reader r) (\<lambda>(i, r).
     and_then (read_suite r) (\<lambda>(suite, r).
     and_then (read_operation r) (\<lambda>(operation, r).
     and_then (finish codec_reader r) (\<lambda>_.
     let tx = \<lparr>tx_id = i, tx_suite = suite, tx_operation = operation\<rparr>
     in and_then (validate_transaction_shape tx) (\<lambda>_. Inr tx)))))))"

subsection \<open>Each part of the format meets the wire contract\<close>

lemma decode_encode_algorithm [simp]: "decode_algorithm (encode_algorithm a) = Inr a"
  by (cases a) (simp_all add: decode_algorithm_def)

lemma decode_algorithm_only: "decode_algorithm c = Inr a \<Longrightarrow> c = encode_algorithm a"
  by (auto simp: decode_algorithm_def split: if_splits)

lemma read_algorithm_back [wire_simps]:
  "length pre + 1 + length rest < 2 ^ 64 \<Longrightarrow>
     read_algorithm (reader_at pre (encode_algorithm a # rest)) =
     Inr (a, reader_at (pre @ [encode_algorithm a]) rest)"
  by (simp add: read_algorithm_def wire_simps)

lemma read_algorithm_only [wire_dests]:
  "read_algorithm (reader_at pre inp) = Inr (a, r) \<Longrightarrow>
     \<exists>rest. inp = encode_algorithm a # rest \<and> r = reader_at (pre @ [encode_algorithm a]) rest"
  by (auto simp: read_algorithm_def and_then_eq_Inr dest!: wire_dests decode_algorithm_only)

interpretation suite: wire_format write_suite read_suite "\<lambda>_. True"
proof
  fix s :: crypto_suite and pre rest :: bytes
  assume "length pre + length (write_suite s) + length rest < 2 ^ 64"
  then show "read_suite (reader_at pre (write_suite s @ rest)) =
      Inr (s, reader_at (pre @ write_suite s) rest)"
    by (simp add: read_suite_def write_suite_def wire_simps)
next
  fix pre inp :: bytes and s :: crypto_suite and r
  assume "read_suite (reader_at pre inp) = Inr (s, r)"
  then show "True \<and> (\<exists>rest. inp = write_suite s @ rest \<and> r = reader_at (pre @ write_suite s) rest)"
    by (auto simp: read_suite_def write_suite_def and_then_eq_Inr dest!: wire_dests)
qed

definition identifiers_bytes :: "id32 list \<Rightarrow> bytes" where
  "identifiers_bytes ids = to_be_bytes (of_nat (length ids) :: u32) @ concat (map to_be_bytes ids)"

definition opaque_bytes :: "bytes \<Rightarrow> bytes" where
  "opaque_bytes bs = to_be_bytes (of_nat (length bs) :: u32) @ bs"

lemma limits [simp]: "unat MAX_COLLECTION_ITEMS = 65536" "unat MAX_OPAQUE_BYTES = 16777216"
  by (simp_all add: MAX_COLLECTION_ITEMS_def MAX_OPAQUE_BYTES_def)

lemma write_identifiers_eq:
  "write_identifiers ids = (if length ids \<le> 65536 then Inr (identifiers_bytes ids)
     else Inl (CollectionTooLarge (length ids) MAX_COLLECTION_ITEMS))"
  by (simp add: write_identifiers_def ensure_collection_limit_def try_from_usize_def identifiers_bytes_def)

lemma write_bytes_eq:
  "codec_write_bytes bs = (if length bs \<le> 16777216 then Inr (opaque_bytes bs)
     else Inl (OpaqueDataTooLarge (length bs) MAX_OPAQUE_BYTES))"
  by (simp add: codec_write_bytes_def ensure_opaque_limit_def try_from_usize_def opaque_bytes_def)

lemma length_id_bytes [simp]: "length (concat (map to_be_bytes (ids :: id32 list))) = 32 * length ids"
  by (induction ids) simp_all

lemma length_identifiers_bytes [simp]: "length (identifiers_bytes ids) = 4 + 32 * length ids"
  by (simp add: identifiers_bytes_def)

lemma length_opaque_bytes [simp]: "length (opaque_bytes bs) = 4 + length bs"
  by (simp add: opaque_bytes_def)

lemma unat_u32_small: "n \<le> 16777216 \<Longrightarrow> unat (of_nat n :: u32) = n"
  by (simp add: unat_of_nat)

interpretation ids: wire_format identifiers_bytes read_identifiers "\<lambda>ids. length ids \<le> 65536"
proof
  fix x :: "id32 list" and pre rest :: bytes
  assume *: "length x \<le> 65536" "length pre + length (identifiers_bytes x) + length rest < 2 ^ 64"
  then have "of_nat (length x) \<le> MAX_COLLECTION_ITEMS"
    by (simp add: word_le_nat_alt unat_u32_small)
  with * show "read_identifiers (reader_at pre (identifiers_bytes x @ rest)) =
      Inr (x, reader_at (pre @ identifiers_bytes x) rest)"
    using id32.read_many_back [of x "pre @ to_be_bytes (of_nat (length x) :: u32)" rest codec_reader]
    by (simp add: read_identifiers_def read_collection_length_def identifiers_bytes_def wire_simps
        unat_u32_small not_less checked_mul_usize_def)
next
  fix pre inp :: bytes and x :: "id32 list" and r
  assume "read_identifiers (reader_at pre inp) = Inr (x, r)"
  then obtain len :: u32 and rest where inp: "inp = to_be_bytes len @ rest"
    and le: "len \<le> MAX_COLLECTION_ITEMS"
    and many: "read_many (read_word codec_reader) (unat len) (reader_at (pre @ to_be_bytes len) rest) = Inr (x, r)"
    by (auto simp: read_identifiers_def read_collection_length_def and_then_eq_Inr not_less
        split: if_splits dest!: wire_dests)
  from id32.read_many_only [OF many] have len: "unat len = length x" by simp
  have enc: "identifiers_bytes x = to_be_bytes len @ concat (map to_be_bytes x)"
    by (simp add: identifiers_bytes_def len [symmetric])
  have "length x \<le> 65536" using le by (simp add: word_le_nat_alt len)
  then show "length x \<le> 65536 \<and> (\<exists>rest. inp = identifiers_bytes x @ rest \<and>
      r = reader_at (pre @ identifiers_bytes x) rest)"
    using id32.read_many_only [OF many] by (auto simp: enc inp)
qed

interpretation opaque: wire_format opaque_bytes read_bytes "\<lambda>bs. length bs \<le> 16777216"
proof
  fix x pre rest :: bytes
  assume *: "length x \<le> 16777216" "length pre + length (opaque_bytes x) + length rest < 2 ^ 64"
  then have "of_nat (length x) \<le> MAX_OPAQUE_BYTES" by (simp add: word_le_nat_alt unat_u32_small)
  with * show "read_bytes (reader_at pre (opaque_bytes x @ rest)) =
      Inr (x, reader_at (pre @ opaque_bytes x) rest)"
    by (simp add: read_bytes_def opaque_bytes_def wire_simps unat_u32_small not_less)
next
  fix pre inp x :: bytes and r
  assume "read_bytes (reader_at pre inp) = Inr (x, r)"
  then obtain len :: u32 and rest where inp: "inp = to_be_bytes len @ x @ rest"
    and le: "len \<le> MAX_OPAQUE_BYTES" and len: "length x = unat len"
    and r: "r = reader_at (pre @ to_be_bytes len @ x) rest"
    by (auto simp: read_bytes_def and_then_eq_Inr not_less split: if_splits dest!: wire_dests)
  have "opaque_bytes x = to_be_bytes len @ x" by (simp add: opaque_bytes_def len)
  moreover have "length x \<le> 16777216" using le by (simp add: word_le_nat_alt len)
  ultimately show "length x \<le> 16777216 \<and> (\<exists>rest. inp = opaque_bytes x @ rest \<and>
      r = reader_at (pre @ opaque_bytes x) rest)"
    by (auto simp: inp r)
qed

lemmas codec_back = suite.reads_back ids.reads_back opaque.reads_back
lemmas codec_only = suite.accepts_only ids.accepts_only opaque.accepts_only

definition transfer_bytes :: "transfer \<Rightarrow> bytes" where
  "transfer_bytes t = to_be_bytes (tr_asset_id t) @ identifiers_bytes (tr_input_nullifiers t) @
     identifiers_bytes (tr_output_commitments t) @ to_be_bytes (zp_suite_version (tr_proof t)) @
     opaque_bytes (zp_bytes (tr_proof t))"

definition mint_bytes :: "mint \<Rightarrow> bytes" where
  "mint_bytes m = to_be_bytes (mi_asset_id m) @ to_be_bytes (mi_amount m) @
     identifiers_bytes (mi_output_commitments m) @ opaque_bytes (mi_authorization m)"

definition operation_bytes :: "operation \<Rightarrow> bytes" where
  "operation_bytes p = (case p of Transfer t \<Rightarrow> [OPERATION_TRANSFER] @ transfer_bytes t
     | Mint m \<Rightarrow> [OPERATION_MINT] @ mint_bytes m)"

definition transfer_fits :: "transfer \<Rightarrow> bool" where
  "transfer_fits t = (length (tr_input_nullifiers t) \<le> 65536 \<and> length (tr_output_commitments t) \<le> 65536 \<and>
     length (zp_bytes (tr_proof t)) \<le> 16777216)"

definition mint_fits :: "mint \<Rightarrow> bool" where
  "mint_fits m = (length (mi_output_commitments m) \<le> 65536 \<and> length (mi_authorization m) \<le> 16777216 \<and>
     mi_amount m \<noteq> 0)"

definition operation_fits :: "operation \<Rightarrow> bool" where
  "operation_fits p = (case p of Transfer t \<Rightarrow> transfer_fits t | Mint m \<Rightarrow> mint_fits m)"

interpretation transfer: wire_format transfer_bytes read_transfer transfer_fits
proof
  fix t :: transfer and pre rest :: bytes
  assume "transfer_fits t" "length pre + length (transfer_bytes t) + length rest < 2 ^ 64"
  then show "read_transfer (reader_at pre (transfer_bytes t @ rest)) =
      Inr (t, reader_at (pre @ transfer_bytes t) rest)"
    by (simp add: read_transfer_def transfer_bytes_def transfer_fits_def codec_back wire_simps)
next
  fix pre inp :: bytes and t :: transfer and r
  assume "read_transfer (reader_at pre inp) = Inr (t, r)"
  then show "transfer_fits t \<and>
      (\<exists>rest. inp = transfer_bytes t @ rest \<and> r = reader_at (pre @ transfer_bytes t) rest)"
    by (auto simp: read_transfer_def transfer_bytes_def transfer_fits_def and_then_eq_Inr
        dest!: wire_dests codec_only)
qed

interpretation mint: wire_format mint_bytes read_mint mint_fits
proof
  fix m :: mint and pre rest :: bytes
  assume "mint_fits m" "length pre + length (mint_bytes m) + length rest < 2 ^ 64"
  then show "read_mint (reader_at pre (mint_bytes m @ rest)) = Inr (m, reader_at (pre @ mint_bytes m) rest)"
    by (simp add: read_mint_def mint_bytes_def mint_fits_def Amount_new_def codec_back wire_simps)
next
  fix pre inp :: bytes and m :: mint and r
  assume "read_mint (reader_at pre inp) = Inr (m, r)"
  then show "mint_fits m \<and> (\<exists>rest. inp = mint_bytes m @ rest \<and> r = reader_at (pre @ mint_bytes m) rest)"
    by (auto simp: read_mint_def mint_bytes_def mint_fits_def and_then_eq_Inr Amount_new_Some_iff
        dest!: wire_dests codec_only)
qed

lemma operation_tags: "OPERATION_TRANSFER \<noteq> OPERATION_MINT" "OPERATION_MINT \<noteq> OPERATION_TRANSFER"
  by (simp_all add: OPERATION_TRANSFER_def OPERATION_MINT_def)

interpretation operation: wire_format operation_bytes read_operation operation_fits
proof
  fix p :: operation and pre rest :: bytes
  assume "operation_fits p" "length pre + length (operation_bytes p) + length rest < 2 ^ 64"
  then show "read_operation (reader_at pre (operation_bytes p @ rest)) =
      Inr (p, reader_at (pre @ operation_bytes p) rest)"
    by (cases p) (simp_all add: read_operation_def operation_bytes_def operation_fits_def operation_tags
        transfer.reads_back mint.reads_back wire_simps)
next
  fix pre inp :: bytes and p :: operation and r
  assume "read_operation (reader_at pre inp) = Inr (p, r)"
  then show "operation_fits p \<and>
      (\<exists>rest. inp = operation_bytes p @ rest \<and> r = reader_at (pre @ operation_bytes p) rest)"
    by (auto simp: read_operation_def operation_bytes_def operation_fits_def and_then_eq_Inr
        split: if_splits dest!: wire_dests transfer.accepts_only mint.accepts_only)
qed

subsection \<open>Whole transactions\<close>

definition transaction_bytes :: "transaction \<Rightarrow> bytes" where
  "transaction_bytes tx = TRANSACTION_MAGIC @ to_be_bytes TRANSACTION_FORMAT_VERSION @
     to_be_bytes (tx_id tx) @ write_suite (tx_suite tx) @ operation_bytes (tx_operation tx)"

definition shape_ok :: "transaction \<Rightarrow> bool" where
  "shape_ok tx = (suite_validate (tx_suite tx) = Inr () \<and>
     (case tx_operation tx of
        Transfer t \<Rightarrow> transfer_fits t \<and> tr_input_nullifiers t \<noteq> [] \<and> tr_output_commitments t \<noteq> [] \<and>
          cs_version (tx_suite tx) = zp_suite_version (tr_proof t)
      | Mint m \<Rightarrow> mi_output_commitments m \<noteq> [] \<and> length (mi_output_commitments m) \<le> 65536 \<and>
          length (mi_authorization m) \<le> 16777216))"

lemma validate_transaction_shape_Inr_iff: "validate_transaction_shape tx = Inr () \<longleftrightarrow> shape_ok tx"
  by (auto simp: validate_transaction_shape_def and_then_eq_Inr codec_ensure_non_empty_def
      ensure_collection_limit_def ensure_opaque_limit_def shape_ok_def transfer_fits_def not_less
      split: operation.splits)

lemma shape_fits: "shape_ok tx \<Longrightarrow> tx_typed tx \<Longrightarrow> operation_fits (tx_operation tx)"
  by (auto simp: shape_ok_def tx_typed_def operation_fits_def mint_fits_def split: operation.splits)

lemma encode_transaction_Inr_iff:
  "encode_transaction tx = Inr bs \<longleftrightarrow> shape_ok tx \<and> bs = transaction_bytes tx"
  by (auto simp: encode_transaction_def and_then_eq_Inr validate_transaction_shape_Inr_iff Let_def
      write_identifiers_eq write_bytes_eq transaction_bytes_def operation_bytes_def transfer_bytes_def
      mint_bytes_def shape_ok_def transfer_fits_def split: operation.splits if_splits)

lemma length_transaction_bytes:
  assumes "shape_ok tx"
  shows "length (transaction_bytes tx) \<le> 20971696"
  using assms
  by (cases "tx_operation tx")
    (auto simp: transaction_bytes_def write_suite_def operation_bytes_def
      transfer_bytes_def mint_bytes_def shape_ok_def transfer_fits_def)

lemma decode_transaction_bytes:
  assumes "shape_ok tx" "tx_typed tx"
  shows "decode_transaction (transaction_bytes tx) = Inr tx"
  using length_transaction_bytes [OF assms(1)] shape_fits [OF assms] assms(1)
    validate_transaction_shape_Inr_iff [of tx]
  by (cases tx) (simp add: decode_transaction_def transaction_bytes_def wire_simps suite.reads_back
      operation.reads_back_end)

lemma decode_transaction_only:
  assumes "decode_transaction bs = Inr tx"
  shows "bs = transaction_bytes tx \<and> shape_ok tx \<and> tx_typed tx"
  using assms
  by (auto simp: decode_transaction_def transaction_bytes_def and_then_eq_Inr Let_def
      validate_transaction_shape_Inr_iff tx_typed_def operation_fits_def mint_fits_def
      split: if_splits operation.splits
      dest!: wire_dests suite.accepts_only operation.accepts_only finish_only)

subsection \<open>Intents\<close>

text \<open>The part of a transaction that an intent names: all but its identifier, proof and authorization.\<close>

definition intent_of ::
  "transaction \<Rightarrow> crypto_suite \<times>
     (asset_id \<times> nullifier list \<times> commitment list + asset_id \<times> amount \<times> commitment list)" where
  "intent_of tx = (tx_suite tx, case tx_operation tx of
     Transfer t \<Rightarrow> Inl (tr_asset_id t, tr_input_nullifiers t, tr_output_commitments t)
   | Mint m \<Rightarrow> Inr (mi_asset_id m, mi_amount m, mi_output_commitments m))"

definition intent_bytes :: "transaction \<Rightarrow> bytes" where
  "intent_bytes tx = ascii ''NXTI'' @ to_be_bytes (1 :: u16) @ write_suite (tx_suite tx) @
     (case tx_operation tx of
        Transfer t \<Rightarrow> [OPERATION_TRANSFER] @ to_be_bytes (tr_asset_id t) @
          identifiers_bytes (tr_input_nullifiers t) @ identifiers_bytes (tr_output_commitments t)
      | Mint m \<Rightarrow> [OPERATION_MINT] @ to_be_bytes (mi_asset_id m) @ to_be_bytes (mi_amount m) @
          identifiers_bytes (mi_output_commitments m))"

definition intent_input :: "transaction \<Rightarrow> bytes" where
  "intent_input tx = ascii ''NOXIS/TX-INTENT-ID/V1'' @ [0] @
     to_be_bytes (of_nat (length (intent_bytes tx)) :: u32) @ intent_bytes tx"

lemma encode_transaction_intent_Inr_iff:
  "encode_transaction_intent tx = Inr bs \<longleftrightarrow> shape_ok tx \<and> bs = intent_bytes tx"
  by (auto simp: encode_transaction_intent_def and_then_eq_Inr validate_transaction_shape_Inr_iff Let_def
      write_identifiers_eq intent_bytes_def shape_ok_def transfer_fits_def split: operation.splits if_splits)

lemma length_write_suite [simp]: "length (write_suite s) = 6"
  by (simp add: write_suite_def)

lemma write_suite_append_inject [simp]: "write_suite s @ r = write_suite s' @ r' \<longleftrightarrow> s = s' \<and> r = r'"
proof
  assume eq: "write_suite s @ r = write_suite s' @ r'"
  then have "write_suite s = write_suite s'" "r = r'" by (simp_all add: append_eq_append_conv)
  then show "s = s' \<and> r = r'" using suite.enc_inject by simp
qed simp

lemma identifiers_bytes_append_inject:
  assumes "length xs \<le> 65536" "length ys \<le> 65536"
  shows "identifiers_bytes xs @ r = identifiers_bytes ys @ r' \<longleftrightarrow> xs = ys \<and> r = r'"
proof
  assume eq: "identifiers_bytes xs @ r = identifiers_bytes ys @ r'"
  then have "(of_nat (length xs) :: u32) = of_nat (length ys)" by (simp add: identifiers_bytes_def)
  then have "unat (of_nat (length xs) :: u32) = unat (of_nat (length ys) :: u32)" by simp
  then have len: "length xs = length ys" using assms by (simp add: unat_of_nat)
  with eq have "identifiers_bytes xs = identifiers_bytes ys" "r = r'"
    by (simp_all add: append_eq_append_conv)
  then show "xs = ys \<and> r = r'" using ids.enc_inject [of xs ys] assms by simp
qed simp

lemma length_intent_bytes: "shape_ok tx \<Longrightarrow> length (intent_bytes tx) < 2 ^ 32"
  by (cases "tx_operation tx")
    (auto simp: intent_bytes_def ascii_def shape_ok_def transfer_fits_def)

lemma shape_lengths:
  "shape_ok tx \<Longrightarrow> (case tx_operation tx of
     Transfer t \<Rightarrow> length (tr_input_nullifiers t) \<le> 65536 \<and> length (tr_output_commitments t) \<le> 65536
   | Mint m \<Rightarrow> length (mi_output_commitments m) \<le> 65536)"
  by (simp add: shape_ok_def transfer_fits_def split: operation.splits)

lemma intent_bytes_eq_iff:
  assumes "shape_ok tx" "shape_ok ty"
  shows "intent_bytes tx = intent_bytes ty \<longleftrightarrow> intent_of tx = intent_of ty"
proof -
  have ids: "identifiers_bytes xs = identifiers_bytes ys \<longleftrightarrow> xs = ys"
    if "length xs \<le> 65536" "length ys \<le> 65536" for xs ys
    using identifiers_bytes_append_inject [OF that, of "[]" "[]"] by simp
  show ?thesis
    using assms [THEN shape_lengths]
    by (cases "tx_operation tx"; cases "tx_operation ty")
      (simp_all add: intent_bytes_def intent_of_def operation_tags ids identifiers_bytes_append_inject)
qed

lemma transaction_intent_id_eq:
  "shape_ok tx \<Longrightarrow> transaction_intent_id sha tx = Inr (sha (intent_input tx))"
  using length_intent_bytes [of tx] encode_transaction_intent_Inr_iff [of tx "intent_bytes tx"]
  by (simp add: transaction_intent_id_def try_from_usize_def intent_input_def)

lemma transaction_intent_id_Inr: "transaction_intent_id sha tx = Inr i \<Longrightarrow> shape_ok tx"
  by (auto simp: transaction_intent_id_def and_then_eq_Inr encode_transaction_intent_Inr_iff)

subsection \<open>Properties\<close>

lemma sample_shape: "shape_ok sample_mint" "shape_ok sample_transfer"
  by (simp_all add: shape_ok_def sample_mint_def sample_transfer_def suite_validate_def RESEARCH_V1_def
      transfer_fits_def)

text \<open>C33: The transaction codec is exact. \<^verbatim>\<open>decode_transaction\<close> accepts a byte string precisely when it is
  what \<^verbatim>\<open>encode_transaction\<close> writes for a typed transaction, and returns that transaction: decoding inverts
  encoding, every transaction has one encoding, and trailing or padded input is refused.\<close>

theorem transaction_codec_exact:
  "decode_transaction bs = Inr tx \<longleftrightarrow> encode_transaction tx = Inr bs \<and> tx_typed tx"
  using decode_transaction_only [of bs tx] decode_transaction_bytes [of tx]
  by (auto simp: encode_transaction_Inr_iff)

text \<open>C26: A transaction's intent identity is determined by its suite, asset, amount, nullifiers and
  outputs, and by nothing else: two encodable transactions that agree on these have the same intent
  identifier, whatever their id, proof and authorization, and two that have the same identifier
  agree on these or exhibit a SHA-256 collision.\<close>

theorem intent_id_binds_semantics:
  assumes "transaction_intent_id sha tx = Inr i" and "transaction_intent_id sha ty = Inr j"
  shows "(intent_of tx = intent_of ty \<longrightarrow> i = j) \<and>
    (i = j \<longrightarrow> intent_of tx = intent_of ty \<or>
      collision_between sha {intent_input tx} {intent_input ty})"
proof -
  from assms have shape: "shape_ok tx" "shape_ok ty" by (auto dest: transaction_intent_id_Inr)
  with assms have ij: "i = sha (intent_input tx)" "j = sha (intent_input ty)"
    by (simp_all add: transaction_intent_id_eq)
  have "intent_input tx = intent_input ty \<longleftrightarrow> intent_of tx = intent_of ty"
    unfolding intent_bytes_eq_iff [OF shape, symmetric] by (auto simp: intent_input_def)
  then show ?thesis unfolding ij collision_between_def by auto
qed

theorem intent_id_binds_semantics_witness:
  "transaction_intent_id (\<lambda>b. of_nat (length b)) sample_mint =
     transaction_intent_id (\<lambda>b. of_nat (length b)) (sample_mint\<lparr>tx_id := 99\<rparr>)"
proof -
  have shape: "shape_ok (sample_mint\<lparr>tx_id := 99\<rparr>)" 
    by (simp add: shape_ok_def sample_mint_def suite_validate_def RESEARCH_V1_def)
  have same: "intent_of sample_mint = intent_of (sample_mint\<lparr>tx_id := 99\<rparr>)" by (simp add: intent_of_def)
  show ?thesis
    using intent_id_binds_semantics [OF transaction_intent_id_eq [OF sample_shape(1)]
        transaction_intent_id_eq [OF shape]] same
    by (simp add: transaction_intent_id_eq sample_shape shape)
qed

end
