(* ===== verification/Record_Chain.thy ===== *)
theory Record_Chain
  imports Codec
begin

text \<open>
  The transaction records of \<^verbatim>\<open>crates/noxis-record-chain\<close>: a canonical transaction with the state
  identifiers it connects and a hash over all of it, and the chain verifier that checks sequence
  numbers and state links.
\<close>

subsection \<open>Records\<close>

definition RECORD_MAGIC :: bytes where "RECORD_MAGIC = ascii ''NXRC''"
definition RECORD_FORMAT_VERSION :: u16 where "RECORD_FORMAT_VERSION = 1"
definition MAX_RECORD_TRANSACTION_BYTES :: u32 where "MAX_RECORD_TRANSACTION_BYTES = 32 * 1024 * 1024"
definition RECORD_HASH_DOMAIN :: bytes where "RECORD_HASH_DOMAIN = ascii ''NOXIS/RECORD-CHAIN/V1/RECORD''"

type_synonym record_hash = id32

record transaction_record =
  rec_sequence :: u64
  rec_previous_state_id :: state_id
  rec_transaction_bytes :: bytes
  rec_transaction_intent_id :: transaction_intent_id
  rec_resulting_state_id :: state_id
  rec_record_hash :: record_hash

datatype record_error =
  RecInvalidMagic
| RecUnsupportedFormatVersion u16
| RecUnexpectedEnd nat
| RecTrailingBytes nat
| RecLengthOverflow
| TransactionBytesTooLarge nat u32
| RecTransaction codec_error
| NonCanonicalTransaction
| TransactionIntentIdMismatch transaction_intent_id transaction_intent_id
| RecordHashMismatch
| UnexpectedSequence u64 u64
| PreviousStateMismatch state_id state_id
| SequenceOverflow

definition record_reader :: "record_error reader_error" where
  "record_reader =
     \<lparr>err_overflow = RecLengthOverflow, err_end = RecUnexpectedEnd, err_trailing = RecTrailingBytes\<rparr>"

definition validate_transaction_bytes :: "bytes \<Rightarrow> record_error + unit" where
  "validate_transaction_bytes bs =
     (if length bs > unat MAX_RECORD_TRANSACTION_BYTES
      then Inl (TransactionBytesTooLarge (length bs) MAX_RECORD_TRANSACTION_BYTES)
      else and_then (map_err RecTransaction (decode_transaction bs)) (\<lambda>tx.
        and_then (map_err RecTransaction (encode_transaction tx)) (\<lambda>canonical.
        if canonical \<noteq> bs then Inl NonCanonicalTransaction else Inr ())))"

definition record_input :: "u64 \<Rightarrow> state_id \<Rightarrow> bytes \<Rightarrow> transaction_intent_id \<Rightarrow> state_id \<Rightarrow> bytes" where
  "record_input sequence previous tx_bytes intent_id resulting =
     RECORD_HASH_DOMAIN @ to_be_bytes RECORD_FORMAT_VERSION @ to_be_bytes sequence @
     to_be_bytes previous @ to_be_bytes (of_nat (length tx_bytes) :: u32) @ tx_bytes @
     to_be_bytes intent_id @ to_be_bytes resulting"

definition hash_record ::
  "sha256 \<Rightarrow> u64 \<Rightarrow> state_id \<Rightarrow> bytes \<Rightarrow> transaction_intent_id \<Rightarrow> state_id \<Rightarrow> record_hash" where
  "hash_record sha sequence previous tx_bytes intent_id resulting =
     sha (record_input sequence previous tx_bytes intent_id resulting)"

definition TransactionRecord_new ::
  "sha256 \<Rightarrow> u64 \<Rightarrow> state_id \<Rightarrow> bytes \<Rightarrow> state_id \<Rightarrow> record_error + transaction_record" where
  "TransactionRecord_new sha sequence previous tx_bytes resulting =
     and_then (validate_transaction_bytes tx_bytes) (\<lambda>_.
     and_then (map_err RecTransaction (decode_transaction tx_bytes)) (\<lambda>tx.
     and_then (map_err RecTransaction (transaction_intent_id sha tx)) (\<lambda>intent_id.
     Inr \<lparr>rec_sequence = sequence, rec_previous_state_id = previous,
          rec_transaction_bytes = tx_bytes, rec_transaction_intent_id = intent_id,
          rec_resulting_state_id = resulting,
          rec_record_hash = hash_record sha sequence previous tx_bytes intent_id resulting\<rparr>)))"

definition encode_record :: "transaction_record \<Rightarrow> bytes" where
  "encode_record r =
     RECORD_MAGIC @ to_be_bytes RECORD_FORMAT_VERSION @ to_be_bytes (rec_sequence r) @
     to_be_bytes (rec_previous_state_id r) @
     to_be_bytes (of_nat (length (rec_transaction_bytes r)) :: u32) @ rec_transaction_bytes r @
     to_be_bytes (rec_transaction_intent_id r) @ to_be_bytes (rec_resulting_state_id r) @
     to_be_bytes (rec_record_hash r)"

definition decode_record :: "sha256 \<Rightarrow> bytes \<Rightarrow> record_error + transaction_record" where
  "decode_record sha bs =
     and_then (read_array record_reader 4 (new_reader bs)) (\<lambda>(magic, r).
     if magic \<noteq> RECORD_MAGIC then Inl RecInvalidMagic
     else and_then (read_word record_reader r) (\<lambda>(version, r).
     if version \<noteq> RECORD_FORMAT_VERSION then Inl (RecUnsupportedFormatVersion version)
     else and_then (read_word record_reader r) (\<lambda>(sequence, r).
     and_then (read_word record_reader r) (\<lambda>(previous, r).
     and_then (read_word record_reader r) (\<lambda>(len :: u32, r).
     if len > MAX_RECORD_TRANSACTION_BYTES
     then Inl (TransactionBytesTooLarge (unat len) MAX_RECORD_TRANSACTION_BYTES)
     else and_then (read_exact record_reader (unat len) r) (\<lambda>(tx_bytes, r).
     and_then (read_word record_reader r) (\<lambda>(stored_intent_id, r).
     and_then (read_word record_reader r) (\<lambda>(resulting, r).
     and_then (read_word record_reader r) (\<lambda>(stored_hash, r).
     and_then (finish record_reader r) (\<lambda>_.
     and_then (validate_transaction_bytes tx_bytes) (\<lambda>_.
     and_then (map_err RecTransaction (decode_transaction tx_bytes)) (\<lambda>tx.
     and_then (map_err RecTransaction (transaction_intent_id sha tx)) (\<lambda>calculated.
     if calculated \<noteq> stored_intent_id
     then Inl (TransactionIntentIdMismatch stored_intent_id calculated)
     else if stored_hash \<noteq> hash_record sha sequence previous tx_bytes stored_intent_id resulting
     then Inl RecordHashMismatch
     else Inr \<lparr>rec_sequence = sequence, rec_previous_state_id = previous,
               rec_transaction_bytes = tx_bytes, rec_transaction_intent_id = stored_intent_id,
               rec_resulting_state_id = resulting, rec_record_hash = stored_hash\<rparr>)))))))))))))"

subsection \<open>The chain\<close>

record record_chain =
  rc_next_sequence :: u64
  rc_current_state_id :: state_id

definition RecordChain_new :: "state_id \<Rightarrow> record_chain" where
  "RecordChain_new genesis_state_id = \<lparr>rc_next_sequence = 1, rc_current_state_id = genesis_state_id\<rparr>"

definition rc_current_sequence :: "record_chain \<Rightarrow> u64" where
  "rc_current_sequence c = rc_next_sequence c - 1"

definition chain_apply :: "record_chain \<Rightarrow> transaction_record \<Rightarrow> record_error + record_chain" where
  "chain_apply c r =
     (if rec_sequence r \<noteq> rc_next_sequence c
      then Inl (UnexpectedSequence (rc_next_sequence c) (rec_sequence r))
      else if rec_previous_state_id r \<noteq> rc_current_state_id c
      then Inl (PreviousStateMismatch (rc_current_state_id c) (rec_previous_state_id r))
      else and_then (ok_or (checked_add (rc_next_sequence c) 1) SequenceOverflow) (\<lambda>next_sequence.
        Inr \<lparr>rc_next_sequence = next_sequence, rc_current_state_id = rec_resulting_state_id r\<rparr>))"

subsection \<open>Facts\<close>

lemma record_limits [simp]: "unat MAX_RECORD_TRANSACTION_BYTES = 33554432"
  by (simp add: MAX_RECORD_TRANSACTION_BYTES_def)

lemma length_record_magic [simp]: "length RECORD_MAGIC = 4"
  by (simp add: RECORD_MAGIC_def ascii_def)

text \<open>
  Every transaction the codec can decode fits a record, and the canonicality check after decoding
  never fails.
\<close>

lemma validate_transaction_bytes_Inr_iff:
  "validate_transaction_bytes bs = Inr () \<longleftrightarrow> (\<exists>tx. decode_transaction bs = Inr tx)"
proof -
  have "length bs \<le> 33554432" "encode_transaction tx = Inr bs" if "decode_transaction bs = Inr tx" for tx
    using decode_transaction_only [OF that] length_transaction_bytes [of tx]
    by (simp_all add: encode_transaction_Inr_iff)
  then show ?thesis
    by (auto simp: validate_transaction_bytes_def and_then_eq_Inr not_less)
qed

definition record_wf :: "sha256 \<Rightarrow> transaction_record \<Rightarrow> bool" where
  "record_wf sha r = (\<exists>tx. decode_transaction (rec_transaction_bytes r) = Inr tx \<and>
     transaction_intent_id sha tx = Inr (rec_transaction_intent_id r) \<and>
     rec_record_hash r = hash_record sha (rec_sequence r) (rec_previous_state_id r)
       (rec_transaction_bytes r) (rec_transaction_intent_id r) (rec_resulting_state_id r))"

lemma TransactionRecord_new_Inr_iff:
  "TransactionRecord_new sha sequence previous tx_bytes resulting = Inr r \<longleftrightarrow>
     record_wf sha r \<and> rec_sequence r = sequence \<and> rec_previous_state_id r = previous \<and>
     rec_transaction_bytes r = tx_bytes \<and> rec_resulting_state_id r = resulting"
  by (cases r) (auto simp: TransactionRecord_new_def and_then_eq_Inr validate_transaction_bytes_Inr_iff
      record_wf_def)

lemma record_wf_length: "record_wf sha r \<Longrightarrow> length (rec_transaction_bytes r) \<le> 20971696"
  using decode_transaction_only length_transaction_bytes by (fastforce simp: record_wf_def)

lemma decode_encode_record:
  assumes "record_wf sha r"
  shows "decode_record sha (encode_record r) = Inr r"
proof -
  from assms obtain tx where tx: "decode_transaction (rec_transaction_bytes r) = Inr tx"
      "transaction_intent_id sha tx = Inr (rec_transaction_intent_id r)"
    and hash: "rec_record_hash r = hash_record sha (rec_sequence r) (rec_previous_state_id r)
       (rec_transaction_bytes r) (rec_transaction_intent_id r) (rec_resulting_state_id r)"
    by (auto simp: record_wf_def)
  have valid: "validate_transaction_bytes (rec_transaction_bytes r) = Inr ()"
    using tx by (simp add: validate_transaction_bytes_Inr_iff)
  have len: "unat (of_nat (length (rec_transaction_bytes r)) :: u32) = length (rec_transaction_bytes r)"
    "length (rec_transaction_bytes r) \<le> 20971696"
    using record_wf_length [OF assms] by (simp_all add: unat_of_nat)
  then have "\<not> of_nat (length (rec_transaction_bytes r)) > MAX_RECORD_TRANSACTION_BYTES"
    by (simp add: word_less_nat_alt)
  with tx valid len hash show ?thesis
    by (cases r) (simp add: decode_record_def encode_record_def wire_simps)
qed

lemma decode_record_only:
  assumes "decode_record sha bs = Inr r"
  shows "record_wf sha r \<and> bs = encode_record r"
  using assms
  by (auto simp: decode_record_def encode_record_def record_wf_def and_then_eq_Inr split: if_splits
      dest!: wire_dests finish_only)

text \<open>The chain follows the specification on a position and a state identifier.\<close>

definition link_enabled :: "nat \<times> state_id \<Rightarrow> transaction_record \<Rightarrow> bool" where
  "link_enabled a r = (unat (rec_sequence r) = fst a \<and> rec_previous_state_id r = snd a)"

definition link_step :: "nat \<times> state_id \<Rightarrow> transaction_record \<Rightarrow> nat \<times> state_id" where
  "link_step a r = (fst a + 1, rec_resulting_state_id r)"

interpretation chain: refined_machine chain_apply "\<lambda>_. True" "\<lambda>_. True"
  "\<lambda>c. (unat (rc_next_sequence c), rc_current_state_id c)" link_enabled link_step
  by unfold_locales
    (auto simp: chain_apply_def and_then_eq_Inr checked_add_Some_iff link_enabled_def link_step_def
      split: if_splits)

lemma guarded_links:
  "guarded_run link_enabled link_step (n, g) rs = Some (m, h) \<Longrightarrow>
     m = n + length rs \<and> h = last (g # map rec_resulting_state_id rs) \<and>
     (\<forall>i < length rs. unat (rec_sequence (rs ! i)) = n + i \<and>
       rec_previous_state_id (rs ! i) = (g # map rec_resulting_state_id rs) ! i)"
proof (induction rs arbitrary: n g)
  case (Cons r rs)
  from Cons.prems have "link_enabled (n, g) r"
    and rest: "guarded_run link_enabled link_step (link_step (n, g) r) rs = Some (m, h)"
    by (simp_all split: if_splits)
  then have en: "unat (rec_sequence r) = n" "rec_previous_state_id r = g"
    by (simp_all add: link_enabled_def)
  have "link_step (n, g) r = (Suc n, rec_resulting_state_id r)" by (simp add: link_step_def)
  from Cons.IH [OF rest [unfolded this]] en show ?case by (auto simp: nth_Cons split: nat.splits)
qed simp

subsection \<open>Properties\<close>

text \<open>The record codec is exact. \<^verbatim>\<open>TransactionRecord::decode\<close> accepts a byte string precisely when it is
  the encoding of a record the constructor builds from the same sequence number, states and transaction
  bytes (its transaction decodes, its intent identifier and hash are the recomputed ones), and returns that
  record.\<close>

lemma record_codec_exact:
  "decode_record sha bs = Inr r \<longleftrightarrow> encode_record r = bs \<and>
     TransactionRecord_new sha (rec_sequence r) (rec_previous_state_id r) (rec_transaction_bytes r)
       (rec_resulting_state_id r) = Inr r"
  using decode_record_only [of sha bs r] decode_encode_record [of sha r] by (auto simp: TransactionRecord_new_Inr_iff)

definition sample_record :: "sha256 \<Rightarrow> transaction_record" where
  "sample_record sha =
     \<lparr>rec_sequence = 1, rec_previous_state_id = 3, rec_transaction_bytes = transaction_bytes sample_mint,
      rec_transaction_intent_id = sha (intent_input sample_mint), rec_resulting_state_id = 4,
      rec_record_hash = hash_record sha 1 3 (transaction_bytes sample_mint)
        (sha (intent_input sample_mint)) 4\<rparr>"

text \<open>A chain that accepts a list of records from genesis has checked every link: the records
  carry the sequence numbers 1, 2, ..., each extends the state its predecessor produced (the first
  one the genesis state), and the chain ends at the last result with the next sequence number.\<close>

lemma chain_is_linked:
  assumes "try_fold chain_apply (RecordChain_new g) rs = Inr c"
  shows "unat (rc_next_sequence c) = 1 + length rs \<and>
    rc_current_state_id c = last (g # map rec_resulting_state_id rs) \<and>
    (\<forall>i < length rs. unat (rec_sequence (rs ! i)) = 1 + i \<and>
      rec_previous_state_id (rs ! i) = (g # map rec_resulting_state_id rs) ! i)"
  using guarded_links [OF chain.run_refines [OF assms, simplified]] by (simp add: RecordChain_new_def)

end
