(* ===== verification/Consensus.thy ===== *)
theory Consensus
  imports Record_Chain
begin

text \<open>
  Consensus data of \<^verbatim>\<open>crates/noxis-consensus\<close>: weighted validator sets and configurations
  (\<^verbatim>\<open>config.rs\<close>), block headers and their record commitment (\<^verbatim>\<open>block.rs\<close>), domain-separated
  identifiers (\<^verbatim>\<open>hash.rs\<close>) and finality certificates with the quorum check (\<^verbatim>\<open>finality.rs\<close>). The
  canonical byte layouts are those of \<^verbatim>\<open>codec.rs\<close>; their decoders are in \<open>Consensus_Codec\<close>. The
  signature check of an adapter is a function parameter.
\<close>

subsection \<open>Errors and limits\<close>

datatype consensus_error =
  CeInvalidMagic
| CeUnsupportedFormatVersion u16
| CeUnexpectedEnd nat
| CeTrailingBytes nat
| CeLengthOverflow
| InvalidProtocolVersion
| InvalidMaximumBlockRecords
| InvalidMaximumBlockTransactionBytes u32 u32
| ByzantineFaultPowerExceedsSafetyLimit u64 u64
| EmptyValidatorSet
| TooManyValidators nat nat
| ZeroVotingPower
| InvalidSignatureScheme
| EmptyValidatorKey
| ValidatorKeyTooLarge nat nat
| DuplicateValidator
| NonCanonicalValidatorOrder
| VotingPowerOverflow
| InvalidBlockHeight
| MissingParentBlock
| UnexpectedParentBlock
| InvalidFirstRecordSequence
| RecordCountMismatch u32 nat
| RecordCountExceedsConfiguredMaximum u32 u32
| RecordSequenceOverflow
| TooManyCommittedRecords nat nat
| RecordCommitmentMismatch
| ConsensusConfigMismatch
| ValidatorSetMismatch
| BlockFormatMismatch
| GenesisMismatch
| ValidationContextMismatch
| GenesisStateMismatch
| EmptyCertificate
| TooManyVotes nat nat
| SignatureTooLarge nat nat
| EmptySignature
| DuplicateVote
| NonCanonicalVoteOrder
| CertificateTargetMismatch
| UnknownValidator
| InsufficientVotingPower u64 u64
| InvalidSignature validator_id

definition MAX_VALIDATORS :: nat where "MAX_VALIDATORS = 10000"
definition MAX_VALIDATOR_PUBLIC_KEY_BYTES :: nat where "MAX_VALIDATOR_PUBLIC_KEY_BYTES = 8 * 1024"
definition MAX_BLOCK_TRANSACTION_BYTES :: u32 where "MAX_BLOCK_TRANSACTION_BYTES = 64 * 1024 * 1024"
definition MAX_BLOCK_RECORDS :: nat where "MAX_BLOCK_RECORDS = 1000000"
definition MAX_SIGNATURE_BYTES :: nat where "MAX_SIGNATURE_BYTES = 16 * 1024"

subsection \<open>Domain-separated hashing\<close>

definition CONSENSUS_FORMAT_VERSION :: u16 where "CONSENSUS_FORMAT_VERSION = 3"

definition consensus_hash_input :: "string \<Rightarrow> bytes \<Rightarrow> bytes" where
  "consensus_hash_input domain bs = ascii domain @ to_be_bytes CONSENSUS_FORMAT_VERSION @ bs"

definition consensus_hash :: "sha256 \<Rightarrow> string \<Rightarrow> bytes \<Rightarrow> id32" where
  "consensus_hash sha domain bs = sha (consensus_hash_input domain bs)"

definition config_id :: "sha256 \<Rightarrow> bytes \<Rightarrow> consensus_config_id" where
  "config_id sha bs = consensus_hash sha ''NOXIS/CONSENSUS/V1/CONFIG'' bs"

definition validator_set_id :: "sha256 \<Rightarrow> bytes \<Rightarrow> validator_set_id" where
  "validator_set_id sha bs = consensus_hash sha ''NOXIS/CONSENSUS/V1/VALIDATOR-SET'' bs"

definition block_id :: "sha256 \<Rightarrow> bytes \<Rightarrow> block_id" where
  "block_id sha bs = consensus_hash sha ''NOXIS/CONSENSUS/V1/BLOCK'' bs"

definition record_commitment :: "sha256 \<Rightarrow> bytes \<Rightarrow> id32" where
  "record_commitment sha bs = consensus_hash sha ''NOXIS/CONSENSUS/V1/RECORDS'' bs"

definition certificate_id :: "sha256 \<Rightarrow> bytes \<Rightarrow> finality_certificate_id" where
  "certificate_id sha bs = consensus_hash sha ''NOXIS/CONSENSUS/V1/FINALITY-CERTIFICATE'' bs"

subsection \<open>Validators\<close>

record validator_verification_key =
  vk_signature_scheme :: u16
  vk_bytes :: bytes

record validator =
  va_id :: validator_id
  va_voting_power :: u64
  va_verification_key :: validator_verification_key

record validator_set =
  vs_validators :: "validator list"
  vs_total_voting_power :: u64
  vs_id :: validator_set_id

definition ValidatorVerificationKey_new :: "u16 \<Rightarrow> bytes \<Rightarrow> consensus_error + validator_verification_key" where
  "ValidatorVerificationKey_new scheme bs =
     (if scheme = 0 then Inl InvalidSignatureScheme
      else if bs = [] then Inl EmptyValidatorKey
      else if length bs > MAX_VALIDATOR_PUBLIC_KEY_BYTES
      then Inl (ValidatorKeyTooLarge (length bs) MAX_VALIDATOR_PUBLIC_KEY_BYTES)
      else Inr \<lparr>vk_signature_scheme = scheme, vk_bytes = bs\<rparr>)"

definition Validator_new ::
  "validator_id \<Rightarrow> u64 \<Rightarrow> validator_verification_key \<Rightarrow> consensus_error + validator" where
  "Validator_new i voting_power key =
     (if voting_power = 0 then Inl ZeroVotingPower
      else Inr \<lparr>va_id = i, va_voting_power = voting_power, va_verification_key = key\<rparr>)"

definition encode_validator :: "validator \<Rightarrow> bytes" where
  "encode_validator v =
     to_be_bytes (va_id v) @ to_be_bytes (va_voting_power v) @
     to_be_bytes (vk_signature_scheme (va_verification_key v)) @
     to_be_bytes (of_nat (length (vk_bytes (va_verification_key v))) :: u16) @
     vk_bytes (va_verification_key v)"

definition encode_validator_set_entries :: "validator list \<Rightarrow> bytes" where
  "encode_validator_set_entries vs =
     to_be_bytes (of_nat (length vs) :: u32) @ concat (map encode_validator vs)"

text \<open>The loop body sees the entry before the current one, if there is one.\<close>

fun check_validators :: "bool \<Rightarrow> validator option \<Rightarrow> validator list \<Rightarrow> consensus_error + unit" where
  "check_validators canonical previous [] = Inr ()"
| "check_validators canonical previous (v # vs) =
     (if va_voting_power v = 0 then Inl ZeroVotingPower
      else case previous of
        None \<Rightarrow> check_validators canonical (Some v) vs
      | Some p \<Rightarrow>
          if va_id p = va_id v then Inl DuplicateValidator
          else if canonical \<and> va_id p > va_id v then Inl NonCanonicalValidatorOrder
          else check_validators canonical (Some v) vs)"

definition validate_validators :: "validator list \<Rightarrow> bool \<Rightarrow> consensus_error + unit" where
  "validate_validators vs require_canonical_order =
     (if vs = [] then Inl EmptyValidatorSet
      else if length vs > MAX_VALIDATORS then Inl (TooManyValidators (length vs) MAX_VALIDATORS)
      else check_validators require_canonical_order None vs)"

definition ValidatorSet_from_canonical :: "sha256 \<Rightarrow> validator list \<Rightarrow> consensus_error + validator_set" where
  "ValidatorSet_from_canonical sha vs =
     and_then (validate_validators vs True) (\<lambda>_.
     and_then (try_fold (\<lambda>total v. ok_or (checked_add total (va_voting_power v)) VotingPowerOverflow)
         0 vs) (\<lambda>total.
     Inr \<lparr>vs_validators = vs, vs_total_voting_power = total,
          vs_id = validator_set_id sha (encode_validator_set_entries vs)\<rparr>))"

definition ValidatorSet_new :: "sha256 \<Rightarrow> validator list \<Rightarrow> consensus_error + validator_set" where
  "ValidatorSet_new sha vs = ValidatorSet_from_canonical sha (sort_key va_id vs)"

definition quorum_voting_power :: "validator_set \<Rightarrow> u64" where
  "quorum_voting_power s =
     (let thirds = vs_total_voting_power s div 3;
          remainder = vs_total_voting_power s mod 3
      in thirds * 2 + (remainder * 2) div 3 + 1)"

definition voting_power_of :: "validator_set \<Rightarrow> validator_id \<Rightarrow> u64 option" where
  "voting_power_of s i =
     map_option (\<lambda>index. va_voting_power (vs_validators s ! index))
       (binary_search_by_key va_id (vs_validators s) i 0 (length (vs_validators s)))"

subsection \<open>Configuration\<close>

record consensus_config =
  cc_protocol_version :: u16
  cc_maximum_block_records :: u32
  cc_maximum_block_transaction_bytes :: u32
  cc_maximum_byzantine_voting_power :: u64
  cc_validator_set :: validator_set
  cc_id :: consensus_config_id

definition encode_config_fields :: "u16 \<Rightarrow> u32 \<Rightarrow> u32 \<Rightarrow> u64 \<Rightarrow> validator_set \<Rightarrow> bytes" where
  "encode_config_fields protocol_version max_records max_bytes max_byzantine s =
     to_be_bytes protocol_version @ to_be_bytes max_records @ to_be_bytes max_bytes @
     to_be_bytes max_byzantine @ encode_validator_set_entries (vs_validators s)"

definition ConsensusConfig_new ::
  "sha256 \<Rightarrow> u16 \<Rightarrow> u32 \<Rightarrow> u32 \<Rightarrow> u64 \<Rightarrow> validator_set \<Rightarrow> consensus_error + consensus_config" where
  "ConsensusConfig_new sha protocol_version max_records max_bytes max_byzantine s =
     (if protocol_version = 0 then Inl InvalidProtocolVersion
      else if max_records = 0 then Inl InvalidMaximumBlockRecords
      else if unat max_records > MAX_BLOCK_RECORDS
      then Inl (RecordCountExceedsConfiguredMaximum max_records (of_nat MAX_BLOCK_RECORDS))
      else if max_bytes = 0 \<or> max_bytes > MAX_BLOCK_TRANSACTION_BYTES
      then Inl (InvalidMaximumBlockTransactionBytes max_bytes MAX_BLOCK_TRANSACTION_BYTES)
      else
        let maximum_safe_fault_power = (vs_total_voting_power s - 1) div 3 in
        if max_byzantine > maximum_safe_fault_power
        then Inl (ByzantineFaultPowerExceedsSafetyLimit max_byzantine maximum_safe_fault_power)
        else Inr \<lparr>cc_protocol_version = protocol_version, cc_maximum_block_records = max_records,
                  cc_maximum_block_transaction_bytes = max_bytes,
                  cc_maximum_byzantine_voting_power = max_byzantine, cc_validator_set = s,
                  cc_id = config_id sha
                    (encode_config_fields protocol_version max_records max_bytes max_byzantine s)\<rparr>)"

subsection \<open>Block headers\<close>

record block_header_input =
  bh_protocol_version :: u16
  bh_genesis_id :: genesis_id
  bh_validation_context_id :: validation_context_id
  bh_consensus_config_id :: consensus_config_id
  bh_validator_set_id :: validator_set_id
  bh_height :: u64
  bh_epoch :: u64
  bh_round :: u32
  bh_parent_block_id :: "block_id option"
  bh_previous_state_id :: state_id
  bh_resulting_state_id :: state_id
  bh_first_record_sequence :: u64
  bh_record_count :: u32
  bh_records_commitment :: id32

record block_header =
  hd_input :: block_header_input
  hd_id :: block_id

definition RecordCommitment_from_record_hashes :: "sha256 \<Rightarrow> record_hash list \<Rightarrow> consensus_error + id32" where
  "RecordCommitment_from_record_hashes sha hs =
     (if length hs > MAX_BLOCK_RECORDS
      then Inl (TooManyCommittedRecords (length hs) MAX_BLOCK_RECORDS)
      else Inr (record_commitment sha
        (to_be_bytes (of_nat (length hs) :: u32) @ concat (map to_be_bytes hs))))"

definition validate_header_input :: "block_header_input \<Rightarrow> consensus_error + unit" where
  "validate_header_input i =
     (if bh_protocol_version i = 0 then Inl InvalidProtocolVersion
      else if bh_height i = 0 then Inl InvalidBlockHeight
      else if bh_height i = 1 \<and> bh_parent_block_id i \<noteq> None then Inl UnexpectedParentBlock
      else if bh_height i > 1 \<and> bh_parent_block_id i = None then Inl MissingParentBlock
      else if bh_first_record_sequence i = 0 then Inl InvalidFirstRecordSequence
      else if unat (bh_record_count i) > MAX_BLOCK_RECORDS
      then Inl (TooManyCommittedRecords (unat (bh_record_count i)) MAX_BLOCK_RECORDS)
      else if bh_record_count i > 0
      then and_then (ok_or (checked_add (bh_first_record_sequence i) (ucast (bh_record_count i) - 1))
             RecordSequenceOverflow) (\<lambda>_. Inr ())
      else Inr ())"

definition encode_block_header_fields :: "block_header_input \<Rightarrow> bytes" where
  "encode_block_header_fields i =
     to_be_bytes (bh_protocol_version i) @ to_be_bytes (bh_genesis_id i) @
     to_be_bytes (bh_validation_context_id i) @ to_be_bytes (bh_consensus_config_id i) @
     to_be_bytes (bh_validator_set_id i) @ to_be_bytes (bh_height i) @ to_be_bytes (bh_epoch i) @
     to_be_bytes (bh_round i) @
     (case bh_parent_block_id i of
        Some parent \<Rightarrow> [1] @ to_be_bytes parent
      | None \<Rightarrow> [0] @ to_be_bytes (0 :: id32)) @
     to_be_bytes (bh_previous_state_id i) @ to_be_bytes (bh_resulting_state_id i) @
     to_be_bytes (bh_first_record_sequence i) @ to_be_bytes (bh_record_count i) @
     to_be_bytes (bh_records_commitment i)"

definition BlockHeader_new :: "sha256 \<Rightarrow> block_header_input \<Rightarrow> consensus_error + block_header" where
  "BlockHeader_new sha i =
     and_then (validate_header_input i) (\<lambda>_.
     Inr \<lparr>hd_input = i, hd_id = block_id sha (encode_block_header_fields i)\<rparr>)"

definition last_record_sequence :: "block_header \<Rightarrow> consensus_error + u64 option" where
  "last_record_sequence h =
     (if bh_record_count (hd_input h) = 0 then Inr None
      else ok_or (map_option Some (checked_add (bh_first_record_sequence (hd_input h))
             (ucast (bh_record_count (hd_input h)) - 1))) RecordSequenceOverflow)"

definition validate_record_hashes :: "sha256 \<Rightarrow> block_header \<Rightarrow> record_hash list \<Rightarrow> consensus_error + unit" where
  "validate_record_hashes sha h hs =
     (if length hs \<noteq> unat (bh_record_count (hd_input h))
      then Inl (RecordCountMismatch (bh_record_count (hd_input h)) (length hs))
      else and_then (RecordCommitment_from_record_hashes sha hs) (\<lambda>c.
        if c \<noteq> bh_records_commitment (hd_input h) then Inl RecordCommitmentMismatch else Inr ()))"

definition validate_against_config :: "block_header \<Rightarrow> consensus_config \<Rightarrow> consensus_error + unit" where
  "validate_against_config h c =
     (if bh_protocol_version (hd_input h) \<noteq> cc_protocol_version c then Inl BlockFormatMismatch
      else if bh_consensus_config_id (hd_input h) \<noteq> cc_id c then Inl ConsensusConfigMismatch
      else if bh_validator_set_id (hd_input h) \<noteq> vs_id (cc_validator_set c)
      then Inl ValidatorSetMismatch
      else if bh_record_count (hd_input h) > cc_maximum_block_records c
      then Inl (RecordCountExceedsConfiguredMaximum (bh_record_count (hd_input h))
             (cc_maximum_block_records c))
      else Inr ())"

record consensus_anchor =
  an_genesis_id :: genesis_id
  an_validation_context_id :: validation_context_id
  an_consensus_config_id :: consensus_config_id
  an_genesis_state_id :: state_id
  an_engine_network_id :: id32

definition validate_header :: "consensus_anchor \<Rightarrow> block_header \<Rightarrow> consensus_config \<Rightarrow> consensus_error + unit" where
  "validate_header a h c =
     and_then (validate_against_config h c) (\<lambda>_.
     if bh_genesis_id (hd_input h) \<noteq> an_genesis_id a then Inl GenesisMismatch
     else if bh_validation_context_id (hd_input h) \<noteq> an_validation_context_id a
     then Inl ValidationContextMismatch
     else if cc_id c \<noteq> an_consensus_config_id a then Inl ConsensusConfigMismatch
     else if bh_height (hd_input h) = 1 \<and> bh_previous_state_id (hd_input h) \<noteq> an_genesis_state_id a
     then Inl GenesisStateMismatch
     else Inr ())"

subsection \<open>Finality certificates\<close>

record finality_target =
  ft_genesis_id :: genesis_id
  ft_validation_context_id :: validation_context_id
  ft_consensus_config_id :: consensus_config_id
  ft_validator_set_id :: validator_set_id
  ft_height :: u64
  ft_epoch :: u64
  ft_round :: u32
  ft_block_id :: block_id

record vote_evidence =
  ve_validator_id :: validator_id
  ve_signature :: bytes

record finality_certificate =
  fc_target :: finality_target
  fc_votes :: "vote_evidence list"
  fc_id :: finality_certificate_id

record verified_finality =
  vf_block_id :: block_id
  vf_height :: u64
  vf_certificate_id :: finality_certificate_id

definition target_from_header :: "block_header \<Rightarrow> finality_target" where
  "target_from_header h =
     \<lparr>ft_genesis_id = bh_genesis_id (hd_input h),
      ft_validation_context_id = bh_validation_context_id (hd_input h),
      ft_consensus_config_id = bh_consensus_config_id (hd_input h),
      ft_validator_set_id = bh_validator_set_id (hd_input h),
      ft_height = bh_height (hd_input h), ft_epoch = bh_epoch (hd_input h),
      ft_round = bh_round (hd_input h), ft_block_id = hd_id h\<rparr>"

definition FinalityTarget_new ::
  "genesis_id \<Rightarrow> validation_context_id \<Rightarrow> consensus_config_id \<Rightarrow> validator_set_id \<Rightarrow> u64 \<Rightarrow> u64 \<Rightarrow> u32 \<Rightarrow>
     block_id \<Rightarrow> consensus_error + finality_target" where
  "FinalityTarget_new g vc cc vs height epoch rnd b =
     (if height = 0 then Inl InvalidBlockHeight
      else Inr \<lparr>ft_genesis_id = g, ft_validation_context_id = vc, ft_consensus_config_id = cc,
                ft_validator_set_id = vs, ft_height = height, ft_epoch = epoch, ft_round = rnd,
                ft_block_id = b\<rparr>)"

definition VoteEvidence_new :: "validator_id \<Rightarrow> bytes \<Rightarrow> consensus_error + vote_evidence" where
  "VoteEvidence_new i signature =
     (if length signature > MAX_SIGNATURE_BYTES
      then Inl (SignatureTooLarge (length signature) MAX_SIGNATURE_BYTES)
      else if signature = [] then Inl EmptySignature
      else Inr \<lparr>ve_validator_id = i, ve_signature = signature\<rparr>)"

definition encode_finality_target_fields :: "finality_target \<Rightarrow> bytes" where
  "encode_finality_target_fields t =
     to_be_bytes (ft_genesis_id t) @ to_be_bytes (ft_validation_context_id t) @
     to_be_bytes (ft_consensus_config_id t) @ to_be_bytes (ft_validator_set_id t) @
     to_be_bytes (ft_height t) @ to_be_bytes (ft_epoch t) @ to_be_bytes (ft_round t) @
     to_be_bytes (ft_block_id t)"

definition encode_finality_target :: "finality_target \<Rightarrow> bytes" where
  "encode_finality_target t =
     ascii ''NOXIS/CONSENSUS/V1/PRECOMMIT'' @ to_be_bytes CONSENSUS_FORMAT_VERSION @
     encode_finality_target_fields t"

definition encode_vote :: "vote_evidence \<Rightarrow> bytes" where
  "encode_vote v = to_be_bytes (ve_validator_id v) @
     to_be_bytes (of_nat (length (ve_signature v)) :: u16) @ ve_signature v"

definition encode_finality_certificate_fields :: "finality_target \<Rightarrow> vote_evidence list \<Rightarrow> bytes" where
  "encode_finality_certificate_fields t votes =
     encode_finality_target_fields t @ to_be_bytes (of_nat (length votes) :: u32) @
     concat (map encode_vote votes)"

fun check_votes :: "bool \<Rightarrow> vote_evidence option \<Rightarrow> vote_evidence list \<Rightarrow> consensus_error + unit" where
  "check_votes canonical previous [] = Inr ()"
| "check_votes canonical previous (v # vs) =
     (if length (ve_signature v) > MAX_SIGNATURE_BYTES
      then Inl (SignatureTooLarge (length (ve_signature v)) MAX_SIGNATURE_BYTES)
      else if ve_signature v = [] then Inl EmptySignature
      else case previous of
        None \<Rightarrow> check_votes canonical (Some v) vs
      | Some p \<Rightarrow>
          if ve_validator_id p = ve_validator_id v then Inl DuplicateVote
          else if canonical \<and> ve_validator_id p > ve_validator_id v then Inl NonCanonicalVoteOrder
          else check_votes canonical (Some v) vs)"

definition validate_votes :: "vote_evidence list \<Rightarrow> bool \<Rightarrow> consensus_error + unit" where
  "validate_votes votes require_canonical_order =
     (if votes = [] then Inl EmptyCertificate
      else if length votes > MAX_VALIDATORS then Inl (TooManyVotes (length votes) MAX_VALIDATORS)
      else check_votes require_canonical_order None votes)"

definition FinalityCertificate_from_canonical ::
  "sha256 \<Rightarrow> finality_target \<Rightarrow> vote_evidence list \<Rightarrow> consensus_error + finality_certificate" where
  "FinalityCertificate_from_canonical sha t votes =
     and_then (validate_votes votes True) (\<lambda>_.
     Inr \<lparr>fc_target = t, fc_votes = votes,
          fc_id = certificate_id sha (encode_finality_certificate_fields t votes)\<rparr>)"

definition FinalityCertificate_new ::
  "sha256 \<Rightarrow> finality_target \<Rightarrow> vote_evidence list \<Rightarrow> consensus_error + finality_certificate" where
  "FinalityCertificate_new sha t votes =
     FinalityCertificate_from_canonical sha t (sort_key ve_validator_id votes)"

definition signed_voting_power :: "validator_set \<Rightarrow> vote_evidence list \<Rightarrow> consensus_error + u64" where
  "signed_voting_power s votes =
     try_fold (\<lambda>total vote.
       and_then (ok_or (voting_power_of s (ve_validator_id vote)) UnknownValidator) (\<lambda>p.
       ok_or (checked_add total p) VotingPowerOverflow)) 0 votes"

definition validate_structure ::
  "finality_certificate \<Rightarrow> block_header \<Rightarrow> consensus_anchor \<Rightarrow> consensus_config \<Rightarrow> consensus_error + unit" where
  "validate_structure cert h a c =
     and_then (validate_header a h c) (\<lambda>_.
     if fc_target cert \<noteq> target_from_header h then Inl CertificateTargetMismatch
     else if ft_validator_set_id (fc_target cert) \<noteq> vs_id (cc_validator_set c)
     then Inl ValidatorSetMismatch
     else and_then (signed_voting_power (cc_validator_set c) (fc_votes cert)) (\<lambda>signed.
       let required = quorum_voting_power (cc_validator_set c) in
       if signed < required then Inl (InsufficientVotingPower signed required) else Inr ()))"

type_synonym 'e finality_verifier = "validator_id \<Rightarrow> bytes \<Rightarrow> bytes \<Rightarrow> validator \<Rightarrow> 'e + unit"

definition certificate_verify ::
  "finality_certificate \<Rightarrow> block_header \<Rightarrow> consensus_anchor \<Rightarrow> consensus_config \<Rightarrow>
     'e finality_verifier \<Rightarrow> consensus_error + verified_finality" where
  "certificate_verify cert h a c verifier =
     and_then (validate_structure cert h a c) (\<lambda>_.
     let signing_bytes = encode_finality_target (fc_target cert) in
     and_then (try_fold (\<lambda>_ vote.
         and_then (ok_or (find (\<lambda>v. va_id v = ve_validator_id vote)
           (vs_validators (cc_validator_set c))) UnknownValidator) (\<lambda>configured.
         map_err (\<lambda>_. InvalidSignature (ve_validator_id vote))
           (verifier (ve_validator_id vote) signing_bytes (ve_signature vote) configured)))
       () (fc_votes cert)) (\<lambda>_.
     Inr \<lparr>vf_block_id = hd_id h, vf_height = bh_height (hd_input h), vf_certificate_id = fc_id cert\<rparr>))"

subsection \<open>Well-formed validator sets\<close>

lemma check_validators_Inr_iff:
  "check_validators True previous vs = Inr () \<longleftrightarrow>
     (\<forall>v \<in> set vs. va_voting_power v \<noteq> 0) \<and> sorted_wrt (<) (map va_id vs) \<and>
     (\<forall>p. previous = Some p \<longrightarrow> (\<forall>v \<in> set vs. va_id p < va_id v))"
proof (induction vs arbitrary: previous)
  case (Cons v vs)
  show ?case
  proof (cases previous)
    case (Some p)
    then show ?thesis
      by (auto simp: Cons not_less order.order_iff_strict dest: order.strict_trans split: if_splits)
  qed (auto simp: Cons)
qed simp

lemma try_fold_sum_iff:
  "try_fold (\<lambda>t x. ok_or (checked_add t (f x)) e) (a :: 'w::len word) xs = Inr b \<longleftrightarrow>
     unat b = unat a + sum_list (map (\<lambda>x. unat (f x)) xs)"
proof (induction xs arbitrary: a)
  case Nil
  then show ?case by (auto simp: word_unat_eq_iff)
next
  case (Cons x xs)
  show ?case
  proof (cases "unat a + unat (f x) < 2 ^ LENGTH('w)")
    case True
    then have "checked_add a (f x) = Some (a + f x)" "unat (a + f x) = unat a + unat (f x)"
      by (simp_all add: checked_add_def unat_word_ariths)
    with Cons show ?thesis by (simp add: add.assoc)
  next
    case False
    have "unat b < 2 ^ LENGTH('w)" by (rule unsigned_less)
    with False have "unat b \<noteq> unat a + sum_list (map (\<lambda>x. unat (f x)) (x # xs))"
      by (simp only: list.map sum_list.Cons)
    with False show ?thesis by (simp add: checked_add_def)
  qed
qed

definition validator_set_wf :: "sha256 \<Rightarrow> validator_set \<Rightarrow> bool" where
  "validator_set_wf sha s =
     (vs_validators s \<noteq> [] \<and> length (vs_validators s) \<le> MAX_VALIDATORS \<and>
      (\<forall>v \<in> set (vs_validators s). va_voting_power v \<noteq> 0) \<and>
      sorted_wrt (<) (map va_id (vs_validators s)) \<and>
      unat (vs_total_voting_power s) = sum_list (map (\<lambda>v. unat (va_voting_power v)) (vs_validators s)) \<and>
      vs_id s = validator_set_id sha (encode_validator_set_entries (vs_validators s)))"

lemma ValidatorSet_from_canonical_Inr_iff:
  "ValidatorSet_from_canonical sha vs = Inr s \<longleftrightarrow> validator_set_wf sha s \<and> vs_validators s = vs"
  by (cases s) (auto simp: ValidatorSet_from_canonical_def and_then_eq_Inr validate_validators_def
      check_validators_Inr_iff try_fold_sum_iff validator_set_wf_def not_less split: if_splits)

lemma validator_set_wf_total: "validator_set_wf sha s \<Longrightarrow> 0 < unat (vs_total_voting_power s)"
  by (cases "vs_validators s") (auto simp: validator_set_wf_def unat_gt_0)

subsection \<open>Quorum\<close>

lemma unat_quorum: "unat (quorum_voting_power s) = 2 * unat (vs_total_voting_power s) div 3 + 1"
proof -
  let ?T = "vs_total_voting_power s" and ?t = "unat (vs_total_voting_power s)"
  have t: "?t < 18446744073709551616" using unsigned_less [of ?T, where ?'a = nat] by simp
  have "unat (?T div 3) = ?t div 3" "unat (?T mod 3) = ?t mod 3"
    by (simp_all add: unat_div unat_mod)
  moreover have "unat (?T mod 3 * 2) = ?t mod 3 * 2"
    using calculation(2) by (simp add: unat_word_ariths)
  ultimately have parts: "unat (?T div 3 * 2) = ?t div 3 * 2" "unat (?T mod 3 * 2 div 3) = ?t mod 3 * 2 div 3"
    using t by (simp_all add: unat_word_ariths unat_div)
  have sum: "?t div 3 * 2 + ?t mod 3 * 2 div 3 = 2 * ?t div 3" by presburger
  have "2 * ?t div 3 + 1 < 18446744073709551616" using t by linarith
  then show ?thesis
    using parts by (simp add: quorum_voting_power_def Let_def unat_word_ariths sum)
qed

subsection \<open>Lookup by binary search\<close>

lemma find_distinct:
  "distinct (map f xs) \<Longrightarrow> i < length xs \<Longrightarrow> find (\<lambda>x. f x = f (xs ! i)) xs = Some (xs ! i)"
  by (induction xs arbitrary: i) (auto simp: nth_Cons' split: if_splits)

lemma voting_power_of_eq:
  assumes "sorted_wrt (<) (map va_id (vs_validators s))"
  shows "voting_power_of s i = map_option va_voting_power (find (\<lambda>v. va_id v = i) (vs_validators s))"
proof (cases "binary_search_by_key va_id (vs_validators s) i 0 (length (vs_validators s))")
  case None
  with binary_search_spec [OF assms order_refl, where k = i and lo = 0] have "\<forall>v \<in> set (vs_validators s). va_id v \<noteq> i"
    by (auto simp: in_set_conv_nth)
  then have "find (\<lambda>v. va_id v = i) (vs_validators s) = None" by (auto simp: find_None_iff)
  with None show ?thesis by (simp add: voting_power_of_def)
next
  case (Some n)
  with binary_search_spec [OF assms order_refl, where k = i and lo = 0]
  have "n < length (vs_validators s)" "va_id (vs_validators s ! n) = i" by auto
  with Some find_distinct [of va_id "vs_validators s" n] assms show ?thesis
    by (simp add: voting_power_of_def strict_sorted_iff)
qed

subsection \<open>Certificates\<close>

lemma check_votes_Inr_iff:
  "check_votes True previous vs = Inr () \<longleftrightarrow>
     (\<forall>v \<in> set vs. ve_signature v \<noteq> [] \<and> length (ve_signature v) \<le> MAX_SIGNATURE_BYTES) \<and>
     sorted_wrt (<) (map ve_validator_id vs) \<and>
     (\<forall>p. previous = Some p \<longrightarrow> (\<forall>v \<in> set vs. ve_validator_id p < ve_validator_id v))"
proof (induction vs arbitrary: previous)
  case (Cons v vs)
  show ?case
  proof (cases previous)
    case (Some p)
    then show ?thesis
      by (auto simp: Cons not_less order.order_iff_strict dest: order.strict_trans split: if_splits)
  qed (auto simp: Cons)
qed simp

definition certificate_wf :: "sha256 \<Rightarrow> finality_certificate \<Rightarrow> bool" where
  "certificate_wf sha cert =
     (fc_votes cert \<noteq> [] \<and> length (fc_votes cert) \<le> MAX_VALIDATORS \<and>
      (\<forall>v \<in> set (fc_votes cert). ve_signature v \<noteq> [] \<and> length (ve_signature v) \<le> MAX_SIGNATURE_BYTES) \<and>
      sorted_wrt (<) (map ve_validator_id (fc_votes cert)) \<and>
      fc_id cert = certificate_id sha (encode_finality_certificate_fields (fc_target cert) (fc_votes cert)))"

lemma FinalityCertificate_from_canonical_Inr_iff:
  "FinalityCertificate_from_canonical sha t votes = Inr cert \<longleftrightarrow>
     certificate_wf sha cert \<and> fc_target cert = t \<and> fc_votes cert = votes"
  by (cases cert) (auto simp: FinalityCertificate_from_canonical_def and_then_eq_Inr validate_votes_def
      check_votes_Inr_iff certificate_wf_def not_less split: if_splits)

definition voters :: "finality_certificate \<Rightarrow> validator_id set" where
  "voters cert = ve_validator_id ` set (fc_votes cert)"

definition power_in :: "validator_set \<Rightarrow> validator_id set \<Rightarrow> nat" where
  "power_in s S = (\<Sum>v \<leftarrow> vs_validators s. if va_id v \<in> S then unat (va_voting_power v) else 0)"

lemma power_in_union_inter: "power_in s (S \<union> R) + power_in s (S \<inter> R) = power_in s S + power_in s R"
  unfolding power_in_def sum_list_addf [symmetric] by (rule arg_cong [where f = sum_list]) auto

lemma power_in_le_total:
  "validator_set_wf sha s \<Longrightarrow> power_in s S \<le> unat (vs_total_voting_power s)"
  unfolding power_in_def validator_set_wf_def by (auto intro!: sum_list_mono)

lemma power_in_single:
  assumes "distinct (map va_id (vs_validators s))" "v \<in> set (vs_validators s)"
  shows "power_in s {va_id v} = unat (va_voting_power v)"
proof -
  have none: "k \<notin> va_id ` set xs \<Longrightarrow>
      (\<Sum>x \<leftarrow> xs. if va_id x = k then unat (va_voting_power x) else 0) = 0" for k xs
    by (induction xs) auto
  have "distinct (map va_id xs) \<Longrightarrow> v \<in> set xs \<Longrightarrow>
      (\<Sum>x \<leftarrow> xs. if va_id x = va_id v then unat (va_voting_power x) else 0) =
      unat (va_voting_power v)" for xs
  proof (induction xs)
    case (Cons x xs)
    show ?case
    proof (cases "va_id x = va_id v")
      case True
      with Cons.prems have "v = x" by (auto simp: image_iff)
      with Cons.prems none [of "va_id v" xs] show ?thesis by simp
    next
      case False
      with Cons show ?thesis by auto
    qed
  qed simp
  with assms show ?thesis by (simp add: power_in_def)
qed

lemma signed_voting_power_sum:
  assumes "validator_set_wf sha s" and "distinct (map ve_validator_id votes)"
    and "try_fold (\<lambda>total vote.
       and_then (ok_or (voting_power_of s (ve_validator_id vote)) UnknownValidator) (\<lambda>p.
       ok_or (checked_add total p) VotingPowerOverflow)) a votes = Inr p"
  shows "unat p = unat a + power_in s (ve_validator_id ` set votes)"
  using assms(2,3)
proof (induction votes arbitrary: a)
  case Nil
  then show ?case by (simp add: power_in_def)
next
  case (Cons vote votes)
  have sorted: "sorted_wrt (<) (map va_id (vs_validators s))" using assms(1) by (simp add: validator_set_wf_def)
  from Cons.prems(2) obtain q b where q: "voting_power_of s (ve_validator_id vote) = Some q"
    and b: "checked_add a q = Some b"
    and rest: "try_fold (\<lambda>total vote.
       and_then (ok_or (voting_power_of s (ve_validator_id vote)) UnknownValidator) (\<lambda>p.
       ok_or (checked_add total p) VotingPowerOverflow)) b votes = Inr p"
    by (auto simp: and_then_eq_Inr)
  from q obtain v where v: "find (\<lambda>v. va_id v = ve_validator_id vote) (vs_validators s) = Some v"
    "q = va_voting_power v"
    unfolding voting_power_of_eq [OF sorted] by auto
  then have "v \<in> set (vs_validators s)" "va_id v = ve_validator_id vote"
    by (auto simp: find_Some_iff in_set_conv_nth)
  with power_in_single [of s v] sorted have "power_in s {ve_validator_id vote} = unat q"
    by (simp add: v strict_sorted_iff)
  moreover have "power_in s {} = 0" by (simp add: power_in_def)
  ultimately have "power_in s (ve_validator_id ` set (vote # votes)) =
      unat q + power_in s (ve_validator_id ` set votes)"
    using Cons.prems(1) power_in_union_inter [of s "{ve_validator_id vote}" "ve_validator_id ` set votes"]
    by simp
  moreover have "unat p = unat b + power_in s (ve_validator_id ` set votes)"
    using Cons.IH [OF _ rest] Cons.prems(1) by simp
  ultimately show ?case using b by (simp add: checked_add_Some_iff)
qed

definition config_wf :: "sha256 \<Rightarrow> consensus_config \<Rightarrow> bool" where
  "config_wf sha c =
     (validator_set_wf sha (cc_validator_set c) \<and>
      ConsensusConfig_new sha (cc_protocol_version c) (cc_maximum_block_records c)
        (cc_maximum_block_transaction_bytes c) (cc_maximum_byzantine_voting_power c)
        (cc_validator_set c) = Inr c)"

lemma config_fault_bound:
  assumes "config_wf sha c"
  shows "3 * unat (cc_maximum_byzantine_voting_power c) < unat (vs_total_voting_power (cc_validator_set c))"
proof -
  let ?T = "vs_total_voting_power (cc_validator_set c)"
  from assms have pos: "0 < unat ?T" by (auto simp: config_wf_def dest: validator_set_wf_total)
  from assms have "cc_maximum_byzantine_voting_power c \<le> (?T - 1) div 3"
    by (auto simp: config_wf_def ConsensusConfig_new_def Let_def not_less split: if_splits)
  then have "unat (cc_maximum_byzantine_voting_power c) \<le> unat (?T - 1) div 3"
    by (simp add: word_le_nat_alt unat_div)
  moreover have "unat (?T - 1) = unat ?T - 1"
    using pos by (metis unat_gt_0 unat_minus_one)
  ultimately show ?thesis using pos by linarith
qed

lemma quorums_overlap:
  assumes "config_wf sha c"
    and "unat (quorum_voting_power (cc_validator_set c)) \<le> power_in (cc_validator_set c) S"
    and "unat (quorum_voting_power (cc_validator_set c)) \<le> power_in (cc_validator_set c) R"
  shows "unat (cc_maximum_byzantine_voting_power c) < power_in (cc_validator_set c) (S \<inter> R)"
proof -
  let ?s = "cc_validator_set c"
  have "power_in ?s (S \<union> R) \<le> unat (vs_total_voting_power ?s)"
    using assms(1) by (intro power_in_le_total [of sha]) (simp add: config_wf_def)
  with power_in_union_inter [of ?s S R] config_fault_bound [OF assms(1)] assms(2,3)
  show ?thesis unfolding unat_quorum by linarith
qed

end
