(* ===== verification/Finality.thy ===== *)
theory Finality
  imports Consensus "HOL-Library.Multiset"
begin

text \<open>
  What a verified finality certificate guarantees: the strict two-thirds quorum, the signatures it
  stands for, and the safety argument that two certificates for different targets convict more
  voting power of equivocation than the configuration tolerates.
\<close>

subsection \<open>Verified certificates\<close>

lemma validate_structure_quorum:
  assumes "config_wf sha c" "certificate_wf sha cert" "validate_structure cert h a c = Inr ()"
  shows "unat (quorum_voting_power (cc_validator_set c)) \<le> power_in (cc_validator_set c) (voters cert)"
    and "fc_target cert = target_from_header h"
proof -
  from assms(3) obtain signed where
    signed: "signed_voting_power (cc_validator_set c) (fc_votes cert) = Inr signed"
    and q: "quorum_voting_power (cc_validator_set c) \<le> signed"
    and t: "fc_target cert = target_from_header h"
    by (auto simp: validate_structure_def and_then_eq_Inr Let_def not_less split: if_splits)
  have "unat signed = power_in (cc_validator_set c) (voters cert)"
    using signed_voting_power_sum [of sha "cc_validator_set c" "fc_votes cert" 0 signed] signed assms(1,2)
    by (simp add: signed_voting_power_def voters_def config_wf_def certificate_wf_def strict_sorted_iff)
  with q show "unat (quorum_voting_power (cc_validator_set c)) \<le> power_in (cc_validator_set c) (voters cert)"
    by (simp add: word_le_nat_alt)
  show "fc_target cert = target_from_header h" by (rule t)
qed

text \<open>A signature by validator \<open>i\<close> on the target's signing bytes, checked against its configured key.\<close>

definition signed_by ::
  "'e finality_verifier \<Rightarrow> consensus_config \<Rightarrow> finality_target \<Rightarrow> validator_id \<Rightarrow> bool" where
  "signed_by verifier c t i =
     (\<exists>v signature. v \<in> set (vs_validators (cc_validator_set c)) \<and> va_id v = i \<and>
        verifier i (encode_finality_target t) signature v = Inr ())"

lemma try_fold_all:
  "try_fold (\<lambda>_ x. f x) () xs = Inr () \<longleftrightarrow> (\<forall>x \<in> set xs. f x = Inr ())"
  by (induction xs) (auto simp: and_then_eq_Inr)

lemma certificate_verify_Inr:
  assumes "certificate_verify cert h a c verifier = Inr fin"
  shows "validate_structure cert h a c = Inr ()"
    and "i \<in> voters cert \<Longrightarrow> signed_by verifier c (fc_target cert) i"
    and "fin = \<lparr>vf_block_id = hd_id h, vf_height = bh_height (hd_input h), vf_certificate_id = fc_id cert\<rparr>"
proof -
  from assms show "validate_structure cert h a c = Inr ()"
    and "fin = \<lparr>vf_block_id = hd_id h, vf_height = bh_height (hd_input h), vf_certificate_id = fc_id cert\<rparr>"
    by (auto simp: certificate_verify_def and_then_eq_Inr Let_def)
  from assms have all: "\<forall>vote \<in> set (fc_votes cert).
      and_then (ok_or (find (\<lambda>v. va_id v = ve_validator_id vote)
        (vs_validators (cc_validator_set c))) UnknownValidator) (\<lambda>configured.
      map_err (\<lambda>_. InvalidSignature (ve_validator_id vote)) (verifier (ve_validator_id vote)
        (encode_finality_target (fc_target cert)) (ve_signature vote) configured)) = Inr ()"
    by (auto simp: certificate_verify_def and_then_eq_Inr Let_def try_fold_all)
  assume "i \<in> voters cert"
  then obtain vote where vote: "vote \<in> set (fc_votes cert)" "i = ve_validator_id vote"
    by (auto simp: voters_def)
  with all obtain v where "find (\<lambda>v. va_id v = i) (vs_validators (cc_validator_set c)) = Some v"
    and sig: "verifier i (encode_finality_target (fc_target cert)) (ve_signature vote) v = Inr ()"
    by (auto simp: and_then_eq_Inr)
  then have "v \<in> set (vs_validators (cc_validator_set c))" "va_id v = i"
    by (auto simp: find_Some_iff in_set_conv_nth)
  with sig show "signed_by verifier c (fc_target cert) i" by (auto simp: signed_by_def)
qed

lemma encode_finality_target_inject: "encode_finality_target t = encode_finality_target u \<longleftrightarrow> t = u"
  by (cases t; cases u) (auto simp: encode_finality_target_def encode_finality_target_fields_def)

lemma find_key_iff:
  "distinct (map f xs) \<Longrightarrow> find (\<lambda>x. f x = k) xs = Some v \<longleftrightarrow> v \<in> set xs \<and> f v = k"
  by (induction xs) (auto simp: image_iff)

subsection \<open>A concrete configuration\<close>

definition sample_validator :: "validator_id \<Rightarrow> validator" where
  "sample_validator i = \<lparr>va_id = i, va_voting_power = 1,
     va_verification_key = \<lparr>vk_signature_scheme = 1, vk_bytes = [7]\<rparr>\<rparr>"

definition sample_validators :: "validator list" where
  "sample_validators = map sample_validator [1, 2, 3, 4]"

definition sample_set :: validator_set where
  "sample_set = \<lparr>vs_validators = sample_validators, vs_total_voting_power = 4, vs_id = 0\<rparr>"

definition sample_config :: consensus_config where
  "sample_config = \<lparr>cc_protocol_version = 1, cc_maximum_block_records = 10,
     cc_maximum_block_transaction_bytes = 1000, cc_maximum_byzantine_voting_power = 1,
     cc_validator_set = sample_set, cc_id = 0\<rparr>"

definition sample_header_input :: "u32 \<Rightarrow> block_header_input" where
  "sample_header_input rnd = \<lparr>bh_protocol_version = 1, bh_genesis_id = 0, bh_validation_context_id = 0,
     bh_consensus_config_id = 0, bh_validator_set_id = 0, bh_height = 1, bh_epoch = 0, bh_round = rnd,
     bh_parent_block_id = None, bh_previous_state_id = 0, bh_resulting_state_id = 0,
     bh_first_record_sequence = 1, bh_record_count = 0, bh_records_commitment = 0\<rparr>"

definition sample_header :: "u32 \<Rightarrow> block_header" where
  "sample_header rnd = \<lparr>hd_input = sample_header_input rnd, hd_id = 0\<rparr>"

definition sample_anchor :: consensus_anchor where
  "sample_anchor = \<lparr>an_genesis_id = 0, an_validation_context_id = 0, an_consensus_config_id = 0,
     an_genesis_state_id = 0, an_engine_network_id = 0\<rparr>"

definition sample_certificate :: "u32 \<Rightarrow> validator_id list \<Rightarrow> finality_certificate" where
  "sample_certificate rnd ids = \<lparr>fc_target = target_from_header (sample_header rnd),
     fc_votes = map (\<lambda>i. \<lparr>ve_validator_id = i, ve_signature = [9]\<rparr>) ids, fc_id = 0\<rparr>"

lemmas sample_consensus_simps = sample_validator_def sample_validators_def sample_set_def sample_config_def
  sample_header_input_def sample_header_def sample_anchor_def sample_certificate_def

lemma sample_set_wf: "validator_set_wf (\<lambda>_. 0) sample_set"
  by (simp add: validator_set_wf_def sample_consensus_simps MAX_VALIDATORS_def validator_set_id_def
      consensus_hash_def)

lemma sample_config_wf: "config_wf (\<lambda>_. 0) sample_config"
  using sample_set_wf
  by (simp add: config_wf_def ConsensusConfig_new_def sample_config_def config_id_def consensus_hash_def
      MAX_BLOCK_RECORDS_def MAX_BLOCK_TRANSACTION_BYTES_def)
    (simp add: sample_set_def config_id_def consensus_hash_def)

lemma sample_certificate_wf:
  "certificate_wf (\<lambda>_. 0) (sample_certificate rnd [1, 2, 3])"
  "certificate_wf (\<lambda>_. 0) (sample_certificate rnd [2, 3, 4])"
  by (simp_all add: certificate_wf_def sample_certificate_def certificate_id_def consensus_hash_def
      MAX_VALIDATORS_def MAX_SIGNATURE_BYTES_def)

lemma sample_power: "i \<in> {1, 2, 3, 4} \<Longrightarrow> voting_power_of sample_set i = Some 1"
  using sample_set_wf
  by (auto simp: voting_power_of_eq validator_set_wf_def) (simp_all add: sample_consensus_simps)

lemma sample_quorum: "quorum_voting_power sample_set = 3"
  by (simp add: quorum_voting_power_def sample_set_def)

lemma sample_verified:
  assumes "ids = [1, 2, 3] \<or> ids = [2, 3, 4]"
  shows "\<exists>fin. certificate_verify (sample_certificate rnd ids) (sample_header rnd) sample_anchor sample_config
    (\<lambda>_ _ _ _. Inr () :: unit + unit) = Inr fin"
proof -
  have "signed_voting_power sample_set (fc_votes (sample_certificate rnd ids)) = Inr 3"
    using assms by (auto simp: signed_voting_power_def sample_certificate_def sample_power checked_add_def)
  then have "validate_structure (sample_certificate rnd ids) (sample_header rnd) sample_anchor sample_config = Inr ()"
    by (simp add: validate_structure_def validate_header_def validate_against_config_def
        sample_config_def sample_quorum)
      (simp add: sample_consensus_simps target_from_header_def)
  moreover have "find (\<lambda>v. va_id v = i) sample_validators = Some (sample_validator i)" if "i \<in> set ids" for i
    using that assms by (auto simp: sample_consensus_simps)
  ultimately show ?thesis
    by (auto simp: certificate_verify_def and_then_eq_Inr Let_def try_fold_all sample_config_def
        sample_set_def sample_certificate_def)
qed

subsection \<open>Properties\<close>

text \<open>C34: The quorum threshold is strictly more than two thirds of the total voting power, for
  every total that fits 64 bits: the code's overflow-free expression is
  \<open>floor (2 * total / 3) + 1\<close> and never exceeds the total of a nonempty set.\<close>

theorem quorum_is_two_thirds_plus_one:
  assumes "0 < unat (vs_total_voting_power s)"
  shows "unat (quorum_voting_power s) = 2 * unat (vs_total_voting_power s) div 3 + 1 \<and>
    2 * unat (vs_total_voting_power s) < 3 * unat (quorum_voting_power s) \<and>
    unat (quorum_voting_power s) \<le> unat (vs_total_voting_power s)"
  unfolding unat_quorum using assms by presburger

theorem quorum_is_two_thirds_plus_one_witness: "unat (quorum_voting_power sample_set) = 3"
  using quorum_is_two_thirds_plus_one [of sample_set] by (simp add: sample_set_def)

text \<open>C6: Finality safety. If two certificates verify under one configuration for different
  targets, the validators that voted in both have a valid signature on each of two different
  signing messages, and their joint voting power exceeds the configured Byzantine bound.\<close>

theorem conflicting_finality_convicts_more_than_tolerated:
  assumes "config_wf sha c" and "certificate_wf sha cert1" and "certificate_wf sha cert2"
    and "certificate_verify cert1 h1 a c verifier = Inr fin1"
    and "certificate_verify cert2 h2 a c verifier = Inr fin2"
    and "target_from_header h1 \<noteq> target_from_header h2"
  shows "unat (cc_maximum_byzantine_voting_power c) <
      power_in (cc_validator_set c) (voters cert1 \<inter> voters cert2) \<and>
    encode_finality_target (target_from_header h1) \<noteq> encode_finality_target (target_from_header h2) \<and>
    (\<forall>i \<in> voters cert1 \<inter> voters cert2.
      signed_by verifier c (target_from_header h1) i \<and> signed_by verifier c (target_from_header h2) i)"
proof -
  note s1 = certificate_verify_Inr(1) [OF assms(4)] and s2 = certificate_verify_Inr(1) [OF assms(5)]
  note q1 = validate_structure_quorum [OF assms(1,2) s1] and q2 = validate_structure_quorum [OF assms(1,3) s2]
  from quorums_overlap [OF assms(1) q1(1) q2(1)] certificate_verify_Inr(2) [OF assms(4)]
    certificate_verify_Inr(2) [OF assms(5)] assms(6)
  show ?thesis unfolding q1(2) q2(2) encode_finality_target_inject by blast
qed

theorem conflicting_finality_convicts_more_than_tolerated_witness:
  "1 < power_in sample_set (voters (sample_certificate 0 [1, 2, 3]) \<inter> voters (sample_certificate 1 [2, 3, 4]))"
proof -
  obtain f1 where f1: "certificate_verify (sample_certificate 0 [1, 2, 3]) (sample_header 0) sample_anchor
      sample_config (\<lambda>_ _ _ _. Inr () :: unit + unit) = Inr f1"
    using sample_verified [of "[1, 2, 3]" 0] by auto
  obtain f2 where f2: "certificate_verify (sample_certificate 1 [2, 3, 4]) (sample_header 1) sample_anchor
      sample_config (\<lambda>_ _ _ _. Inr () :: unit + unit) = Inr f2"
    using sample_verified [of "[2, 3, 4]" 1] by auto
  have "target_from_header (sample_header 0) \<noteq> target_from_header (sample_header 1)"
    by (simp add: target_from_header_def sample_consensus_simps)
  from conflicting_finality_convicts_more_than_tolerated [OF sample_config_wf sample_certificate_wf f1 f2 this]
  show ?thesis by (simp add: sample_config_def)
qed

text \<open>A validator set is canonical and its total exact: \<^verbatim>\<open>ValidatorSet::new\<close> succeeds only on
  pairwise different identifiers with positive power, stores the entries in increasing order of
  identifier, records the true sum of their powers without wrapping, and its binary search finds
  exactly the power of a member.\<close>

lemma validator_set_canonical:
  assumes "ValidatorSet_new sha vs = Inr s"
  shows "mset (vs_validators s) = mset vs \<and> sorted_wrt (<) (map va_id (vs_validators s)) \<and>
    unat (vs_total_voting_power s) = (\<Sum>v \<leftarrow> vs. unat (va_voting_power v)) \<and>
    (\<forall>i p. voting_power_of s i = Some p \<longleftrightarrow> (\<exists>v \<in> set vs. va_id v = i \<and> va_voting_power v = p))"
proof -
  have wf: "validator_set_wf sha s" and vs: "vs_validators s = sort_key va_id vs"
    using assms by (simp_all add: ValidatorSet_new_def ValidatorSet_from_canonical_Inr_iff)
  then have sorted: "sorted_wrt (<) (map va_id (vs_validators s))" by (simp add: validator_set_wf_def)
  have m: "mset (vs_validators s) = mset vs" by (simp add: vs)
  have "sum_list (map (\<lambda>v. unat (va_voting_power v)) (vs_validators s)) =
      sum_list (map (\<lambda>v. unat (va_voting_power v)) vs)"
    by (simp only: sum_mset_sum_list [symmetric] mset_map m)
  moreover have "voting_power_of s i = Some p \<longleftrightarrow> (\<exists>v \<in> set vs. va_id v = i \<and> va_voting_power v = p)" for i p
  proof -
    have "set vs = set (vs_validators s)" by (simp add: vs)
    moreover have "find (\<lambda>v. va_id v = i) (vs_validators s) = Some v \<longleftrightarrow>
        v \<in> set (vs_validators s) \<and> va_id v = i" for v
      using sorted by (intro find_key_iff) (simp add: strict_sorted_iff)
    ultimately show ?thesis unfolding voting_power_of_eq [OF sorted] map_option_eq_Some by blast
  qed
  ultimately show ?thesis using wf m sorted by (simp add: validator_set_wf_def)
qed

end
