(* ===== verification/Consensus_Codec.thy ===== *)
theory Consensus_Codec
  imports Finality
begin

text \<open>
  The decoders of \<^verbatim>\<open>crates/noxis-consensus/src/codec.rs\<close> for configurations, block headers and
  finality certificates, and their exact inverse relation with the encoders. Each message carries
  its magic and the format version; every constructor check of the decoded value runs again.
\<close>

subsection \<open>Decoders\<close>

definition CONFIG_MAGIC :: bytes where "CONFIG_MAGIC = ascii ''NXCG''"
definition HEADER_MAGIC :: bytes where "HEADER_MAGIC = ascii ''NXBH''"
definition CERTIFICATE_MAGIC :: bytes where "CERTIFICATE_MAGIC = ascii ''NXFC''"

definition consensus_reader :: "consensus_error reader_error" where
  "consensus_reader =
     \<lparr>err_overflow = CeLengthOverflow, err_end = CeUnexpectedEnd, err_trailing = CeTrailingBytes\<rparr>"

definition read_magic_and_version :: "bytes \<Rightarrow> reader \<Rightarrow> consensus_error + unit \<times> reader" where
  "read_magic_and_version magic r =
     and_then (read_array consensus_reader 4 r) (\<lambda>(m, r).
     if m \<noteq> magic then Inl CeInvalidMagic
     else and_then (read_word consensus_reader r) (\<lambda>(version, r).
     if version \<noteq> CONSENSUS_FORMAT_VERSION then Inl (CeUnsupportedFormatVersion version)
     else Inr ((), r)))"

definition read_validator_key_bytes :: "reader \<Rightarrow> consensus_error + bytes \<times> reader" where
  "read_validator_key_bytes r =
     and_then (read_word consensus_reader r) (\<lambda>(len :: u16, r).
     if unat len > MAX_VALIDATOR_PUBLIC_KEY_BYTES
     then Inl (ValidatorKeyTooLarge (unat len) MAX_VALIDATOR_PUBLIC_KEY_BYTES)
     else read_exact consensus_reader (unat len) r)"

definition read_validator :: "reader \<Rightarrow> consensus_error + validator \<times> reader" where
  "read_validator r =
     and_then (read_word consensus_reader r) (\<lambda>(i, r).
     and_then (read_word consensus_reader r) (\<lambda>(voting_power, r).
     and_then (read_word consensus_reader r) (\<lambda>(scheme, r).
     and_then (read_validator_key_bytes r) (\<lambda>(key_bytes, r).
     and_then (ValidatorVerificationKey_new scheme key_bytes) (\<lambda>key.
     and_then (Validator_new i voting_power key) (\<lambda>v. Inr (v, r)))))))"

definition encode_consensus_config :: "consensus_config \<Rightarrow> bytes" where
  "encode_consensus_config c =
     CONFIG_MAGIC @ to_be_bytes CONSENSUS_FORMAT_VERSION @
     encode_config_fields (cc_protocol_version c) (cc_maximum_block_records c)
       (cc_maximum_block_transaction_bytes c) (cc_maximum_byzantine_voting_power c)
       (cc_validator_set c)"

definition decode_consensus_config :: "sha256 \<Rightarrow> bytes \<Rightarrow> consensus_error + consensus_config" where
  "decode_consensus_config sha bs =
     and_then (read_magic_and_version CONFIG_MAGIC (new_reader bs)) (\<lambda>(_, r).
     and_then (read_word consensus_reader r) (\<lambda>(protocol_version, r).
     and_then (read_word consensus_reader r) (\<lambda>(max_records, r).
     and_then (read_word consensus_reader r) (\<lambda>(max_bytes, r).
     and_then (read_word consensus_reader r) (\<lambda>(max_byzantine, r).
     and_then (read_word consensus_reader r) (\<lambda>(count :: u32, r).
     if unat count > MAX_VALIDATORS then Inl (TooManyValidators (unat count) MAX_VALIDATORS)
     else and_then (read_many read_validator (unat count) r) (\<lambda>(validators, r).
     and_then (finish consensus_reader r) (\<lambda>_.
     and_then (ValidatorSet_from_canonical sha validators) (\<lambda>s.
     ConsensusConfig_new sha protocol_version max_records max_bytes max_byzantine s)))))))))"

definition encode_block_header :: "block_header \<Rightarrow> bytes" where
  "encode_block_header h =
     HEADER_MAGIC @ to_be_bytes CONSENSUS_FORMAT_VERSION @ encode_block_header_fields (hd_input h)"

definition read_parent :: "reader \<Rightarrow> consensus_error + block_id option \<times> reader" where
  "read_parent r =
     and_then (read_word consensus_reader r) (\<lambda>(present :: byte, r).
     and_then (read_word consensus_reader r) (\<lambda>(parent, r).
     if present = 0 then (if parent \<noteq> 0 then Inl UnexpectedParentBlock else Inr (None, r))
     else if present = 1 then Inr (Some parent, r)
     else Inl CeInvalidMagic))"

definition decode_block_header :: "sha256 \<Rightarrow> bytes \<Rightarrow> consensus_error + block_header" where
  "decode_block_header sha bs =
     and_then (read_magic_and_version HEADER_MAGIC (new_reader bs)) (\<lambda>(_, r).
     and_then (read_word consensus_reader r) (\<lambda>(protocol_version, r).
     and_then (read_word consensus_reader r) (\<lambda>(g, r).
     and_then (read_word consensus_reader r) (\<lambda>(vc, r).
     and_then (read_word consensus_reader r) (\<lambda>(cc, r).
     and_then (read_word consensus_reader r) (\<lambda>(vs, r).
     and_then (read_word consensus_reader r) (\<lambda>(height, r).
     and_then (read_word consensus_reader r) (\<lambda>(epoch, r).
     and_then (read_word consensus_reader r) (\<lambda>(rnd, r).
     and_then (read_parent r) (\<lambda>(parent, r).
     and_then (read_word consensus_reader r) (\<lambda>(previous, r).
     and_then (read_word consensus_reader r) (\<lambda>(resulting, r).
     and_then (read_word consensus_reader r) (\<lambda>(first_sequence, r).
     and_then (read_word consensus_reader r) (\<lambda>(count, r).
     and_then (read_word consensus_reader r) (\<lambda>(commitment, r).
     and_then (finish consensus_reader r) (\<lambda>_.
     BlockHeader_new sha
       \<lparr>bh_protocol_version = protocol_version, bh_genesis_id = g, bh_validation_context_id = vc,
        bh_consensus_config_id = cc, bh_validator_set_id = vs, bh_height = height,
        bh_epoch = epoch, bh_round = rnd, bh_parent_block_id = parent,
        bh_previous_state_id = previous, bh_resulting_state_id = resulting,
        bh_first_record_sequence = first_sequence, bh_record_count = count,
        bh_records_commitment = commitment\<rparr>))))))))))))))))"

definition decode_finality_target :: "reader \<Rightarrow> consensus_error + finality_target \<times> reader" where
  "decode_finality_target r =
     and_then (read_word consensus_reader r) (\<lambda>(g, r).
     and_then (read_word consensus_reader r) (\<lambda>(vc, r).
     and_then (read_word consensus_reader r) (\<lambda>(cc, r).
     and_then (read_word consensus_reader r) (\<lambda>(vs, r).
     and_then (read_word consensus_reader r) (\<lambda>(height, r).
     and_then (read_word consensus_reader r) (\<lambda>(epoch, r).
     and_then (read_word consensus_reader r) (\<lambda>(rnd, r).
     and_then (read_word consensus_reader r) (\<lambda>(b, r).
     and_then (FinalityTarget_new g vc cc vs height epoch rnd b) (\<lambda>t. Inr (t, r))))))))))"

definition read_vote :: "reader \<Rightarrow> consensus_error + vote_evidence \<times> reader" where
  "read_vote r =
     and_then (read_word consensus_reader r) (\<lambda>(i, r).
     and_then (read_word consensus_reader r) (\<lambda>(len :: u16, r).
     if unat len > MAX_SIGNATURE_BYTES then Inl (SignatureTooLarge (unat len) MAX_SIGNATURE_BYTES)
     else and_then (read_exact consensus_reader (unat len) r) (\<lambda>(signature, r).
     and_then (VoteEvidence_new i signature) (\<lambda>v. Inr (v, r)))))"

definition encode_finality_certificate :: "finality_certificate \<Rightarrow> bytes" where
  "encode_finality_certificate cert =
     CERTIFICATE_MAGIC @ to_be_bytes CONSENSUS_FORMAT_VERSION @
     encode_finality_certificate_fields (fc_target cert) (fc_votes cert)"

definition decode_finality_certificate :: "sha256 \<Rightarrow> bytes \<Rightarrow> consensus_error + finality_certificate" where
  "decode_finality_certificate sha bs =
     and_then (read_magic_and_version CERTIFICATE_MAGIC (new_reader bs)) (\<lambda>(_, r).
     and_then (decode_finality_target r) (\<lambda>(t, r).
     and_then (read_word consensus_reader r) (\<lambda>(count :: u32, r).
     if unat count > MAX_VALIDATORS then Inl (TooManyVotes (unat count) MAX_VALIDATORS)
     else and_then (read_many read_vote (unat count) r) (\<lambda>(votes, r).
     and_then (finish consensus_reader r) (\<lambda>_.
     FinalityCertificate_from_canonical sha t votes)))))"

subsection \<open>Parts of the messages\<close>

lemma length_consensus_magics [simp]:
  "length CONFIG_MAGIC = 4" "length HEADER_MAGIC = 4" "length CERTIFICATE_MAGIC = 4"
  by (simp_all add: CONFIG_MAGIC_def HEADER_MAGIC_def CERTIFICATE_MAGIC_def ascii_def)

lemma read_magic_back:
  "length magic = 4 \<Longrightarrow> length rest + 6 < 2 ^ 64 \<Longrightarrow>
     read_magic_and_version magic (reader_at [] (magic @ to_be_bytes CONSENSUS_FORMAT_VERSION @ rest)) =
     Inr ((), reader_at (magic @ to_be_bytes CONSENSUS_FORMAT_VERSION) rest)"
  by (simp add: read_magic_and_version_def wire_simps)

lemma read_magic_only:
  "read_magic_and_version magic (reader_at pre inp) = Inr (u, r) \<Longrightarrow>
     \<exists>rest. inp = magic @ to_be_bytes CONSENSUS_FORMAT_VERSION @ rest \<and>
       r = reader_at (pre @ magic @ to_be_bytes CONSENSUS_FORMAT_VERSION) rest"
  by (auto simp: read_magic_and_version_def and_then_eq_Inr split: if_splits dest!: wire_dests)

definition validator_ok :: "validator \<Rightarrow> bool" where
  "validator_ok v = (va_voting_power v \<noteq> 0 \<and> vk_signature_scheme (va_verification_key v) \<noteq> 0 \<and>
     vk_bytes (va_verification_key v) \<noteq> [] \<and>
     length (vk_bytes (va_verification_key v)) \<le> MAX_VALIDATOR_PUBLIC_KEY_BYTES)"

lemma unat_u16_small: "n \<le> 16384 \<Longrightarrow> unat (of_nat n :: u16) = n"
  by (simp add: unat_of_nat)

lemma of_nat_unat_length: "length bs = unat (w :: 'w::len word) \<Longrightarrow> of_nat (length bs) = w"
  by simp

interpretation validator: wire_format encode_validator read_validator validator_ok
proof
  fix v :: validator and pre rest :: bytes
  assume "validator_ok v" "length pre + length (encode_validator v) + length rest < 2 ^ 64"
  then show "read_validator (reader_at pre (encode_validator v @ rest)) =
      Inr (v, reader_at (pre @ encode_validator v) rest)"
    by (cases v; cases "va_verification_key v")
      (simp add: read_validator_def read_validator_key_bytes_def encode_validator_def validator_ok_def
        wire_simps MAX_VALIDATOR_PUBLIC_KEY_BYTES_def unat_u16_small ValidatorVerificationKey_new_def
        Validator_new_def)
next
  fix pre inp :: bytes and v :: validator and r
  assume "read_validator (reader_at pre inp) = Inr (v, r)"
  then obtain i :: id32 and p :: u64 and s :: u16 and len :: u16 and key rest where
    inp: "inp = to_be_bytes i @ to_be_bytes p @ to_be_bytes s @ to_be_bytes len @ key @ rest"
    and len: "length key = unat len"
    and r: "r = reader_at (pre @ to_be_bytes i @ to_be_bytes p @ to_be_bytes s @ to_be_bytes len @ key) rest"
    and v: "v = \<lparr>va_id = i, va_voting_power = p, va_verification_key = \<lparr>vk_signature_scheme = s, vk_bytes = key\<rparr>\<rparr>"
    and ok: "validator_ok v"
    by (auto simp: read_validator_def read_validator_key_bytes_def and_then_eq_Inr validator_ok_def
        ValidatorVerificationKey_new_def Validator_new_def not_less split: if_splits dest!: wire_dests)
  have "encode_validator v = to_be_bytes i @ to_be_bytes p @ to_be_bytes s @ to_be_bytes len @ key"
    by (simp add: encode_validator_def v of_nat_unat_length [OF len])
  with inp r ok show "validator_ok v \<and>
      (\<exists>rest. inp = encode_validator v @ rest \<and> r = reader_at (pre @ encode_validator v) rest)"
    by simp
qed

definition vote_ok :: "vote_evidence \<Rightarrow> bool" where
  "vote_ok v = (ve_signature v \<noteq> [] \<and> length (ve_signature v) \<le> MAX_SIGNATURE_BYTES)"

interpretation vote: wire_format encode_vote read_vote vote_ok
proof
  fix v :: vote_evidence and pre rest :: bytes
  assume "vote_ok v" "length pre + length (encode_vote v) + length rest < 2 ^ 64"
  then show "read_vote (reader_at pre (encode_vote v @ rest)) = Inr (v, reader_at (pre @ encode_vote v) rest)"
    by (cases v) (simp add: read_vote_def encode_vote_def vote_ok_def wire_simps MAX_SIGNATURE_BYTES_def
        unat_u16_small VoteEvidence_new_def)
next
  fix pre inp :: bytes and v :: vote_evidence and r
  assume "read_vote (reader_at pre inp) = Inr (v, r)"
  then obtain i :: id32 and len :: u16 and sig rest where
    inp: "inp = to_be_bytes i @ to_be_bytes len @ sig @ rest" and len: "length sig = unat len"
    and r: "r = reader_at (pre @ to_be_bytes i @ to_be_bytes len @ sig) rest"
    and v: "v = \<lparr>ve_validator_id = i, ve_signature = sig\<rparr>" and ok: "vote_ok v"
    by (auto simp: read_vote_def and_then_eq_Inr vote_ok_def VoteEvidence_new_def not_less
        split: if_splits dest!: wire_dests)
  have "encode_vote v = to_be_bytes i @ to_be_bytes len @ sig"
    by (simp add: encode_vote_def v of_nat_unat_length [OF len])
  with inp r ok show "vote_ok v \<and>
      (\<exists>rest. inp = encode_vote v @ rest \<and> r = reader_at (pre @ encode_vote v) rest)"
    by simp
qed

definition parent_bytes :: "block_id option \<Rightarrow> bytes" where
  "parent_bytes p = (case p of Some parent \<Rightarrow> [1] @ to_be_bytes parent | None \<Rightarrow> [0] @ to_be_bytes (0 :: id32))"

interpretation parent: wire_format parent_bytes read_parent "\<lambda>_. True"
proof
  fix p :: "block_id option" and pre rest :: bytes
  assume "length pre + length (parent_bytes p) + length rest < 2 ^ 64"
  then show "read_parent (reader_at pre (parent_bytes p @ rest)) = Inr (p, reader_at (pre @ parent_bytes p) rest)"
    by (cases p) (simp_all add: read_parent_def parent_bytes_def wire_simps)
next
  fix pre inp :: bytes and p :: "block_id option" and r
  assume "read_parent (reader_at pre inp) = Inr (p, r)"
  then show "True \<and> (\<exists>rest. inp = parent_bytes p @ rest \<and> r = reader_at (pre @ parent_bytes p) rest)"
    by (auto simp: read_parent_def parent_bytes_def and_then_eq_Inr split: if_splits dest!: wire_dests)
qed

interpretation target: wire_format encode_finality_target_fields decode_finality_target "\<lambda>t. ft_height t \<noteq> 0"
proof
  fix t :: finality_target and pre rest :: bytes
  assume "ft_height t \<noteq> 0" "length pre + length (encode_finality_target_fields t) + length rest < 2 ^ 64"
  then show "decode_finality_target (reader_at pre (encode_finality_target_fields t @ rest)) =
      Inr (t, reader_at (pre @ encode_finality_target_fields t) rest)"
    by (cases t) (simp add: decode_finality_target_def encode_finality_target_fields_def wire_simps
        FinalityTarget_new_def)
next
  fix pre inp :: bytes and t :: finality_target and r
  assume "decode_finality_target (reader_at pre inp) = Inr (t, r)"
  then show "ft_height t \<noteq> 0 \<and> (\<exists>rest. inp = encode_finality_target_fields t @ rest \<and>
      r = reader_at (pre @ encode_finality_target_fields t) rest)"
    by (auto simp: decode_finality_target_def encode_finality_target_fields_def FinalityTarget_new_def
        and_then_eq_Inr split: if_splits dest!: wire_dests)
qed

lemma length_concat_le: "\<forall>x \<in> set xs. length (f x) \<le> k \<Longrightarrow> length (concat (map f xs)) \<le> k * length xs"
  by (induction xs) auto

subsection \<open>Block headers\<close>

definition header_wf :: "sha256 \<Rightarrow> block_header \<Rightarrow> bool" where
  "header_wf sha h = (BlockHeader_new sha (hd_input h) = Inr h)"

lemma BlockHeader_new_Inr_iff: "BlockHeader_new sha i = Inr h \<longleftrightarrow> header_wf sha h \<and> hd_input h = i"
  by (cases h) (auto simp: header_wf_def BlockHeader_new_def and_then_eq_Inr)

lemma encode_block_header_fields_parent:
  "encode_block_header_fields i =
     to_be_bytes (bh_protocol_version i) @ to_be_bytes (bh_genesis_id i) @
     to_be_bytes (bh_validation_context_id i) @ to_be_bytes (bh_consensus_config_id i) @
     to_be_bytes (bh_validator_set_id i) @ to_be_bytes (bh_height i) @ to_be_bytes (bh_epoch i) @
     to_be_bytes (bh_round i) @ parent_bytes (bh_parent_block_id i) @
     to_be_bytes (bh_previous_state_id i) @ to_be_bytes (bh_resulting_state_id i) @
     to_be_bytes (bh_first_record_sequence i) @ to_be_bytes (bh_record_count i) @
     to_be_bytes (bh_records_commitment i)"
  by (simp add: encode_block_header_fields_def parent_bytes_def)

lemma length_parent_bytes [simp]: "length (parent_bytes p) = 33"
  by (simp add: parent_bytes_def split: option.splits)

lemma decode_encode_header:
  assumes "header_wf sha h"
  shows "decode_block_header sha (encode_block_header h) = Inr h"
  using assms
  by (cases h; cases "hd_input h")
    (simp add: decode_block_header_def encode_block_header_def encode_block_header_fields_parent
      read_magic_back wire_simps parent.reads_back header_wf_def)

lemma decode_header_only:
  assumes "decode_block_header sha bs = Inr h"
  shows "header_wf sha h \<and> bs = encode_block_header h"
  using assms
  by (auto simp: decode_block_header_def encode_block_header_def encode_block_header_fields_parent
      and_then_eq_Inr BlockHeader_new_Inr_iff
      dest!: read_magic_only wire_dests parent.accepts_only finish_only)

subsection \<open>Certificates\<close>

lemma certificate_length:
  assumes "certificate_wf sha cert"
  shows "length (concat (map encode_vote (fc_votes cert))) \<le> 164180000"
proof -
  have "\<forall>v \<in> set (fc_votes cert). length (encode_vote v) \<le> 16418"
    using assms by (auto simp: certificate_wf_def encode_vote_def MAX_SIGNATURE_BYTES_def)
  from length_concat_le [OF this] have
    "length (concat (map encode_vote (fc_votes cert))) \<le> 16418 * length (fc_votes cert)" .
  moreover have "length (fc_votes cert) \<le> 10000"
    using assms by (simp add: certificate_wf_def MAX_VALIDATORS_def)
  ultimately show ?thesis by linarith
qed

lemma unat_count_small: "n \<le> MAX_VALIDATORS \<Longrightarrow> unat (of_nat n :: u32) = n"
  by (simp add: unat_of_nat MAX_VALIDATORS_def)

lemma length_target_fields [simp]: "length (encode_finality_target_fields t) = 180"
  by (simp add: encode_finality_target_fields_def)

lemma decode_encode_certificate:
  assumes "certificate_wf sha cert" "ft_height (fc_target cert) \<noteq> 0"
  shows "decode_finality_certificate sha (encode_finality_certificate cert) = Inr cert"
proof -
  let ?t = "fc_target cert" and ?vs = "fc_votes cert"
  let ?pre = "CERTIFICATE_MAGIC @ to_be_bytes CONSENSUS_FORMAT_VERSION @ encode_finality_target_fields ?t @
    to_be_bytes (of_nat (length ?vs) :: u32)"
  have n: "length ?vs \<le> MAX_VALIDATORS" and ok: "\<forall>v \<in> set ?vs. vote_ok v"
    using assms(1) by (simp_all add: certificate_wf_def vote_ok_def)
  have many: "read_many read_vote (length ?vs) (reader_at ?pre (concat (map encode_vote ?vs))) =
      Inr (?vs, reader_at (?pre @ concat (map encode_vote ?vs)) [])"
    using vote.read_many_back [OF ok, of ?pre "[]"] certificate_length [OF assms(1)] by simp
  have new: "FinalityCertificate_from_canonical sha ?t ?vs = Inr cert"
    using assms(1) by (simp add: FinalityCertificate_from_canonical_Inr_iff)
  show ?thesis
    using certificate_length [OF assms(1)] assms(2) n many new
    by (simp add: decode_finality_certificate_def encode_finality_certificate_def
        encode_finality_certificate_fields_def read_magic_back wire_simps target.reads_back unat_count_small)
qed

lemma decode_certificate_only:
  assumes "decode_finality_certificate sha bs = Inr cert"
  shows "certificate_wf sha cert \<and> ft_height (fc_target cert) \<noteq> 0 \<and> bs = encode_finality_certificate cert"
proof -
  from assms obtain count :: u32 and inp where
    bs: "bs = CERTIFICATE_MAGIC @ to_be_bytes CONSENSUS_FORMAT_VERSION @
      encode_finality_target_fields (fc_target cert) @ to_be_bytes count @ inp"
    and h: "ft_height (fc_target cert) \<noteq> 0" and wf: "certificate_wf sha cert"
    and many: "\<exists>pre r. read_many read_vote (unat count) (reader_at pre inp) = Inr (fc_votes cert, r) \<and>
      finish consensus_reader r = Inr ()"
    by (auto simp: decode_finality_certificate_def and_then_eq_Inr FinalityCertificate_from_canonical_Inr_iff
        split: if_splits dest!: read_magic_only wire_dests target.accepts_only)
  from many obtain pre r where m: "read_many read_vote (unat count) (reader_at pre inp) = Inr (fc_votes cert, r)"
    and fin: "finish consensus_reader r = Inr ()" by blast
  from vote.read_many_only [OF m] fin have "inp = concat (map encode_vote (fc_votes cert))"
    "length (fc_votes cert) = unat count"
    by (auto dest!: finish_only)
  with bs h wf show ?thesis
    by (simp add: encode_finality_certificate_def encode_finality_certificate_fields_def)
qed

subsection \<open>Configurations\<close>

definition config_typed :: "consensus_config \<Rightarrow> bool" where
  "config_typed c = (\<forall>v \<in> set (vs_validators (cc_validator_set c)). validator_ok v)"

lemma config_length:
  assumes "config_wf sha c" "config_typed c"
  shows "length (concat (map encode_validator (vs_validators (cc_validator_set c)))) \<le> 82360000"
proof -
  let ?vs = "vs_validators (cc_validator_set c)"
  have "\<forall>v \<in> set ?vs. length (encode_validator v) \<le> 8236"
    using assms(2) by (auto simp: config_typed_def validator_ok_def encode_validator_def
        MAX_VALIDATOR_PUBLIC_KEY_BYTES_def)
  from length_concat_le [OF this] have "length (concat (map encode_validator ?vs)) \<le> 8236 * length ?vs" .
  moreover have "length ?vs \<le> 10000"
    using assms(1) by (simp add: config_wf_def validator_set_wf_def MAX_VALIDATORS_def)
  ultimately show ?thesis by linarith
qed

lemma decode_encode_config:
  assumes "config_wf sha c" "config_typed c"
  shows "decode_consensus_config sha (encode_consensus_config c) = Inr c"
proof -
  let ?vs = "vs_validators (cc_validator_set c)"
  let ?pre = "CONFIG_MAGIC @ to_be_bytes CONSENSUS_FORMAT_VERSION @ to_be_bytes (cc_protocol_version c) @
    to_be_bytes (cc_maximum_block_records c) @ to_be_bytes (cc_maximum_block_transaction_bytes c) @
    to_be_bytes (cc_maximum_byzantine_voting_power c) @ to_be_bytes (of_nat (length ?vs) :: u32)"
  have wf: "validator_set_wf sha (cc_validator_set c)" using assms(1) by (simp add: config_wf_def)
  then have n: "length ?vs \<le> MAX_VALIDATORS"
    and set: "ValidatorSet_from_canonical sha ?vs = Inr (cc_validator_set c)"
    by (simp_all add: ValidatorSet_from_canonical_Inr_iff) (simp add: validator_set_wf_def)
  have many: "read_many read_validator (length ?vs) (reader_at ?pre (concat (map encode_validator ?vs))) =
      Inr (?vs, reader_at (?pre @ concat (map encode_validator ?vs)) [])"
    using validator.read_many_back [of ?vs ?pre "[]"] config_length [OF assms] assms(2)
    by (simp add: config_typed_def)
  show ?thesis
    using config_length [OF assms] n many set assms(1)
    by (simp add: decode_consensus_config_def encode_consensus_config_def encode_config_fields_def
        encode_validator_set_entries_def read_magic_back wire_simps unat_count_small config_wf_def)
qed

lemma ConsensusConfig_new_fields:
  "ConsensusConfig_new sha pv mr mb mf s = Inr c \<Longrightarrow>
     cc_protocol_version c = pv \<and> cc_maximum_block_records c = mr \<and>
     cc_maximum_block_transaction_bytes c = mb \<and> cc_maximum_byzantine_voting_power c = mf \<and>
     cc_validator_set c = s"
  by (auto simp: ConsensusConfig_new_def Let_def split: if_splits)

lemma decode_config_only:
  assumes "decode_consensus_config sha bs = Inr c"
  shows "config_wf sha c \<and> config_typed c \<and> bs = encode_consensus_config c"
proof -
  from assms obtain pv mr mb mf and count :: u32 and vs s inp pre r where
    bs: "bs = CONFIG_MAGIC @ to_be_bytes CONSENSUS_FORMAT_VERSION @ to_be_bytes pv @ to_be_bytes mr @
      to_be_bytes mb @ to_be_bytes mf @ to_be_bytes count @ inp"
    and many: "read_many read_validator (unat count) (reader_at pre inp) = Inr (vs, r)"
    and fin: "finish consensus_reader r = Inr ()"
    and s: "ValidatorSet_from_canonical sha vs = Inr s"
    and c: "ConsensusConfig_new sha pv mr mb mf s = Inr c"
    by (auto simp: decode_consensus_config_def and_then_eq_Inr split: if_splits
        dest!: read_magic_only wire_dests)
  from s have s': "validator_set_wf sha s" "vs_validators s = vs"
    by (simp_all add: ValidatorSet_from_canonical_Inr_iff)
  note f = ConsensusConfig_new_fields [OF c]
  from validator.read_many_only [OF many] fin have "inp = concat (map encode_validator vs)"
    "length vs = unat count" "\<forall>v \<in> set vs. validator_ok v"
    by (auto dest!: finish_only)
  with bs s' f c show ?thesis
    by (simp add: encode_consensus_config_def encode_config_fields_def encode_validator_set_entries_def
        config_wf_def config_typed_def)
qed

subsection \<open>Properties\<close>

text \<open>Block headers, configurations and finality certificates each have one wire form: for all
  three, decoding the encoding of a constructed value returns that value, and whatever the decoder
  accepts is the encoding of a constructed value.\<close>

lemma consensus_messages_roundtrip:
  "(header_wf sha h \<longrightarrow> decode_block_header sha (encode_block_header h) = Inr h) \<and>
   (decode_block_header sha bs = Inr h \<longrightarrow> header_wf sha h \<and> bs = encode_block_header h) \<and>
   (config_wf sha c \<and> config_typed c \<longrightarrow> decode_consensus_config sha (encode_consensus_config c) = Inr c) \<and>
   (decode_consensus_config sha bs = Inr c \<longrightarrow>
      config_wf sha c \<and> config_typed c \<and> bs = encode_consensus_config c) \<and>
   (certificate_wf sha cert \<and> ft_height (fc_target cert) \<noteq> 0 \<longrightarrow>
      decode_finality_certificate sha (encode_finality_certificate cert) = Inr cert) \<and>
   (decode_finality_certificate sha bs = Inr cert \<longrightarrow>
      certificate_wf sha cert \<and> ft_height (fc_target cert) \<noteq> 0 \<and> bs = encode_finality_certificate cert)"
  using decode_encode_header decode_header_only decode_encode_config decode_config_only
    decode_encode_certificate decode_certificate_only by blast

lemma sample_header_wf: "header_wf (\<lambda>_. 0) (sample_header rnd)"
  by (simp add: header_wf_def BlockHeader_new_def validate_header_input_def sample_header_def
      sample_header_input_def MAX_BLOCK_RECORDS_def block_id_def consensus_hash_def)

definition commitment_input :: "record_hash list \<Rightarrow> bytes" where
  "commitment_input hs = consensus_hash_input ''NOXIS/CONSENSUS/V1/RECORDS''
     (to_be_bytes (of_nat (length hs) :: u32) @ concat (map to_be_bytes hs))"

definition header_input :: "block_header \<Rightarrow> bytes" where
  "header_input h = consensus_hash_input ''NOXIS/CONSENSUS/V1/BLOCK'' (encode_block_header_fields (hd_input h))"

lemma encode_block_header_fields_inject:
  "encode_block_header_fields i = encode_block_header_fields j \<longleftrightarrow> i = j"
proof
  assume "encode_block_header_fields i = encode_block_header_fields j"
  moreover have p: "parent_bytes x @ r = parent_bytes y @ r' \<longleftrightarrow> x = y \<and> r = r'" for x y r r'
    by (auto simp: parent_bytes_def split: option.splits)
  ultimately show "i = j"
    by (cases i; cases j) (simp add: encode_block_header_fields_parent p)
qed simp

lemma concat_ids_inject:
  "length hs = length ks \<Longrightarrow> concat (map to_be_bytes hs) = concat (map to_be_bytes (ks :: id32 list)) \<Longrightarrow> hs = ks"
  by (induction hs ks rule: list_induct2) auto

lemma header_id_binds:
  assumes "header_wf sha h" and "header_wf sha k" and "hd_id h = hd_id k"
    and "validate_record_hashes sha h hs = Inr ()" and "validate_record_hashes sha k ks = Inr ()"
  shows "(h = k \<and> hs = ks) \<or> collision_between sha {header_input h, commitment_input hs}
    {header_input k, commitment_input ks}"
proof (rule disjCI)
  assume nc: "\<not> collision_between sha {header_input h, commitment_input hs} {header_input k, commitment_input ks}"
  have id: "hd_id x = sha (header_input x)" if "header_wf sha x" for x
    using that by (cases x) (auto simp: header_wf_def BlockHeader_new_def and_then_eq_Inr block_id_def
        consensus_hash_def header_input_def)
  have "sha (header_input h) = sha (header_input k)" using assms(1-3) by (simp add: id)
  with nc have "header_input h = header_input k" by (auto simp: collision_between_def)
  then have "hd_input h = hd_input k"
    by (simp add: header_input_def consensus_hash_input_def encode_block_header_fields_inject)
  with assms(3) have hk: "h = k" by (cases h; cases k) simp
  from assms(4,5) hk have len: "length hs = length ks"
    and c: "sha (commitment_input hs) = sha (commitment_input ks)"
    by (auto simp: validate_record_hashes_def RecordCommitment_from_record_hashes_def and_then_eq_Inr
        record_commitment_def consensus_hash_def commitment_input_def split: if_splits)
  from c nc have "commitment_input hs = commitment_input ks" by (auto simp: collision_between_def)
  then have "concat (map to_be_bytes hs) = concat (map to_be_bytes ks)"
    by (simp add: commitment_input_def consensus_hash_input_def len)
  with concat_ids_inject [OF len] hk show "h = k \<and> hs = ks" by simp
qed

text \<open>A block identifier commits to the whole header and the ordered records: two constructed
  headers with the same identifier whose record hashes pass \<^verbatim>\<open>validate_record_hashes\<close> have equal
  fields and equal record-hash lists, or exhibit a SHA-256 collision.\<close>

lemma block_id_binds_header_and_records:
  assumes "header_wf sha h" and "header_wf sha k" and "hd_id h = hd_id k"
    and "validate_record_hashes sha h hs = Inr ()" and "validate_record_hashes sha k ks = Inr ()"
  shows "(h = k \<and> hs = ks) \<or> collision_between sha {header_input h, commitment_input hs}
    {header_input k, commitment_input ks}"
  using assms by (rule header_id_binds)

end
