(* ===== verification/Engine.thy ===== *)
theory Engine
  imports Finality "HOL-Library.Product_Lexorder"
begin

text \<open>
  The CometBFT boundary of \<^verbatim>\<open>crates/noxis-consensus/src/engine.rs\<close>: the pinned network identity with
  its canonical encoding, the translation of a validator set into CometBFT's representation and
  hash (protobuf entries under an RFC 6962 Merkle tree), the genesis anchor built from both, and the
  engine decisions bound to it. An \<open>i64\<close> is a 64-bit word read with \<open>sint\<close>; a 20-byte address is a
  160-bit word.
\<close>

subsection \<open>Constants and errors\<close>

definition COMET_BFT_NETWORK_IDENTITY_FORMAT_VERSION :: u16 where
  "COMET_BFT_NETWORK_IDENTITY_FORMAT_VERSION = 1"
definition MAX_COMET_BFT_CHAIN_ID_BYTES :: nat where "MAX_COMET_BFT_CHAIN_ID_BYTES = 128"
definition MAX_COMET_BFT_COMPATIBILITY_VERSION_BYTES :: nat where
  "MAX_COMET_BFT_COMPATIBILITY_VERSION_BYTES = 64"
definition COMET_BFT_V0_38_COMPATIBILITY_VERSION :: bytes where
  "COMET_BFT_V0_38_COMPATIBILITY_VERSION = ascii ''cometbft-0.38''"
definition COMET_BFT_ED25519_SIGNATURE_SCHEME :: u16 where "COMET_BFT_ED25519_SIGNATURE_SCHEME = 1"
definition COMET_BFT_ED25519_PUBLIC_KEY_LENGTH :: nat where "COMET_BFT_ED25519_PUBLIC_KEY_LENGTH = 32"
definition COMET_BFT_MAX_TOTAL_VOTING_POWER :: u64 where
  "COMET_BFT_MAX_TOTAL_VOTING_POWER = 9223372036854775807 div 8"
lemma max_power_val: "COMET_BFT_MAX_TOTAL_VOTING_POWER = 1152921504606846975"
  by (simp add: COMET_BFT_MAX_TOTAL_VOTING_POWER_def)

definition MIN_ENCODED_LENGTH :: nat where "MIN_ENCODED_LENGTH = 2 + 1 + 1 + 8 + 1 + 1 + 32"
definition MAX_COMET_BFT_NETWORK_IDENTITY_ENCODED_LENGTH :: nat where
  "MAX_COMET_BFT_NETWORK_IDENTITY_ENCODED_LENGTH =
     2 + 1 + MAX_COMET_BFT_CHAIN_ID_BYTES + 8 + 1 + MAX_COMET_BFT_COMPATIBILITY_VERSION_BYTES + 32"

datatype engine_identity_error =
  InvalidChainId
| InvalidInitialHeight i64
| InvalidCompatibilityVersion
| InvalidNoxisHeight
| InvalidDecisionHeight i64
| ZeroDecisionBlockHash
| ZeroDecisionNetworkId
| ZeroNextValidatorsHash
| DecisionNetworkMismatch
| DecisionHeightMismatch i64 i64
| InvalidEncodedLength nat
| EiUnsupportedFormatVersion u16
| NonUtf8Label
| NonCanonicalEncoding
| EiUnexpectedEnd nat
| EiTrailingBytes nat
| EiLengthOverflow
| HeightOverflow
| UnsupportedCometCompatibilityVersion
| UnsupportedCometValidatorSignatureScheme u16 u16
| InvalidCometEd25519PublicKeyLength nat nat
| InvalidCometValidatorVotingPower i64
| CometValidatorVotingPowerTooLarge u64 u64
| CometTotalVotingPowerTooLarge u64 u64
| DuplicateCometValidatorAddress
| UnexpectedNextValidatorsHash

definition identity_reader :: "engine_identity_error reader_error" where
  "identity_reader =
     \<lparr>err_overflow = EiLengthOverflow, err_end = EiUnexpectedEnd, err_trailing = EiTrailingBytes\<rparr>"

subsection \<open>Network identity\<close>

record comet_bft_network_identity =
  ni_chain_id :: bytes
  ni_initial_height :: i64
  ni_compatibility_version :: bytes
  ni_parameters_sha256 :: id32

definition is_ascii_graphic :: "byte \<Rightarrow> bool" where
  "is_ascii_graphic b = (33 \<le> b \<and> b \<le> 126)"

definition validate_label :: "bytes \<Rightarrow> nat \<Rightarrow> engine_identity_error \<Rightarrow> engine_identity_error + unit" where
  "validate_label l maximum invalid_error =
     (if l = [] \<or> length l > maximum \<or> \<not> (\<forall>b \<in> set l. is_ascii_graphic b)
      then Inl invalid_error else Inr ())"

definition CometBftNetworkIdentity_new ::
  "bytes \<Rightarrow> i64 \<Rightarrow> bytes \<Rightarrow> id32 \<Rightarrow> engine_identity_error + comet_bft_network_identity" where
  "CometBftNetworkIdentity_new chain_id initial_height compatibility_version parameters =
     and_then (validate_label chain_id MAX_COMET_BFT_CHAIN_ID_BYTES InvalidChainId) (\<lambda>_.
     if sint initial_height \<le> 0 then Inl (InvalidInitialHeight initial_height)
     else and_then (validate_label compatibility_version MAX_COMET_BFT_COMPATIBILITY_VERSION_BYTES
         InvalidCompatibilityVersion) (\<lambda>_.
       Inr \<lparr>ni_chain_id = chain_id, ni_initial_height = initial_height,
            ni_compatibility_version = compatibility_version, ni_parameters_sha256 = parameters\<rparr>))"

definition encode_identity :: "comet_bft_network_identity \<Rightarrow> bytes" where
  "encode_identity n =
     to_be_bytes COMET_BFT_NETWORK_IDENTITY_FORMAT_VERSION @
     [of_nat (length (ni_chain_id n))] @ ni_chain_id n @
     to_be_bytes (ni_initial_height n) @
     [of_nat (length (ni_compatibility_version n))] @ ni_compatibility_version n @
     to_be_bytes (ni_parameters_sha256 n)"

definition identity_id :: "sha256 \<Rightarrow> comet_bft_network_identity \<Rightarrow> id32" where
  "identity_id sha n = sha (ascii ''NOXIS/COMET-BFT/NETWORK-ID/V1'' @ [0] @ encode_identity n)"

definition engine_height_for :: "comet_bft_network_identity \<Rightarrow> u64 \<Rightarrow> engine_identity_error + i64" where
  "engine_height_for n noxis_height =
     (if noxis_height = 0 then Inl InvalidNoxisHeight
      else if unat (noxis_height - 1) \<ge> 2 ^ 63 then Inl HeightOverflow
      else ok_or (checked_add_i64 (ni_initial_height n) (noxis_height - 1)) HeightOverflow)"

text \<open>\<^verbatim>\<open>std::str::from_utf8\<close>: the well-formed byte sequences of UTF-8.\<close>

definition utf8_tail :: "byte \<Rightarrow> bool" where
  "utf8_tail b = (0x80 \<le> b \<and> b \<le> 0xBF)"

fun is_utf8 :: "bytes \<Rightarrow> bool" where
  "is_utf8 [] = True"
| "is_utf8 (a # r) =
     (if a < 0x80 then is_utf8 r
      else if 0xC2 \<le> a \<and> a \<le> 0xDF then
        (case r of b # r' \<Rightarrow> utf8_tail b \<and> is_utf8 r' | _ \<Rightarrow> False)
      else if 0xE0 \<le> a \<and> a \<le> 0xEF then
        (case r of b # c # r' \<Rightarrow> utf8_tail b \<and> utf8_tail c \<and> (a = 0xE0 \<longrightarrow> 0xA0 \<le> b) \<and>
           (a = 0xED \<longrightarrow> b \<le> 0x9F) \<and> is_utf8 r' | _ \<Rightarrow> False)
      else if 0xF0 \<le> a \<and> a \<le> 0xF4 then
        (case r of b # c # d # r' \<Rightarrow> utf8_tail b \<and> utf8_tail c \<and> utf8_tail d \<and>
           (a = 0xF0 \<longrightarrow> 0x90 \<le> b) \<and> (a = 0xF4 \<longrightarrow> b \<le> 0x8F) \<and> is_utf8 r' | _ \<Rightarrow> False)
      else False)"

definition read_label :: "nat \<Rightarrow> reader \<Rightarrow> engine_identity_error + bytes \<times> reader" where
  "read_label len r =
     and_then (read_exact identity_reader len r) (\<lambda>(bs, r).
     if is_utf8 bs then Inr (bs, r) else Inl NonUtf8Label)"

definition decode_comet_bft_network_identity ::
  "bytes \<Rightarrow> engine_identity_error + comet_bft_network_identity" where
  "decode_comet_bft_network_identity bs =
     (if \<not> (MIN_ENCODED_LENGTH \<le> length bs \<and> length bs \<le> MAX_COMET_BFT_NETWORK_IDENTITY_ENCODED_LENGTH)
      then Inl (InvalidEncodedLength (length bs))
      else
        and_then (read_word identity_reader (new_reader bs)) (\<lambda>(format_version, r).
        if format_version \<noteq> COMET_BFT_NETWORK_IDENTITY_FORMAT_VERSION
        then Inl (EiUnsupportedFormatVersion format_version)
        else and_then (read_word identity_reader r) (\<lambda>(chain_id_length :: byte, r).
        and_then (read_label (unat chain_id_length) r) (\<lambda>(chain_id, r).
        and_then (read_word identity_reader r) (\<lambda>(initial_height, r).
        and_then (read_word identity_reader r) (\<lambda>(version_length :: byte, r).
        and_then (read_label (unat version_length) r) (\<lambda>(version, r).
        and_then (read_word identity_reader r) (\<lambda>(parameters, r).
        and_then (finish identity_reader r) (\<lambda>_.
        and_then (CometBftNetworkIdentity_new chain_id initial_height version parameters) (\<lambda>identity.
        if encode_identity identity \<noteq> bs then Inl NonCanonicalEncoding else Inr identity))))))))))"

subsection \<open>Validators as CometBFT sees them\<close>

type_synonym comet_address = "160 word"

record comet_bft_validator =
  cv_noxis_validator_id :: validator_id
  cv_address :: comet_address
  cv_public_key :: id32
  cv_voting_power :: i64

definition from_comet_ed25519 ::
  "sha256 \<Rightarrow> validator_id \<Rightarrow> id32 \<Rightarrow> i64 \<Rightarrow> engine_identity_error + comet_bft_validator" where
  "from_comet_ed25519 sha i public_key voting_power =
     (if sint voting_power \<le> 0 \<or> voting_power > COMET_BFT_MAX_TOTAL_VOTING_POWER
      then Inl (InvalidCometValidatorVotingPower voting_power)
      else Inr \<lparr>cv_noxis_validator_id = i,
                cv_address = from_be_bytes (take 20 (to_be_bytes (sha (to_be_bytes public_key)))),
                cv_public_key = public_key, cv_voting_power = voting_power\<rparr>)"

definition from_noxis :: "sha256 \<Rightarrow> validator \<Rightarrow> engine_identity_error + comet_bft_validator" where
  "from_noxis sha v =
     (if vk_signature_scheme (va_verification_key v) \<noteq> COMET_BFT_ED25519_SIGNATURE_SCHEME
      then Inl (UnsupportedCometValidatorSignatureScheme (vk_signature_scheme (va_verification_key v))
             COMET_BFT_ED25519_SIGNATURE_SCHEME)
      else if length (vk_bytes (va_verification_key v)) \<noteq> COMET_BFT_ED25519_PUBLIC_KEY_LENGTH
      then Inl (InvalidCometEd25519PublicKeyLength (length (vk_bytes (va_verification_key v)))
             COMET_BFT_ED25519_PUBLIC_KEY_LENGTH)
      else if unat (va_voting_power v) \<ge> 2 ^ 63
      then Inl (CometValidatorVotingPowerTooLarge (va_voting_power v) COMET_BFT_MAX_TOTAL_VOTING_POWER)
      else from_comet_ed25519 sha (va_id v) (from_be_bytes (vk_bytes (va_verification_key v)))
             (va_voting_power v))"

lemma unat_drop_bit_7: "unat (drop_bit 7 (w :: u64)) = unat w div 128"
  by (simp add: drop_bit_eq_div unat_div_distrib)

function encode_uvarint :: "u64 \<Rightarrow> bytes" where
  "encode_uvarint w =
     (if w \<ge> 0x80 then or (ucast w) 0x80 # encode_uvarint (drop_bit 7 w) else [ucast w])"
  by pat_completeness auto
termination
proof (relation "measure unat")
  fix w :: u64
  assume "w \<ge> 0x80"
  then have "0 < unat w" by (auto simp: word_le_nat_alt)
  then show "(drop_bit 7 w, w) \<in> measure unat" by (simp add: unat_drop_bit_7)
qed simp

declare encode_uvarint.simps [simp del]

definition comet_hash_bytes :: "comet_bft_validator \<Rightarrow> bytes" where
  "comet_hash_bytes v =
     (let public_key = [0x0a, of_nat COMET_BFT_ED25519_PUBLIC_KEY_LENGTH] @ to_be_bytes (cv_public_key v)
      in [0x0a] @ encode_uvarint (of_nat (length public_key)) @ public_key @ [0x10] @
         encode_uvarint (cv_voting_power v))"

definition leading_zeros :: "u64 \<Rightarrow> nat" where
  "leading_zeros w = length (takeWhile (\<lambda>i. \<not> bit w i) (rev [0..<64]))"

definition largest_power_of_two_below :: "nat \<Rightarrow> nat" where
  "largest_power_of_two_below n = 2 ^ (64 - leading_zeros (of_nat (n - 1)) - 1)"

lemma leading_zeros_bounds:
  assumes "w \<noteq> (0 :: u64)"
  shows "2 ^ (64 - leading_zeros w - 1) \<le> unat w" "unat w < 2 * 2 ^ (64 - leading_zeros w - 1)"
proof -
  let ?P = "\<lambda>i. \<not> bit w i"
  let ?xs = "rev [0..<64]"
  let ?l = "leading_zeros w"
  have l: "?l < 64"
  proof (rule ccontr)
    assume "\<not> ?l < 64"
    moreover have "length (takeWhile ?P ?xs) \<le> length ?xs" by (rule length_takeWhile_le)
    ultimately have "length (takeWhile ?P ?xs) = length ?xs" by (simp add: leading_zeros_def)
    then have "takeWhile ?P ?xs = ?xs" by (metis append_eq_conv_conj takeWhile_eq_take take_all_iff order_refl)
    then have "\<forall>i \<in> set ?xs. ?P i" by (metis takeWhile_eq_all_conv)
    then have "\<forall>i < 64. \<not> bit w i" by auto
    then have "w = 0" by (intro bit_word_eqI) simp
    with assms show False by simp
  qed
  define k where "k = 64 - ?l - 1"
  have "\<not> ?P (?xs ! ?l)"
    unfolding leading_zeros_def by (rule nth_length_takeWhile) (use l in \<open>simp add: leading_zeros_def\<close>)
  then have set_k: "bit w k" using l by (simp add: rev_nth k_def)
  have above: "\<not> bit w i" if "k < i" for i
  proof (cases "i < 64")
    case True
    then have j: "63 - i < ?l" using that l by (simp add: k_def)
    then have "?P (takeWhile ?P ?xs ! (63 - i))"
      unfolding leading_zeros_def by (metis nth_mem set_takeWhileD)
    moreover have "takeWhile ?P ?xs ! (63 - i) = ?xs ! (63 - i)"
      using j unfolding leading_zeros_def by (rule takeWhile_nth)
    ultimately show ?thesis using True by (simp add: rev_nth)
  next
    case False
    then show ?thesis using bit_imp_le_length [of w i] by auto
  qed
  have "bit (unat w) k" using set_k l by (simp add: bit_unsigned_iff k_def)
  then have "\<not> unat w < 2 ^ k" by (auto simp: bit_iff_odd)
  then show "2 ^ (64 - ?l - 1) \<le> unat w" by (simp add: k_def)
  have "i < Suc k" if "bit w i" for i
    using above that by (meson not_less_eq)
  then have "take_bit (Suc k) (unat w) = unat w"
    by (intro bit_eqI) (auto simp: bit_take_bit_iff bit_unsigned_iff)
  then have "unat w < 2 ^ Suc k" by (simp add: take_bit_nat_eq_self_iff)
  then show "unat w < 2 * 2 ^ (64 - ?l - 1)" by (simp add: k_def)
qed

lemma leading_zeros_0 [simp]: "leading_zeros 0 = 64"
  by (simp add: leading_zeros_def takeWhile_eq_all_conv [THEN iffD2])

lemma largest_power_of_two_below_less: "1 < n \<Longrightarrow> largest_power_of_two_below n < n"
proof (cases "of_nat (n - 1) = (0 :: u64)")
  case True
  then show "1 < n \<Longrightarrow> ?thesis"
    unfolding largest_power_of_two_below_def by (simp only: leading_zeros_0) simp
next
  case False
  assume "1 < n"
  have "unat (of_nat (n - 1) :: u64) \<le> n - 1" by (simp add: unat_of_nat)
  with leading_zeros_bounds(1) [OF False] have "largest_power_of_two_below n \<le> n - 1"
    unfolding largest_power_of_two_below_def by (rule order_trans)
  with \<open>1 < n\<close> show ?thesis by simp
qed

lemma largest_power_of_two_below_pos [simp]: "0 < largest_power_of_two_below n"
  by (simp add: largest_power_of_two_below_def)

lemma largest_power_of_two_below_half:
  "1 < n \<Longrightarrow> n \<le> 2 ^ 64 \<Longrightarrow> n \<le> 2 * largest_power_of_two_below n"
proof -
  assume n: "1 < n" "n \<le> 2 ^ 64"
  then have "n - 1 < 2 ^ 64" by simp
  then have u: "unat (of_nat (n - 1) :: u64) = n - 1" unfolding unat_of_nat by simp
  then have "of_nat (n - 1) \<noteq> (0 :: u64)" using n by auto
  from leading_zeros_bounds(2) [OF this] show ?thesis
    using n by (simp only: u largest_power_of_two_below_def)
qed

function comet_merkle_hashes :: "sha256 \<Rightarrow> id32 list \<Rightarrow> id32" where
  "comet_merkle_hashes sha hs =
     (if length hs \<le> 1 then hs ! 0
      else let split = largest_power_of_two_below (length hs);
               left = comet_merkle_hashes sha (take split hs);
               right = comet_merkle_hashes sha (drop split hs)
           in sha ([1] @ to_be_bytes left @ to_be_bytes right))"
  by pat_completeness auto
termination
  by (relation "measure (length \<circ> snd)")
     (auto simp: largest_power_of_two_below_less not_le intro!: diff_less)

declare comet_merkle_hashes.simps [simp del]

definition comet_merkle_root :: "sha256 \<Rightarrow> bytes list \<Rightarrow> id32" where
  "comet_merkle_root sha vs = comet_merkle_hashes sha (map (\<lambda>v. sha ([0] @ v)) vs)"

record comet_bft_validator_set =
  cs_validators :: "comet_bft_validator list"
  cs_hash :: id32

fun adjacent_equal :: "'a list \<Rightarrow> bool" where
  "adjacent_equal (a # b # r) = (a = b \<or> adjacent_equal (b # r))"
| "adjacent_equal _ = False"

definition comet_total :: "comet_bft_validator list \<Rightarrow> engine_identity_error + u64" where
  "comet_total vs =
     try_fold (\<lambda>total v. ok_or (checked_add total (cv_voting_power v))
       (CometTotalVotingPowerTooLarge (- 1) COMET_BFT_MAX_TOTAL_VOTING_POWER)) 0 vs"

definition from_noxis_validator_set :: "sha256 \<Rightarrow> validator_set \<Rightarrow> engine_identity_error + comet_bft_validator_set" where
  "from_noxis_validator_set sha s =
     and_then (collect_results (from_noxis sha) (vs_validators s)) (\<lambda>mapped.
     and_then (comet_total mapped) (\<lambda>total.
     if total > COMET_BFT_MAX_TOTAL_VOTING_POWER
     then Inl (CometTotalVotingPowerTooLarge total COMET_BFT_MAX_TOTAL_VOTING_POWER)
     else let sorted = sort_key (\<lambda>v. (- sint (cv_voting_power v), cv_address v)) mapped
          in if adjacent_equal (map cv_address sorted) then Inl DuplicateCometValidatorAddress
             else Inr \<lparr>cs_validators = sorted,
                       cs_hash = comet_merkle_root sha (map comet_hash_bytes sorted)\<rparr>))"

subsection \<open>Genesis anchor and decisions\<close>

record comet_bft_genesis =
  cg_identity :: comet_bft_network_identity
  cg_validators :: comet_bft_validator_set
  cg_id :: id32

definition from_consensus_config ::
  "sha256 \<Rightarrow> comet_bft_network_identity \<Rightarrow> validator_set \<Rightarrow> engine_identity_error + comet_bft_genesis" where
  "from_consensus_config sha n s =
     (if ni_compatibility_version n \<noteq> COMET_BFT_V0_38_COMPATIBILITY_VERSION
      then Inl UnsupportedCometCompatibilityVersion
      else and_then (from_noxis_validator_set sha s) (\<lambda>vs.
        Inr \<lparr>cg_identity = n, cg_validators = vs,
             cg_id = sha (ascii ''NOXIS/COMET-BFT/GENESIS-ID/V1'' @ [0] @ encode_identity n @
               to_be_bytes (cs_hash vs))\<rparr>))"

record comet_bft_decision =
  de_network_id :: id32
  de_height :: i64
  de_block_hash :: id32
  de_next_validators_hash :: id32

definition CometBftDecision_new ::
  "comet_bft_genesis \<Rightarrow> i64 \<Rightarrow> id32 \<Rightarrow> id32 \<Rightarrow> engine_identity_error + comet_bft_decision" where
  "CometBftDecision_new g h block_hash next_hash =
     (if sint h \<le> 0 then Inl (InvalidDecisionHeight h)
      else if block_hash = 0 then Inl ZeroDecisionBlockHash
      else if next_hash = 0 then Inl ZeroNextValidatorsHash
      else Inr \<lparr>de_network_id = cg_id g, de_height = h, de_block_hash = block_hash,
                de_next_validators_hash = next_hash\<rparr>)"

definition CometBftDecision_from_persisted ::
  "id32 \<Rightarrow> i64 \<Rightarrow> id32 \<Rightarrow> id32 \<Rightarrow> engine_identity_error + comet_bft_decision" where
  "CometBftDecision_from_persisted network h block_hash next_hash =
     (if network = 0 then Inl ZeroDecisionNetworkId
      else if sint h \<le> 0 then Inl (InvalidDecisionHeight h)
      else if block_hash = 0 then Inl ZeroDecisionBlockHash
      else if next_hash = 0 then Inl ZeroNextValidatorsHash
      else Inr \<lparr>de_network_id = network, de_height = h, de_block_hash = block_hash,
                de_next_validators_hash = next_hash\<rparr>)"

definition validate_for :: "comet_bft_decision \<Rightarrow> comet_bft_genesis \<Rightarrow> u64 \<Rightarrow> engine_identity_error + unit" where
  "validate_for d g noxis_height =
     (if de_network_id d \<noteq> cg_id g then Inl DecisionNetworkMismatch
      else and_then (engine_height_for (cg_identity g) noxis_height) (\<lambda>expected.
        if de_height d \<noteq> expected then Inl (DecisionHeightMismatch expected (de_height d))
        else if de_next_validators_hash d \<noteq> cs_hash (cg_validators g)
        then Inl UnexpectedNextValidatorsHash
        else Inr ()))"

subsection \<open>The identity encoding\<close>

definition identity_wf :: "comet_bft_network_identity \<Rightarrow> bool" where
  "identity_wf n \<longleftrightarrow> CometBftNetworkIdentity_new (ni_chain_id n) (ni_initial_height n)
     (ni_compatibility_version n) (ni_parameters_sha256 n) = Inr n"

lemma validate_label_ok [simp]:
  "validate_label l m e = Inr u \<longleftrightarrow> l \<noteq> [] \<and> length l \<le> m \<and> (\<forall>b \<in> set l. is_ascii_graphic b)"
  by (auto simp: validate_label_def)

lemma identity_new_iff:
  "CometBftNetworkIdentity_new c h v p = Inr n \<longleftrightarrow>
     n = \<lparr>ni_chain_id = c, ni_initial_height = h, ni_compatibility_version = v, ni_parameters_sha256 = p\<rparr> \<and>
     c \<noteq> [] \<and> length c \<le> 128 \<and> (\<forall>b \<in> set c. is_ascii_graphic b) \<and> 0 < sint h \<and>
     v \<noteq> [] \<and> length v \<le> 64 \<and> (\<forall>b \<in> set v. is_ascii_graphic b)"
  by (auto simp: CometBftNetworkIdentity_new_def and_then_eq_Inr not_le
      MAX_COMET_BFT_CHAIN_ID_BYTES_def MAX_COMET_BFT_COMPATIBILITY_VERSION_BYTES_def)

lemma identity_wf_iff:
  "identity_wf n \<longleftrightarrow> ni_chain_id n \<noteq> [] \<and> length (ni_chain_id n) \<le> 128 \<and>
     (\<forall>b \<in> set (ni_chain_id n). is_ascii_graphic b) \<and> 0 < sint (ni_initial_height n) \<and>
     ni_compatibility_version n \<noteq> [] \<and> length (ni_compatibility_version n) \<le> 64 \<and>
     (\<forall>b \<in> set (ni_compatibility_version n). is_ascii_graphic b)"
  unfolding identity_wf_def identity_new_iff by (cases n) simp

lemma ascii_is_utf8: "\<forall>b \<in> set l. is_ascii_graphic b \<Longrightarrow> is_utf8 l"
proof (induction l)
  case (Cons a l)
  then have "a < 0x80" by (auto simp: is_ascii_graphic_def word_le_nat_alt word_less_nat_alt)
  with Cons show ?case by simp
qed simp

lemma read_label_back:
  "\<forall>b \<in> set l. is_ascii_graphic b \<Longrightarrow> n = length l \<Longrightarrow> length pre + n + length rest < 2 ^ 64 \<Longrightarrow>
   read_label n (reader_at pre (l @ rest)) = Inr (l, reader_at (pre @ l) rest)"
  using raw.reads_back [of l n pre rest identity_reader]
  by (simp add: read_label_def ascii_is_utf8)

lemma unat_length_byte: "length l < 256 \<Longrightarrow> unat (of_nat (length l) :: byte) = length l"
  by (simp add: unat_of_nat)

lemma decode_identity_back:
  assumes "identity_wf n"
  shows "decode_comet_bft_network_identity (encode_identity n) = Inr n"
proof -
  note wf = assms [unfolded identity_wf_iff]
  have c: "unat (of_nat (length (ni_chain_id n)) :: byte) = length (ni_chain_id n)"
    and v: "unat (of_nat (length (ni_compatibility_version n)) :: byte) = length (ni_compatibility_version n)"
    using wf by (intro unat_length_byte; simp)+
  have "1 \<le> length (ni_chain_id n)" "1 \<le> length (ni_compatibility_version n)"
    using wf by (simp_all add: Suc_le_eq)
  then have len: "46 \<le> length (encode_identity n)" "length (encode_identity n) \<le> 236"
    using wf by (simp_all add: encode_identity_def del: One_nat_def)
  have mk: "CometBftNetworkIdentity_new (ni_chain_id n) (ni_initial_height n)
     (ni_compatibility_version n) (ni_parameters_sha256 n) = Inr n"
    using assms by (simp add: identity_wf_def)
  show ?thesis
    using wf len
    by (simp add: decode_comet_bft_network_identity_def MIN_ENCODED_LENGTH_def
        MAX_COMET_BFT_NETWORK_IDENTITY_ENCODED_LENGTH_def MAX_COMET_BFT_CHAIN_ID_BYTES_def
        MAX_COMET_BFT_COMPATIBILITY_VERSION_BYTES_def,
       subst (1) encode_identity_def, simp add: wire_simps read_label_back c v mk)
qed

lemma decode_identity_only:
  "decode_comet_bft_network_identity bs = Inr n \<Longrightarrow> bs = encode_identity n \<and> identity_wf n"
proof -
  assume "decode_comet_bft_network_identity bs = Inr n"
  then obtain c h v p where "CometBftNetworkIdentity_new c h v p = Inr n" "bs = encode_identity n"
    by (auto simp: decode_comet_bft_network_identity_def and_then_eq_Inr split: if_splits)
  then show ?thesis by (auto simp: identity_new_iff identity_wf_iff)
qed

subsection \<open>The validator-set hash\<close>

lemma bit_128 [simp]: "bit (128 :: int) n \<longleftrightarrow> n = 7"
  using bit_exp_iff [of 7 n, where 'a = int] by auto

lemma uvarint_last: "\<not> 0x80 \<le> (w :: u64) \<Longrightarrow> \<not> bit w 7"
proof
  assume "\<not> 0x80 \<le> w" "bit w 7"
  then have "unat w < 2 ^ 7" "bit (unat w) 7" by (simp_all add: word_le_nat_alt bit_unsigned_iff)
  then show False by (auto simp: bit_iff_odd)
qed

lemma uvarint_bits:
  assumes "(or (ucast w) 0x80 :: byte) = or (ucast v) 0x80" "drop_bit 7 w = drop_bit 7 (v :: u64)"
  shows "w = v"
proof (rule bit_word_eqI)
  fix n :: nat
  show "bit w n = bit v n"
  proof (cases "n < 7")
    case True
    then show ?thesis using arg_cong [OF assms(1), of "\<lambda>b. bit b n"] by (simp add: bit_or_iff bit_unsigned_iff)
  next
    case False
    then show ?thesis using arg_cong [OF assms(2), of "\<lambda>b. bit b (n - 7)"] by (simp add: bit_simps)
  qed
qed

lemma uvarint_final:
  assumes "(ucast w :: byte) = ucast v" "\<not> 0x80 \<le> w" "\<not> 0x80 \<le> (v :: u64)"
  shows "w = v"
proof -
  have "unat w = unat v"
    using arg_cong [OF assms(1), of unat] assms(2,3)
    by (simp add: unsigned_ucast_eq word_le_nat_alt not_le take_bit_eq_mod)
  then show ?thesis by (simp add: word_unat_eq_iff)
qed

lemma uvarint_prefix_free:
  "encode_uvarint w @ r = encode_uvarint v @ q \<Longrightarrow> w = v \<and> r = q"
proof (induction w arbitrary: v rule: encode_uvarint.induct)
  case (1 w)
  have top: "(ucast x :: byte) \<noteq> or (ucast y) 0x80" if "\<not> 0x80 \<le> x" for x y :: u64
  proof
    assume "(ucast x :: byte) = or (ucast y) 0x80"
    then have "bit (ucast x :: byte) 7 = bit (or (ucast y) 0x80 :: byte) 7" by (simp only:)
    then show False using uvarint_last [OF that] by (simp add: bit_or_iff bit_unsigned_iff)
  qed
  note unfold = encode_uvarint.simps [of w] encode_uvarint.simps [of v]
  show ?case
  proof (cases "0x80 \<le> w"; cases "0x80 \<le> v")
    assume c: "0x80 \<le> w" "0x80 \<le> v"
    with 1 have "(or (ucast w) 0x80 :: byte) = or (ucast v) 0x80"
      "encode_uvarint (drop_bit 7 w) @ r = encode_uvarint (drop_bit 7 v) @ q"
      unfolding unfold by (simp_all only: if_True append_Cons list.inject)
    then show ?thesis using 1(1) [OF c(1)] uvarint_bits by blast
  next
    assume "\<not> 0x80 \<le> w" "\<not> 0x80 \<le> v"
    then show ?thesis using 1(2) uvarint_final [of w v] unfolding unfold by simp
  next
    assume "0x80 \<le> w" "\<not> 0x80 \<le> v"
    then show ?thesis using 1(2) top [of v w] unfolding unfold by simp
  next
    assume "\<not> 0x80 \<le> w" "0x80 \<le> v"
    then show ?thesis using 1(2) top [of w v] unfolding unfold by simp
  qed
qed

lemma comet_hash_bytes_inject:
  "comet_hash_bytes v = comet_hash_bytes w \<Longrightarrow>
   cv_public_key v = cv_public_key w \<and> cv_voting_power v = cv_voting_power w"
  using uvarint_prefix_free [of "cv_voting_power v" "[]" "cv_voting_power w" "[]"]
  by (simp add: comet_hash_bytes_def)

lemma comet_hash_bytes_map:
  "map comet_hash_bytes vs = map comet_hash_bytes ws \<Longrightarrow>
   map (\<lambda>w. (to_be_bytes (cv_public_key w), cv_voting_power w)) vs =
   map (\<lambda>w. (to_be_bytes (cv_public_key w), cv_voting_power w)) ws"
proof (induction vs ws rule: list_induct2')
  case (4 v vs w ws)
  then show ?case using comet_hash_bytes_inject [of v w] by simp
qed simp_all

lemma comet_merkle_root_single [simp]: "comet_merkle_root sha [v] = sha (0 # v)"
  by (simp add: comet_merkle_root_def comet_merkle_hashes.simps)

lemma comet_merkle_root_split:
  "1 < length vs \<Longrightarrow> comet_merkle_root sha vs =
     (let s = largest_power_of_two_below (length vs) in
      sha ([1] @ to_be_bytes (comet_merkle_root sha (take s vs)) @ to_be_bytes (comet_merkle_root sha (drop s vs))))"
  unfolding comet_merkle_root_def
  by (subst comet_merkle_hashes.simps) (simp add: Let_def take_map drop_map)

text \<open>The inputs hashed to compute a root: one per leaf and one per inner node.\<close>

function comet_inputs :: "sha256 \<Rightarrow> bytes list \<Rightarrow> bytes set" where
  "comet_inputs sha vs =
     (if length vs \<le> 1 then (\<lambda>v. 0 # v) ` set vs
      else let s = largest_power_of_two_below (length vs) in
        insert ([1] @ to_be_bytes (comet_merkle_root sha (take s vs)) @ to_be_bytes (comet_merkle_root sha (drop s vs)))
          (comet_inputs sha (take s vs) \<union> comet_inputs sha (drop s vs)))"
  by pat_completeness auto
termination
  by (relation "measure (length \<circ> snd)")
     (auto simp: largest_power_of_two_below_less not_le intro!: diff_less)

declare comet_inputs.simps [simp del]

lemma comet_root_input:
  assumes "vs \<noteq> []"
  obtains u where "u \<in> comet_inputs sha vs" "comet_merkle_root sha vs = sha u"
    "length vs \<le> 1 \<longleftrightarrow> hd u = 0"
proof (cases "length vs \<le> 1")
  case True
  then obtain v where "vs = [v]" using assms by (cases vs) auto
  then show ?thesis by (intro that [of "0 # v"]) (simp_all add: comet_inputs.simps)
next
  case False
  then show ?thesis
    by (intro that [of "[1] @ to_be_bytes (comet_merkle_root sha (take (largest_power_of_two_below (length vs)) vs))
          @ to_be_bytes (comet_merkle_root sha (drop (largest_power_of_two_below (length vs)) vs))"])
       (simp_all add: comet_inputs.simps [of sha vs] comet_merkle_root_split Let_def)
qed

lemma comet_root_binds:
  "vs \<noteq> [] \<Longrightarrow> ws \<noteq> [] \<Longrightarrow> comet_merkle_root sha vs = comet_merkle_root sha ws \<Longrightarrow>
   \<not> collision_between sha (comet_inputs sha vs) (comet_inputs sha ws) \<Longrightarrow> vs = ws"
proof (induction "length vs" arbitrary: vs ws rule: less_induct)
  case less
  obtain u where u: "u \<in> comet_inputs sha vs" "comet_merkle_root sha vs = sha u"
    "length vs \<le> 1 \<longleftrightarrow> hd u = 0" by (rule comet_root_input [OF less.prems(1)])
  obtain w where w: "w \<in> comet_inputs sha ws" "comet_merkle_root sha ws = sha w"
    "length ws \<le> 1 \<longleftrightarrow> hd w = 0" by (rule comet_root_input [OF less.prems(2)])
  have "u = w" using less.prems(3,4) u(1,2) w(1,2) unfolding collision_between_def by metis
  then have same: "length vs \<le> 1 \<longleftrightarrow> length ws \<le> 1" using u(3) w(3) by simp
  show ?case
  proof (cases "length vs \<le> 1")
    case True
    then obtain v v' where "vs = [v]" "ws = [v']"
      using same less.prems(1,2) by (cases vs; cases ws) auto
    then show ?thesis using less.prems(3,4) by (auto simp: comet_inputs.simps collision_between_def)
  next
    case False
    then have l: "1 < length vs" "1 < length ws" using same by simp_all
    let ?s = "largest_power_of_two_below (length vs)" and ?t = "largest_power_of_two_below (length ws)"
    let ?node = "\<lambda>k xs. [1] @ to_be_bytes (comet_merkle_root sha (take k xs)) @ to_be_bytes (comet_merkle_root sha (drop k xs))"
    have lt: "?s < length vs" "?t < length ws" using l by (simp_all add: largest_power_of_two_below_less)
    have iv: "comet_inputs sha vs = insert (?node ?s vs) (comet_inputs sha (take ?s vs) \<union> comet_inputs sha (drop ?s vs))"
      using l by (subst comet_inputs.simps) (simp add: Let_def)
    have iw: "comet_inputs sha ws = insert (?node ?t ws) (comet_inputs sha (take ?t ws) \<union> comet_inputs sha (drop ?t ws))"
      using l by (subst comet_inputs.simps) (simp add: Let_def)
    have "?node ?s vs = ?node ?t ws"
      using less.prems(3,4) l unfolding iv iw collision_between_def
      by (auto simp: comet_merkle_root_split Let_def)
    then have halves: "comet_merkle_root sha (take ?s vs) = comet_merkle_root sha (take ?t ws)"
      "comet_merkle_root sha (drop ?s vs) = comet_merkle_root sha (drop ?t ws)" by simp_all
    have nc: "\<not> collision_between sha (comet_inputs sha (take ?s vs)) (comet_inputs sha (take ?t ws))"
      "\<not> collision_between sha (comet_inputs sha (drop ?s vs)) (comet_inputs sha (drop ?t ws))"
      using less.prems(4) unfolding iv iw collision_between_def by blast+
    have ne: "take ?s vs \<noteq> []" "take ?t ws \<noteq> []" "drop ?s vs \<noteq> []" "drop ?t ws \<noteq> []"
      using lt less.prems(1,2) by (simp_all add: largest_power_of_two_below_pos [THEN less_imp_neq, symmetric])
    have "take ?s vs = take ?t ws"
      using lt by (intro less.hyps ne halves nc) simp
    moreover have "drop ?s vs = drop ?t ws"
      using l less.prems(1)
      by (intro less.hyps ne halves nc) (simp add: diff_less [OF largest_power_of_two_below_pos])
    ultimately show ?thesis by (metis append_take_drop_id)
  qed
qed

lemma from_noxis_set_parts:
  assumes "from_noxis_validator_set sha s = Inr c"
  shows "cs_hash c = comet_merkle_root sha (map comet_hash_bytes (cs_validators c))"
    and "\<exists>mapped. collect_results (from_noxis sha) (vs_validators s) = Inr mapped \<and>
      mset (cs_validators c) = mset mapped"
    and "sorted (map (\<lambda>v. (- sint (cv_voting_power v), cv_address v)) (cs_validators c))"
    and "\<not> adjacent_equal (map cv_address (cs_validators c))"
  using assms
  by (auto simp: from_noxis_validator_set_def and_then_eq_Inr Let_def split: if_splits)

lemma from_noxis_parts:
  assumes "from_noxis sha v = Inr w"
  shows "to_be_bytes (cv_public_key w) = vk_bytes (va_verification_key v)"
    and "cv_voting_power w = va_voting_power v" and "cv_noxis_validator_id w = va_id v"
    and "0 < sint (cv_voting_power w)"
  using assms
  by (auto simp: from_noxis_def from_comet_ed25519_def COMET_BFT_ED25519_PUBLIC_KEY_LENGTH_def
      to_from_be_bytes split: if_splits)

lemma from_noxis_map:
  "list_all2 (\<lambda>v w. from_noxis sha v = Inr w) vs ws \<Longrightarrow>
   map (\<lambda>v. (vk_bytes (va_verification_key v), va_voting_power v)) vs =
   map (\<lambda>w. (to_be_bytes (cv_public_key w), cv_voting_power w)) ws"
  by (induction rule: list_all2_induct) (auto simp: from_noxis_parts)

lemma comet_total_sum:
  "comet_total vs = Inr t \<Longrightarrow> unat t = (\<Sum>v\<leftarrow>vs. unat (cv_voting_power v))"
proof -
  have "try_fold (\<lambda>total v. ok_or (checked_add total (cv_voting_power v)) e) a vs = Inr t \<Longrightarrow>
    unat t = unat a + (\<Sum>v\<leftarrow>vs. unat (cv_voting_power v))" for a and e :: engine_identity_error
    by (induction vs arbitrary: a) (auto simp: and_then_eq_Inr checked_add_Some_iff)
  then show "comet_total vs = Inr t \<Longrightarrow> ?thesis" by (auto simp: comet_total_def)
qed

lemma from_noxis_set_multiset:
  assumes "from_noxis_validator_set sha s = Inr c"
  shows "mset (map (\<lambda>v. (vk_bytes (va_verification_key v), va_voting_power v)) (vs_validators s)) =
    mset (map (\<lambda>w. (to_be_bytes (cv_public_key w), cv_voting_power w)) (cs_validators c))"
proof -
  obtain mapped where m: "collect_results (from_noxis sha) (vs_validators s) = Inr mapped"
    "mset (cs_validators c) = mset mapped" using from_noxis_set_parts(2) [OF assms] by blast
  from m(1) have "map (\<lambda>v. (vk_bytes (va_verification_key v), va_voting_power v)) (vs_validators s) =
     map (\<lambda>w. (to_be_bytes (cv_public_key w), cv_voting_power w)) mapped"
    by (intro from_noxis_map [of sha]) (simp add: collect_results_Inr_iff)
  then show ?thesis using m(2) by (simp only: mset_map)
qed

lemma engine_height_iff:
  assumes "0 < sint (ni_initial_height n)"
  shows "engine_height_for n h = Inr e \<longleftrightarrow>
    h \<noteq> 0 \<and> sint e = sint (ni_initial_height n) + int (unat h) - 1"
proof (cases "h = 0")
  case True
  then show ?thesis by (simp add: engine_height_for_def)
next
  case False
  then have u: "unat (h - 1) = unat h - 1" "0 < unat h" by (auto simp: unat_minus_one unat_gt_0)
  show ?thesis
  proof (cases "unat (h - 1) < 2 ^ 63")
    case True
    then have "sint (h - 1) = int (unat h) - 1"
      using u by (simp add: sint_small of_nat_diff)
    then show ?thesis
      using True \<open>h \<noteq> 0\<close> by (auto simp: engine_height_for_def checked_add_i64_Some_iff)
  next
    case False
    have "sint e < 2 ^ 63" by (rule sint_range)
    moreover from False have "2 ^ 63 + 1 \<le> unat h" using u by simp
    then have "int (2 ^ 63 + 1) \<le> int (unat h)" by (simp only: of_nat_le_iff)
    ultimately show ?thesis using False assms by (auto simp: engine_height_for_def)
  qed
qed

subsection \<open>Properties\<close>

text \<open>the CometBFT network-identity codec is exact. The decoder accepts a byte string precisely when
  it is the encoding of an identity the constructor accepts (printable labels within their length
  limits, a positive initial height), and it returns that identity.\<close>

lemma identity_codec_exact:
  "decode_comet_bft_network_identity bs = Inr n \<longleftrightarrow> identity_wf n \<and> bs = encode_identity n"
  using decode_identity_back decode_identity_only by blast

text \<open>the engine height assigned to a Noxis height is the initial engine height plus the number of
  Noxis blocks before it, and it is assigned exactly when that number fits an \<open>i64\<close> (the genesis height
  0 has none): the map neither wraps around nor skips a height.\<close>

lemma engine_height_is_offset:
  assumes "identity_wf n"
  shows "engine_height_for n h = Inr e \<longleftrightarrow>
    h \<noteq> 0 \<and> sint e = sint (ni_initial_height n) + int (unat h) - 1"
  using assms by (intro engine_height_iff) (simp add: identity_wf_iff)

definition sample_identity :: comet_bft_network_identity where
  "sample_identity = \<lparr>ni_chain_id = ascii ''noxis-1'', ni_initial_height = 5,
     ni_compatibility_version = COMET_BFT_V0_38_COMPATIBILITY_VERSION, ni_parameters_sha256 = 7\<rparr>"

lemma sample_identity_wf: "identity_wf sample_identity"
  by code_simp

text \<open>the CometBFT validator-set hash is binding. If two validator sets are translated and their
  hashes agree, then they hold the same public keys with the same voting powers, or the hash
  computations exhibit a SHA-256 collision.\<close>

lemma comet_validator_hash_binds:
  assumes "from_noxis_validator_set sha s = Inr c" and "from_noxis_validator_set sha t = Inr d"
    and "vs_validators s \<noteq> []" and "vs_validators t \<noteq> []" and "cs_hash c = cs_hash d"
  shows "mset (map (\<lambda>v. (vk_bytes (va_verification_key v), va_voting_power v)) (vs_validators s)) =
      mset (map (\<lambda>v. (vk_bytes (va_verification_key v), va_voting_power v)) (vs_validators t)) \<or>
    collision_between sha (comet_inputs sha (map comet_hash_bytes (cs_validators c)))
      (comet_inputs sha (map comet_hash_bytes (cs_validators d)))"
proof (rule disjCI)
  assume nc: "\<not> collision_between sha (comet_inputs sha (map comet_hash_bytes (cs_validators c)))
      (comet_inputs sha (map comet_hash_bytes (cs_validators d)))"
  note c = from_noxis_set_multiset [OF assms(1)] and d = from_noxis_set_multiset [OF assms(2)]
  have "cs_validators c \<noteq> []" "cs_validators d \<noteq> []" using c d assms(3,4) by auto
  then have "map comet_hash_bytes (cs_validators c) = map comet_hash_bytes (cs_validators d)"
    using assms(5) nc
    by (intro comet_root_binds) (simp_all add: from_noxis_set_parts(1) [OF assms(1)] from_noxis_set_parts(1) [OF assms(2)])
  then have "map (\<lambda>w. (to_be_bytes (cv_public_key w), cv_voting_power w)) (cs_validators c) =
      map (\<lambda>w. (to_be_bytes (cv_public_key w), cv_voting_power w)) (cs_validators d)"
    by (rule comet_hash_bytes_map)
  then show "mset (map (\<lambda>v. (vk_bytes (va_verification_key v), va_voting_power v)) (vs_validators s)) =
      mset (map (\<lambda>v. (vk_bytes (va_verification_key v), va_voting_power v)) (vs_validators t))"
    using c d by simp
qed

definition sample_comet_validator :: "validator_id \<Rightarrow> byte \<Rightarrow> u64 \<Rightarrow> validator" where
  "sample_comet_validator i key voting_power =
     \<lparr>va_id = i, va_voting_power = voting_power,
      va_verification_key = \<lparr>vk_signature_scheme = 1, vk_bytes = replicate 32 key\<rparr>\<rparr>"

definition sample_comet_set :: "validator list \<Rightarrow> validator_set" where
  "sample_comet_set vs =
     \<lparr>vs_validators = vs, vs_total_voting_power = sum_list (map va_voting_power vs), vs_id = 0\<rparr>"

definition comet_of :: "sha256 \<Rightarrow> validator \<Rightarrow> comet_bft_validator" where
  "comet_of sha v = \<lparr>cv_noxis_validator_id = va_id v,
     cv_address = from_be_bytes (take 20 (to_be_bytes (sha (vk_bytes (va_verification_key v))))),
     cv_public_key = from_be_bytes (vk_bytes (va_verification_key v)), cv_voting_power = va_voting_power v\<rparr>"

lemma from_noxis_ok:
  assumes "vk_signature_scheme (va_verification_key v) = 1" "length (vk_bytes (va_verification_key v)) = 32"
    and p: "0 < unat (va_voting_power v)" "unat (va_voting_power v) \<le> 1000"
  shows "from_noxis sha v = Inr (comet_of sha v)"
proof -
  have small: "unat (va_voting_power v) < 2 ^ 63" using p(2) by (rule le_less_trans) simp
  then have "sint (va_voting_power v) = int (unat (va_voting_power v))" by (rule sint_small)
  then have positive: "\<not> sint (va_voting_power v) \<le> 0" using p(1) by linarith
  have bounded: "\<not> COMET_BFT_MAX_TOTAL_VOTING_POWER < va_voting_power v"
    unfolding max_power_val word_less_nat_alt not_less using p(2) by (rule order_trans) simp
  have key: "to_be_bytes (from_be_bytes (vk_bytes (va_verification_key v)) :: id32) =
      vk_bytes (va_verification_key v)"
    by (rule to_from_be_bytes) (simp_all add: assms(2))
  show ?thesis
    unfolding from_noxis_def from_comet_ed25519_def comet_of_def
      COMET_BFT_ED25519_SIGNATURE_SCHEME_def COMET_BFT_ED25519_PUBLIC_KEY_LENGTH_def
    by (simp only: assms(1,2) positive bounded key small [unfolded not_le [symmetric]] if_False simp_thms)
qed

lemma sample_comet_validator_ok [simp]:
  "0 < unat p \<Longrightarrow> unat p \<le> 1000 \<Longrightarrow>
   from_noxis sha (sample_comet_validator i k p) = Inr (comet_of sha (sample_comet_validator i k p))"
  by (rule from_noxis_ok) (simp_all add: sample_comet_validator_def)

lemma sample_comet_validator_parts [simp]:
  "cv_voting_power (comet_of sha (sample_comet_validator i k p)) = p"
  "cv_address (comet_of sha (sample_comet_validator i k p)) =
     from_be_bytes (take 20 (to_be_bytes (sha (replicate 32 k))))"
  "vk_bytes (va_verification_key (sample_comet_validator i k p)) = replicate 32 k"
  by (simp_all add: comet_of_def sample_comet_validator_def)

lemma sample_comet_single:
  "from_noxis_validator_set sha (sample_comet_set [sample_comet_validator i k 5]) =
     Inr \<lparr>cs_validators = [comet_of sha (sample_comet_validator i k 5)],
       cs_hash = sha (0 # comet_hash_bytes (comet_of sha (sample_comet_validator i k 5)))\<rparr>"
  by (simp add: from_noxis_validator_set_def sample_comet_set_def comet_total_def checked_add_def
      max_power_val)

text \<open>The translated validator set is one CometBFT accepts: every voting power is positive, their sum
  is the Noxis total and stays within CometBFT's limit of an eighth of the \<open>i64\<close> range, the order is the
  engine's (power descending, then address ascending), and no neighbours share an address.\<close>

lemma comet_set_is_canonical:
  assumes "from_noxis_validator_set sha s = Inr c"
  shows "(\<forall>v \<in> set (cs_validators c). 0 < sint (cv_voting_power v)) \<and>
    (\<Sum>v\<leftarrow>cs_validators c. unat (cv_voting_power v)) = (\<Sum>v\<leftarrow>vs_validators s. unat (va_voting_power v)) \<and>
    (\<Sum>v\<leftarrow>cs_validators c. unat (cv_voting_power v)) \<le> unat COMET_BFT_MAX_TOTAL_VOTING_POWER \<and>
    sorted (map (\<lambda>v. (- sint (cv_voting_power v), cv_address v)) (cs_validators c)) \<and>
    \<not> adjacent_equal (map cv_address (cs_validators c))"
proof (intro conjI)
  obtain mapped t where m: "collect_results (from_noxis sha) (vs_validators s) = Inr mapped"
    "mset (cs_validators c) = mset mapped" "comet_total mapped = Inr t" "t \<le> COMET_BFT_MAX_TOTAL_VOTING_POWER"
    using assms by (auto simp: from_noxis_validator_set_def and_then_eq_Inr Let_def not_less split: if_splits)
  have l: "list_all2 (\<lambda>v w. from_noxis sha v = Inr w) (vs_validators s) mapped"
    using m(1) by (simp add: collect_results_Inr_iff)
  have set_eq: "set (cs_validators c) = set mapped" using m(2) by (rule mset_eq_setD)
  show "\<forall>v \<in> set (cs_validators c). 0 < sint (cv_voting_power v)"
    using l unfolding set_eq by (induction rule: list_all2_induct) (auto dest: from_noxis_parts(4))
  have total: "(\<Sum>v\<leftarrow>cs_validators c. unat (cv_voting_power v)) = (\<Sum>v\<leftarrow>mapped. unat (cv_voting_power v))"
    by (simp only: sum_mset_sum_list [symmetric] mset_map m(2))
  have "map (\<lambda>v. unat (va_voting_power v)) (vs_validators s) = map (\<lambda>v. unat (cv_voting_power v)) mapped"
    using l by (induction rule: list_all2_induct) (auto simp: from_noxis_parts)
  then show "(\<Sum>v\<leftarrow>cs_validators c. unat (cv_voting_power v)) = (\<Sum>v\<leftarrow>vs_validators s. unat (va_voting_power v))"
    by (simp add: total)
  show "(\<Sum>v\<leftarrow>cs_validators c. unat (cv_voting_power v)) \<le> unat COMET_BFT_MAX_TOTAL_VOTING_POWER"
    unfolding total comet_total_sum [OF m(3), symmetric] using m(4) by (simp only: word_le_nat_alt)
qed (fact from_noxis_set_parts(3,4) [OF assms])+

text \<open>a CometBFT decision is valid for at most one Noxis height of a genesis: a decision accepted at two
  heights is accepted at the same height, so a persisted decision cannot be replayed for another block.\<close>

lemma decision_height_unique:
  assumes "identity_wf (cg_identity g)" and "validate_for d g h = Inr ()" and "validate_for d g k = Inr ()"
  shows "h = k"
proof -
  have "sint (de_height d) = sint (ni_initial_height (cg_identity g)) + int (unat h) - 1"
    "sint (de_height d) = sint (ni_initial_height (cg_identity g)) + int (unat k) - 1"
    using assms by (auto simp: validate_for_def and_then_eq_Inr identity_wf_iff engine_height_iff split: if_splits)
  then have "int (unat h) = int (unat k)" by linarith
  then show ?thesis by (simp only: of_nat_eq_iff word_unat_eq_iff)
qed

definition sample_genesis :: comet_bft_genesis where
  "sample_genesis = \<lparr>cg_identity = sample_identity,
     cg_validators = \<lparr>cs_validators = [], cs_hash = 9\<rparr>, cg_id = 4\<rparr>"

definition sample_decision :: comet_bft_decision where
  "sample_decision = \<lparr>de_network_id = 4, de_height = 7, de_block_hash = 1, de_next_validators_hash = 9\<rparr>"

lemma sample_genesis_wf: "identity_wf (cg_identity sample_genesis)"
  by (simp add: sample_genesis_def sample_identity_wf)

lemma sample_decision_valid: "validate_for sample_decision sample_genesis 3 = Inr ()"
  using engine_height_iff [of sample_identity 3 7]
  by (simp add: validate_for_def sample_decision_def sample_genesis_def sample_identity_def)

text \<open>
  The duplicate-address check compares neighbours of a list sorted by voting power first. A public key
  registered twice with different powers is found only when no other validator's power lies between the
  two; otherwise the translation succeeds with two entries for one address.
\<close>

theorem duplicate_address_undetected:
  assumes "(from_be_bytes (take 20 (to_be_bytes (sha (replicate 32 1)))) :: comet_address) \<noteq>
    from_be_bytes (take 20 (to_be_bytes (sha (replicate 32 2))))"
  shows "\<exists>c. from_noxis_validator_set sha (sample_comet_set
      [sample_comet_validator 1 1 10, sample_comet_validator 2 2 5, sample_comet_validator 3 1 3]) = Inr c \<and>
    \<not> distinct (map cv_address (cs_validators c))"
  using assms
  by (simp add: from_noxis_validator_set_def sample_comet_set_def comet_total_def checked_add_def
      max_power_val)

end
