(* ===== verification/Execution.thy ===== *)
theory Execution
  imports Ledger_Snapshot Consensus_Codec Engine
begin

text \<open>
  The deterministic block executor of \<^verbatim>\<open>crates/noxis-execution\<close>: the genesis-bound context, the
  committed state, the discardable candidate overlay, and the execution of one ordered proposal.
  The source mutates the ledger and the record chain in place, so the step function returns both
  after the step together with the result, also when the result is an error.
\<close>

subsection \<open>Context, states and errors\<close>

datatype execution_error =
  ExInvalidValidationContext validation_context_error
| ValidationContextAnchorMismatch
| ConsensusAnchorMismatch
| ExProofVerifierMismatch proof_verifier_id proof_verifier_id
| ExMintPolicyMismatch mint_policy_id mint_policy_id
| CommittedStateIdMismatch state_id state_id
| InvalidGenesisExecutionState
| MissingCommittedBlockId
| ExHeightOverflow
| UnexpectedHeight u64 u64
| TooManyTransactions nat u32
| ProposalBytesExceeded nat u32
| TransactionBytesExceeded nat nat u32
| TransactionCountOverflow
| TransactionCodec nat codec_error
| ExNonCanonicalTransaction nat
| TransactionCryptoSuiteMismatch nat crypto_suite crypto_suite
| ExLedger nat ledger_error
| ExRecord nat record_error
| ExRecordChain nat record_error
| ExConsensus consensus_error
| ExEngineIdentity engine_identity_error

record execution_context =
  xc_chain_anchor :: chain_anchor
  xc_validation_context :: validation_context
  xc_consensus_anchor :: consensus_anchor
  xc_consensus_config :: consensus_config
  xc_comet_bft_genesis :: comet_bft_genesis
  xc_verifier :: proof_verifier
  xc_mint_policy :: mint_policy

definition ExecutionContext_new ::
  "sha256 \<Rightarrow> chain_anchor \<Rightarrow> validation_context \<Rightarrow> consensus_anchor \<Rightarrow> consensus_config \<Rightarrow>
     comet_bft_genesis \<Rightarrow> proof_verifier \<Rightarrow> mint_policy \<Rightarrow> execution_error + execution_context" where
  "ExecutionContext_new sha chain_anchor validation_context consensus_anchor consensus_config genesis
       verifier policy =
     and_then (map_err ExInvalidValidationContext (context_validate validation_context)) (\<lambda>_.
     if context_id sha validation_context \<noteq> ca_validation_context_id chain_anchor \<or>
        vc_proof_verifier_id validation_context \<noteq> ca_proof_verifier_id chain_anchor \<or>
        vc_mint_policy_id validation_context \<noteq> ca_mint_policy_id chain_anchor
     then Inl ValidationContextAnchorMismatch
     else if an_genesis_id consensus_anchor \<noteq> ca_genesis_id chain_anchor \<or>
        an_validation_context_id consensus_anchor \<noteq> ca_validation_context_id chain_anchor \<or>
        an_genesis_state_id consensus_anchor \<noteq> ca_genesis_state_id chain_anchor \<or>
        an_consensus_config_id consensus_anchor \<noteq> cc_id consensus_config \<or>
        an_engine_network_id consensus_anchor \<noteq> cg_id genesis
     then Inl ConsensusAnchorMismatch
     else if pv_id verifier \<noteq> ca_proof_verifier_id chain_anchor
     then Inl (ExProofVerifierMismatch (ca_proof_verifier_id chain_anchor) (pv_id verifier))
     else if mp_id policy \<noteq> ca_mint_policy_id chain_anchor
     then Inl (ExMintPolicyMismatch (ca_mint_policy_id chain_anchor) (mp_id policy))
     else Inr \<lparr>xc_chain_anchor = chain_anchor, xc_validation_context = validation_context,
               xc_consensus_anchor = consensus_anchor, xc_consensus_config = consensus_config,
               xc_comet_bft_genesis = genesis, xc_verifier = verifier, xc_mint_policy = policy\<rparr>)"

record committed_execution_state =
  ce_ledger_state :: ledger_state
  ce_record_chain :: record_chain
  ce_height :: u64
  ce_block_id :: "block_id option"
  ce_terminal_record_hash :: "record_hash option"

definition from_parts ::
  "sha256 \<Rightarrow> ledger_state \<Rightarrow> record_chain \<Rightarrow> u64 \<Rightarrow> block_id option \<Rightarrow> record_hash option \<Rightarrow> chain_anchor \<Rightarrow>
     execution_error + committed_execution_state" where
  "from_parts sha s c height block terminal anchor =
     (let computed_state_id = ledger_state_id sha (ca_genesis_id anchor) s in
      if computed_state_id \<noteq> rc_current_state_id c
      then Inl (CommittedStateIdMismatch computed_state_id (rc_current_state_id c))
      else if height = 0 \<and> (block \<noteq> None \<or> terminal \<noteq> None) then Inl InvalidGenesisExecutionState
      else if height > 0 \<and> block = None then Inl MissingCommittedBlockId
      else Inr \<lparr>ce_ledger_state = s, ce_record_chain = c, ce_height = height, ce_block_id = block,
                ce_terminal_record_hash = terminal\<rparr>)"

definition CommittedExecutionState_genesis ::
  "sha256 \<Rightarrow> ledger_state \<Rightarrow> chain_anchor \<Rightarrow> execution_error + committed_execution_state" where
  "CommittedExecutionState_genesis sha s anchor =
     from_parts sha s (RecordChain_new (ca_genesis_state_id anchor)) 0 None None anchor"

definition from_executed_parts ::
  "ledger_state \<Rightarrow> record_chain \<Rightarrow> u64 \<Rightarrow> block_id \<Rightarrow> record_hash option \<Rightarrow> committed_execution_state" where
  "from_executed_parts s c height block terminal =
     \<lparr>ce_ledger_state = s, ce_record_chain = c, ce_height = height, ce_block_id = Some block,
      ce_terminal_record_hash = terminal\<rparr>"

record candidate_execution_state =
  cd_ledger_state :: ledger_state
  cd_record_chain :: record_chain

definition from_committed :: "committed_execution_state \<Rightarrow> candidate_execution_state" where
  "from_committed c = \<lparr>cd_ledger_state = ce_ledger_state c, cd_record_chain = ce_record_chain c\<rparr>"

record block_proposal =
  bp_height :: u64
  bp_comet_decision :: comet_bft_decision
  bp_transactions :: "bytes list"

record execution_receipt =
  er_transaction_intent_id :: transaction_intent_id
  er_record_hash :: record_hash
  er_resulting_state_id :: state_id

record executed_block =
  xb_header :: block_header
  xb_comet_decision :: comet_bft_decision
  xb_records :: "transaction_record list"
  xb_receipts :: "execution_receipt list"
  xb_resulting_state :: ledger_state
  xb_resulting_record_chain :: record_chain
  xb_terminal_record_hash :: "record_hash option"
  xb_app_hash :: app_hash

definition into_committed_state :: "executed_block \<Rightarrow> committed_execution_state" where
  "into_committed_state b =
     from_executed_parts (xb_resulting_state b) (xb_resulting_record_chain b)
       (bh_height (hd_input (xb_header b))) (hd_id (xb_header b)) (xb_terminal_record_hash b)"

subsection \<open>One transaction\<close>

text \<open>The checks before the ledger is touched: size, codec, canonical form, suite and intent id.\<close>

definition check_transaction ::
  "sha256 \<Rightarrow> execution_context \<Rightarrow> bytes \<Rightarrow> nat \<Rightarrow>
     execution_error + transaction \<times> bytes \<times> transaction_intent_id" where
  "check_transaction sha ctx bs index =
     (if length bs > unat MAX_RECORD_TRANSACTION_BYTES
      then Inl (TransactionBytesExceeded index (length bs) MAX_RECORD_TRANSACTION_BYTES)
      else and_then (map_err (TransactionCodec index) (decode_transaction bs)) (\<lambda>tx.
        and_then (map_err (TransactionCodec index) (encode_transaction tx)) (\<lambda>canonical.
        if canonical \<noteq> bs then Inl (ExNonCanonicalTransaction index)
        else if tx_suite tx \<noteq> vc_crypto_suite (xc_validation_context ctx)
        then Inl (TransactionCryptoSuiteMismatch index (vc_crypto_suite (xc_validation_context ctx))
               (tx_suite tx))
        else and_then (map_err (TransactionCodec index) (transaction_intent_id sha tx)) (\<lambda>intent_id.
          Inr (tx, canonical, intent_id)))))"

definition transition_context ::
  "execution_context \<Rightarrow> record_chain \<Rightarrow> transaction_intent_id \<Rightarrow> transaction_validation_context" where
  "transition_context ctx c intent_id =
     \<lparr>tvc_genesis_id = ca_genesis_id (xc_chain_anchor ctx),
      tvc_validation_context_id = ca_validation_context_id (xc_chain_anchor ctx),
      tvc_transaction_intent_id = intent_id, tvc_state_id = rc_current_state_id c\<rparr>"

definition receipt_of :: "transaction_record \<Rightarrow> execution_receipt" where
  "receipt_of r = \<lparr>er_transaction_intent_id = rec_transaction_intent_id r,
     er_record_hash = rec_record_hash r, er_resulting_state_id = rec_resulting_state_id r\<rparr>"

definition apply_transaction ::
  "sha256 \<Rightarrow> execution_context \<Rightarrow> ledger_state \<Rightarrow> record_chain \<Rightarrow> bytes \<Rightarrow> nat \<Rightarrow>
     (execution_error + transaction_record \<times> execution_receipt) \<times> ledger_state \<times> record_chain" where
  "apply_transaction sha ctx s c bs index =
     (case check_transaction sha ctx bs index of
        Inl e \<Rightarrow> (Inl e, s, c)
      | Inr (tx, canonical, intent_id) \<Rightarrow>
          (case ledger_apply sha s tx (xc_verifier ctx) (xc_mint_policy ctx)
               (transition_context ctx c intent_id) of
             Inl e \<Rightarrow> (Inl (ExLedger index e), s, c)
           | Inr s' \<Rightarrow>
               (case TransactionRecord_new sha (rc_next_sequence c) (rc_current_state_id c) canonical
                    (ledger_state_id sha (ca_genesis_id (xc_chain_anchor ctx)) s') of
                  Inl e \<Rightarrow> (Inl (ExRecord index e), s', c)
                | Inr r \<Rightarrow>
                    (case chain_apply c r of
                       Inl e \<Rightarrow> (Inl (ExRecordChain index e), s', c)
                     | Inr c' \<Rightarrow> (Inr (r, receipt_of r), s', c')))))"

definition simulate_transaction ::
  "sha256 \<Rightarrow> execution_context \<Rightarrow> candidate_execution_state \<Rightarrow> bytes \<Rightarrow>
     (execution_error + execution_receipt) \<times> candidate_execution_state" where
  "simulate_transaction sha ctx cand bs =
     (case apply_transaction sha ctx (cd_ledger_state cand) (cd_record_chain cand) bs 0 of
        (res, s, c) \<Rightarrow>
          (and_then res (\<lambda>(r, receipt). Inr receipt), \<lparr>cd_ledger_state = s, cd_record_chain = c\<rparr>))"

subsection \<open>Blocks\<close>

fun execute_transactions ::
  "sha256 \<Rightarrow> execution_context \<Rightarrow> ledger_state \<Rightarrow> record_chain \<Rightarrow> nat \<Rightarrow> bytes list \<Rightarrow>
     execution_error + ledger_state \<times> record_chain \<times> transaction_record list \<times> execution_receipt list" where
  "execute_transactions sha ctx s c index [] = Inr (s, c, [], [])"
| "execute_transactions sha ctx s c index (bs # rest) =
     (case apply_transaction sha ctx s c bs index of
        (Inl e, _, _) \<Rightarrow> Inl e
      | (Inr (r, receipt), s', c') \<Rightarrow>
          and_then (execute_transactions sha ctx s' c' (Suc index) rest) (\<lambda>(s'', c'', rs, receipts).
          Inr (s'', c'', r # rs, receipt # receipts)))"

definition proposal_bytes :: "execution_context \<Rightarrow> bytes list \<Rightarrow> execution_error + nat" where
  "proposal_bytes ctx txs =
     try_fold (\<lambda>total bs. ok_or (checked_add_usize total (length bs))
       (ProposalBytesExceeded (2 ^ 64 - 1)
         (cc_maximum_block_transaction_bytes (xc_consensus_config ctx)))) 0 txs"

definition application_input ::
  "execution_context \<Rightarrow> block_header \<Rightarrow> comet_bft_decision \<Rightarrow> u64 \<Rightarrow> record_hash option \<Rightarrow> bytes" where
  "application_input ctx h d record_sequence terminal =
     ascii ''NOXIS/APP-HASH/V1'' @ [0] @
     to_be_bytes (ca_genesis_id (xc_chain_anchor ctx)) @
     to_be_bytes (ca_validation_context_id (xc_chain_anchor ctx)) @
     to_be_bytes (cc_id (xc_consensus_config ctx)) @
     to_be_bytes (de_network_id d) @ to_be_bytes (de_height d) @ to_be_bytes (de_block_hash d) @
     to_be_bytes (de_next_validators_hash d) @
     to_be_bytes (bh_height (hd_input h)) @ to_be_bytes (hd_id h) @ to_be_bytes record_sequence @
     (case terminal of Some rh \<Rightarrow> [1] @ to_be_bytes rh | None \<Rightarrow> [0]) @
     to_be_bytes (bh_resulting_state_id (hd_input h))"

definition application_hash ::
  "sha256 \<Rightarrow> execution_context \<Rightarrow> block_header \<Rightarrow> comet_bft_decision \<Rightarrow> u64 \<Rightarrow> record_hash option \<Rightarrow> app_hash" where
  "application_hash sha ctx h d record_sequence terminal =
     sha (application_input ctx h d record_sequence terminal)"

definition last_hash :: "transaction_record list \<Rightarrow> record_hash option \<Rightarrow> record_hash option" where
  "last_hash rs fallback = (if rs = [] then fallback else Some (rec_record_hash (last rs)))"

text \<open>The header of the executed block; epoch and round stay fixed in this format version.\<close>

definition block_header_fields ::
  "execution_context \<Rightarrow> committed_execution_state \<Rightarrow> u64 \<Rightarrow> record_chain \<Rightarrow> u32 \<Rightarrow> id32 \<Rightarrow> block_header_input" where
  "block_header_fields ctx committed height c record_count records_commitment =
     \<lparr>bh_protocol_version = cc_protocol_version (xc_consensus_config ctx),
      bh_genesis_id = ca_genesis_id (xc_chain_anchor ctx),
      bh_validation_context_id = ca_validation_context_id (xc_chain_anchor ctx),
      bh_consensus_config_id = cc_id (xc_consensus_config ctx),
      bh_validator_set_id = vs_id (cc_validator_set (xc_consensus_config ctx)),
      bh_height = height,
      bh_epoch = 0,
      bh_round = 0,
      bh_parent_block_id = ce_block_id committed,
      bh_previous_state_id = rc_current_state_id (ce_record_chain committed),
      bh_resulting_state_id = rc_current_state_id c,
      bh_first_record_sequence = rc_next_sequence (ce_record_chain committed),
      bh_record_count = record_count,
      bh_records_commitment = records_commitment\<rparr>"

definition execute_block ::
  "sha256 \<Rightarrow> execution_context \<Rightarrow> committed_execution_state \<Rightarrow> block_proposal \<Rightarrow>
     execution_error + executed_block" where
  "execute_block sha ctx committed p =
     and_then (ok_or (checked_add (ce_height committed) 1) ExHeightOverflow) (\<lambda>expected_height.
     if bp_height p \<noteq> expected_height then Inl (UnexpectedHeight expected_height (bp_height p))
     else and_then (map_err ExEngineIdentity
         (validate_for (bp_comet_decision p) (xc_comet_bft_genesis ctx) (bp_height p))) (\<lambda>_.
     let genesis_id = ca_genesis_id (xc_chain_anchor ctx);
         config = xc_consensus_config ctx;
         computed = ledger_state_id sha genesis_id (ce_ledger_state committed);
         chain = ce_record_chain committed in
     if computed \<noteq> rc_current_state_id chain
     then Inl (CommittedStateIdMismatch computed (rc_current_state_id chain))
     else if length (bp_transactions p) > unat (cc_maximum_block_records config)
     then Inl (TooManyTransactions (length (bp_transactions p)) (cc_maximum_block_records config))
     else and_then (proposal_bytes ctx (bp_transactions p)) (\<lambda>total_bytes.
     if total_bytes > unat (cc_maximum_block_transaction_bytes config)
     then Inl (ProposalBytesExceeded total_bytes (cc_maximum_block_transaction_bytes config))
     else and_then (ok_or (try_from_usize (length (bp_transactions p))) TransactionCountOverflow)
       (\<lambda>record_count :: u32.
     and_then (execute_transactions sha ctx (ce_ledger_state committed) chain 0 (bp_transactions p))
       (\<lambda>(s, c, records, receipts).
     let record_hashes = map rec_record_hash records in
     and_then (map_err ExConsensus (RecordCommitment_from_record_hashes sha record_hashes))
       (\<lambda>records_commitment.
     and_then (map_err ExConsensus (BlockHeader_new sha
         (block_header_fields ctx committed (bp_height p) c record_count records_commitment))) (\<lambda>header.
     and_then (map_err ExConsensus (validate_header (xc_consensus_anchor ctx) header config)) (\<lambda>_.
     and_then (map_err ExConsensus (validate_record_hashes sha header record_hashes)) (\<lambda>_.
     let terminal = last_hash records (ce_terminal_record_hash committed) in
     Inr \<lparr>xb_header = header, xb_comet_decision = bp_comet_decision p, xb_records = records,
          xb_receipts = receipts, xb_resulting_state = s, xb_resulting_record_chain = c,
          xb_terminal_record_hash = terminal,
          xb_app_hash = application_hash sha ctx header (bp_comet_decision p)
            (rc_current_sequence c) terminal\<rparr>)))))))))"

subsection \<open>Facts about one transaction\<close>

lemma check_transaction_Inr_iff:
  "check_transaction sha ctx bs index = Inr (tx, canonical, intent_id) \<longleftrightarrow>
     decode_transaction bs = Inr tx \<and> canonical = bs \<and>
     tx_suite tx = vc_crypto_suite (xc_validation_context ctx) \<and> intent_id = sha (intent_input tx)"
proof -
  have "length bs \<le> 33554432" "encode_transaction tx = Inr bs"
    "transaction_intent_id sha tx = Inr (sha (intent_input tx))" if "decode_transaction bs = Inr tx"
    using decode_transaction_only [OF that] length_transaction_bytes [of tx]
    by (simp_all add: encode_transaction_Inr_iff transaction_intent_id_eq)
  then show ?thesis
    by (auto simp: check_transaction_def and_then_eq_Inr not_less)
qed

lemma check_transaction_index:
  "check_transaction sha ctx bs i = Inr x \<Longrightarrow> check_transaction sha ctx bs j = Inr x"
  by (cases x) (simp add: check_transaction_Inr_iff)

lemma transaction_record_exists:
  assumes "decode_transaction bs = Inr tx"
  obtains r where "TransactionRecord_new sha n p bs q = Inr r"
proof -
  have "transaction_intent_id sha tx = Inr (sha (intent_input tx))"
    using decode_transaction_only [OF assms] by (simp add: transaction_intent_id_eq)
  then show ?thesis
    using assms that
    by (simp add: TransactionRecord_new_def validate_transaction_bytes_Inr_iff [THEN iffD2])
qed

lemma apply_transaction_Inr:
  assumes "apply_transaction sha ctx s c bs index = (Inr (r, receipt), s', c')"
  obtains tx where "decode_transaction bs = Inr tx"
    and "tx_suite tx = vc_crypto_suite (xc_validation_context ctx)"
    and "ledger_apply sha s tx (xc_verifier ctx) (xc_mint_policy ctx)
      (transition_context ctx c (sha (intent_input tx))) = Inr s'"
    and "record_wf sha r" and "rec_transaction_bytes r = bs" and "chain_apply c r = Inr c'"
    and "rec_resulting_state_id r = ledger_state_id sha (ca_genesis_id (xc_chain_anchor ctx)) s'"
    and "rc_current_state_id c' = ledger_state_id sha (ca_genesis_id (xc_chain_anchor ctx)) s'"
    and "receipt = receipt_of r"
proof -
  obtain tx i where chk: "check_transaction sha ctx bs index = Inr (tx, bs, i)"
    using assms by (auto simp: apply_transaction_def check_transaction_Inr_iff split: sum.splits)
  note tx = chk [unfolded check_transaction_Inr_iff]
  from assms have led: "ledger_apply sha s tx (xc_verifier ctx) (xc_mint_policy ctx)
      (transition_context ctx c (sha (intent_input tx))) = Inr s'"
    and rec: "TransactionRecord_new sha (rc_next_sequence c) (rc_current_state_id c) bs
      (ledger_state_id sha (ca_genesis_id (xc_chain_anchor ctx)) s') = Inr r"
    and lnk: "chain_apply c r = Inr c'" and "receipt = receipt_of r"
    using tx by (auto simp: apply_transaction_def chk split: sum.splits)
  moreover have "rc_current_state_id c' = rec_resulting_state_id r"
    using lnk by (auto simp: chain_apply_def and_then_eq_Inr split: if_splits)
  ultimately show ?thesis
    using tx by (intro that [of tx]) (auto simp: TransactionRecord_new_Inr_iff)
qed

text \<open>A failed step leaves both parts alone unless the sequence counter is exhausted.\<close>

lemma apply_transaction_Inl:
  assumes "apply_transaction sha ctx s c bs index = (Inl e, s', c')" and "rc_next_sequence c \<noteq> - 1"
  shows "s' = s \<and> c' = c"
proof (cases "check_transaction sha ctx bs index")
  case (Inr x)
  obtain tx where x: "x = (tx, bs, sha (intent_input tx))" and dec: "decode_transaction bs = Inr tx"
    using Inr by (cases x) (auto simp: check_transaction_Inr_iff)
  have "1 + rc_next_sequence c \<noteq> 0" using assms(2) by (metis add_eq_0_iff)
  then have add: "checked_add (rc_next_sequence c) 1 = Some (1 + rc_next_sequence c)"
    by (simp add: checked_add_Some_iff unatSuc)
  show ?thesis
  proof (cases "ledger_apply sha s tx (xc_verifier ctx) (xc_mint_policy ctx)
      (transition_context ctx c (sha (intent_input tx)))")
    case Inl
    then show ?thesis using assms(1) Inr x by (simp add: apply_transaction_def)
  next
    case (Inr s1)
    obtain r where r: "TransactionRecord_new sha (rc_next_sequence c) (rc_current_state_id c) bs
      (ledger_state_id sha (ca_genesis_id (xc_chain_anchor ctx)) s1) = Inr r"
      using transaction_record_exists [OF dec] by blast
    then have "rec_sequence r = rc_next_sequence c" "rec_previous_state_id r = rc_current_state_id c"
      by (simp_all add: TransactionRecord_new_Inr_iff)
    then have "\<exists>c1. chain_apply c r = Inr c1" by (simp add: chain_apply_def add)
    then show ?thesis
      using assms(1) Inr r \<open>check_transaction sha ctx bs index = Inr x\<close> x
      by (auto simp: apply_transaction_def)
  qed
qed (use assms in \<open>simp add: apply_transaction_def\<close>)

subsection \<open>Facts about blocks\<close>

definition state_ids_agree :: "sha256 \<Rightarrow> execution_context \<Rightarrow> ledger_state \<Rightarrow> record_chain \<Rightarrow> bool" where
  "state_ids_agree sha ctx s c =
     (ledger_state_id sha (ca_genesis_id (xc_chain_anchor ctx)) s = rc_current_state_id c)"

definition decoded :: "bytes list \<Rightarrow> transaction list" where
  "decoded = map (\<lambda>bs. projr (decode_transaction bs))"

text \<open>What a successful run over the transactions of a block has established.\<close>

definition block_run ::
  "sha256 \<Rightarrow> execution_context \<Rightarrow> ledger_state \<Rightarrow> record_chain \<Rightarrow> bytes list \<Rightarrow> ledger_state \<Rightarrow> record_chain \<Rightarrow>
     transaction_record list \<Rightarrow> bool" where
  "block_run sha ctx s c txs s' c' rs =
     (map rec_transaction_bytes rs = txs \<and> try_fold chain_apply c rs = Inr c' \<and>
      (\<forall>r \<in> set rs. record_wf sha r) \<and>
      (state_ids_agree sha ctx s c \<longrightarrow> state_ids_agree sha ctx s' c') \<and>
      (\<exists>inputs. map snd inputs = decoded txs \<and> (\<forall>i \<in> set inputs. tx_typed (snd i)) \<and>
        apply_all sha (xc_verifier ctx) (xc_mint_policy ctx) s inputs = Inr s'))"

lemma block_run_Nil [simp]: "block_run sha ctx s c [] s c []"
  by (auto simp: block_run_def decoded_def apply_all_def)

lemma block_run_Cons:
  assumes "apply_transaction sha ctx s c bs index = (Inr (r, receipt), s1, c1)"
    and run: "block_run sha ctx s1 c1 txs s' c' rs"
  shows "block_run sha ctx s c (bs # txs) s' c' (r # rs)"
proof -
  from assms(1) obtain tx where tx: "decode_transaction bs = Inr tx"
    "ledger_apply sha s tx (xc_verifier ctx) (xc_mint_policy ctx)
       (transition_context ctx c (sha (intent_input tx))) = Inr s1"
    "record_wf sha r" "rec_transaction_bytes r = bs" "chain_apply c r = Inr c1"
    "rc_current_state_id c1 = ledger_state_id sha (ca_genesis_id (xc_chain_anchor ctx)) s1"
    by (rule apply_transaction_Inr)
  from run obtain inputs where inp: "map snd inputs = decoded txs" "\<forall>i \<in> set inputs. tx_typed (snd i)"
    "apply_all sha (xc_verifier ctx) (xc_mint_policy ctx) s1 inputs = Inr s'"
    by (auto simp: block_run_def)
  let ?inputs = "(transition_context ctx c (sha (intent_input tx)), tx) # inputs"
  have "map snd ?inputs = decoded (bs # txs) \<and> (\<forall>i \<in> set ?inputs. tx_typed (snd i)) \<and>
    apply_all sha (xc_verifier ctx) (xc_mint_policy ctx) s ?inputs = Inr s'"
    using inp tx(1,2) decode_transaction_only [OF tx(1)] by (simp_all add: decoded_def apply_all_def)
  moreover have "state_ids_agree sha ctx s' c'"
    using run tx(6) by (simp add: block_run_def state_ids_agree_def)
  ultimately show ?thesis
    unfolding block_run_def by (intro conjI exI [of _ ?inputs] impI) (use run tx in \<open>auto simp: block_run_def\<close>)
qed

lemma execute_transactions_Inr:
  "execute_transactions sha ctx s c index txs = Inr (s', c', rs, receipts) \<Longrightarrow>
   block_run sha ctx s c txs s' c' rs \<and> receipts = map receipt_of rs"
proof (induction txs arbitrary: s c index rs receipts)
  case (Cons bs txs)
  then obtain r rcpt s1 c1 rs1 receipts1 where a: "apply_transaction sha ctx s c bs index = (Inr (r, rcpt), s1, c1)"
    and run: "execute_transactions sha ctx s1 c1 (Suc index) txs = Inr (s', c', rs1, receipts1)"
    and out: "rs = r # rs1" "receipts = rcpt # receipts1"
    by (auto simp: and_then_eq_Inr split: prod.splits sum.splits)
  have "rcpt = receipt_of r" using a by (rule apply_transaction_Inr)
  with Cons.IH [OF run] block_run_Cons [OF a] out show ?case by simp
qed simp

text \<open>The header and the position a successful block carries.\<close>

lemma execute_block_Inr:
  assumes "execute_block sha ctx cs p = Inr b"
  shows "block_run sha ctx (ce_ledger_state cs) (ce_record_chain cs) (bp_transactions p)
      (xb_resulting_state b) (xb_resulting_record_chain b) (xb_records b)"
    and "xb_receipts b = map receipt_of (xb_records b)"
    and "unat (bp_height p) = unat (ce_height cs) + 1" and "bh_height (hd_input (xb_header b)) = bp_height p"
    and "validate_for (bp_comet_decision p) (xc_comet_bft_genesis ctx) (bp_height p) = Inr ()"
    and "state_ids_agree sha ctx (ce_ledger_state cs) (ce_record_chain cs)"
    and "header_wf sha (xb_header b)"
    and "bh_parent_block_id (hd_input (xb_header b)) = ce_block_id cs"
    and "bh_previous_state_id (hd_input (xb_header b)) = rc_current_state_id (ce_record_chain cs)"
    and "bh_resulting_state_id (hd_input (xb_header b)) = rc_current_state_id (xb_resulting_record_chain b)"
    and "bh_first_record_sequence (hd_input (xb_header b)) = rc_next_sequence (ce_record_chain cs)"
    and "validate_header (xc_consensus_anchor ctx) (xb_header b) (xc_consensus_config ctx) = Inr ()"
    and "validate_record_hashes sha (xb_header b) (map rec_record_hash (xb_records b)) = Inr ()"
    and "xb_comet_decision b = bp_comet_decision p"
    and "xb_terminal_record_hash b = last_hash (xb_records b) (ce_terminal_record_hash cs)"
    and "xb_app_hash b = application_hash sha ctx (xb_header b) (xb_comet_decision b)
      (rc_current_sequence (xb_resulting_record_chain b)) (xb_terminal_record_hash b)"
    and "length (bp_transactions p) \<le> unat (cc_maximum_block_records (xc_consensus_config ctx))"
  using assms
  by (auto simp: execute_block_def and_then_eq_Inr Let_def BlockHeader_new_Inr_iff state_ids_agree_def
      checked_add_Some_iff not_less block_header_fields_def split: if_splits dest!: execute_transactions_Inr)

subsection \<open>Sequences of blocks\<close>

definition block_step ::
  "sha256 \<Rightarrow> execution_context \<Rightarrow> committed_execution_state \<Rightarrow> block_proposal \<Rightarrow>
     execution_error + committed_execution_state" where
  "block_step sha ctx cs p = and_then (execute_block sha ctx cs p) (\<lambda>b. Inr (into_committed_state b))"

definition committed_inv :: "sha256 \<Rightarrow> execution_context \<Rightarrow> committed_execution_state \<Rightarrow> bool" where
  "committed_inv sha ctx cs =
     (ledger_inv (ce_ledger_state cs) \<and> state_ids_agree sha ctx (ce_ledger_state cs) (ce_record_chain cs) \<and>
      (ce_height cs = 0 \<longleftrightarrow> ce_block_id cs = None) \<and>
      (ce_height cs = 0 \<longrightarrow> ce_terminal_record_hash cs = None \<and>
        rc_current_state_id (ce_record_chain cs) = ca_genesis_state_id (xc_chain_anchor ctx)) \<and>
      rc_next_sequence (ce_record_chain cs) \<noteq> 0)"

lemma into_committed_state_simps [simp]:
  "ce_ledger_state (into_committed_state b) = xb_resulting_state b"
  "ce_record_chain (into_committed_state b) = xb_resulting_record_chain b"
  "ce_height (into_committed_state b) = bh_height (hd_input (xb_header b))"
  "ce_block_id (into_committed_state b) = Some (hd_id (xb_header b))"
  "ce_terminal_record_hash (into_committed_state b) = xb_terminal_record_hash b"
  by (simp_all add: into_committed_state_def from_executed_parts_def)

lemma genesis_committed_inv:
  "CommittedExecutionState_genesis sha s (xc_chain_anchor ctx) = Inr cs \<Longrightarrow> ledger_inv s \<Longrightarrow>
   committed_inv sha ctx cs"
  by (auto simp: CommittedExecutionState_genesis_def from_parts_def committed_inv_def state_ids_agree_def
      Let_def RecordChain_new_def split: if_splits)

lemma chain_run_sequence:
  "try_fold chain_apply c rs = Inr c' \<Longrightarrow> unat (rc_next_sequence c') = unat (rc_next_sequence c) + length rs"
  by (induction rs arbitrary: c)
     (auto simp: and_then_eq_Inr chain_apply_def checked_add_Some_iff split: if_splits)

lemma block_run_sequence:
  "block_run sha ctx s c txs s' c' rs \<Longrightarrow>
   unat (rc_next_sequence c') = unat (rc_next_sequence c) + length txs \<and> length rs = length txs"
  by (auto simp: block_run_def dest: chain_run_sequence)

lemma block_run_ledger:
  assumes "block_run sha ctx s c txs s' c' rs" and "ledger_inv s"
  shows "spec_run (abs_of s) (decoded txs) = Some (abs_of s')" "ledger_inv s'"
proof -
  obtain inputs where inp: "map snd inputs = decoded txs" "\<forall>i \<in> set inputs. tx_typed (snd i)"
    "apply_all sha (xc_verifier ctx) (xc_mint_policy ctx) s inputs = Inr s'"
    using assms(1) by (auto simp: block_run_def)
  from apply_all_refines [OF inp(3) assms(2) inp(2)] inp(1)
  show "spec_run (abs_of s) (decoded txs) = Some (abs_of s')" "ledger_inv s'" by simp_all
qed

definition block_enabled :: "nat \<times> abs_ledger \<Rightarrow> block_proposal \<Rightarrow> bool" where
  "block_enabled a p = (unat (bp_height p) = fst a + 1 \<and> spec_run (snd a) (decoded (bp_transactions p)) \<noteq> None)"

definition block_effect :: "nat \<times> abs_ledger \<Rightarrow> block_proposal \<Rightarrow> nat \<times> abs_ledger" where
  "block_effect a p = (fst a + 1, the (spec_run (snd a) (decoded (bp_transactions p))))"

text \<open>A block is one step of the machine whose specification runs its transactions at once.\<close>

interpretation exec: refined_machine "block_step sha ctx" "committed_inv sha ctx" "\<lambda>_. True"
  "\<lambda>cs. (unat (ce_height cs), abs_of (ce_ledger_state cs))" block_enabled block_effect
  for sha ctx
proof
  fix cs cs' :: committed_execution_state and p :: block_proposal
  assume inv: "committed_inv sha ctx cs" and st: "block_step sha ctx cs p = Inr cs'"
  then obtain b where b: "execute_block sha ctx cs p = Inr b" and cs': "cs' = into_committed_state b"
    by (auto simp: block_step_def and_then_eq_Inr)
  note facts = execute_block_Inr [OF b]
  have led: "ledger_inv (ce_ledger_state cs)" using inv by (simp add: committed_inv_def)
  have agree: "state_ids_agree sha ctx (xb_resulting_state b) (xb_resulting_record_chain b)"
    using facts(1,6) by (simp add: block_run_def)
  have "unat (rc_next_sequence (ce_record_chain cs)) \<noteq> 0"
    using inv by (simp add: committed_inv_def unat_eq_zero)
  then have "rc_next_sequence (xb_resulting_record_chain b) \<noteq> 0"
    using block_run_sequence [OF facts(1)] by auto
  moreover have "bp_height p \<noteq> 0" using facts(3) by auto
  ultimately show "committed_inv sha ctx cs'"
    using agree block_run_ledger(2) [OF facts(1) led] facts(4) by (simp add: committed_inv_def cs')
  show "block_enabled (unat (ce_height cs), abs_of (ce_ledger_state cs)) p \<and>
      (unat (ce_height cs'), abs_of (ce_ledger_state cs')) =
      block_effect (unat (ce_height cs), abs_of (ce_ledger_state cs)) p"
    using block_run_ledger(1) [OF facts(1) led] facts(3,4)
    by (simp add: block_enabled_def block_effect_def cs')
qed

lemma guarded_blocks:
  "guarded_run block_enabled block_effect (n, a) ps = Some (m, b) \<Longrightarrow>
   m = n + length ps \<and> spec_run a (concat (map (decoded \<circ> bp_transactions) ps)) = Some b"
proof (induction ps arbitrary: n a)
  case (Cons p ps)
  then have en: "block_enabled (n, a) p"
    and run: "guarded_run block_enabled block_effect (block_effect (n, a) p) ps = Some (m, b)"
    by (simp_all split: if_splits)
  from en obtain a1 where a1: "spec_run a (decoded (bp_transactions p)) = Some a1"
    by (auto simp: block_enabled_def)
  then have "block_effect (n, a) p = (n + 1, a1)" by (simp add: block_effect_def)
  note rest = run [unfolded this]
  from Cons.IH [OF rest] a1 show ?case by (simp add: guarded_run_append)
qed simp

subsection \<open>The candidate overlay\<close>

text \<open>Simulating transactions one after the other, stopping at the first failure.\<close>

fun simulate_all ::
  "sha256 \<Rightarrow> execution_context \<Rightarrow> candidate_execution_state \<Rightarrow> bytes list \<Rightarrow>
     execution_error + execution_receipt list \<times> candidate_execution_state" where
  "simulate_all sha ctx cand [] = Inr ([], cand)"
| "simulate_all sha ctx cand (bs # rest) =
     (case simulate_transaction sha ctx cand bs of
        (Inl e, _) \<Rightarrow> Inl e
      | (Inr receipt, cand') \<Rightarrow>
          and_then (simulate_all sha ctx cand' rest) (\<lambda>(receipts, cand''). Inr (receipt # receipts, cand'')))"

lemma apply_transaction_index:
  assumes "apply_transaction sha ctx s c bs i = (Inr x, s', c')"
  shows "apply_transaction sha ctx s c bs j = (Inr x, s', c')"
proof -
  obtain y where y: "check_transaction sha ctx bs i = Inr y"
    using assms by (auto simp: apply_transaction_def split: sum.splits)
  with check_transaction_index [OF y, of j] assms show ?thesis
    by (auto simp: apply_transaction_def split: prod.splits sum.splits)
qed

lemma simulate_all_executes:
  "simulate_all sha ctx \<lparr>cd_ledger_state = s, cd_record_chain = c\<rparr> txs = Inr (receipts, cand) \<longleftrightarrow>
   (\<exists>rs. execute_transactions sha ctx s c i txs =
     Inr (cd_ledger_state cand, cd_record_chain cand, rs, receipts))"
proof (induction txs arbitrary: s c i receipts)
  case Nil
  show ?case by (cases cand) auto
next
  case (Cons bs txs)
  show ?case
  proof (cases "\<exists>x s1 c1. apply_transaction sha ctx s c bs 0 = (Inr x, s1, c1)")
    case True
    then obtain r rcpt s1 c1 where a: "apply_transaction sha ctx s c bs 0 = (Inr (r, rcpt), s1, c1)" by auto
    with apply_transaction_index [OF a, of i] Cons.IH [of s1 c1 _ "Suc i"] show ?thesis
      by (fastforce simp: simulate_transaction_def and_then_eq_Inr)
  next
    case False
    then have "\<not> (\<exists>x s1 c1. apply_transaction sha ctx s c bs i = (Inr x, s1, c1))"
      using apply_transaction_index by blast
    with False show ?thesis
      by (auto simp: simulate_transaction_def and_then_eq_Inr split: prod.splits sum.splits)
  qed
qed

text \<open>Acceptance: under a constructed context nothing after the transactions can fail.\<close>

definition context_wf :: "sha256 \<Rightarrow> execution_context \<Rightarrow> bool" where
  "context_wf sha ctx =
     (ExecutionContext_new sha (xc_chain_anchor ctx) (xc_validation_context ctx) (xc_consensus_anchor ctx)
        (xc_consensus_config ctx) (xc_comet_bft_genesis ctx) (xc_verifier ctx) (xc_mint_policy ctx) = Inr ctx \<and>
      config_wf sha (xc_consensus_config ctx))"

lemma context_wf_D:
  assumes "context_wf sha ctx"
  shows "an_genesis_id (xc_consensus_anchor ctx) = ca_genesis_id (xc_chain_anchor ctx)"
    and "an_validation_context_id (xc_consensus_anchor ctx) = ca_validation_context_id (xc_chain_anchor ctx)"
    and "an_genesis_state_id (xc_consensus_anchor ctx) = ca_genesis_state_id (xc_chain_anchor ctx)"
    and "an_consensus_config_id (xc_consensus_anchor ctx) = cc_id (xc_consensus_config ctx)"
    and "cc_protocol_version (xc_consensus_config ctx) \<noteq> 0"
    and "unat (cc_maximum_block_records (xc_consensus_config ctx)) \<le> MAX_BLOCK_RECORDS"
  using assms
  by (auto simp: context_wf_def ExecutionContext_new_def and_then_eq_Inr config_wf_def
      ConsensusConfig_new_def Let_def not_less split: if_splits)

lemma proposal_bytes_sum:
  "proposal_bytes ctx txs = Inr n \<longleftrightarrow> n = sum_list (map length txs) \<and> n < 2 ^ 64"
proof -
  have "a < 2 ^ 64 \<Longrightarrow> try_fold (\<lambda>total bs. ok_or (checked_add_usize total (length bs)) e) a txs = Inr n \<longleftrightarrow>
    n = a + sum_list (map length txs) \<and> n < 2 ^ 64" for a and e :: execution_error
    by (induction txs arbitrary: a) (auto simp: and_then_eq_Inr checked_add_usize_Some_iff)
  then show ?thesis by (simp add: proposal_bytes_def)
qed

definition proposal_ok :: "execution_context \<Rightarrow> committed_execution_state \<Rightarrow> block_proposal \<Rightarrow> bool" where
  "proposal_ok ctx cs p =
     (unat (bp_height p) = unat (ce_height cs) + 1 \<and>
      validate_for (bp_comet_decision p) (xc_comet_bft_genesis ctx) (bp_height p) = Inr () \<and>
      length (bp_transactions p) \<le> unat (cc_maximum_block_records (xc_consensus_config ctx)) \<and>
      sum_list (map length (bp_transactions p)) \<le> unat (cc_maximum_block_transaction_bytes (xc_consensus_config ctx)))"

lemma execute_block_proposal_ok:
  "execute_block sha ctx cs p = Inr b \<Longrightarrow> proposal_ok ctx cs p"
  by (auto simp: execute_block_def and_then_eq_Inr Let_def proposal_ok_def proposal_bytes_sum
      checked_add_Some_iff not_less split: if_splits)

lemma block_header_valid:
  fixes k :: id32
  assumes "context_wf sha ctx" and "committed_inv sha ctx cs"
    and h: "unat h = unat (ce_height cs) + 1"
    and n: "n \<le> unat (cc_maximum_block_records (xc_consensus_config ctx))"
    and seq: "unat (rc_next_sequence c) = unat (rc_next_sequence (ce_record_chain cs)) + n"
  defines "i \<equiv> block_header_fields ctx cs h c (of_nat n) k"
  shows "\<exists>header. BlockHeader_new sha i = Inr header \<and> hd_input header = i \<and>
    validate_header (xc_consensus_anchor ctx) header (xc_consensus_config ctx) = Inr ()"
proof -
  note ctx = context_wf_D [OF assms(1)]
  have n32: "unat (of_nat n :: u32) = n" and le: "(of_nat n :: u32) \<le> cc_maximum_block_records (xc_consensus_config ctx)"
    using n unsigned_less [of "cc_maximum_block_records (xc_consensus_config ctx)", where 'a = nat]
    by (simp_all add: unat_of_nat word_le_nat_alt)
  have parent: "h = 1 \<longleftrightarrow> ce_height cs = 0" "h \<noteq> 0"
    using h by (auto simp: word_unat_eq_iff)
  have parent_ok: "h = 1 \<longrightarrow> ce_block_id cs = None" "1 < h \<longrightarrow> ce_block_id cs \<noteq> None"
    using assms(2) parent by (auto simp: committed_inv_def)
  have fits: "checked_add (rc_next_sequence (ce_record_chain cs)) (ucast (of_nat n :: u32) - 1) \<noteq> None"
    if "0 < (of_nat n :: u32)"
  proof -
    have "0 < n" using that n32 by (cases n) auto
    moreover have "unat (ucast (of_nat n :: u32) :: u64) = n"
      using n32 n unsigned_less [of "cc_maximum_block_records (xc_consensus_config ctx)", where 'a = nat]
      by (simp add: unsigned_ucast_eq take_bit_nat_eq_self)
    ultimately have "unat (ucast (of_nat n :: u32) - 1 :: u64) = n - 1"
      by (metis unat_gt_0 unat_minus_one)
    then show ?thesis using seq unsigned_less [of "rc_next_sequence c", where 'a = nat]
      by (simp add: checked_add_None_iff not_le)
  qed
  have "validate_header_input i = Inr ()"
    using ctx(5,6) parent parent_ok fits n n32 assms(2)
    by (auto simp: validate_header_input_def i_def block_header_fields_def committed_inv_def)
  moreover have "validate_header (xc_consensus_anchor ctx) \<lparr>hd_input = i, hd_id = d\<rparr> (xc_consensus_config ctx) = Inr ()" for d
    using ctx le parent assms(2)
    by (auto simp: validate_header_def validate_against_config_def i_def block_header_fields_def
        committed_inv_def not_less)
  ultimately show ?thesis by (auto simp: BlockHeader_new_def)
qed

lemma execute_block_accepts:
  assumes ctx: "context_wf sha ctx" and inv: "committed_inv sha ctx cs" and ok: "proposal_ok ctx cs p"
    and run: "execute_transactions sha ctx (ce_ledger_state cs) (ce_record_chain cs) 0 (bp_transactions p) =
      Inr (s, c, rs, receipts)"
  shows "\<exists>b. execute_block sha ctx cs p = Inr b \<and> xb_receipts b = receipts \<and> xb_records b = rs \<and>
    xb_resulting_state b = s \<and> xb_resulting_record_chain b = c"
proof -
  let ?txs = "bp_transactions p" and ?n = "length (bp_transactions p)"
  note ok = ok [unfolded proposal_ok_def]
  have br: "block_run sha ctx (ce_ledger_state cs) (ce_record_chain cs) ?txs s c rs"
    using execute_transactions_Inr [OF run] by simp
  have count: "?n \<le> unat (cc_maximum_block_records (xc_consensus_config ctx))" using ok by simp
  then have n32: "?n < 2 ^ 32" and max: "?n \<le> MAX_BLOCK_RECORDS"
    using unsigned_less [of "cc_maximum_block_records (xc_consensus_config ctx)", where 'a = nat]
      context_wf_D(6) [OF ctx] by simp_all
  define k where "k = record_commitment sha
    (to_be_bytes (of_nat ?n :: u32) @ concat (map to_be_bytes (map rec_record_hash rs)))"
  have len: "length rs = ?n" using block_run_sequence [OF br] by simp
  then have commit: "RecordCommitment_from_record_hashes sha (map rec_record_hash rs) = Inr k"
    using max by (simp add: RecordCommitment_from_record_hashes_def k_def comp_def)
  obtain header where header: "BlockHeader_new sha
      (block_header_fields ctx cs (bp_height p) c (of_nat ?n) k) = Inr header"
    "hd_input header = block_header_fields ctx cs (bp_height p) c (of_nat ?n) k"
    "validate_header (xc_consensus_anchor ctx) header (xc_consensus_config ctx) = Inr ()"
    using block_header_valid [OF ctx inv, of "bp_height p" ?n c k] ok count block_run_sequence [OF br] by auto
  have hashes: "validate_record_hashes sha header (map rec_record_hash rs) = Inr ()"
    using header(2) commit n32 len
    by (simp add: validate_record_hashes_def block_header_fields_def unat_of_nat)
  have bytes: "proposal_bytes ctx ?txs = Inr (sum_list (map length ?txs))"
    using ok unsigned_less [of "cc_maximum_block_transaction_bytes (xc_consensus_config ctx)", where 'a = nat]
    by (simp add: proposal_bytes_sum)
  have height: "checked_add (ce_height cs) 1 = Some (bp_height p)"
    using ok by (simp add: checked_add_Some_iff)
  show ?thesis
    using inv ok header hashes commit run bytes height n32
    by (simp add: execute_block_def committed_inv_def state_ids_agree_def try_from_usize_small Let_def not_less)
qed

lemma execute_block_iff_simulation:
  assumes "context_wf sha ctx" and "committed_inv sha ctx cs"
  shows "(\<exists>b. execute_block sha ctx cs p = Inr b \<and> xb_receipts b = receipts) \<longleftrightarrow>
    proposal_ok ctx cs p \<and> (\<exists>cand. simulate_all sha ctx (from_committed cs) (bp_transactions p) = Inr (receipts, cand))"
proof -
  let ?run = "execute_transactions sha ctx (ce_ledger_state cs) (ce_record_chain cs) 0 (bp_transactions p)"
  have sim: "simulate_all sha ctx (from_committed cs) (bp_transactions p) = Inr (receipts, cand) \<longleftrightarrow>
      (\<exists>rs. ?run = Inr (cd_ledger_state cand, cd_record_chain cand, rs, receipts))" for cand
    unfolding from_committed_def by (rule simulate_all_executes)
  have "\<exists>s c rs. ?run = Inr (s, c, rs, xb_receipts b)" if "execute_block sha ctx cs p = Inr b" for b
    using that by (auto simp: execute_block_def and_then_eq_Inr Let_def split: if_splits)
  moreover have "\<exists>cand :: candidate_execution_state. cd_ledger_state cand = s \<and> cd_record_chain cand = c" for s c
    by (rule exI [of _ "\<lparr>cd_ledger_state = s, cd_record_chain = c\<rparr>"]) simp
  ultimately show ?thesis
    unfolding sim using execute_block_accepts [OF assms] execute_block_proposal_ok by metis
qed

subsection \<open>A concrete chain of one block\<close>

definition sample_context :: execution_context where
  "sample_context = \<lparr>
     xc_chain_anchor = \<lparr>ca_genesis_id = 0, ca_validation_context_id = 0, ca_proof_verifier_id = 0,
       ca_mint_policy_id = 0, ca_genesis_state_id = 0\<rparr>,
     xc_validation_context = \<lparr>vc_crypto_suite = RESEARCH_V1, vc_proof_verifier_id = 0, vc_mint_policy_id = 0\<rparr>,
     xc_consensus_anchor = \<lparr>an_genesis_id = 0, an_validation_context_id = 0, an_consensus_config_id = 0,
       an_genesis_state_id = 0, an_engine_network_id = 4\<rparr>,
     xc_consensus_config = sample_config, xc_comet_bft_genesis = sample_genesis,
     xc_verifier = sample_verifier, xc_mint_policy = sample_policy\<rparr>"

definition sample_committed :: committed_execution_state where
  "sample_committed = \<lparr>ce_ledger_state = sample_state, ce_record_chain = RecordChain_new 0, ce_height = 0,
     ce_block_id = None, ce_terminal_record_hash = None\<rparr>"

definition sample_proposal :: "id32 \<Rightarrow> block_proposal" where
  "sample_proposal h = \<lparr>bp_height = 1,
     bp_comet_decision = \<lparr>de_network_id = 4, de_height = 5, de_block_hash = h, de_next_validators_hash = 9\<rparr>,
     bp_transactions = [transaction_bytes sample_mint]\<rparr>"

definition sample_block_record :: transaction_record where
  "sample_block_record = \<lparr>rec_sequence = 1, rec_previous_state_id = 0,
     rec_transaction_bytes = transaction_bytes sample_mint, rec_transaction_intent_id = 0,
     rec_resulting_state_id = 0, rec_record_hash = 0\<rparr>"

lemma sample_context_wf: "context_wf (\<lambda>_. 0) sample_context"
  using sample_config_wf
  by (simp add: context_wf_def ExecutionContext_new_def sample_context_def context_validate_def
      suite_validate_def RESEARCH_V1_def context_id_def sample_verifier_def sample_policy_def
      sample_config_def sample_genesis_def)

lemma sample_committed_inv: "committed_inv (\<lambda>_. 0) sample_context sample_committed"
  using sample_state_inv
  by (simp add: committed_inv_def sample_committed_def state_ids_agree_def ledger_state_id_def
      RecordChain_new_def sample_context_def)

lemma sample_proposal_ok: "proposal_ok sample_context sample_committed (sample_proposal h)"
  using engine_height_iff [of sample_identity 1 5]
  by (simp add: proposal_ok_def sample_context_def sample_committed_def sample_proposal_def
      validate_for_def sample_genesis_def sample_identity_def sample_config_def
      transaction_bytes_def sample_mint_def operation_bytes_def mint_bytes_def identifiers_bytes_def
      opaque_bytes_def TRANSACTION_MAGIC_def ascii_def)

lemma sample_apply:
  "apply_transaction (\<lambda>_. 0) sample_context sample_state (RecordChain_new 0) (transaction_bytes sample_mint) i =
     (Inr (sample_block_record, receipt_of sample_block_record), sample_minted,
      \<lparr>rc_next_sequence = 2, rc_current_state_id = 0\<rparr>)"
proof -
  have dec: "decode_transaction (transaction_bytes sample_mint) = Inr sample_mint"
    by (rule decode_transaction_bytes [OF sample_shape(1) sample_typed(1)])
  have chk: "check_transaction (\<lambda>_. 0) sample_context (transaction_bytes sample_mint) i =
      Inr (sample_mint, transaction_bytes sample_mint, 0)"
    using dec by (simp add: check_transaction_Inr_iff) (simp add: sample_context_def sample_mint_def)
  have ctx: "transition_context sample_context (RecordChain_new 0) 0 = sample_ctx (\<lambda>_. 0) sample_state"
    by (simp add: transition_context_def sample_context_def RecordChain_new_def sample_ctx_def ledger_state_id_def)
  have rec: "TransactionRecord_new (\<lambda>_. 0) 1 0 (transaction_bytes sample_mint) 0 = Inr sample_block_record"
    using dec by (simp add: TransactionRecord_new_Inr_iff record_wf_def sample_block_record_def hash_record_def
        transaction_intent_id_eq sample_shape)
  show ?thesis
    using sample_mint_accepted [of "\<lambda>_. 0" sample_verifier] rec
    by (simp add: apply_transaction_def chk ctx)
       (simp add: sample_context_def ledger_state_id_def RecordChain_new_def chain_apply_def
         sample_block_record_def checked_add_def)
qed

lemma sample_executes:
  "execute_transactions (\<lambda>_. 0) sample_context (ce_ledger_state sample_committed)
     (ce_record_chain sample_committed) 0 (bp_transactions (sample_proposal h)) =
   Inr (sample_minted, \<lparr>rc_next_sequence = 2, rc_current_state_id = 0\<rparr>, [sample_block_record],
     [receipt_of sample_block_record])"
  by (simp add: sample_committed_def sample_proposal_def sample_apply)

lemma sample_block:
  obtains b where "execute_block (\<lambda>_. 0) sample_context sample_committed (sample_proposal h) = Inr b"
    "xb_receipts b = [receipt_of sample_block_record]" "xb_records b = [sample_block_record]"
    "xb_resulting_state b = sample_minted"
    "xb_resulting_record_chain b = \<lparr>rc_next_sequence = 2, rc_current_state_id = 0\<rparr>"
  using execute_block_accepts [OF sample_context_wf sample_committed_inv sample_proposal_ok sample_executes] by blast

subsection \<open>Properties\<close>

text \<open>C5: Executing a sequence of blocks refines the abstract ledger. From a committed state, accepted
  proposals advance the height by one each, run exactly the transactions they carry, decoded and in order,
  against the ledger specification, and leave a committed state again: the ledger, the record chain and the
  recorded state id agree after every block.\<close>

theorem block_sequence_refines_ledger:
  assumes "committed_inv sha ctx cs" and "try_fold (block_step sha ctx) cs ps = Inr cs'"
  shows "unat (ce_height cs') = unat (ce_height cs) + length ps \<and>
    spec_run (abs_of (ce_ledger_state cs)) (concat (map (decoded \<circ> bp_transactions) ps)) =
      Some (abs_of (ce_ledger_state cs')) \<and>
    committed_inv sha ctx cs'"
  using guarded_blocks [OF exec.run_refines [OF assms(2,1)]] exec.run_inv [OF assms(2,1)] by simp

theorem block_sequence_refines_ledger_witness:
  "\<exists>cs'. try_fold (block_step (\<lambda>_. 0) sample_context) sample_committed [sample_proposal 1] = Inr cs' \<and>
     unat (ce_height cs') = 1 \<and> abs_of (ce_ledger_state cs') = abs_of sample_minted \<and>
     committed_inv (\<lambda>_. 0) sample_context cs'"
proof -
  obtain b where b: "execute_block (\<lambda>_. 0) sample_context sample_committed (sample_proposal 1) = Inr b"
    "xb_resulting_state b = sample_minted" by (rule sample_block)
  then have run: "try_fold (block_step (\<lambda>_. 0) sample_context) sample_committed [sample_proposal 1] =
      Inr (into_committed_state b)"
    by (simp add: block_step_def)
  from block_sequence_refines_ledger [OF sample_committed_inv run] run b(2) show ?thesis
    by (auto simp: sample_committed_def)
qed

text \<open>An executed block is linked to the state it extends. Its header names the previous block, the
  state id before and after (the latter the id of the ledger the block produced) and the first sequence
  number; its records carry the proposal's bytes in order, extend the record chain link by link, and pass
  the header's record commitment.\<close>

lemma executed_block_is_linked:
  assumes "execute_block sha ctx cs p = Inr b"
  shows "header_wf sha (xb_header b) \<and>
    bh_parent_block_id (hd_input (xb_header b)) = ce_block_id cs \<and>
    unat (bh_height (hd_input (xb_header b))) = unat (ce_height cs) + 1 \<and>
    bh_previous_state_id (hd_input (xb_header b)) =
      ledger_state_id sha (ca_genesis_id (xc_chain_anchor ctx)) (ce_ledger_state cs) \<and>
    bh_resulting_state_id (hd_input (xb_header b)) =
      ledger_state_id sha (ca_genesis_id (xc_chain_anchor ctx)) (xb_resulting_state b) \<and>
    map rec_transaction_bytes (xb_records b) = bp_transactions p \<and>
    try_fold chain_apply (ce_record_chain cs) (xb_records b) = Inr (xb_resulting_record_chain b) \<and>
    validate_record_hashes sha (xb_header b) (map rec_record_hash (xb_records b)) = Inr ()"
  using execute_block_Inr [OF assms] by (simp add: block_run_def state_ids_agree_def)

text \<open>C24: Proposal selection agrees with execution. Under a constructed context, a proposal executes exactly
  when its height, engine decision and size limits are in order and its transactions, simulated one after
  the other on a candidate overlay of the committed state, all succeed; the receipts are the same. Nothing
  the executor checks after the transactions can fail.\<close>

theorem simulation_matches_execution:
  assumes "context_wf sha ctx" and "committed_inv sha ctx cs"
  shows "(\<exists>b. execute_block sha ctx cs p = Inr b \<and> xb_receipts b = receipts) \<longleftrightarrow>
    proposal_ok ctx cs p \<and> (\<exists>cand. simulate_all sha ctx (from_committed cs) (bp_transactions p) = Inr (receipts, cand))"
  using assms by (rule execute_block_iff_simulation)

theorem simulation_matches_execution_witness:
  "\<exists>cand. simulate_all (\<lambda>_. 0) sample_context (from_committed sample_committed)
     [transaction_bytes sample_mint] = Inr ([receipt_of sample_block_record], cand)"
proof -
  obtain b where "execute_block (\<lambda>_. 0) sample_context sample_committed (sample_proposal 1) = Inr b"
    "xb_receipts b = [receipt_of sample_block_record]" by (rule sample_block)
  then show ?thesis
    using simulation_matches_execution [OF sample_context_wf sample_committed_inv, of "sample_proposal 1"
        "[receipt_of sample_block_record]"]
    by (auto simp: sample_proposal_def)
qed

text \<open>A transaction that the simulation rejects leaves the candidate overlay as it was, so the next
  transaction is judged against an unchanged state. The one exception is a record sequence counter at its
  maximum, which is excluded.\<close>

lemma rejected_simulation_keeps_overlay:
  assumes "simulate_transaction sha ctx cand bs = (Inl e, cand')" and "rc_next_sequence (cd_record_chain cand) \<noteq> - 1"
  shows "cand' = cand"
proof -
  obtain res s c where a: "apply_transaction sha ctx (cd_ledger_state cand) (cd_record_chain cand) bs 0 = (res, s, c)"
    by (metis surj_pair)
  with assms(1) obtain e' where "res = Inl e'"
    by (cases res) (auto simp: simulate_transaction_def split: prod.splits)
  with apply_transaction_Inl [OF a [unfolded this] assms(2)] assms(1) a show ?thesis
    by (cases cand) (simp add: simulate_transaction_def)
qed

text \<open>The inputs hashed for the application hash of a block: its own, the header's, the record commitment's
  and those of the records.\<close>

definition record_input_of :: "transaction_record \<Rightarrow> bytes" where
  "record_input_of r = record_input (rec_sequence r) (rec_previous_state_id r) (rec_transaction_bytes r)
     (rec_transaction_intent_id r) (rec_resulting_state_id r)"

definition block_inputs :: "execution_context \<Rightarrow> executed_block \<Rightarrow> bytes set" where
  "block_inputs ctx b =
     {application_input ctx (xb_header b) (xb_comet_decision b) (rc_current_sequence (xb_resulting_record_chain b))
        (xb_terminal_record_hash b),
      header_input (xb_header b), commitment_input (map rec_record_hash (xb_records b))} \<union>
     record_input_of ` set (xb_records b)"

lemma application_input_inject:
  assumes "application_input ctx h d n t = application_input ctx' h' d' n' t'"
  shows "d = d' \<and> hd_id h = hd_id h' \<and> n = n' \<and> t = t'"
proof -
  have "de_network_id d = de_network_id d' \<and> de_height d = de_height d' \<and> de_block_hash d = de_block_hash d' \<and>
      de_next_validators_hash d = de_next_validators_hash d'" "hd_id h = hd_id h' \<and> n = n' \<and> t = t'"
    using assms by (auto simp: application_input_def split: option.splits)
  then show ?thesis by (cases d; cases d') simp
qed

lemma record_input_inject:
  assumes "record_wf sha r" "record_wf sha q" "record_input_of r = record_input_of q"
  shows "rec_sequence r = rec_sequence q \<and> rec_transaction_bytes r = rec_transaction_bytes q"
proof -
  let ?n = "length (rec_transaction_bytes r)" and ?m = "length (rec_transaction_bytes q)"
  have "(of_nat ?n :: u32) = of_nat ?m" using assms(3) by (simp add: record_input_of_def record_input_def)
  then have "unat (of_nat ?n :: u32) = unat (of_nat ?m :: u32)" by simp
  then have "?n = ?m"
    using record_wf_length [OF assms(1)] record_wf_length [OF assms(2)] by (simp add: unat_of_nat)
  then show ?thesis using assms(3) by (simp add: record_input_of_def record_input_def)
qed

lemma records_bound:
  assumes "map rec_record_hash rs = map rec_record_hash qs"
    and "\<forall>r \<in> set rs. record_wf sha r" "\<forall>q \<in> set qs. record_wf sha q"
    and "\<not> collision_between sha (record_input_of ` set rs) (record_input_of ` set qs)"
  shows "map rec_transaction_bytes rs = map rec_transaction_bytes qs"
  using assms
proof (induction rs qs rule: list_induct2')
  case (4 r rs q qs)
  have "rec_record_hash x = sha (record_input_of x)" if "record_wf sha x" for x
    using that by (auto simp: record_wf_def hash_record_def record_input_of_def)
  then have "sha (record_input_of r) = sha (record_input_of q)" using "4.prems" by simp
  with "4.prems"(4) have "record_input_of r = record_input_of q" by (auto simp: collision_between_def)
  with "4.prems" have "rec_transaction_bytes r = rec_transaction_bytes q"
    using record_input_inject [of sha r q] by simp
  moreover have "\<not> collision_between sha (record_input_of ` set rs) (record_input_of ` set qs)"
    using "4.prems"(4) by (auto simp: collision_between_def)
  ultimately show ?case using 4 by simp
qed simp_all

text \<open>C27: The application hash a node returns to the consensus engine commits to the block. Two executed
  blocks with equal application hashes, from whatever contexts and states, have the same header (hence
  height, parent and state ids), the same engine decision, the same record position and the same ordered
  transactions, or exhibit a SHA-256 collision among the inputs hashed for them.\<close>

theorem app_hash_binds_block:
  assumes "execute_block sha ctx cs p = Inr b" and "execute_block sha ctx' cs' p' = Inr b'"
    and "xb_app_hash b = xb_app_hash b'"
  shows "(xb_header b = xb_header b' \<and> xb_comet_decision b = xb_comet_decision b' \<and>
      rc_current_sequence (xb_resulting_record_chain b) = rc_current_sequence (xb_resulting_record_chain b') \<and>
      bp_transactions p = bp_transactions p') \<or>
    collision_between sha (block_inputs ctx b) (block_inputs ctx' b')"
proof (rule disjCI)
  assume nc: "\<not> collision_between sha (block_inputs ctx b) (block_inputs ctx' b')"
  note f = execute_block_Inr [OF assms(1)] and g = execute_block_Inr [OF assms(2)]
  have sub: "\<not> collision_between sha A B" if "A \<subseteq> block_inputs ctx b" "B \<subseteq> block_inputs ctx' b'" for A B
    using nc that by (meson collision_mono)
  have app: "application_input ctx (xb_header b) (xb_comet_decision b)
      (rc_current_sequence (xb_resulting_record_chain b)) (xb_terminal_record_hash b) =
    application_input ctx' (xb_header b') (xb_comet_decision b')
      (rc_current_sequence (xb_resulting_record_chain b')) (xb_terminal_record_hash b')"
    using assms(3) nc f(16) g(16) by (auto simp: application_hash_def collision_between_def block_inputs_def)
  note app = application_input_inject [OF app]
  have hdr: "xb_header b = xb_header b' \<and> map rec_record_hash (xb_records b) = map rec_record_hash (xb_records b')"
    using header_id_binds [OF f(7) g(7) _ f(13) g(13)] app
      sub [of "{header_input (xb_header b), commitment_input (map rec_record_hash (xb_records b))}"
           "{header_input (xb_header b'), commitment_input (map rec_record_hash (xb_records b'))}"]
    by (auto simp: block_inputs_def)
  have "map rec_transaction_bytes (xb_records b) = map rec_transaction_bytes (xb_records b')"
    using f(1) g(1) hdr
    by (intro records_bound [of _ _ sha] sub) (auto simp: block_run_def block_inputs_def)
  with f(1) g(1) hdr app show "xb_header b = xb_header b' \<and> xb_comet_decision b = xb_comet_decision b' \<and>
      rc_current_sequence (xb_resulting_record_chain b) = rc_current_sequence (xb_resulting_record_chain b') \<and>
      bp_transactions p = bp_transactions p'"
    by (simp add: block_run_def)
qed

theorem app_hash_binds_block_witness:
  "\<exists>b b'. execute_block (\<lambda>_. 0) sample_context sample_committed (sample_proposal 1) = Inr b \<and>
     execute_block (\<lambda>_. 0) sample_context sample_committed (sample_proposal 2) = Inr b' \<and>
     collision_between (\<lambda>_. 0) (block_inputs sample_context b) (block_inputs sample_context b')"
proof -
  obtain b where b: "execute_block (\<lambda>_. 0) sample_context sample_committed (sample_proposal 1) = Inr b"
    by (rule sample_block)
  obtain b' where b': "execute_block (\<lambda>_. 0) sample_context sample_committed (sample_proposal 2) = Inr b'"
    by (rule sample_block)
  have "xb_app_hash b = xb_app_hash b'"
    using execute_block_Inr(16) [OF b] execute_block_Inr(16) [OF b'] by (simp add: application_hash_def)
  moreover have "xb_comet_decision b \<noteq> xb_comet_decision b'"
    using execute_block_Inr(14) [OF b] execute_block_Inr(14) [OF b'] by (simp add: sample_proposal_def)
  ultimately show ?thesis using app_hash_binds_block [OF b b'] b b' by blast
qed

end
