(* ===== verification/Frame_Log.thy ===== *)
theory Frame_Log
  imports Wire
begin

text \<open>
  The framing every append-only log of \<^verbatim>\<open>crates/noxis-storage\<close> shares: magic, version, payload length,
  payload, CRC-32. The block journal, the state-record log, the transaction log and the private-state
  journals repeat the same scan loop with their own constants, payload decoder and error values; those are
  the fields of a format. The locale at the end states what a log needs of its payload codec, and proves
  once what a scan of its file does: complete logs, logs that end in a torn frame, and arbitrary files.
\<close>

subsection \<open>Checksum, formats and I/O outcomes\<close>

text \<open>\<^verbatim>\<open>crc32\<close> of the storage crate: the reflected polynomial, bit by bit.\<close>

definition crc32_step :: "u32 \<Rightarrow> u32" where
  "crc32_step v = (if and v 1 = 1 then xor (drop_bit 1 v) 0xedb88320 else drop_bit 1 v)"

definition crc32 :: "bytes \<Rightarrow> u32" where
  "crc32 bs = not (foldl (\<lambda>v b. (crc32_step ^^ 8) (xor v (ucast b))) 0xffffffff bs)"

record 'e frame_format =
  ff_magic :: bytes
  ff_version :: u16
  ff_maximum :: u32
  fe_magic :: "nat \<Rightarrow> bytes \<Rightarrow> 'e"
  fe_version :: "nat \<Rightarrow> u16 \<Rightarrow> 'e"
  fe_too_large :: "nat \<Rightarrow> u32 \<Rightarrow> u32 \<Rightarrow> 'e"
  fe_checksum :: "nat \<Rightarrow> u32 \<Rightarrow> u32 \<Rightarrow> 'e"
  fe_overflow :: 'e

text \<open>Header and checksum sizes, the same in every log.\<close>

definition FRAME_HEADER_LENGTH :: nat where "FRAME_HEADER_LENGTH = 10"
definition FRAME_CHECKSUM_LENGTH :: nat where "FRAME_CHECKSUM_LENGTH = 4"

record incomplete_tail =
  it_valid_prefix_length :: nat
  it_section :: string

text \<open>
  What the operating system did with a write: all of it reached the file and was synchronized, or an
  error was reported after some number of bytes.
\<close>

datatype io_outcome = Synced | Torn nat

definition append_frame :: "io_outcome \<Rightarrow> (bool \<Rightarrow> 'e) \<Rightarrow> bytes \<Rightarrow> bytes \<Rightarrow> ('e + nat) \<times> bytes" where
  "append_frame io io_error content frame =
     (case io of
        Synced \<Rightarrow> (Inr (length content), content @ frame)
      | Torn k \<Rightarrow> (Inl (io_error (k < length frame)), content @ take k frame))"

subsection \<open>Encoding and scanning\<close>

definition encode_frame :: "'e frame_format \<Rightarrow> bytes \<Rightarrow> 'e + bytes" where
  "encode_frame fmt payload =
     and_then (ok_or (try_from_usize (length payload)) (fe_too_large fmt 0 (- 1) (ff_maximum fmt)))
       (\<lambda>payload_length.
     if payload_length > ff_maximum fmt
     then Inl (fe_too_large fmt 0 payload_length (ff_maximum fmt))
     else Inr (ff_magic fmt @ to_be_bytes (ff_version fmt) @ to_be_bytes payload_length @
       payload @ to_be_bytes (crc32 payload)))"

text \<open>
  One round of the scan loop at byte \<open>offset\<close> of the file with \<open>rest\<close>, which is not empty, in front of it:
  an error, a partial frame at the end, or a complete frame with its length.
\<close>

definition read_frame ::
  "'e frame_format \<Rightarrow> (nat \<Rightarrow> bytes \<Rightarrow> 'e + 'a) \<Rightarrow> nat \<Rightarrow> bytes \<Rightarrow> 'e + (incomplete_tail + 'a \<times> nat)" where
  "read_frame fmt decode offset rest =
     (if length rest < 4 then
        if take (length rest) (ff_magic fmt) = rest
        then Inr (Inl \<lparr>it_valid_prefix_length = offset, it_section = ''frame magic''\<rparr>)
        else Inl (fe_magic fmt offset rest)
      else if take 4 rest \<noteq> ff_magic fmt then Inl (fe_magic fmt offset (take 4 rest))
      else if length rest < FRAME_HEADER_LENGTH
      then Inr (Inl \<lparr>it_valid_prefix_length = offset, it_section = ''frame header''\<rparr>)
      else
        let version = from_be_bytes (take 2 (drop 4 rest));
            payload_length :: u32 = from_be_bytes (take 4 (drop 6 rest)) in
        if version \<noteq> ff_version fmt then Inl (fe_version fmt offset version)
        else if payload_length > ff_maximum fmt
        then Inl (fe_too_large fmt offset payload_length (ff_maximum fmt))
        else and_then (ok_or (Option.bind (checked_add_usize FRAME_HEADER_LENGTH (unat payload_length))
            (\<lambda>v. checked_add_usize v FRAME_CHECKSUM_LENGTH)) (fe_overflow fmt)) (\<lambda>frame_length.
          if length rest < frame_length
          then Inr (Inl \<lparr>it_valid_prefix_length = offset,
                 it_section = (if length rest < FRAME_HEADER_LENGTH + unat payload_length
                   then ''frame payload'' else ''frame checksum'')\<rparr>)
          else
            let payload = take (unat payload_length) (drop FRAME_HEADER_LENGTH rest);
                expected = from_be_bytes (take 4 (drop (FRAME_HEADER_LENGTH + unat payload_length) rest)) in
            if crc32 payload \<noteq> expected then Inl (fe_checksum fmt offset expected (crc32 payload))
            else and_then (decode offset payload) (\<lambda>entry. Inr (Inr (entry, frame_length)))))"

lemma read_frame_length: "read_frame fmt decode offset rest = Inr (Inr (x, n)) \<Longrightarrow> 0 < n \<and> n \<le> length rest"
  by (auto simp: read_frame_def Let_def and_then_eq_Inr checked_add_usize_Some_iff bind_eq_Some_conv
      FRAME_CHECKSUM_LENGTH_def not_less split: if_splits)

text \<open>
  The scan. The visitor is the body of the loop after a frame has been decoded: it sees one entry at a
  time and carries its state; its errors are kept apart from those of the framing.
\<close>

datatype ('e, 'v) replay_error = Journal 'e | Visitor 'v

function stream_frames ::
  "'e frame_format \<Rightarrow> (nat \<Rightarrow> bytes \<Rightarrow> 'e + 'a) \<Rightarrow> ('s \<Rightarrow> 'a \<Rightarrow> 'v + 's) \<Rightarrow> 's \<Rightarrow> nat \<Rightarrow> bytes \<Rightarrow>
     ('e, 'v) replay_error + 's \<times> incomplete_tail option" where
  "stream_frames fmt decode visit st offset rest =
     (if rest = [] then Inr (st, None)
      else case read_frame fmt decode offset rest of
        Inl e \<Rightarrow> Inl (Journal e)
      | Inr (Inl tail) \<Rightarrow> Inr (st, Some tail)
      | Inr (Inr (entry, frame_length)) \<Rightarrow>
          (case visit st entry of
             Inl e \<Rightarrow> Inl (Visitor e)
           | Inr st' \<Rightarrow>
               (case checked_add_usize offset frame_length of
                  None \<Rightarrow> Inl (Journal (fe_overflow fmt))
                | Some next \<Rightarrow> stream_frames fmt decode visit st' next (drop frame_length rest))))"
  by pat_completeness auto
termination
  by (relation "measure (\<lambda>(fmt, decode, visit, st, offset, rest). length rest)") (auto dest: read_frame_length)

declare stream_frames.simps [simp del]

text \<open>The visitor that collects the entries, and the one result of the two error kinds.\<close>

definition push_entry :: "'a list \<Rightarrow> 'a \<Rightarrow> 'e + 'a list" where
  "push_entry entries x = Inr (entries @ [x])"

definition either_error :: "('e, 'e) replay_error \<Rightarrow> 'e" where
  "either_error e = (case e of Journal j \<Rightarrow> j | Visitor v \<Rightarrow> v)"

definition scan_frames ::
  "'e frame_format \<Rightarrow> (nat \<Rightarrow> bytes \<Rightarrow> 'e + 'a) \<Rightarrow> bytes \<Rightarrow> 'e + 'a list \<times> incomplete_tail option" where
  "scan_frames fmt decode content =
     map_err either_error (stream_frames fmt decode push_entry [] 0 content)"

text \<open>
  A file must end after a complete frame to be valid; recovery scans it again and cuts off the tail the
  caller has seen before, and nothing else.
\<close>

definition validate_frames ::
  "'e frame_format \<Rightarrow> (nat \<Rightarrow> bytes \<Rightarrow> 'e + 'a) \<Rightarrow> (nat \<Rightarrow> string \<Rightarrow> 'e) \<Rightarrow> bytes \<Rightarrow> 'e + unit" where
  "validate_frames fmt decode truncated content =
     and_then (scan_frames fmt decode content) (\<lambda>(_, tail).
     case tail of
       None \<Rightarrow> Inr ()
     | Some t \<Rightarrow> Inl (truncated (it_valid_prefix_length t) (it_section t)))"

definition truncate_frames ::
  "'e frame_format \<Rightarrow> (nat \<Rightarrow> bytes \<Rightarrow> 'e + 'a) \<Rightarrow> (nat \<Rightarrow> string \<Rightarrow> 'e) \<Rightarrow> 'e \<Rightarrow> bytes \<Rightarrow> incomplete_tail \<Rightarrow>
     ('e + unit) \<times> bytes" where
  "truncate_frames fmt decode truncated changed content expected =
     (case scan_frames fmt decode content of
        Inl e \<Rightarrow> (Inl e, content)
      | Inr (_, None) \<Rightarrow> (Inl changed, content)
      | Inr (_, Some actual) \<Rightarrow>
          if actual \<noteq> expected then (Inl changed, content)
          else let content' = take (it_valid_prefix_length actual) content
               in (validate_frames fmt decode truncated content', content'))"

lemma stream_frames_Nil [simp]: "stream_frames fmt decode visit st offset [] = Inr (st, None)"
  by (simp add: stream_frames.simps)

lemma try_fold_push [simp]: "try_fold push_entry acc xs = Inr (acc @ xs)"
  by (induction xs arbitrary: acc) (simp_all add: push_entry_def)

subsection \<open>Files of frames\<close>

definition frame_of :: "'e frame_format \<Rightarrow> bytes \<Rightarrow> bytes" where
  "frame_of fmt p =
     ff_magic fmt @ to_be_bytes (ff_version fmt) @ to_be_bytes (of_nat (length p) :: u32) @ p @ to_be_bytes (crc32 p)"

definition frames_of :: "'e frame_format \<Rightarrow> ('a \<Rightarrow> bytes) \<Rightarrow> 'a list \<Rightarrow> bytes" where
  "frames_of fmt payload xs = concat (map (\<lambda>x. frame_of fmt (payload x)) xs)"

text \<open>The entries with the offsets of their frames.\<close>

fun located_frames :: "'e frame_format \<Rightarrow> ('a \<Rightarrow> bytes) \<Rightarrow> (nat \<Rightarrow> 'a \<Rightarrow> 'a) \<Rightarrow> nat \<Rightarrow> 'a list \<Rightarrow> 'a list" where
  "located_frames fmt payload locate offset [] = []"
| "located_frames fmt payload locate offset (x # xs) =
     locate offset x # located_frames fmt payload locate (offset + length (frame_of fmt (payload x))) xs"

text \<open>How the scan names the part of a frame that is missing when only \<open>k\<close> bytes of it are there.\<close>

definition torn_section :: "nat \<Rightarrow> bytes \<Rightarrow> string" where
  "torn_section k p =
     (if k < 4 then ''frame magic'' else if k < 10 then ''frame header''
      else if k < 10 + length p then ''frame payload'' else ''frame checksum'')"

lemma frames_of_simps [simp]: "frames_of fmt payload [] = []"
  "frames_of fmt payload (x # xs) = frame_of fmt (payload x) @ frames_of fmt payload xs"
  "frames_of fmt payload (xs @ ys) = frames_of fmt payload xs @ frames_of fmt payload ys"
  by (simp_all add: frames_of_def)

lemma located_frames_append:
  "located_frames fmt payload locate n (xs @ ys) =
   located_frames fmt payload locate n xs @
   located_frames fmt payload locate (n + length (frames_of fmt payload xs)) ys"
  by (induction xs arbitrary: n) (simp_all add: add.assoc)

lemma take_drop_take: "j + m \<le> k \<Longrightarrow> take m (drop j (take k xs)) = take m (drop j xs)"
  by (simp add: drop_take min_def)

text \<open>What an arbitrary complete frame consists of.\<close>

lemma take_frame:
  fixes rest :: bytes
  shows "take 4 rest @ take 2 (drop 4 rest) @ take 4 (drop 6 rest) @ take m (drop 10 rest) @
    take 4 (drop (10 + m) rest) @ drop (14 + m) rest = rest"
proof -
  have split: "14 + m = 4 + (2 + (4 + (m + 4)))" by simp
  have "take (14 + m) rest = take 4 rest @ take 2 (drop 4 rest) @ take 4 (drop 6 rest) @ take m (drop 10 rest) @
      take 4 (drop (10 + m) rest)"
    unfolding split take_add drop_drop by (simp add: add.commute)
  from append_take_drop_id [of "14 + m" rest, unfolded this] show ?thesis by simp
qed

subsection \<open>What a log needs of its payloads\<close>

locale framed_log =
  fixes fmt :: "'e frame_format"
    and decode :: "nat \<Rightarrow> bytes \<Rightarrow> 'e + 'a"
    and payload :: "'a \<Rightarrow> bytes"
    and entry_ok :: "'a \<Rightarrow> bool"
    and locate :: "nat \<Rightarrow> 'a \<Rightarrow> 'a"
  assumes magic: "length (ff_magic fmt) = 4"
    and decode_back: "entry_ok x \<Longrightarrow> decode n (payload x) = Inr (locate n x)"
    and decode_only: "decode n p = Inr x \<Longrightarrow> length p \<le> unat (ff_maximum fmt) \<Longrightarrow>
      entry_ok x \<and> payload x = p \<and> locate n x = x"
    and payload_size: "entry_ok x \<Longrightarrow> length (payload x) \<le> unat (ff_maximum fmt)"
    and locate_payload: "payload (locate n x) = payload x"
    and locate_ok: "entry_ok (locate n x) = entry_ok x"
begin

lemma length_frame: "length (frame_of fmt (payload x)) = 14 + length (payload x)"
  by (simp add: frame_of_def magic)

lemma frame_not_Nil: "frame_of fmt (payload x) \<noteq> []"
  using length_frame [of x] by auto

lemma frame_parts:
  "take 4 (frame_of fmt (payload x) @ rest) = ff_magic fmt"
  "take 2 (drop 4 (frame_of fmt (payload x) @ rest)) = to_be_bytes (ff_version fmt)"
  "take 4 (drop 6 (frame_of fmt (payload x) @ rest)) = to_be_bytes (of_nat (length (payload x)) :: u32)"
  "take (length (payload x)) (drop 10 (frame_of fmt (payload x) @ rest)) = payload x"
  "take 4 (drop (10 + length (payload x)) (frame_of fmt (payload x) @ rest)) = to_be_bytes (crc32 (payload x))"
  by (simp_all add: frame_of_def magic)

lemma payload_length_u32:
  assumes "entry_ok x"
  shows "unat (of_nat (length (payload x)) :: u32) = length (payload x)"
    and "\<not> ff_maximum fmt < of_nat (length (payload x))"
proof -
  have "length (payload x) < 2 ^ 32"
    using payload_size [OF assms] unsigned_less [of "ff_maximum fmt", where 'a = nat] by simp
  then show u: "unat (of_nat (length (payload x)) :: u32) = length (payload x)"
    unfolding unat_of_nat by simp
  show "\<not> ff_maximum fmt < of_nat (length (payload x))"
    using payload_size [OF assms] unfolding word_less_nat_alt u by simp
qed

lemma encode_frame_ok: "entry_ok x \<Longrightarrow> encode_frame fmt (payload x) = Inr (frame_of fmt (payload x))"
  using payload_length_u32 [of x] payload_size [of x] unsigned_less [of "ff_maximum fmt", where 'a = nat]
  by (simp add: encode_frame_def try_from_usize_def frame_of_def)

lemma frame_length_ok:
  assumes "n < 2 ^ 32"
  shows "Option.bind (checked_add_usize 10 n) (\<lambda>v. checked_add_usize v 4) = Some (14 + n)"
  using assms by (simp add: checked_add_usize_def)

lemma read_frame_complete:
  assumes "entry_ok x"
  shows "read_frame fmt decode offset (frame_of fmt (payload x) @ rest) =
    Inr (Inr (locate offset x, length (frame_of fmt (payload x))))"
proof -
  note u = payload_length_u32 [OF assms]
  have small: "length (payload x) < 2 ^ 32"
    using payload_size [OF assms] unsigned_less [of "ff_maximum fmt", where 'a = nat] by simp
  have len: "\<not> length (frame_of fmt (payload x) @ rest) < 4" "\<not> length (frame_of fmt (payload x) @ rest) < 10"
    "\<not> length (frame_of fmt (payload x) @ rest) < 14 + length (payload x)" by (simp_all add: length_frame)
  have words: "from_be_bytes (to_be_bytes v) = v" "from_be_bytes (to_be_bytes n) = n" for v :: u16 and n :: u32
    by simp_all
  show ?thesis
    by (simp only: read_frame_def len frame_parts FRAME_HEADER_LENGTH_def FRAME_CHECKSUM_LENGTH_def
        Let_def if_False simp_thms words u frame_length_ok [OF small] decode_back [OF assms] length_frame result_simps)
qed

lemma read_frame_torn:
  assumes "entry_ok x" and "k < length (frame_of fmt (payload x))"
  shows "read_frame fmt decode offset (take k (frame_of fmt (payload x))) =
    Inr (Inl \<lparr>it_valid_prefix_length = offset, it_section = torn_section k (payload x)\<rparr>)"
proof -
  let ?f = "frame_of fmt (payload x)"
  let ?t = "take k ?f"
  note u = payload_length_u32 [OF assms(1)]
  have small: "length (payload x) < 2 ^ 32"
    using payload_size [OF assms(1)] unsigned_less [of "ff_maximum fmt", where 'a = nat] by simp
  have len: "length ?t = k" using assms(2) by simp
  consider "k < 4" | "4 \<le> k" "k < 10" | "10 \<le> k" by linarith
  then show ?thesis
  proof cases
    case 1
    have "take k (ff_magic fmt) = ?t" using 1 by (simp add: frame_of_def magic)
    then show ?thesis using 1 len by (simp add: read_frame_def torn_section_def)
  next
    case 2
    have "take 4 ?t = ff_magic fmt" using 2 frame_parts(1) [of x "[]"] by (simp add: min_def)
    then show ?thesis using 2 len by (simp add: read_frame_def torn_section_def FRAME_HEADER_LENGTH_def)
  next
    case 3
    have m: "take 4 ?t = ff_magic fmt" "take 4 ?f = ff_magic fmt"
      using 3 frame_parts(1) [of x "[]"] by (simp_all add: min_def)
    have v: "take 2 (drop 4 ?t) = to_be_bytes (ff_version fmt)"
      using 3 frame_parts(2) [of x "[]"] by (simp add: take_drop_take)
    have n: "take 4 (drop 6 ?t) = to_be_bytes (of_nat (length (payload x)) :: u32)"
      using 3 frame_parts(3) [of x "[]"] by (simp add: take_drop_take)
    have "\<not> k < 4" "\<not> k < 10" "k < 14 + length (payload x)" using 3 assms(2) by (simp_all add: length_frame)
    then show ?thesis
      by (simp add: read_frame_def torn_section_def len m v n u frame_length_ok [OF small] FRAME_HEADER_LENGTH_def
          FRAME_CHECKSUM_LENGTH_def Let_def del: length_take)
  qed
qed

lemma read_frame_only:
  assumes "read_frame fmt decode offset rest = Inr (Inr (x, n))"
  shows "entry_ok x \<and> locate offset x = x \<and> n = length (frame_of fmt (payload x)) \<and>
    frame_of fmt (payload x) @ drop n rest = rest"
proof -
  let ?n = "from_be_bytes (take 4 (drop 6 rest)) :: u32"
  let ?p = "take (unat ?n) (drop 10 rest)"
  have f: "take 4 rest = ff_magic fmt" "from_be_bytes (take 2 (drop 4 rest)) = ff_version fmt"
    "?n \<le> ff_maximum fmt" "14 + unat ?n \<le> length rest"
    "crc32 ?p = from_be_bytes (take 4 (drop (10 + unat ?n) rest))" "n = 14 + unat ?n" "decode offset ?p = Inr x"
    using assms
    by (auto simp: read_frame_def Let_def FRAME_HEADER_LENGTH_def FRAME_CHECKSUM_LENGTH_def
        and_then_eq_Inr checked_add_usize_Some_iff bind_eq_Some_conv not_less split: if_splits)
  have lp: "length ?p = unat ?n" using f(4) by simp
  then have x: "entry_ok x" "payload x = ?p" "locate offset x = x"
    using decode_only [OF f(7)] f(3) by (simp_all add: word_le_nat_alt)
  have v: "take 2 (drop 4 rest) = to_be_bytes (ff_version fmt)"
    unfolding f(2) [symmetric] by (rule to_from_be_bytes [symmetric]) (use f(4) in simp_all)
  have len: "take 4 (drop 6 rest) = to_be_bytes (of_nat (length (payload x)) :: u32)"
    using x(2) lp to_from_be_bytes [of "take 4 (drop 6 rest)", where 'w = 32] f(4) by simp
  have crc: "take 4 (drop (10 + unat ?n) rest) = to_be_bytes (crc32 (payload x))"
    using x(2) f(4,5) to_from_be_bytes [of "take 4 (drop (10 + unat ?n) rest)", where 'w = 32] by simp
  obtain m where m: "m = unat ?n" by blast
  have "take m (drop 10 rest) = payload x" "take 4 (drop (10 + m) rest) = to_be_bytes (crc32 (payload x))"
    "n = 14 + m" using x(2) crc f(6) by (simp_all only: m)
  then have "frame_of fmt (payload x) @ drop n rest = rest"
    using take_frame [of rest m] f(1) v len by (simp add: frame_of_def)
  moreover have "n = length (frame_of fmt (payload x))" unfolding length_frame using f(6) x(2) lp by simp
  ultimately show ?thesis using x by simp
qed

lemma frames_of_located: "frames_of fmt payload (located_frames fmt payload locate n xs) = frames_of fmt payload xs"
  by (induction xs arbitrary: n) (simp_all add: locate_payload)

lemma stream_frames_entries:
  assumes "\<forall>x \<in> set xs. entry_ok x" and "offset + length (frames_of fmt payload xs) + length rest < 2 ^ 64"
  shows "stream_frames fmt decode visit st offset (frames_of fmt payload xs @ rest) =
    (case try_fold visit st (located_frames fmt payload locate offset xs) of
       Inl e \<Rightarrow> Inl (Visitor e)
     | Inr st' \<Rightarrow> stream_frames fmt decode visit st' (offset + length (frames_of fmt payload xs)) rest)"
  using assms
proof (induction xs arbitrary: offset st)
  case (Cons x xs)
  let ?f = "frame_of fmt (payload x)"
  have nxt: "checked_add_usize offset (length ?f) = Some (offset + length ?f)"
    using Cons.prems(2) by (simp add: checked_add_usize_def)
  have fr: "read_frame fmt decode offset (?f @ frames_of fmt payload xs @ rest) = Inr (Inr (locate offset x, length ?f))"
    using Cons.prems(1) by (intro read_frame_complete) simp
  have "stream_frames fmt decode visit st offset (?f @ frames_of fmt payload xs @ rest) =
    (case visit st (locate offset x) of Inl e \<Rightarrow> Inl (Visitor e)
     | Inr st' \<Rightarrow> stream_frames fmt decode visit st' (offset + length ?f) (frames_of fmt payload xs @ rest))"
    by (subst stream_frames.simps, cases "visit st (locate offset x)") (simp_all add: fr nxt frame_not_Nil)
  then show ?case
    using Cons.IH [of "offset + length ?f"] Cons.prems
    by (cases "visit st (locate offset x)") (simp_all add: add.assoc split: sum.splits)
qed simp

lemma stream_complete:
  assumes "\<forall>x \<in> set xs. entry_ok x" and "length (frames_of fmt payload xs) < 2 ^ 64"
  shows "stream_frames fmt decode visit st 0 (frames_of fmt payload xs) =
    (case try_fold visit st (located_frames fmt payload locate 0 xs) of
       Inl e \<Rightarrow> Inl (Visitor e) | Inr st' \<Rightarrow> Inr (st', None))"
  using stream_frames_entries [of xs 0 "[]" visit st] assms by (simp split: sum.splits)

lemma stream_torn:
  assumes "\<forall>x \<in> set xs. entry_ok x" and "entry_ok x" and "0 < k" "k < length (frame_of fmt (payload x))"
    and "length (frames_of fmt payload xs) + k < 2 ^ 64"
  shows "stream_frames fmt decode visit st 0 (frames_of fmt payload xs @ take k (frame_of fmt (payload x))) =
    (case try_fold visit st (located_frames fmt payload locate 0 xs) of Inl e \<Rightarrow> Inl (Visitor e)
     | Inr st' \<Rightarrow> Inr (st', Some \<lparr>it_valid_prefix_length = length (frames_of fmt payload xs),
         it_section = torn_section k (payload x)\<rparr>))"
proof -
  have "stream_frames fmt decode visit st' offset (take k (frame_of fmt (payload x))) =
      Inr (st', Some \<lparr>it_valid_prefix_length = offset, it_section = torn_section k (payload x)\<rparr>)" for st' offset
    using read_frame_torn [OF assms(2,4), of offset] assms(3) frame_not_Nil by (subst stream_frames.simps) simp
  then show ?thesis
    using stream_frames_entries [OF assms(1), of 0 "take k (frame_of fmt (payload x))" visit st] assms(4,5)
    by (simp split: sum.splits)
qed

text \<open>Conversely, what a scan accepts is a sequence of frames, then perhaps the start of one more.\<close>

lemma stream_frames_only:
  "stream_frames fmt decode visit st offset rest = Inr (st', tail) \<Longrightarrow>
   \<exists>xs rest'. (\<forall>x \<in> set xs. entry_ok x) \<and> rest = frames_of fmt payload xs @ rest' \<and>
     located_frames fmt payload locate offset xs = xs \<and> try_fold visit st xs = Inr st' \<and>
     (case tail of None \<Rightarrow> rest' = []
      | Some t \<Rightarrow> rest' \<noteq> [] \<and> it_valid_prefix_length t = offset + length (frames_of fmt payload xs))"
proof (induction "length rest" arbitrary: st offset rest rule: less_induct)
  case less
  show ?case
  proof (cases "rest = []")
    case True
    then show ?thesis using less.prems by (auto intro!: exI [of _ "[]"])
  next
    case False
    note step = less.prems [unfolded stream_frames.simps [of fmt decode visit st offset rest]]
    show ?thesis
    proof (cases "read_frame fmt decode offset rest")
      case (Inl e)
      then show ?thesis using step False by simp
    next
      case (Inr res)
      show ?thesis
      proof (cases res)
        case tl: (Inl t)
        then have "it_valid_prefix_length t = offset"
          using Inr by (auto simp: read_frame_def Let_def and_then_eq_Inr split: if_splits)
        then show ?thesis using step False Inr tl
          by (intro exI [of _ "[]"] exI [of _ rest]) auto
      next
        case fr: (Inr xn)
        obtain x n where xn: "xn = (x, n)" by (cases xn)
        note rf = Inr [unfolded fr xn]
        note only = read_frame_only [OF rf] and shorter = read_frame_length [OF rf]
        from step False rf obtain st1 where v: "visit st x = Inr st1"
          and rec: "stream_frames fmt decode visit st1 (offset + n) (drop n rest) = Inr (st', tail)"
          by (auto simp: checked_add_usize_Some_iff split: sum.splits option.splits)
        have "length (drop n rest) < length rest" unfolding length_drop using shorter by linarith
        from less.hyps [OF this rec] obtain xs rest' where
          IH: "\<forall>x \<in> set xs. entry_ok x" "drop n rest = frames_of fmt payload xs @ rest'"
            "located_frames fmt payload locate (offset + n) xs = xs" "try_fold visit st1 xs = Inr st'"
            "case tail of None \<Rightarrow> rest' = []
             | Some t \<Rightarrow> rest' \<noteq> [] \<and> it_valid_prefix_length t = offset + n + length (frames_of fmt payload xs)"
          by blast
        have "located_frames fmt payload locate offset (x # xs) = x # xs" using only IH(3) by simp
        moreover have "rest = frames_of fmt payload (x # xs) @ rest'"
          using only by (metis IH(2) append.assoc frames_of_simps(2))
        moreover have "try_fold visit st (x # xs) = Inr st'" using v IH(4) by simp
        moreover have "case tail of None \<Rightarrow> rest' = []
             | Some t \<Rightarrow> rest' \<noteq> [] \<and> it_valid_prefix_length t = offset + length (frames_of fmt payload (x # xs))"
          using IH(5) only by (simp split: option.splits)
        ultimately show ?thesis using only IH(1) by (intro exI [of _ "x # xs"] exI [of _ rest']) simp
      qed
    qed
  qed
qed

text \<open>The same three facts for the scan that collects the entries.\<close>

lemma scan_complete:
  assumes "\<forall>x \<in> set xs. entry_ok x" and "length (frames_of fmt payload xs) < 2 ^ 64"
  shows "scan_frames fmt decode (frames_of fmt payload xs) = Inr (located_frames fmt payload locate 0 xs, None)"
  by (simp add: scan_frames_def stream_complete [OF assms])

lemma scan_torn:
  assumes "\<forall>x \<in> set xs. entry_ok x" and "entry_ok x" and "0 < k" "k < length (frame_of fmt (payload x))"
    and "length (frames_of fmt payload xs) + k < 2 ^ 64"
  shows "scan_frames fmt decode (frames_of fmt payload xs @ take k (frame_of fmt (payload x))) =
    Inr (located_frames fmt payload locate 0 xs, Some \<lparr>it_valid_prefix_length = length (frames_of fmt payload xs),
       it_section = torn_section k (payload x)\<rparr>)"
  by (simp add: scan_frames_def stream_torn [OF assms])

lemma scan_only:
  assumes "scan_frames fmt decode content = Inr (xs, tail)"
  shows "(\<forall>x \<in> set xs. entry_ok x) \<and> located_frames fmt payload locate 0 xs = xs \<and>
    (\<exists>rest. content = frames_of fmt payload xs @ rest \<and>
      (case tail of None \<Rightarrow> rest = []
       | Some t \<Rightarrow> rest \<noteq> [] \<and> it_valid_prefix_length t = length (frames_of fmt payload xs)))"
proof -
  have "stream_frames fmt decode push_entry [] 0 content = (Inr (xs, tail) :: ('e, 'e) replay_error + _)"
    using assms by (simp add: scan_frames_def)
  from stream_frames_only [OF this] show ?thesis by (auto split: option.splits)
qed

text \<open>Recovery of a log whose last append was interrupted.\<close>

lemma truncate_torn:
  assumes "\<forall>x \<in> set xs. entry_ok x" and "entry_ok x" and "0 < k" "k < length (frame_of fmt (payload x))"
    and "length (frames_of fmt payload xs) + k < 2 ^ 64"
  shows "truncate_frames fmt decode truncated changed (frames_of fmt payload xs @ take k (frame_of fmt (payload x)))
      \<lparr>it_valid_prefix_length = length (frames_of fmt payload xs), it_section = torn_section k (payload x)\<rparr> =
    (Inr (), frames_of fmt payload xs)"
  using assms(5) by (simp add: truncate_frames_def validate_frames_def Let_def scan_torn [OF assms] scan_complete [OF assms(1)])

lemma truncate_only:
  assumes "truncate_frames fmt decode truncated changed content t = (Inr (), content')"
    and "scan_frames fmt decode content = Inr (xs, Some t)"
  shows "content' = frames_of fmt payload xs"
  using assms scan_only [OF assms(2)] by (auto simp: truncate_frames_def Let_def)

end

end
