(* ===== verification/Block_Journal.thy ===== *)
theory Block_Journal
  imports Execution Frame_Log
begin

text \<open>
  The durable block journal of \<^verbatim>\<open>crates/noxis-storage/src/block_journal.rs\<close>: the canonical block payload,
  the checksummed frame around it, the streaming scan that recovery uses, and the append and truncate
  operations on the journal file. The file is its content. An operation that writes takes the outcome of
  the operating system as an argument: either everything reached the file and was synchronized, or an
  error after some number of bytes; what a crash leaves behind is the same torn prefix.
  Lengths and file offsets are natural numbers with the 64-bit overflow checks written out.
\<close>

subsection \<open>Constants, blocks and errors\<close>

definition BLOCK_FRAME_MAGIC :: bytes where "BLOCK_FRAME_MAGIC = ascii ''NXCB''"
definition BLOCK_FRAME_VERSION :: u16 where "BLOCK_FRAME_VERSION = 2"
definition BLOCK_PAYLOAD_MAGIC :: bytes where "BLOCK_PAYLOAD_MAGIC = ascii ''NXBP''"
definition BLOCK_PAYLOAD_VERSION :: u16 where "BLOCK_PAYLOAD_VERSION = 2"
definition BLOCK_HEADER_MAXIMUM_LENGTH :: u32 where "BLOCK_HEADER_MAXIMUM_LENGTH = 4 * 1024"
definition RECORD_ENVELOPE_OVERHEAD :: u32 where
  "RECORD_ENVELOPE_OVERHEAD = 4 + 2 + 8 + 32 + 4 + 32 + 32 + 32"
definition MAX_ENCODED_RECORD_LENGTH :: u32 where
  "MAX_ENCODED_RECORD_LENGTH = MAX_RECORD_TRANSACTION_BYTES + RECORD_ENVELOPE_OVERHEAD"
definition COMET_DECISION_ENCODED_BYTES :: u64 where "COMET_DECISION_ENCODED_BYTES = 32 + 8 + 32 + 32"
definition BLOCK_PAYLOAD_FIXED_BYTES :: u64 where
  "BLOCK_PAYLOAD_FIXED_BYTES = 4 + 2 + 4 + 32 + COMET_DECISION_ENCODED_BYTES + 4"
definition MAX_BLOCK_FRAME_PAYLOAD_LENGTH :: u32 where
  "MAX_BLOCK_FRAME_PAYLOAD_LENGTH =
     64 * 1024 * 1024 + of_nat MAX_BLOCK_RECORDS * (RECORD_ENVELOPE_OVERHEAD + 4) +
     ucast BLOCK_PAYLOAD_FIXED_BYTES + BLOCK_HEADER_MAXIMUM_LENGTH"

record stored_block =
  sb_offset :: nat
  sb_header :: block_header
  sb_app_hash :: app_hash
  sb_comet_decision :: comet_bft_decision
  sb_records :: "transaction_record list"

datatype block_journal_error =
  JIo string
| JInvalidMagic nat
| JUnsupportedFrameVersion nat u16
| JFrameTooLarge nat u32 u32
| JTruncatedFrame nat string
| JChecksumMismatch nat u32 u32
| JPayload nat payload_error
| JConsensus consensus_error
| JRecordCountMismatch u32 nat
| JFirstRecordSequenceMismatch u64 u64
| JRecordSequenceMismatch nat u64 u64
| JRecordSequenceOverflow
| JPreviousStateMismatch nat state_id state_id
| JResultingStateMismatch state_id state_id
| JEmptyBlockStateMismatch state_id state_id
| JOffsetOverflow
| JPayloadLengthOverflow
| JRecoveryTailChanged
| JDirectorySyncUnavailable
and payload_error =
  PInvalidPayloadMagic
| PUnsupportedPayloadVersion u16
| PHeaderTooLarge u32 u32
| PTooManyRecords nat nat
| PRecordTooLarge nat u32 u32
| PUnexpectedEnd nat
| PLengthOverflow
| PTrailingBytes nat
| PConsensus consensus_error
| PEngineIdentity engine_identity_error
| PNonCanonicalHeader
| PRecord nat record_error
| PNonCanonicalRecord nat
| PBlock block_journal_error

definition payload_reader :: "payload_error reader_error" where
  "payload_reader =
     \<lparr>err_overflow = PLengthOverflow, err_end = PUnexpectedEnd, err_trailing = PTrailingBytes\<rparr>"

subsection \<open>Block validation\<close>

text \<open>The loop over neighbouring records; the index is that of the second one.\<close>

fun check_pairs :: "nat \<Rightarrow> transaction_record list \<Rightarrow> block_journal_error + unit" where
  "check_pairs index (previous # current # rest) =
     and_then (ok_or (checked_add (rec_sequence previous) 1) JRecordSequenceOverflow) (\<lambda>expected_sequence.
     if rec_sequence current \<noteq> expected_sequence
     then Inl (JRecordSequenceMismatch index expected_sequence (rec_sequence current))
     else if rec_previous_state_id current \<noteq> rec_resulting_state_id previous
     then Inl (JPreviousStateMismatch index (rec_resulting_state_id previous) (rec_previous_state_id current))
     else check_pairs (Suc index) (current # rest))"
| "check_pairs index _ = Inr ()"

definition validate_block :: "sha256 \<Rightarrow> block_header \<Rightarrow> transaction_record list \<Rightarrow> block_journal_error + unit" where
  "validate_block sha h records =
     (if length records \<noteq> unat (bh_record_count (hd_input h))
      then Inl (JRecordCountMismatch (bh_record_count (hd_input h)) (length records))
      else and_then (map_err JConsensus (validate_record_hashes sha h (map rec_record_hash records))) (\<lambda>_.
        case records of
          first # _ \<Rightarrow>
            if rec_sequence first \<noteq> bh_first_record_sequence (hd_input h)
            then Inl (JFirstRecordSequenceMismatch (bh_first_record_sequence (hd_input h)) (rec_sequence first))
            else if rec_previous_state_id first \<noteq> bh_previous_state_id (hd_input h)
            then Inl (JPreviousStateMismatch 0 (bh_previous_state_id (hd_input h)) (rec_previous_state_id first))
            else and_then (check_pairs 1 records) (\<lambda>_.
              if rec_resulting_state_id (last records) \<noteq> bh_resulting_state_id (hd_input h)
              then Inl (JResultingStateMismatch (bh_resulting_state_id (hd_input h))
                     (rec_resulting_state_id (last records)))
              else Inr ())
        | [] \<Rightarrow>
            if bh_previous_state_id (hd_input h) \<noteq> bh_resulting_state_id (hd_input h)
            then Inl (JEmptyBlockStateMismatch (bh_previous_state_id (hd_input h))
                   (bh_resulting_state_id (hd_input h)))
            else Inr ()))"

definition StoredBlock_new ::
  "sha256 \<Rightarrow> block_header \<Rightarrow> app_hash \<Rightarrow> comet_bft_decision \<Rightarrow> transaction_record list \<Rightarrow>
     block_journal_error + stored_block" where
  "StoredBlock_new sha h app d records =
     and_then (validate_block sha h records) (\<lambda>_.
     Inr \<lparr>sb_offset = 0, sb_header = h, sb_app_hash = app, sb_comet_decision = d, sb_records = records\<rparr>)"

subsection \<open>Payload and frame\<close>

definition encode_decision :: "comet_bft_decision \<Rightarrow> bytes" where
  "encode_decision d =
     to_be_bytes (de_network_id d) @ to_be_bytes (de_height d) @ to_be_bytes (de_block_hash d) @
     to_be_bytes (de_next_validators_hash d)"

definition encode_record_entry :: "transaction_record \<Rightarrow> bytes" where
  "encode_record_entry r = to_be_bytes (of_nat (length (encode_record r)) :: u32) @ encode_record r"

definition encode_payload ::
  "sha256 \<Rightarrow> block_header \<Rightarrow> app_hash \<Rightarrow> comet_bft_decision \<Rightarrow> transaction_record list \<Rightarrow>
     block_journal_error + bytes" where
  "encode_payload sha h app d records =
     and_then (validate_block sha h records) (\<lambda>_.
     let header_bytes = encode_block_header h in
     and_then (try_fold (\<lambda>total r. ok_or
         (Option.bind (checked_add_usize total 4) (\<lambda>v. checked_add_usize v (length (encode_record r))))
         JPayloadLengthOverflow) 0 records) (\<lambda>total_record_bytes.
     and_then (ok_or (Option.bind (checked_add_usize (unat BLOCK_PAYLOAD_FIXED_BYTES) (length header_bytes))
         (\<lambda>v. checked_add_usize v total_record_bytes)) JPayloadLengthOverflow) (\<lambda>_.
     let bs = BLOCK_PAYLOAD_MAGIC @ to_be_bytes BLOCK_PAYLOAD_VERSION @
           to_be_bytes (of_nat (length header_bytes) :: u32) @ header_bytes @ to_be_bytes app @
           encode_decision d @ to_be_bytes (of_nat (length records) :: u32) @
           concat (map encode_record_entry records) in
     if length bs > unat MAX_BLOCK_FRAME_PAYLOAD_LENGTH
     then Inl (JFrameTooLarge 0 (case try_from_usize (length bs) of Some n \<Rightarrow> n | None \<Rightarrow> - 1)
            MAX_BLOCK_FRAME_PAYLOAD_LENGTH)
     else Inr bs)))"

fun read_records :: "sha256 \<Rightarrow> nat \<Rightarrow> nat \<Rightarrow> reader \<Rightarrow> payload_error + transaction_record list \<times> reader" where
  "read_records sha index 0 r = Inr ([], r)"
| "read_records sha index (Suc n) r =
     and_then (read_word payload_reader r) (\<lambda>(record_length :: u32, r).
     if record_length > MAX_ENCODED_RECORD_LENGTH
     then Inl (PRecordTooLarge index record_length MAX_ENCODED_RECORD_LENGTH)
     else and_then (read_exact payload_reader (unat record_length) r) (\<lambda>(record_bytes, r).
     and_then (map_err (PRecord index) (decode_record sha record_bytes)) (\<lambda>rec.
     if encode_record rec \<noteq> record_bytes then Inl (PNonCanonicalRecord index)
     else and_then (read_records sha (Suc index) n r) (\<lambda>(recs, r). Inr (rec # recs, r)))))"

definition decode_payload :: "sha256 \<Rightarrow> bytes \<Rightarrow> payload_error + stored_block" where
  "decode_payload sha bs =
     and_then (read_array payload_reader 4 (new_reader bs)) (\<lambda>(magic, r).
     if magic \<noteq> BLOCK_PAYLOAD_MAGIC then Inl PInvalidPayloadMagic
     else and_then (read_word payload_reader r) (\<lambda>(version, r).
     if version \<noteq> BLOCK_PAYLOAD_VERSION then Inl (PUnsupportedPayloadVersion version)
     else and_then (read_word payload_reader r) (\<lambda>(header_length, r).
     if header_length > BLOCK_HEADER_MAXIMUM_LENGTH
     then Inl (PHeaderTooLarge header_length BLOCK_HEADER_MAXIMUM_LENGTH)
     else and_then (read_exact payload_reader (unat header_length) r) (\<lambda>(header_bytes, r).
     and_then (map_err PConsensus (decode_block_header sha header_bytes)) (\<lambda>header.
     if encode_block_header header \<noteq> header_bytes then Inl PNonCanonicalHeader
     else and_then (read_word payload_reader r) (\<lambda>(app, r).
     and_then (read_word payload_reader r) (\<lambda>(network_id, r).
     and_then (read_word payload_reader r) (\<lambda>(decision_height, r).
     and_then (read_word payload_reader r) (\<lambda>(block_hash, r).
     and_then (read_word payload_reader r) (\<lambda>(next_validators_hash, r).
     and_then (read_word payload_reader r) (\<lambda>(record_count :: u32, r).
     if unat record_count > MAX_BLOCK_RECORDS
     then Inl (PTooManyRecords (unat record_count) MAX_BLOCK_RECORDS)
     else and_then (read_records sha 0 (unat record_count) r) (\<lambda>(records, r).
     and_then (finish payload_reader r) (\<lambda>_.
     and_then (map_err PBlock (validate_block sha header records)) (\<lambda>_.
     and_then (map_err PEngineIdentity
         (CometBftDecision_from_persisted network_id decision_height block_hash next_validators_hash)) (\<lambda>d.
     Inr \<lparr>sb_offset = 0, sb_header = header, sb_app_hash = app, sb_comet_decision = d,
          sb_records = records\<rparr>)))))))))))))))"

subsection \<open>Frames\<close>

definition block_format :: "block_journal_error frame_format" where
  "block_format =
     \<lparr>ff_magic = BLOCK_FRAME_MAGIC, ff_version = BLOCK_FRAME_VERSION, ff_maximum = MAX_BLOCK_FRAME_PAYLOAD_LENGTH,
      fe_magic = (\<lambda>offset _. JInvalidMagic offset), fe_version = JUnsupportedFrameVersion,
      fe_too_large = JFrameTooLarge, fe_checksum = JChecksumMismatch, fe_overflow = JOffsetOverflow\<rparr>"

definition decode_stored :: "sha256 \<Rightarrow> nat \<Rightarrow> bytes \<Rightarrow> block_journal_error + stored_block" where
  "decode_stored sha offset payload =
     and_then (map_err (JPayload offset) (decode_payload sha payload)) (\<lambda>block. Inr (block\<lparr>sb_offset := offset\<rparr>))"

definition stream_blocks ::
  "sha256 \<Rightarrow> ('s \<Rightarrow> stored_block \<Rightarrow> 'e + 's) \<Rightarrow> 's \<Rightarrow> bytes \<Rightarrow>
     (block_journal_error, 'e) replay_error + 's \<times> incomplete_tail option" where
  "stream_blocks sha visit st content = stream_frames block_format (decode_stored sha) visit st 0 content"

subsection \<open>Operations on the file\<close>

definition accept_all :: "unit \<Rightarrow> stored_block \<Rightarrow> block_journal_error + unit" where
  "accept_all st block = Inr ()"

definition validate_complete_file :: "sha256 \<Rightarrow> bytes \<Rightarrow> block_journal_error + unit" where
  "validate_complete_file sha content =
     and_then (map_err either_error (stream_blocks sha accept_all () content)) (\<lambda>(_, tail).
     case tail of
       None \<Rightarrow> Inr ()
     | Some t \<Rightarrow> Inl (JTruncatedFrame (it_valid_prefix_length t) (it_section t)))"

definition append_block ::
  "sha256 \<Rightarrow> io_outcome \<Rightarrow> bytes \<Rightarrow> stored_block \<Rightarrow> (block_journal_error + nat) \<times> bytes" where
  "append_block sha io content block =
     (case and_then (validate_block sha (sb_header block) (sb_records block)) (\<lambda>_.
         and_then (encode_payload sha (sb_header block) (sb_app_hash block) (sb_comet_decision block)
             (sb_records block)) (\<lambda>payload.
         and_then (map_err (JPayload 0) (decode_payload sha payload)) (\<lambda>_. encode_frame block_format payload))) of
        Inl e \<Rightarrow> (Inl e, content)
      | Inr frame \<Rightarrow>
          append_frame io (\<lambda>writing. JIo (if writing then ''append block frame'' else ''sync block frame'')) content frame)"

definition scan_recoverable_tail ::
  "sha256 \<Rightarrow> bytes \<Rightarrow> block_journal_error + stored_block list \<times> incomplete_tail option" where
  "scan_recoverable_tail sha content = map_err either_error (stream_blocks sha push_entry [] content)"

definition truncate_verified_incomplete_tail ::
  "sha256 \<Rightarrow> bytes \<Rightarrow> incomplete_tail \<Rightarrow> (block_journal_error + unit) \<times> bytes" where
  "truncate_verified_incomplete_tail sha content expected =
     (case map_err either_error (stream_blocks sha accept_all () content) of
        Inl e \<Rightarrow> (Inl e, content)
      | Inr (_, None) \<Rightarrow> (Inl JRecoveryTailChanged, content)
      | Inr (_, Some actual) \<Rightarrow>
          if actual \<noteq> expected then (Inl JRecoveryTailChanged, content)
          else let content' = take (it_valid_prefix_length actual) content
               in (validate_complete_file sha content', content'))"

subsection \<open>The payload codec\<close>

lemma journal_limits [simp]:
  "unat BLOCK_PAYLOAD_FIXED_BYTES = 150" "unat BLOCK_HEADER_MAXIMUM_LENGTH = 4096"
  "unat MAX_ENCODED_RECORD_LENGTH = 33554578" "unat MAX_BLOCK_FRAME_PAYLOAD_LENGTH = 217113110"
  by (simp_all add: BLOCK_PAYLOAD_FIXED_BYTES_def COMET_DECISION_ENCODED_BYTES_def
      BLOCK_HEADER_MAXIMUM_LENGTH_def MAX_ENCODED_RECORD_LENGTH_def MAX_RECORD_TRANSACTION_BYTES_def
      RECORD_ENVELOPE_OVERHEAD_def MAX_BLOCK_FRAME_PAYLOAD_LENGTH_def MAX_BLOCK_RECORDS_def)

lemma journal_magics [simp]: "length BLOCK_FRAME_MAGIC = 4" "length BLOCK_PAYLOAD_MAGIC = 4"
  by (simp_all add: BLOCK_FRAME_MAGIC_def BLOCK_PAYLOAD_MAGIC_def ascii_def)

lemma length_encode_block_header [simp]: "length (encode_block_header h) = 297"
  by (simp add: encode_block_header_def encode_block_header_fields_def split: option.splits)

lemma length_encode_record [simp]: "length (encode_record r) = 146 + length (rec_transaction_bytes r)"
  by (simp add: encode_record_def)

definition payload_bytes :: "stored_block \<Rightarrow> bytes" where
  "payload_bytes b =
     BLOCK_PAYLOAD_MAGIC @ to_be_bytes BLOCK_PAYLOAD_VERSION @ to_be_bytes (297 :: u32) @
     encode_block_header (sb_header b) @ to_be_bytes (sb_app_hash b) @ encode_decision (sb_comet_decision b) @
     to_be_bytes (of_nat (length (sb_records b)) :: u32) @ concat (map encode_record_entry (sb_records b))"

lemma length_record_entries:
  "length (concat (map encode_record_entry rs)) = (\<Sum>r\<leftarrow>rs. 150 + length (rec_transaction_bytes r))"
  by (induction rs) (simp_all add: encode_record_entry_def)

lemma length_payload_bytes:
  "length (payload_bytes b) = 447 + (\<Sum>r\<leftarrow>sb_records b. 150 + length (rec_transaction_bytes r))"
  by (simp add: payload_bytes_def encode_decision_def length_record_entries del: length_concat)

lemma try_fold_sum:
  "a < (m :: nat) \<Longrightarrow> try_fold (\<lambda>t x. ok_or (if t + g x < m then Some (t + g x) else None) e) a xs =
     (if a + (\<Sum>x\<leftarrow>xs. g x) < m then Inr (a + (\<Sum>x\<leftarrow>xs. g x)) else Inl e)"
  by (induction xs arbitrary: a) (auto simp: add.assoc)

lemma record_bytes_step:
  "Option.bind (checked_add_usize t 4) (\<lambda>v. checked_add_usize v (length (encode_record r))) =
     (if t + (150 + length (rec_transaction_bytes r)) < 2 ^ 64
      then Some (t + (150 + length (rec_transaction_bytes r))) else None)"
  by (simp add: checked_add_usize_def)

lemma encode_payload_Inr_iff:
  "encode_payload sha (sb_header b) (sb_app_hash b) (sb_comet_decision b) (sb_records b) = Inr bs \<longleftrightarrow>
   validate_block sha (sb_header b) (sb_records b) = Inr () \<and> bs = payload_bytes b \<and> length bs \<le> 217113110"
proof -
  let ?n = "\<Sum>r\<leftarrow>sb_records b. 150 + length (rec_transaction_bytes r)"
  have fold: "try_fold (\<lambda>total r. ok_or (Option.bind (checked_add_usize total 4)
       (\<lambda>v. checked_add_usize v (length (encode_record r)))) e) 0 (sb_records b) =
     (if ?n < 2 ^ 64 then Inr ?n else Inl e)" for e :: block_journal_error
    unfolding record_bytes_step
    using try_fold_sum [of 0 "2 ^ 64" "\<lambda>r. 150 + length (rec_transaction_bytes r)" e "sb_records b"] by simp
  have capacity: "Option.bind (checked_add_usize (unat BLOCK_PAYLOAD_FIXED_BYTES) (length (encode_block_header (sb_header b))))
      (\<lambda>v. checked_add_usize v ?n) = (if 447 + ?n < 2 ^ 64 then Some (447 + ?n) else None)"
    by (simp add: checked_add_usize_def)
  have "encode_payload sha (sb_header b) (sb_app_hash b) (sb_comet_decision b) (sb_records b) =
    and_then (validate_block sha (sb_header b) (sb_records b)) (\<lambda>_.
      if ?n < 2 ^ 64 then if 447 + ?n < 2 ^ 64 then
        if length (payload_bytes b) \<le> 217113110 then Inr (payload_bytes b)
        else Inl (JFrameTooLarge 0 (case try_from_usize (length (payload_bytes b)) of Some n \<Rightarrow> n | None \<Rightarrow> - 1)
            MAX_BLOCK_FRAME_PAYLOAD_LENGTH)
      else Inl JPayloadLengthOverflow else Inl JPayloadLengthOverflow)"
    unfolding encode_payload_def fold
    by (simp add: capacity [simplified] payload_bytes_def Let_def if_distrib not_less cong: if_cong)
  moreover have "?n < 2 ^ 64" "447 + ?n < 2 ^ 64" if "length (payload_bytes b) \<le> 217113110"
    using that unfolding length_payload_bytes by simp_all
  ultimately show ?thesis by (auto simp: and_then_eq_Inr)
qed

definition decision_ok :: "comet_bft_decision \<Rightarrow> bool" where
  "decision_ok d = (de_network_id d \<noteq> 0 \<and> 0 < sint (de_height d) \<and> de_block_hash d \<noteq> 0 \<and>
     de_next_validators_hash d \<noteq> 0)"

lemma from_persisted_Inr_iff:
  "CometBftDecision_from_persisted n h k v = Inr d \<longleftrightarrow>
   decision_ok d \<and> de_network_id d = n \<and> de_height d = h \<and> de_block_hash d = k \<and> de_next_validators_hash d = v"
  by (cases d) (auto simp: CometBftDecision_from_persisted_def decision_ok_def not_le)

text \<open>A block the journal can hold, apart from the size limit of a frame.\<close>

definition block_ok :: "sha256 \<Rightarrow> stored_block \<Rightarrow> bool" where
  "block_ok sha b = (header_wf sha (sb_header b) \<and> (\<forall>r \<in> set (sb_records b). record_wf sha r) \<and>
     decision_ok (sb_comet_decision b) \<and> validate_block sha (sb_header b) (sb_records b) = Inr ())"

lemma validate_block_count: "validate_block sha h rs = Inr () \<Longrightarrow> length rs \<le> MAX_BLOCK_RECORDS"
  by (auto simp: validate_block_def validate_record_hashes_def RecordCommitment_from_record_hashes_def
      and_then_eq_Inr split: if_splits)

lemma read_records_back:
  assumes "\<forall>r \<in> set rs. record_wf sha r" "length pre + length (concat (map encode_record_entry rs)) < 2 ^ 64"
  shows "read_records sha i (length rs) (reader_at pre (concat (map encode_record_entry rs))) =
    Inr (rs, reader_at (pre @ concat (map encode_record_entry rs)) [])"
  using assms
proof (induction rs arbitrary: pre i)
  case (Cons r rs)
  have wf: "record_wf sha r" using Cons.prems by simp
  have len: "length (encode_record r) \<le> 33554578"
    using record_wf_length [OF wf] by simp
  then have u: "unat (of_nat (length (encode_record r)) :: u32) = length (encode_record r)"
    unfolding unat_of_nat by simp
  then have "\<not> MAX_ENCODED_RECORD_LENGTH < of_nat (length (encode_record r))"
    using len by (simp add: word_less_nat_alt not_less del: length_encode_record)
  then show ?case
    using Cons.prems u decode_encode_record [OF wf]
      Cons.IH [of "pre @ encode_record_entry r" "Suc i"]
    by (simp add: encode_record_entry_def wire_simps del: length_encode_record length_concat)
qed simp

lemma decode_payload_back:
  assumes "block_ok sha b" "length (payload_bytes b) < 2 ^ 64" "sb_offset b = 0"
  shows "decode_payload sha (payload_bytes b) = Inr b"
proof -
  have n: "length (sb_records b) \<le> MAX_BLOCK_RECORDS"
    using assms(1) by (auto simp: block_ok_def dest: validate_block_count)
  then have u: "unat (of_nat (length (sb_records b)) :: u32) = length (sb_records b)"
    by (simp add: MAX_BLOCK_RECORDS_def unat_of_nat)
  have len: "447 + length (concat (map encode_record_entry (sb_records b))) < 2 ^ 64"
    using assms(2) by (simp add: length_payload_bytes length_record_entries del: length_concat)
  have hl: "\<not> BLOCK_HEADER_MAXIMUM_LENGTH < (297 :: u32)"
    by (simp add: BLOCK_HEADER_MAXIMUM_LENGTH_def)
  have recs: "read_records sha 0 (length (sb_records b)) (reader_at pre (concat (map encode_record_entry (sb_records b)))) =
      Inr (sb_records b, reader_at (pre @ concat (map encode_record_entry (sb_records b))) [])"
    if "length pre = 447" for pre
    using that len assms(1) by (intro read_records_back) (simp_all add: block_ok_def del: length_concat)
  have persisted: "CometBftDecision_from_persisted (de_network_id d) (de_height d) (de_block_hash d)
      (de_next_validators_hash d) = Inr d" if "decision_ok d" for d
    using that by (simp add: from_persisted_Inr_iff)
  have "decode_payload sha (payload_bytes b) = Inr \<lparr>sb_offset = 0, sb_header = sb_header b,
      sb_app_hash = sb_app_hash b, sb_comet_decision = sb_comet_decision b, sb_records = sb_records b\<rparr>"
    using assms(1) n u len hl
    by (simp add: decode_payload_def payload_bytes_def encode_decision_def wire_simps recs
      decode_encode_header block_ok_def persisted del: length_concat)
  then show ?thesis using assms(3) by (cases b) simp
qed

lemma read_records_only:
  "read_records sha i n (reader_at pre inp) = Inr (rs, r) \<Longrightarrow>
   length rs = n \<and> (\<forall>x \<in> set rs. record_wf sha x) \<and>
   (\<exists>rest. inp = concat (map encode_record_entry rs) @ rest \<and>
     r = reader_at (pre @ concat (map encode_record_entry rs)) rest)"
proof (induction n arbitrary: i pre inp rs)
  case (Suc n)
  from Suc.prems obtain len :: u32 and r1 bs r2 x xs where
    a: "read_word payload_reader (reader_at pre inp) = Inr (len, r1)"
    and b: "read_exact payload_reader (unat len) r1 = Inr (bs, r2)"
    and x: "decode_record sha bs = Inr x" and rest: "read_records sha (Suc i) n r2 = Inr (xs, r)"
    and out: "rs = x # xs"
    by (auto simp: and_then_eq_Inr split: if_splits)
  from a obtain inp1 where inp: "inp = to_be_bytes len @ inp1" and r1: "r1 = reader_at (pre @ to_be_bytes len) inp1"
    by (auto dest!: wire_dests)
  from b obtain inp2 where bs: "length bs = unat len" "inp1 = bs @ inp2"
    and r2: "r2 = reader_at (pre @ to_be_bytes len @ bs) inp2"
    unfolding r1 by (auto dest!: wire_dests)
  from decode_record_only [OF x] have wf: "record_wf sha x" and enc: "bs = encode_record x" by simp_all
  have "(of_nat (length bs) :: u32) = len" unfolding bs(1) by simp
  then have "inp = encode_record_entry x @ inp2"
    unfolding inp bs(2) encode_record_entry_def enc [symmetric] by simp
  moreover have "pre @ to_be_bytes len @ bs = pre @ encode_record_entry x"
    using \<open>of_nat (length bs) = len\<close> unfolding encode_record_entry_def enc [symmetric] by simp
  ultimately show ?case using Suc.IH [OF rest [unfolded r2]] wf out by auto
qed simp

lemma decode_payload_only:
  assumes "decode_payload sha bs = Inr b"
  shows "block_ok sha b \<and> bs = payload_bytes b \<and> sb_offset b = 0"
proof -
  from assms obtain v :: u16 and hlen :: u32 and hb h app n dh k nv and count :: u32 and rs rest d where
    parts: "bs = BLOCK_PAYLOAD_MAGIC @ to_be_bytes BLOCK_PAYLOAD_VERSION @ to_be_bytes hlen @ hb @ to_be_bytes app @
      to_be_bytes n @ to_be_bytes dh @ to_be_bytes k @ to_be_bytes nv @ to_be_bytes count @ rest"
    and hb: "length hb = unat hlen" and h: "decode_block_header sha hb = Inr h"
    and rs: "length rs = unat count" "\<forall>x \<in> set rs. record_wf sha x" "rest = concat (map encode_record_entry rs)"
    and valid: "validate_block sha h rs = Inr ()"
    and d: "CometBftDecision_from_persisted n dh k nv = Inr d"
    and b: "b = \<lparr>sb_offset = 0, sb_header = h, sb_app_hash = app, sb_comet_decision = d, sb_records = rs\<rparr>"
    by (auto simp: decode_payload_def and_then_eq_Inr split: if_splits
        dest!: wire_dests read_records_only finish_only)
  note hdr = decode_header_only [OF h]
  have "hlen = 297" using hb hdr by (simp add: word_unat_eq_iff)
  moreover have "of_nat (length rs) = count" unfolding rs(1) by simp
  ultimately show ?thesis
    using parts hdr rs(2,3) valid d
    by (simp add: b block_ok_def payload_bytes_def encode_decision_def from_persisted_Inr_iff)
qed

subsection \<open>Frames in a file\<close>

definition storable :: "sha256 \<Rightarrow> stored_block \<Rightarrow> bool" where
  "storable sha b = (block_ok sha b \<and> length (payload_bytes b) \<le> 217113110)"

abbreviation frame_bytes :: "stored_block \<Rightarrow> bytes" where
  "frame_bytes b \<equiv> frame_of block_format (payload_bytes b)"

text \<open>The content of a journal that holds \<open>bs\<close>, and the blocks with the offsets of their frames.\<close>

abbreviation file_of :: "stored_block list \<Rightarrow> bytes" where
  "file_of \<equiv> frames_of block_format payload_bytes"

abbreviation located :: "nat \<Rightarrow> stored_block list \<Rightarrow> stored_block list" where
  "located \<equiv> located_frames block_format payload_bytes (\<lambda>n b. b\<lparr>sb_offset := n\<rparr>)"

lemma block_format_simps [simp]: "ff_magic block_format = BLOCK_FRAME_MAGIC"
  "ff_maximum block_format = MAX_BLOCK_FRAME_PAYLOAD_LENGTH"
  by (simp_all add: block_format_def)

lemma payload_bytes_offset [simp]: "payload_bytes (b\<lparr>sb_offset := n\<rparr>) = payload_bytes b"
  by (simp add: payload_bytes_def)

lemma storable_offset [simp]: "storable sha (b\<lparr>sb_offset := n\<rparr>) = storable sha b"
  by (simp add: storable_def block_ok_def)

lemma decode_storable:
  "storable sha b \<Longrightarrow> decode_payload sha (payload_bytes b) = Inr (b\<lparr>sb_offset := 0\<rparr>)"
  using decode_payload_back [of sha "b\<lparr>sb_offset := 0\<rparr>"]
  by (simp add: storable_def block_ok_def)

interpretation blocks: framed_log block_format "decode_stored sha" payload_bytes "storable sha" "\<lambda>n b. b\<lparr>sb_offset := n\<rparr>"
  for sha
proof
  fix n p and x :: stored_block
  assume "decode_stored sha n p = Inr x" and size: "length p \<le> unat (ff_maximum block_format)"
  then obtain c where c: "decode_payload sha p = Inr c" "x = c\<lparr>sb_offset := n\<rparr>"
    by (auto simp: decode_stored_def and_then_eq_Inr)
  with decode_payload_only [OF c(1)] size show "storable sha x \<and> payload_bytes x = p \<and> x\<lparr>sb_offset := n\<rparr> = x"
    by (simp add: storable_def block_ok_def)
next
  fix n and x :: stored_block
  assume "storable sha x"
  then show "decode_stored sha n (payload_bytes x) = Inr (x\<lparr>sb_offset := n\<rparr>)"
    by (simp add: decode_stored_def decode_storable)
qed (simp_all add: storable_def block_ok_def)

lemma length_frame_bytes [simp]: "length (frame_bytes b) = 14 + length (payload_bytes b)"
  by (rule blocks.length_frame)

lemma frame_bytes_not_Nil [simp]: "frame_bytes b \<noteq> []"
  by (rule blocks.frame_not_Nil)

lemma file_of_located [simp]: "file_of (located n bs) = file_of bs"
  by (rule blocks.frames_of_located)

lemmas located_append = located_frames_append [of block_format payload_bytes]

lemma append_block_storable:
  assumes "storable sha b"
  shows "append_block sha Synced content b = (Inr (length content), content @ frame_bytes b)"
    and "\<exists>e. append_block sha (Torn k) content b = (Inl e, content @ take k (frame_bytes b))"
proof -
  note st = assms [unfolded storable_def block_ok_def]
  have "encode_payload sha (sb_header b) (sb_app_hash b) (sb_comet_decision b) (sb_records b) = Inr (payload_bytes b)"
    using st by (simp add: encode_payload_Inr_iff)
  then show "append_block sha Synced content b = (Inr (length content), content @ frame_bytes b)"
    and "\<exists>e. append_block sha (Torn k) content b = (Inl e, content @ take k (frame_bytes b))"
    using st decode_storable [OF assms] blocks.encode_frame_ok [OF assms]
    by (simp_all add: append_block_def append_frame_def)
qed

lemma try_fold_accept_all [simp]: "try_fold accept_all () bs = Inr ()"
  by (induction bs) (simp_all add: accept_all_def)

lemmas blocks_stream_complete = blocks.stream_complete [folded stream_blocks_def]
lemmas blocks_stream_torn = blocks.stream_torn [folded stream_blocks_def]

lemma stream_blocks_only:
  assumes "stream_blocks sha visit st content = Inr (st', tail)"
  obtains bs rest where "\<forall>b \<in> set bs. storable sha b" "content = file_of bs @ rest" "located 0 bs = bs"
    "try_fold visit st bs = Inr st'"
    "case tail of None \<Rightarrow> rest = [] | Some t \<Rightarrow> rest \<noteq> [] \<and> it_valid_prefix_length t = length (file_of bs)"
  using blocks.stream_frames_only [OF assms [unfolded stream_blocks_def]] by (auto split: option.splits)

lemma validate_complete_blocks:
  "\<forall>b \<in> set bs. storable sha b \<Longrightarrow> length (file_of bs) < 2 ^ 64 \<Longrightarrow> validate_complete_file sha (file_of bs) = Inr ()"
  by (simp add: validate_complete_file_def blocks_stream_complete)

lemma blocks_truncate_torn:
  assumes "\<forall>b \<in> set bs. storable sha b" and "storable sha b" and "0 < k" "k < length (frame_bytes b)"
    and "length (file_of bs) + k < 2 ^ 64"
  shows "truncate_verified_incomplete_tail sha (file_of bs @ take k (frame_bytes b))
      \<lparr>it_valid_prefix_length = length (file_of bs), it_section = torn_section k (payload_bytes b)\<rparr> = (Inr (), file_of bs)"
  using validate_complete_blocks [OF assms(1)] assms(5)
  by (simp add: truncate_verified_incomplete_tail_def blocks_stream_torn [OF assms])

lemma blocks_scan_complete:
  "\<forall>b \<in> set bs. storable sha b \<Longrightarrow> length (file_of bs) < 2 ^ 64 \<Longrightarrow>
   scan_recoverable_tail sha (file_of bs) = Inr (located 0 bs, None)"
  by (simp add: scan_recoverable_tail_def blocks_stream_complete)

text \<open>An executed block is storable: its records are linked the way the journal checks, and the frame
  limit leaves room for every block the consensus limits allow.\<close>

lemma check_pairs_linked:
  assumes "try_fold chain_apply c rs = Inr c'"
  shows "check_pairs i rs = Inr ()"
    and "rs \<noteq> [] \<Longrightarrow> rec_sequence (hd rs) = rc_next_sequence c \<and> rec_previous_state_id (hd rs) = rc_current_state_id c \<and>
      rec_resulting_state_id (last rs) = rc_current_state_id c'"
    and "rs = [] \<Longrightarrow> c' = c"
proof -
  have step: "chain_apply c r = Inr c1 \<Longrightarrow> rec_sequence r = rc_next_sequence c \<and>
      rec_previous_state_id r = rc_current_state_id c \<and> rc_current_state_id c1 = rec_resulting_state_id r \<and>
      checked_add (rec_sequence r) 1 = Some (rc_next_sequence c1)" for c c1 r
    by (auto simp: chain_apply_def and_then_eq_Inr split: if_splits)
  show "check_pairs i rs = Inr ()"
    using assms
  proof (induction rs arbitrary: c i)
    case (Cons r rs)
    then obtain c1 where c1: "chain_apply c r = Inr c1" and run: "try_fold chain_apply c1 rs = Inr c'"
      by (auto simp: and_then_eq_Inr)
    show ?case
    proof (cases rs)
      case (Cons q qs)
      then obtain c2 where "chain_apply c1 q = Inr c2" using run by (auto simp: and_then_eq_Inr)
      from step [OF this] step [OF c1] Cons.IH [OF run, of "Suc i"] Cons show ?thesis
        by (clarsimp simp: result_simps)
    qed simp
  qed simp
  show "rs \<noteq> [] \<Longrightarrow> rec_sequence (hd rs) = rc_next_sequence c \<and> rec_previous_state_id (hd rs) = rc_current_state_id c \<and>
      rec_resulting_state_id (last rs) = rc_current_state_id c'"
    using assms
  proof (induction rs arbitrary: c)
    case (Cons r rs)
    then obtain c1 where "chain_apply c r = Inr c1" "try_fold chain_apply c1 rs = Inr c'"
      by (auto simp: and_then_eq_Inr)
    with step [of c r c1] Cons.IH [of c1] show ?case by (cases rs) auto
  qed simp
  show "rs = [] \<Longrightarrow> c' = c" using assms by simp
qed

definition stored_of :: "executed_block \<Rightarrow> stored_block" where
  "stored_of b = \<lparr>sb_offset = 0, sb_header = xb_header b, sb_app_hash = xb_app_hash b,
     sb_comet_decision = xb_comet_decision b, sb_records = xb_records b\<rparr>"

lemma executed_block_valid:
  assumes "execute_block sha ctx cs p = Inr b"
  shows "validate_block sha (xb_header b) (xb_records b) = Inr ()"
proof -
  note f = execute_block_Inr [OF assms]
  have run: "try_fold chain_apply (ce_record_chain cs) (xb_records b) = Inr (xb_resulting_record_chain b)"
    using f(1) by (simp add: block_run_def)
  note linked = check_pairs_linked [OF run]
  have "length (xb_records b) = unat (bh_record_count (hd_input (xb_header b)))"
    using f(13) by (auto simp: validate_record_hashes_def split: if_splits)
  then show ?thesis
    using f(9-11,13) linked(1) [of 1] linked(2,3)
    by (cases "xb_records b") (simp_all add: validate_block_def)
qed

lemma executed_block_storable:
  assumes ctx: "context_wf sha ctx" and ex: "execute_block sha ctx cs p = Inr b" and "decision_ok (bp_comet_decision p)"
  shows "storable sha (stored_of b)"
proof -
  note f = execute_block_Inr [OF ex] and run = execute_block_Inr(1) [OF ex, unfolded block_run_def]
  have limit: "cc_maximum_block_transaction_bytes (xc_consensus_config ctx) \<le> MAX_BLOCK_TRANSACTION_BYTES"
    using ctx by (auto simp: context_wf_def config_wf_def ConsensusConfig_new_def and_then_eq_Inr Let_def
        not_less split: if_splits)
  have "sum_list (map length (bp_transactions p)) \<le> unat (cc_maximum_block_transaction_bytes (xc_consensus_config ctx))"
    using execute_block_proposal_ok [OF ex] by (simp add: proposal_ok_def)
  also have "\<dots> \<le> unat MAX_BLOCK_TRANSACTION_BYTES" using limit by (simp add: word_le_nat_alt)
  finally have total: "sum_list (map length (bp_transactions p)) \<le> 67108864"
    by (simp add: MAX_BLOCK_TRANSACTION_BYTES_def)
  have "length (xb_records b) \<le> 1000000"
    using validate_block_count [OF executed_block_valid [OF ex]] by (simp add: MAX_BLOCK_RECORDS_def)
  moreover have sum: "(\<Sum>r\<leftarrow>rs. 150 + length (rec_transaction_bytes r)) =
      150 * length rs + sum_list (map length (map rec_transaction_bytes rs))" for rs
    by (induction rs) simp_all
  moreover have bytes: "map rec_transaction_bytes (xb_records b) = bp_transactions p" using run by blast
  ultimately have "length (payload_bytes (stored_of b)) \<le> 217113110"
    using total unfolding length_payload_bytes stored_of_def stored_block.simps sum bytes by linarith
  then show ?thesis
    using f(7,14) run assms(3) executed_block_valid [OF ex]
    by (simp add: storable_def block_ok_def stored_of_def)
qed

subsection \<open>Properties\<close>

text \<open>C18: Crash recovery of the block journal. When the append of a block to a well formed journal fails
  after any number of bytes, the next scan still returns every earlier block with its offset. Nothing of
  the new block remains when no byte of it was written, the block is there as a whole when all of its
  frame was, and in every other case the scan reports the partial frame and truncating it restores the
  journal as it was before the append.\<close>

theorem journal_recovers_after_crash:
  assumes "\<forall>b \<in> set bs. storable sha b" and "storable sha b" and "k \<le> length (frame_bytes b)"
    and "length (file_of (bs @ [b])) < 2 ^ 64"
  shows "\<exists>e file. append_block sha (Torn k) (file_of bs) b = (Inl e, file) \<and>
    (if k = 0 then scan_recoverable_tail sha file = Inr (located 0 bs, None)
     else if k = length (frame_bytes b) then scan_recoverable_tail sha file = Inr (located 0 (bs @ [b]), None)
     else \<exists>tail. scan_recoverable_tail sha file = Inr (located 0 bs, Some tail) \<and>
       truncate_verified_incomplete_tail sha file tail = (Inr (), file_of bs))"
proof -
  obtain e where e: "append_block sha (Torn k) (file_of bs) b = (Inl e, file_of bs @ take k (frame_bytes b))"
    using append_block_storable(2) [OF assms(2)] by blast
  consider "k = 0" | "k = length (frame_bytes b)" "0 < k" | "0 < k" "k < length (frame_bytes b)"
    using assms(3) by linarith
  then show ?thesis
  proof cases
    case 1
    then show ?thesis using e blocks_scan_complete [OF assms(1)] assms(4) by simp
  next
    case 2
    then show ?thesis using e blocks_scan_complete [of "bs @ [b]" sha] assms by simp
  next
    case 3
    have size: "length (file_of bs) + k < 2 ^ 64" using 3 assms(4) by simp
    show ?thesis
      using e 3 blocks_truncate_torn [OF assms(1,2) 3 size]
      by (simp add: scan_recoverable_tail_def blocks_stream_torn [OF assms(1,2) 3 size])
  qed
qed

lemma sample_stored:
  obtains b where "execute_block (\<lambda>_. 0) sample_context sample_committed (sample_proposal 1) = Inr b"
    and "storable (\<lambda>_. 0) (stored_of b)" and "length (frame_bytes (stored_of b)) < 1000"
    and "sb_records (stored_of b) = [sample_block_record]"
proof -
  obtain b where b: "execute_block (\<lambda>_. 0) sample_context sample_committed (sample_proposal 1) = Inr b"
    "xb_records b = [sample_block_record]" by (rule sample_block)
  have "decision_ok (bp_comet_decision (sample_proposal 1))"
    by (simp add: decision_ok_def sample_proposal_def)
  moreover have "length (frame_bytes (stored_of b)) < 1000"
    using b(2) by (simp add: length_payload_bytes stored_of_def sample_block_record_def transaction_bytes_def
        sample_mint_def operation_bytes_def mint_bytes_def identifiers_bytes_def opaque_bytes_def
        TRANSACTION_MAGIC_def ascii_def)
  ultimately show ?thesis
    using that [of b] b executed_block_storable [OF sample_context_wf b(1)] by (simp add: stored_of_def)
qed

theorem journal_recovers_after_crash_witness:
  "\<exists>b e file tail. append_block (\<lambda>_. 0) (Torn 7) (file_of [b]) b = (Inl e, file) \<and>
     scan_recoverable_tail (\<lambda>_. 0) file = Inr (located 0 [b], Some tail) \<and>
     truncate_verified_incomplete_tail (\<lambda>_. 0) file tail = (Inr (), file_of [b])"
proof -
  obtain x where x: "storable (\<lambda>_. 0) (stored_of x)" "length (frame_bytes (stored_of x)) < 1000"
    by (rule sample_stored)
  then show ?thesis
    using journal_recovers_after_crash [of "[stored_of x]" "\<lambda>_. 0" "stored_of x" 7]
    by (intro exI [of _ "stored_of x"]) auto
qed

text \<open>The journal scan accepts nothing but journals. Whatever the file holds, a scan that succeeds has
  found exactly the frames of the blocks it returns, each of them valid, linked and within the limits, at
  the offsets it reports, followed by nothing or by one partial frame whose start it names.\<close>

lemma journal_scan_exact:
  assumes "scan_recoverable_tail sha content = Inr (bs, tail)"
  shows "(\<forall>b \<in> set bs. storable sha b) \<and> located 0 bs = bs \<and>
    (case tail of None \<Rightarrow> content = file_of bs
     | Some t \<Rightarrow> take (it_valid_prefix_length t) content = file_of bs \<and> it_valid_prefix_length t < length content)"
proof -
  have "stream_blocks sha push_entry [] content = (Inr (bs, tail) :: (_, block_journal_error) replay_error + _)"
    using assms by (simp add: scan_recoverable_tail_def)
  then obtain bs' rest where "\<forall>b \<in> set bs'. storable sha b" "content = file_of bs' @ rest" "located 0 bs' = bs'"
    "try_fold push_entry [] bs' = (Inr bs :: block_journal_error + _)"
    "case tail of None \<Rightarrow> rest = [] | Some t \<Rightarrow> rest \<noteq> [] \<and> it_valid_prefix_length t = length (file_of bs')"
    by (rule stream_blocks_only)
  then show ?thesis by (auto split: option.splits)
qed

end
