(* ===== verification/Persistent_Execution.thy ===== *)
theory Persistent_Execution
  imports Block_Journal
begin

text \<open>
  The durable block coordinator of \<^verbatim>\<open>crates/noxis-storage/src/persistent_execution.rs\<close>: opening a
  journal by re-executing every frame of it, executing against the durable tip, and committing one whole
  block. The state of the coordinator is a record with the journal file inside; every operation that
  writes takes the I/O outcome and returns the new state with its result. The locks on the journal path
  are not modelled: one coordinator owns the file.
\<close>

subsection \<open>State, errors and receipts\<close>

record persistent_execution =
  pe_context :: execution_context
  pe_journal :: bytes
  pe_committed :: committed_execution_state
  pe_app_hash :: "app_hash option"
  pe_tip_offset :: "nat option"
  pe_writes_available :: bool

record durable_block_receipt =
  dr_height :: u64
  dr_block_id :: block_id
  dr_app_hash :: app_hash
  dr_state_id :: state_id
  dr_log_offset :: nat

text \<open>The last constructor stands for the panic of the \<^verbatim>\<open>expect\<close> on the tip offset.\<close>

datatype persistent_execution_error =
  PeJournal block_journal_error
| PeExecution execution_error
| PeHeightOverflow
| PeUnexpectedCommitHeight u64 u64
| PeConflictingCommitAtHeight u64
| PeReplayMismatch u64
| PeWriteUnavailable
| PeTipOffsetPanic

subsection \<open>Operations\<close>

definition stored_proposal :: "stored_block \<Rightarrow> block_proposal" where
  "stored_proposal stored =
     \<lparr>bp_height = bh_height (hd_input (sb_header stored)), bp_comet_decision = sb_comet_decision stored,
      bp_transactions = map rec_transaction_bytes (sb_records stored)\<rparr>"

definition reexecute_stored ::
  "sha256 \<Rightarrow> execution_context \<Rightarrow> committed_execution_state \<Rightarrow> stored_block \<Rightarrow>
     persistent_execution_error + executed_block" where
  "reexecute_stored sha ctx committed stored =
     and_then (map_err PeExecution (execute_block sha ctx committed (stored_proposal stored))) (\<lambda>executed.
     if xb_header executed \<noteq> sb_header stored \<or> xb_comet_decision executed \<noteq> sb_comet_decision stored \<or>
        xb_records executed \<noteq> sb_records stored \<or> xb_app_hash executed \<noteq> sb_app_hash stored
     then Inl (PeReplayMismatch (bh_height (hd_input (sb_header stored))))
     else Inr executed)"

text \<open>The closure that recovery passes to the journal scan, with the three variables it captures.\<close>

definition replay_visit ::
  "sha256 \<Rightarrow> execution_context \<Rightarrow> committed_execution_state \<times> app_hash option \<times> nat option \<Rightarrow> stored_block \<Rightarrow>
     persistent_execution_error + committed_execution_state \<times> app_hash option \<times> nat option" where
  "replay_visit sha ctx st stored =
     (case st of (committed, _, _) \<Rightarrow>
        and_then (reexecute_stored sha ctx committed stored) (\<lambda>executed.
        Inr (into_committed_state executed, Some (sb_app_hash stored), Some (sb_offset stored))))"

definition PersistentExecution_open ::
  "sha256 \<Rightarrow> bytes \<Rightarrow> ledger_state \<Rightarrow> execution_context \<Rightarrow>
     (persistent_execution_error + persistent_execution) \<times> bytes" where
  "PersistentExecution_open sha file genesis_state ctx =
     (case map_err PeExecution (CommittedExecutionState_genesis sha genesis_state (xc_chain_anchor ctx)) of
        Inl e \<Rightarrow> (Inl e, file)
      | Inr committed \<Rightarrow>
          (case stream_blocks sha (replay_visit sha ctx) (committed, None, None) file of
             Inl (Journal e) \<Rightarrow> (Inl (PeJournal e), file)
           | Inl (Visitor e) \<Rightarrow> (Inl e, file)
           | Inr ((committed, app, tip), tail) \<Rightarrow>
               (case (case tail of None \<Rightarrow> (Inr (), file)
                      | Some t \<Rightarrow> truncate_verified_incomplete_tail sha file t) of
                  (Inl e, file) \<Rightarrow> (Inl (PeJournal e), file)
                | (Inr _, file) \<Rightarrow>
                    (Inr \<lparr>pe_context = ctx, pe_journal = file, pe_committed = committed, pe_app_hash = app,
                          pe_tip_offset = tip, pe_writes_available = True\<rparr>, file))))"

definition pe_execute ::
  "sha256 \<Rightarrow> persistent_execution \<Rightarrow> block_proposal \<Rightarrow> persistent_execution_error + executed_block" where
  "pe_execute sha pe p = map_err PeExecution (execute_block sha (pe_context pe) (pe_committed pe) p)"

definition pe_candidate_execution_state :: "persistent_execution \<Rightarrow> candidate_execution_state" where
  "pe_candidate_execution_state pe = from_committed (pe_committed pe)"

definition pe_simulate_transaction ::
  "sha256 \<Rightarrow> persistent_execution \<Rightarrow> candidate_execution_state \<Rightarrow> bytes \<Rightarrow>
     (persistent_execution_error + execution_receipt) \<times> candidate_execution_state" where
  "pe_simulate_transaction sha pe cand bs =
     (case simulate_transaction sha (pe_context pe) cand bs of
        (res, cand') \<Rightarrow> (map_err PeExecution res, cand'))"

definition idempotent_receipt ::
  "persistent_execution \<Rightarrow> executed_block \<Rightarrow> persistent_execution_error + durable_block_receipt" where
  "idempotent_receipt pe b =
     (if ce_height (pe_committed pe) > 0 \<and> ce_block_id (pe_committed pe) = Some (hd_id (xb_header b)) \<and>
         pe_app_hash pe = Some (xb_app_hash b)
      then case pe_tip_offset pe of
          None \<Rightarrow> Inl PeTipOffsetPanic
        | Some offset \<Rightarrow>
            Inr \<lparr>dr_height = ce_height (pe_committed pe), dr_block_id = hd_id (xb_header b),
                 dr_app_hash = xb_app_hash b,
                 dr_state_id = rc_current_state_id (ce_record_chain (pe_committed pe)),
                 dr_log_offset = offset\<rparr>
      else Inl (PeConflictingCommitAtHeight (ce_height (pe_committed pe))))"

definition commit_block ::
  "sha256 \<Rightarrow> io_outcome \<Rightarrow> persistent_execution \<Rightarrow> executed_block \<Rightarrow>
     (persistent_execution_error + durable_block_receipt) \<times> persistent_execution" where
  "commit_block sha io pe b =
     (if \<not> pe_writes_available pe then (Inl PeWriteUnavailable, pe)
      else if bh_height (hd_input (xb_header b)) = ce_height (pe_committed pe)
      then (idempotent_receipt pe b, pe)
      else case checked_add (ce_height (pe_committed pe)) 1 of
        None \<Rightarrow> (Inl PeHeightOverflow, pe)
      | Some expected_height \<Rightarrow>
          if bh_height (hd_input (xb_header b)) \<noteq> expected_height
          then (Inl (PeUnexpectedCommitHeight expected_height (bh_height (hd_input (xb_header b)))), pe)
          else case and_then (map_err PeJournal (StoredBlock_new sha (xb_header b) (xb_app_hash b)
                 (xb_comet_decision b) (xb_records b))) (\<lambda>stored.
               and_then (reexecute_stored sha (pe_context pe) (pe_committed pe) stored) (\<lambda>executed.
               Inr (stored, executed))) of
            Inl e \<Rightarrow> (Inl e, pe)
          | Inr (stored, executed) \<Rightarrow>
              (case append_block sha io (pe_journal pe) stored of
                 (Inl e, file) \<Rightarrow> (Inl (PeJournal e), pe\<lparr>pe_journal := file, pe_writes_available := False\<rparr>)
               | (Inr offset, file) \<Rightarrow>
                   (Inr \<lparr>dr_height = bh_height (hd_input (xb_header executed)),
                         dr_block_id = hd_id (xb_header executed), dr_app_hash = xb_app_hash executed,
                         dr_state_id = bh_resulting_state_id (hd_input (xb_header executed)),
                         dr_log_offset = offset\<rparr>,
                    pe\<lparr>pe_journal := file, pe_app_hash := Some (xb_app_hash executed),
                       pe_tip_offset := Some offset, pe_committed := into_committed_state executed\<rparr>)))"

subsection \<open>Re-execution of stored blocks\<close>

lemma stored_of_offset [simp]: "sb_offset (stored_of b) = 0"
  "sb_header (stored_of b) = xb_header b" "sb_app_hash (stored_of b) = xb_app_hash b"
  "sb_comet_decision (stored_of b) = xb_comet_decision b" "sb_records (stored_of b) = xb_records b"
  by (simp_all add: stored_of_def)

lemma reexecute_offset [simp]:
  "reexecute_stored sha ctx cs (s\<lparr>sb_offset := n\<rparr>) = reexecute_stored sha ctx cs s"
  by (simp add: reexecute_stored_def stored_proposal_def cong: if_cong)

lemma reexecute_Inr_iff:
  "reexecute_stored sha ctx cs s = Inr x \<longleftrightarrow>
   execute_block sha ctx cs (stored_proposal s) = Inr x \<and> stored_of x = s\<lparr>sb_offset := 0\<rparr>"
  by (cases s) (auto simp: reexecute_stored_def and_then_eq_Inr stored_of_def split: if_splits)

lemma reexecute_executed:
  assumes "execute_block sha ctx cs p = Inr x"
  shows "reexecute_stored sha ctx cs (stored_of x) = Inr x"
proof -
  note f = execute_block_Inr [OF assms]
  have "stored_proposal (stored_of x) = p"
    using f(1,4,14) by (cases p) (simp add: stored_proposal_def block_run_def)
  with assms show ?thesis
    by (simp add: reexecute_stored_def)
qed

lemma reexecute_storable:
  assumes "context_wf sha ctx" and "reexecute_stored sha ctx cs s = Inr x" and "decision_ok (sb_comet_decision s)"
  shows "storable sha s"
proof -
  from assms(2) have x: "execute_block sha ctx cs (stored_proposal s) = Inr x" "stored_of x = s\<lparr>sb_offset := 0\<rparr>"
    by (simp_all add: reexecute_Inr_iff)
  have "storable sha (stored_of x)"
    using executed_block_storable [OF assms(1) x(1)] assms(3) by (simp add: stored_proposal_def)
  then show ?thesis using x(2) by simp
qed

subsection \<open>The durable invariant\<close>

text \<open>The state recovery computes from a list of blocks, starting at the genesis ledger.\<close>

definition replayed ::
  "sha256 \<Rightarrow> ledger_state \<Rightarrow> execution_context \<Rightarrow> stored_block list \<Rightarrow>
     committed_execution_state \<times> app_hash option \<times> nat option \<Rightarrow> bool" where
  "replayed sha g ctx bs st =
     (\<exists>cs. CommittedExecutionState_genesis sha g (xc_chain_anchor ctx) = Inr cs \<and>
       try_fold (replay_visit sha ctx) (cs, None, None) bs = Inr st)"

text \<open>What an interrupted append may have left at the end of the file.\<close>

definition torn_tail :: "sha256 \<Rightarrow> execution_context \<Rightarrow> committed_execution_state \<Rightarrow> bytes \<Rightarrow> bool" where
  "torn_tail sha ctx cs rest =
     (rest = [] \<or> (\<exists>s x k. storable sha s \<and> reexecute_stored sha ctx cs s = Inr x \<and> rest = take k (frame_bytes s)))"

definition pe_tip :: "persistent_execution \<Rightarrow> committed_execution_state \<times> app_hash option \<times> nat option" where
  "pe_tip pe = (pe_committed pe, pe_app_hash pe, pe_tip_offset pe)"

definition pe_inv :: "sha256 \<Rightarrow> ledger_state \<Rightarrow> execution_context \<Rightarrow> persistent_execution \<Rightarrow> bool" where
  "pe_inv sha g ctx pe =
     (pe_context pe = ctx \<and>
      (\<exists>bs rest. (\<forall>b \<in> set bs. storable sha b) \<and> located 0 bs = bs \<and> replayed sha g ctx bs (pe_tip pe) \<and>
        pe_journal pe = file_of bs @ rest \<and> torn_tail sha ctx (pe_committed pe) rest \<and>
        (pe_writes_available pe \<longrightarrow> rest = [])))"

lemma replay_visit_Inr_iff:
  "replay_visit sha ctx (cs, a, t) s = Inr st \<longleftrightarrow>
   (\<exists>x. reexecute_stored sha ctx cs s = Inr x \<and> st = (into_committed_state x, Some (sb_app_hash s), Some (sb_offset s)))"
  by (auto simp: replay_visit_def and_then_eq_Inr)

lemma replayed_snoc:
  assumes "replayed sha g ctx bs (cs, a, t)" and "reexecute_stored sha ctx cs s = Inr x"
  shows "replayed sha g ctx (bs @ [s]) (into_committed_state x, Some (xb_app_hash x), Some (sb_offset s))"
proof -
  have "sb_app_hash s = xb_app_hash x"
    using assms(2) by (cases s) (auto simp: reexecute_Inr_iff stored_of_def)
  then show ?thesis
    using assms by (auto simp: replayed_def try_fold_append replay_visit_def)
qed

text \<open>A replayed tip is a committed state; its application hash and offset exist beyond genesis.\<close>

lemma replayed_committed:
  assumes "ledger_inv g" and "replayed sha g ctx bs (cs, a, t)"
  shows "committed_inv sha ctx cs \<and> unat (ce_height cs) = length bs \<and> (0 < ce_height cs \<longrightarrow> t \<noteq> None)"
proof -
  have step: "committed_inv sha ctx cs' \<and> unat (ce_height cs') = unat (ce_height cs) + length bs \<and>
      (0 < ce_height cs' \<longrightarrow> t' \<noteq> None)"
    if "try_fold (replay_visit sha ctx) (cs, a, t) bs = Inr (cs', a', t')" "committed_inv sha ctx cs"
      "0 < ce_height cs \<longrightarrow> t \<noteq> None" for cs a t cs' a' t'
    using that
  proof (induction bs arbitrary: cs a t)
    case (Cons b bs)
    then obtain x where x: "execute_block sha ctx cs (stored_proposal b) = Inr x"
      and run: "try_fold (replay_visit sha ctx) (into_committed_state x, Some (sb_app_hash b), Some (sb_offset b)) bs =
        Inr (cs', a', t')"
      by (auto simp: and_then_eq_Inr replay_visit_Inr_iff reexecute_Inr_iff)
    have "block_step sha ctx cs (stored_proposal b) = Inr (into_committed_state x)"
      using x by (simp add: block_step_def)
    then have "committed_inv sha ctx (into_committed_state x)"
      using exec.run_inv [of sha ctx cs "[stored_proposal b]"] Cons.prems(2) by simp
    with Cons.IH [OF run] execute_block_Inr(3,4) [OF x] show ?case by simp
  qed simp
  from assms(2) obtain c0 where c0: "CommittedExecutionState_genesis sha g (xc_chain_anchor ctx) = Inr c0"
    "try_fold (replay_visit sha ctx) (c0, None, None) bs = Inr (cs, a, t)" by (auto simp: replayed_def)
  have "ce_height c0 = 0"
    using c0(1) by (auto simp: CommittedExecutionState_genesis_def from_parts_def Let_def split: if_splits)
  then show ?thesis using step [OF c0(2) genesis_committed_inv [OF c0(1) assms(1)]] by simp
qed

subsection \<open>Opening\<close>

definition pe_at ::
  "execution_context \<Rightarrow> bytes \<Rightarrow> committed_execution_state \<times> app_hash option \<times> nat option \<Rightarrow> persistent_execution" where
  "pe_at ctx file st = (case st of (cs, a, t) \<Rightarrow>
     \<lparr>pe_context = ctx, pe_journal = file, pe_committed = cs, pe_app_hash = a, pe_tip_offset = t,
      pe_writes_available = True\<rparr>)"

lemma open_complete:
  assumes "\<forall>b \<in> set bs. storable sha b" and "located 0 bs = bs" and "replayed sha g ctx bs st"
    and "length (file_of bs) < 2 ^ 64"
  shows "PersistentExecution_open sha (file_of bs) g ctx = (Inr (pe_at ctx (file_of bs) st), file_of bs)"
proof -
  obtain c0 where c0: "CommittedExecutionState_genesis sha g (xc_chain_anchor ctx) = Inr c0"
    "try_fold (replay_visit sha ctx) (c0, None, None) bs = Inr st" using assms(3) by (auto simp: replayed_def)
  have "stream_blocks sha (replay_visit sha ctx) (c0, None, None) (file_of bs) = Inr (st, None)"
    using blocks_stream_complete [OF assms(1,4), of "replay_visit sha ctx"] c0(2) assms(2) by simp
  with c0(1) show ?thesis
    by (simp add: PersistentExecution_open_def pe_at_def split: prod.splits)
qed

lemma open_torn:
  assumes "\<forall>b \<in> set bs. storable sha b" and "located 0 bs = bs" and "replayed sha g ctx bs st"
    and "storable sha s" and k: "0 < k" "k < length (frame_bytes s)" and size: "length (file_of bs) + k < 2 ^ 64"
  shows "PersistentExecution_open sha (file_of bs @ take k (frame_bytes s)) g ctx =
    (Inr (pe_at ctx (file_of bs) st), file_of bs)"
proof -
  obtain c0 where c0: "CommittedExecutionState_genesis sha g (xc_chain_anchor ctx) = Inr c0"
    "try_fold (replay_visit sha ctx) (c0, None, None) bs = Inr st" using assms(3) by (auto simp: replayed_def)
  have "stream_blocks sha (replay_visit sha ctx) (c0, None, None) (file_of bs @ take k (frame_bytes s)) =
      Inr (st, Some \<lparr>it_valid_prefix_length = length (file_of bs), it_section = torn_section k (payload_bytes s)\<rparr>)"
    using blocks_stream_torn [OF assms(1,4) k size, of "replay_visit sha ctx"] c0(2) assms(2) by simp
  with c0(1) blocks_truncate_torn [OF assms(1,4) k size] show ?thesis
    by (simp add: PersistentExecution_open_def pe_at_def split: prod.splits)
qed

text \<open>Whatever the file holds: a successful open has decoded and re-executed all of it.\<close>

lemma open_only:
  assumes "PersistentExecution_open sha file g ctx = (Inr pe, file')"
  shows "pe_inv sha g ctx pe \<and> pe_writes_available pe \<and> pe_journal pe = file' \<and> (\<exists>rest. file = file' @ rest)"
proof -
  obtain c0 st tail where c0: "CommittedExecutionState_genesis sha g (xc_chain_anchor ctx) = Inr c0"
    and run: "stream_blocks sha (replay_visit sha ctx) (c0, None, None) file = Inr (st, tail)"
    and pe: "pe = pe_at ctx file' st"
    and cut: "(case tail of None \<Rightarrow> (Inr (), file) | Some t \<Rightarrow> truncate_verified_incomplete_tail sha file t) = (Inr (), file')"
    using assms
    by (auto simp: PersistentExecution_open_def pe_at_def map_err_def
        split: sum.splits prod.splits replay_error.splits)
  obtain bs rest where bs: "\<forall>b \<in> set bs. storable sha b"
    "file = file_of bs @ rest" "located 0 bs = bs" "try_fold (replay_visit sha ctx) (c0, None, None) bs = Inr st"
    and rest: "case tail of None \<Rightarrow> rest = []
      | Some t \<Rightarrow> rest \<noteq> [] \<and> it_valid_prefix_length t = length (file_of bs)"
    using run by (rule stream_blocks_only)
  have "file' = file_of bs"
    using cut rest bs(2)
    by (cases tail) (auto simp: truncate_verified_incomplete_tail_def Let_def split: sum.splits option.splits if_splits)
  moreover have "replayed sha g ctx bs st" using c0 bs(4) by (auto simp: replayed_def)
  moreover have "pe_tip (pe_at ctx f st) = st" for f by (cases st) (simp add: pe_tip_def pe_at_def)
  ultimately show ?thesis
    using pe bs unfolding pe_inv_def
    by (auto simp: pe_at_def torn_tail_def split: prod.splits)
qed

lemma pe_tip_at [simp]: "pe_tip (pe_at ctx f st) = st" "pe_context (pe_at ctx f st) = ctx"
  by (cases st; simp add: pe_tip_def pe_at_def)+

text \<open>Reopening after an append that stopped anywhere: the tip as it was, or the whole block.\<close>

lemma reopen_tail:
  assumes bs: "\<forall>b \<in> set bs. storable sha b" "located 0 bs = bs" "replayed sha g ctx bs (cs, a, t)"
    and s: "storable sha s" "reexecute_stored sha ctx cs s = Inr x"
    and size: "length (file_of bs @ take k (frame_bytes s)) < 2 ^ 64"
  shows "\<exists>pe f. PersistentExecution_open sha (file_of bs @ take k (frame_bytes s)) g ctx = (Inr pe, f) \<and>
    pe_context pe = ctx \<and>
    (pe_tip pe = (cs, a, t) \<or> pe_tip pe = (into_committed_state x, Some (xb_app_hash x), Some (length (file_of bs))))"
proof -
  consider "k = 0" | "0 < k" "k < length (frame_bytes s)" | "length (frame_bytes s) \<le> k" by linarith
  then show ?thesis
  proof cases
    case 1
    then show ?thesis using open_complete [OF bs] size by simp
  next
    case 2
    then show ?thesis using open_torn [OF bs s(1) 2] size by simp
  next
    case 3
    let ?s = "s\<lparr>sb_offset := length (file_of bs)\<rparr>"
    let ?st = "(into_committed_state x, Some (xb_app_hash x), Some (length (file_of bs)))"
    have "replayed sha g ctx (bs @ [?s]) ?st" using replayed_snoc [OF bs(3), of ?s x] s(2) by simp
    moreover have "located 0 (bs @ [?s]) = bs @ [?s]" using bs(2) by (simp add: located_append)
    ultimately have "PersistentExecution_open sha (file_of (bs @ [?s])) g ctx =
      (Inr (pe_at ctx (file_of (bs @ [?s])) ?st), file_of (bs @ [?s]))"
      using bs(1) s(1) size 3 by (intro open_complete) auto
    then show ?thesis using 3 by simp
  qed
qed

text \<open>Reopening a journal an invariant state has written: the tip as it was, or one more block.\<close>

lemma reopen:
  assumes inv: "pe_inv sha g ctx pe" and size: "length (pe_journal pe) < 2 ^ 64"
  shows "\<exists>pe' file. PersistentExecution_open sha (pe_journal pe) g ctx = (Inr pe', file) \<and>
    (pe_tip pe' = pe_tip pe \<and> (pe_writes_available pe \<longrightarrow> pe' = pe) \<or>
     \<not> pe_writes_available pe \<and>
     (\<exists>p x. execute_block sha ctx (pe_committed pe) p = Inr x \<and> pe_committed pe' = into_committed_state x \<and>
        pe_app_hash pe' = Some (xb_app_hash x)))"
proof -
  obtain bs rest where bs: "\<forall>b \<in> set bs. storable sha b" "located 0 bs = bs" "replayed sha g ctx bs (pe_tip pe)"
    and content: "pe_journal pe = file_of bs @ rest" and torn: "torn_tail sha ctx (pe_committed pe) rest"
    and avail: "pe_writes_available pe \<longrightarrow> rest = []" and ctx: "pe_context pe = ctx"
    using inv by (auto simp: pe_inv_def)
  show ?thesis
  proof (cases "rest = []")
    case True
    then have "PersistentExecution_open sha (pe_journal pe) g ctx = (Inr (pe_at ctx (file_of bs) (pe_tip pe)), file_of bs)"
      using open_complete [OF bs] size content by simp
    moreover have "pe_writes_available pe \<Longrightarrow> pe_at ctx (file_of bs) (pe_tip pe) = pe"
      using content True ctx by (cases pe) (simp add: pe_at_def pe_tip_def)
    ultimately show ?thesis by auto
  next
    case False
    with torn obtain s x k where s: "storable sha s" "reexecute_stored sha ctx (pe_committed pe) s = Inr x"
      "rest = take k (frame_bytes s)" by (auto simp: torn_tail_def)
    have "execute_block sha ctx (pe_committed pe) (stored_proposal s) = Inr x"
      using s(2) by (simp add: reexecute_Inr_iff)
    with reopen_tail [OF bs(1,2) bs(3) [unfolded pe_tip_def] s(1,2), of k] size content s(3) False avail
    show ?thesis by (auto simp: pe_tip_def)
  qed
qed

subsection \<open>Committing\<close>

text \<open>The state after a block has been appended, and the receipt that reports it.\<close>

definition pe_append :: "persistent_execution \<Rightarrow> executed_block \<Rightarrow> persistent_execution" where
  "pe_append pe x = pe\<lparr>pe_journal := pe_journal pe @ frame_bytes (stored_of x), pe_app_hash := Some (xb_app_hash x),
     pe_tip_offset := Some (length (pe_journal pe)), pe_committed := into_committed_state x\<rparr>"

definition receipt_at :: "nat \<Rightarrow> executed_block \<Rightarrow> durable_block_receipt" where
  "receipt_at offset x = \<lparr>dr_height = bh_height (hd_input (xb_header x)), dr_block_id = hd_id (xb_header x),
     dr_app_hash = xb_app_hash x, dr_state_id = bh_resulting_state_id (hd_input (xb_header x)), dr_log_offset = offset\<rparr>"

lemma StoredBlock_new_stored_of:
  "StoredBlock_new sha (xb_header b) (xb_app_hash b) (xb_comet_decision b) (xb_records b) =
     and_then (validate_block sha (xb_header b) (xb_records b)) (\<lambda>_. Inr (stored_of b))"
  by (simp add: StoredBlock_new_def stored_of_def)

lemma reexecute_no_panic: "reexecute_stored sha ctx cs s \<noteq> Inl PeTipOffsetPanic"
  by (cases "execute_block sha ctx cs (stored_proposal s)") (simp_all add: reexecute_stored_def)

text \<open>The three ways a commit can go.\<close>

lemma commit_cases:
  assumes ctx: "context_wf sha (pe_context pe)" and dec: "decision_ok (xb_comet_decision b)"
  obtains (kept) r where "commit_block sha io pe b = (r, pe)"
      "(\<exists>e. r = Inl e \<and> e \<noteq> PeTipOffsetPanic) \<or> r = idempotent_receipt pe b"
  | (torn) x e k where "reexecute_stored sha (pe_context pe) (pe_committed pe) (stored_of b) = Inr x"
      "commit_block sha io pe b = (Inl (PeJournal e),
         pe\<lparr>pe_journal := pe_journal pe @ take k (frame_bytes (stored_of b)), pe_writes_available := False\<rparr>)"
      "pe_writes_available pe" "storable sha (stored_of b)" "io = Torn k"
  | (appended) x where "reexecute_stored sha (pe_context pe) (pe_committed pe) (stored_of b) = Inr x"
      "commit_block sha io pe b = (Inr (receipt_at (length (pe_journal pe)) x), pe_append pe x)"
      "pe_writes_available pe" "storable sha (stored_of b)" "io = Synced"
proof (cases "pe_writes_available pe \<and> bh_height (hd_input (xb_header b)) \<noteq> ce_height (pe_committed pe) \<and>
    checked_add (ce_height (pe_committed pe)) 1 = Some (bh_height (hd_input (xb_header b))) \<and>
    validate_block sha (xb_header b) (xb_records b) = Inr ()")
  case True
  show ?thesis
  proof (cases "reexecute_stored sha (pe_context pe) (pe_committed pe) (stored_of b)")
    case (Inl e)
    then have "e \<noteq> PeTipOffsetPanic" using reexecute_no_panic by auto
    with True Inl show ?thesis
      by (intro kept [of "Inl e"]) (simp_all add: commit_block_def StoredBlock_new_stored_of)
  next
    case (Inr x)
    have st: "storable sha (stored_of b)" using reexecute_storable [OF ctx Inr] dec by simp
    have x: "stored_of x = stored_of b" using Inr by (simp add: reexecute_Inr_iff stored_of_def)
    show ?thesis
    proof (cases io)
      case Synced
      with True Inr st x append_block_storable(1) [OF st, of "pe_journal pe"] show ?thesis
        by (intro appended [of x])
          (simp_all add: commit_block_def StoredBlock_new_stored_of receipt_at_def pe_append_def)
    next
      case (Torn k)
      obtain e where "append_block sha (Torn k) (pe_journal pe) (stored_of b) =
          (Inl e, pe_journal pe @ take k (frame_bytes (stored_of b)))"
        using append_block_storable(2) [OF st] by blast
      with Torn True Inr st show ?thesis
        by (intro torn [of x e k]) (simp_all add: commit_block_def StoredBlock_new_stored_of)
    qed
  qed
next
  case False
  then show ?thesis
    by (intro kept [of "fst (commit_block sha io pe b)"])
      (auto simp: commit_block_def StoredBlock_new_stored_of map_err_def and_then_def
        split: option.splits sum.splits)
qed

lemma commit_inv:
  assumes ctx: "context_wf sha ctx" and inv: "pe_inv sha g ctx pe" and dec: "decision_ok (xb_comet_decision b)"
  shows "pe_inv sha g ctx (snd (commit_block sha io pe b))"
proof -
  obtain bs rest where bs: "\<forall>b \<in> set bs. storable sha b" "located 0 bs = bs" "replayed sha g ctx bs (pe_tip pe)"
    and content: "pe_journal pe = file_of bs @ rest" and avail: "pe_writes_available pe \<longrightarrow> rest = []"
    and c: "pe_context pe = ctx"
    using inv by (auto simp: pe_inv_def)
  from ctx c have "context_wf sha (pe_context pe)" by simp
  show ?thesis
  proof (cases rule: commit_cases [OF \<open>context_wf sha (pe_context pe)\<close> dec, of io, case_names kept torn appended])
    case (kept r)
    then show ?thesis using inv by simp
  next
    case (torn x e k)
    then show ?thesis using bs content avail c
      by (auto simp: pe_inv_def pe_tip_def torn_tail_def)
  next
    case (appended x)
    let ?s = "stored_of b\<lparr>sb_offset := length (file_of bs)\<rparr>"
    have "replayed sha g ctx (bs @ [?s]) (into_committed_state x, Some (xb_app_hash x), Some (length (file_of bs)))"
      using replayed_snoc [OF bs(3) [unfolded pe_tip_def], of ?s x] appended(1) c by simp
    moreover have "stored_of x = stored_of b" using appended(1) by (simp add: reexecute_Inr_iff stored_of_def)
    ultimately show ?thesis
      using appended bs content avail c unfolding pe_inv_def
      by (auto intro!: exI [of _ "bs @ [?s]"] simp: pe_tip_def pe_append_def torn_tail_def located_append)
  qed
qed

subsection \<open>Lives of a coordinator\<close>

text \<open>
  The states a coordinator can be in: opened on a new file, after any commit with any I/O outcome, and
  after a restart on the file an earlier life left behind. The engine decision inside a block is a value
  of a type whose constructors all check it.
\<close>

inductive durable :: "sha256 \<Rightarrow> ledger_state \<Rightarrow> execution_context \<Rightarrow> persistent_execution \<Rightarrow> bool"
  for sha g ctx where
  durable_create: "PersistentExecution_open sha [] g ctx = (Inr pe, f) \<Longrightarrow> durable sha g ctx pe"
| durable_commit: "durable sha g ctx pe \<Longrightarrow> decision_ok (xb_comet_decision b) \<Longrightarrow>
    commit_block sha io pe b = (r, pe') \<Longrightarrow> durable sha g ctx pe'"
| durable_restart: "durable sha g ctx pe \<Longrightarrow> PersistentExecution_open sha (pe_journal pe) g ctx = (Inr pe', f) \<Longrightarrow>
    durable sha g ctx pe'"

lemma durable_inv:
  "durable sha g ctx pe \<Longrightarrow> context_wf sha ctx \<Longrightarrow> pe_inv sha g ctx pe"
proof (induction rule: durable.induct)
  case (durable_commit pe b io r pe')
  then show ?case using commit_inv [of sha ctx g pe b io] by simp
qed (use open_only in blast)+

lemma pe_inv_committed:
  assumes "ledger_inv g" and "pe_inv sha g ctx pe"
  shows "committed_inv sha ctx (pe_committed pe)" and "0 < ce_height (pe_committed pe) \<Longrightarrow> pe_tip_offset pe \<noteq> None"
  using assms replayed_committed [of g sha ctx _ "pe_committed pe" "pe_app_hash pe" "pe_tip_offset pe"]
  by (auto simp: pe_inv_def pe_tip_def)

lemma commit_executed:
  assumes ctx: "context_wf sha (pe_context pe)" and "pe_writes_available pe"
    and ex: "execute_block sha (pe_context pe) (pe_committed pe) p = Inr b" and dec: "decision_ok (bp_comet_decision p)"
  shows "commit_block sha Synced pe b = (Inr (receipt_at (length (pe_journal pe)) b), pe_append pe b)"
    and "\<exists>e. commit_block sha (Torn k) pe b = (Inl (PeJournal e),
      pe\<lparr>pe_journal := pe_journal pe @ take k (frame_bytes (stored_of b)), pe_writes_available := False\<rparr>)"
proof -
  note f = execute_block_Inr [OF ex]
  have st: "storable sha (stored_of b)" by (rule executed_block_storable [OF ctx ex dec])
  have "bh_height (hd_input (xb_header b)) \<noteq> ce_height (pe_committed pe)"
    "checked_add (ce_height (pe_committed pe)) 1 = Some (bh_height (hd_input (xb_header b)))"
    using f(3,4) by (auto simp: checked_add_Some_iff)
  note checks = this assms(2) reexecute_executed [OF ex] executed_block_valid [OF ex]
  show "commit_block sha Synced pe b = (Inr (receipt_at (length (pe_journal pe)) b), pe_append pe b)"
    using checks append_block_storable(1) [OF st]
    by (simp add: commit_block_def StoredBlock_new_stored_of receipt_at_def pe_append_def)
  obtain e where "append_block sha (Torn k) (pe_journal pe) (stored_of b) =
      (Inl e, pe_journal pe @ take k (frame_bytes (stored_of b)))"
    using append_block_storable(2) [OF st] by blast
  then show "\<exists>e. commit_block sha (Torn k) pe b = (Inl (PeJournal e),
      pe\<lparr>pe_journal := pe_journal pe @ take k (frame_bytes (stored_of b)), pe_writes_available := False\<rparr>)"
    using checks by (simp add: commit_block_def StoredBlock_new_stored_of)
qed

lemma commit_again:
  assumes "pe_writes_available pe" and ex: "execute_block sha (pe_context pe) (pe_committed pe) p = Inr b"
    and "bh_height (hd_input (xb_header b')) = bh_height (hd_input (xb_header b))"
  shows "commit_block sha io (pe_append pe b) b' =
    (if hd_id (xb_header b') = hd_id (xb_header b) \<and> xb_app_hash b' = xb_app_hash b
     then Inr (receipt_at (length (pe_journal pe)) b)
     else Inl (PeConflictingCommitAtHeight (bh_height (hd_input (xb_header b)))), pe_append pe b)"
proof -
  note f = execute_block_Inr [OF ex]
  have "bh_height (hd_input (xb_header b)) \<noteq> 0" using f(3,4) by auto
  then show ?thesis using assms(1,3) f(10)
    by (auto simp: commit_block_def idempotent_receipt_def pe_append_def receipt_at_def word_gt_0)
qed

subsection \<open>Properties\<close>

text \<open>C2: Recovery always succeeds and never loses a durable block. From every state a coordinator can
  reach through commits with arbitrary I/O outcomes and restarts, opening its journal again succeeds. If
  no append was interrupted the reopened coordinator is the same one; otherwise it is at the same tip, or
  exactly one executed block further, never anything in between.\<close>

theorem recovery_never_loses_a_block:
  assumes "context_wf sha ctx" and "durable sha g ctx pe" and "length (pe_journal pe) < 2 ^ 64"
  shows "\<exists>pe' f. PersistentExecution_open sha (pe_journal pe) g ctx = (Inr pe', f) \<and>
    (pe_tip pe' = pe_tip pe \<and> (pe_writes_available pe \<longrightarrow> pe' = pe) \<or>
     \<not> pe_writes_available pe \<and>
     (\<exists>p x. execute_block sha ctx (pe_committed pe) p = Inr x \<and> pe_committed pe' = into_committed_state x \<and>
        pe_app_hash pe' = Some (xb_app_hash x)))"
  by (rule reopen [OF durable_inv [OF assms(2,1)] assms(3)])

definition sample_pe :: persistent_execution where
  "sample_pe = \<lparr>pe_context = sample_context, pe_journal = [], pe_committed = sample_committed, pe_app_hash = None,
     pe_tip_offset = None, pe_writes_available = True\<rparr>"

lemma sample_pe_open: "PersistentExecution_open (\<lambda>_. 0) [] sample_state sample_context = (Inr sample_pe, [])"
  by (simp add: PersistentExecution_open_def CommittedExecutionState_genesis_def from_parts_def
      ledger_state_id_def RecordChain_new_def sample_context_def sample_pe_def sample_committed_def
      stream_blocks_def)

lemma sample_pe_durable: "durable (\<lambda>_. 0) sample_state sample_context sample_pe"
  by (rule durable_create [OF sample_pe_open])

lemma sample_pe_simps [simp]: "pe_context sample_pe = sample_context" "pe_committed sample_pe = sample_committed"
  "pe_writes_available sample_pe" "pe_journal sample_pe = []"
  by (simp_all add: sample_pe_def)

lemma sample_decision_ok: "decision_ok (bp_comet_decision (sample_proposal 1))"
  by (simp add: decision_ok_def sample_proposal_def)

theorem recovery_never_loses_a_block_witness:
  "\<exists>b pe pe' f. commit_block (\<lambda>_. 0) Synced sample_pe b = (Inr (receipt_at 0 b), pe) \<and>
     PersistentExecution_open (\<lambda>_. 0) (pe_journal pe) sample_state sample_context = (Inr pe', f) \<and> pe' = pe \<and>
     ce_height (pe_committed pe) = 1"
proof -
  obtain b where b: "execute_block (\<lambda>_. 0) sample_context sample_committed (sample_proposal 1) = Inr b"
    "length (frame_bytes (stored_of b)) < 1000" by (rule sample_stored)
  have commit: "commit_block (\<lambda>_. 0) Synced sample_pe b = (Inr (receipt_at 0 b), pe_append sample_pe b)"
    using commit_executed [of "\<lambda>_. 0" sample_pe, OF _ _ _ sample_decision_ok] b(1) sample_context_wf by simp
  have "xb_comet_decision b = bp_comet_decision (sample_proposal 1)" using b(1) by (rule execute_block_Inr(14))
  then have "durable (\<lambda>_. 0) sample_state sample_context (pe_append sample_pe b)"
    using durable_commit [OF sample_pe_durable _ commit] sample_decision_ok by simp
  from recovery_never_loses_a_block [OF sample_context_wf this] b(2) commit
  show ?thesis using execute_block_Inr(4) [OF b(1)]
    by (auto simp: pe_append_def sample_proposal_def intro!: exI [of _ b])
qed

text \<open>C17: What has been executed can be committed, once. When the operating system writes, committing a
  block the coordinator has executed succeeds; the new tip is the block's own resulting state and the
  receipt names its height, id, application hash, state and offset. Committing the same block again
  returns the same receipt and writes nothing, and any other block at that height is refused.\<close>

theorem executed_block_commits_once:
  assumes "context_wf sha (pe_context pe)" and "pe_writes_available pe" and "pe_execute sha pe p = Inr b"
    and "decision_ok (bp_comet_decision p)"
  shows "\<exists>pe'. commit_block sha Synced pe b = (Inr (receipt_at (length (pe_journal pe)) b), pe') \<and>
    pe_committed pe' = into_committed_state b \<and> pe_journal pe' = pe_journal pe @ frame_bytes (stored_of b) \<and>
    commit_block sha io pe' b = (Inr (receipt_at (length (pe_journal pe)) b), pe') \<and>
    (\<forall>b'. bh_height (hd_input (xb_header b')) = bp_height p \<and> hd_id (xb_header b') \<noteq> hd_id (xb_header b) \<longrightarrow>
       commit_block sha io pe' b' = (Inl (PeConflictingCommitAtHeight (bp_height p)), pe'))"
proof -
  have ex: "execute_block sha (pe_context pe) (pe_committed pe) p = Inr b"
    using assms(3) by (simp add: pe_execute_def)
  show ?thesis
    using commit_executed [OF assms(1,2) ex assms(4)] commit_again [OF assms(2) ex] execute_block_Inr(4) [OF ex]
    by (intro exI [of _ "pe_append pe b"]) (simp add: pe_append_def)
qed

theorem executed_block_commits_once_witness:
  "\<exists>b pe'. pe_execute (\<lambda>_. 0) sample_pe (sample_proposal 1) = Inr b \<and>
     commit_block (\<lambda>_. 0) Synced sample_pe b = (Inr (receipt_at 0 b), pe') \<and>
     commit_block (\<lambda>_. 0) (Torn 3) pe' b = (Inr (receipt_at 0 b), pe')"
proof -
  obtain b where "execute_block (\<lambda>_. 0) sample_context sample_committed (sample_proposal 1) = Inr b"
    by (rule sample_block)
  then have b: "pe_execute (\<lambda>_. 0) sample_pe (sample_proposal 1) = Inr b" by (simp add: pe_execute_def)
  from executed_block_commits_once [OF _ _ b sample_decision_ok, of "Torn 3"] b sample_context_wf
  show ?thesis by auto
qed

text \<open>Opening trusts nothing in the file. Whatever bytes the journal holds, a coordinator that opens has
  decoded every complete frame and executed it again from the genesis ledger with the same header, records,
  decision and application hash; its committed state satisfies the execution invariant, and all that was
  cut from the file is a partial frame at the end.\<close>

lemma open_reexecutes_the_journal:
  assumes "ledger_inv g" and "PersistentExecution_open sha f g ctx = (Inr pe, f')"
  shows "\<exists>bs rest. f = f' @ rest \<and> f' = file_of bs \<and> replayed sha g ctx bs (pe_tip pe) \<and>
    (\<forall>b \<in> set bs. storable sha b) \<and> committed_inv sha ctx (pe_committed pe) \<and>
    unat (ce_height (pe_committed pe)) = length bs"
proof -
  from open_only [OF assms(2)] obtain bs rest where o: "f = f' @ rest" "f' = file_of bs"
    "replayed sha g ctx bs (pe_tip pe)" "\<forall>b \<in> set bs. storable sha b"
    by (auto simp: pe_inv_def)
  with replayed_committed [OF assms(1) o(3) [unfolded pe_tip_def]] show ?thesis by blast
qed



end
