(* ===== verification/Comet_App.thy ===== *)
theory Comet_App
  imports Persistent_Execution "HOL-Library.Sublist"
begin

text \<open>
  The transport-neutral ABCI core of \<^verbatim>\<open>crates/noxis-comet-abci\<close>: the height mapping
  (\<^verbatim>\<open>heights.rs\<close>), the local mempool overlay (\<^verbatim>\<open>mempool.rs\<close>) and the lifecycle of a consensus
  application (\<^verbatim>\<open>app.rs\<close>) over one durable coordinator. Every handler that takes \<^verbatim>\<open>&mut self\<close> returns its
  result with the new core. The protobuf and socket adapter around it is not modelled.
\<close>

subsection \<open>Heights\<close>

datatype height_mapping_error =
  EngineHeightBeforeGenesis i64 i64
| HmHeightOverflow
| HmEngine engine_identity_error

type_synonym comet_identity = comet_bft_genesis

definition noxis_height :: "comet_identity \<Rightarrow> i64 \<Rightarrow> height_mapping_error + u64" where
  "noxis_height g engine_height =
     and_then (ok_or (checked_sub_i64 engine_height (ni_initial_height (cg_identity g)))
         (EngineHeightBeforeGenesis (ni_initial_height (cg_identity g)) engine_height)) (\<lambda>relative.
     and_then (ok_or (checked_add_i64 relative 1) HmHeightOverflow) (\<lambda>height.
     if sint height < 0 then Inl HmHeightOverflow else Inr height))"

definition identity_engine_height :: "comet_identity \<Rightarrow> u64 \<Rightarrow> height_mapping_error + i64" where
  "identity_engine_height g height = map_err HmEngine (engine_height_for (cg_identity g) height)"

subsection \<open>Errors and results\<close>

datatype comet_abci_error =
  AbCryptoEligibility service_crypto_eligibility_error
| AbHeight height_mapping_error
| AbEngineIdentity engine_identity_error
| AbExecution execution_error
| AbStorage persistent_execution_error
| AbInitChainMismatch
| AbInitChainAfterCommit
| AbConsensusBeforeInitChain
| AbMempoolLimitExceeded
| AbNegativeMaximumTransactionBytes i64
| AbUnexpectedEngineHeight i64 i64
| AbUnexpectedNextValidatorsHash
| AbFinalizeConflict i64
| AbMissingFinalizedBlock

datatype proposal_status = Accept | Reject

record check_tx_result =
  ct_accepted :: bool
  ct_code :: u32

record tx_result =
  tr_code :: u32
  tr_transaction_intent_id :: transaction_intent_id
  tr_record_hash :: record_hash
  tr_resulting_state_id :: state_id

record finalize_block_result =
  fb_app_hash :: app_hash
  fb_transaction_results :: "tx_result list"

record app_info =
  ai_last_block_height :: i64
  ai_app_hash :: "app_hash option"

record init_chain_request =
  ir_chain_id :: bytes
  ir_initial_height :: i64
  ir_parameters_sha256 :: id32
  ir_validators :: "comet_bft_validator list"

subsection \<open>The mempool overlay\<close>

definition MAX_PENDING_TRANSACTIONS :: nat where "MAX_PENDING_TRANSACTIONS = 10000"
definition MAX_PENDING_TRANSACTION_BYTES :: nat where "MAX_PENDING_TRANSACTION_BYTES = 64 * 1024 * 1024"

record mempool_overlay =
  mo_candidate :: candidate_execution_state
  mo_transactions :: "bytes list"
  mo_total_bytes :: nat

definition MempoolOverlay_new :: "candidate_execution_state \<Rightarrow> mempool_overlay" where
  "MempoolOverlay_new cand = \<lparr>mo_candidate = cand, mo_transactions = [], mo_total_bytes = 0\<rparr>"

definition mempool_reset :: "mempool_overlay \<Rightarrow> candidate_execution_state \<Rightarrow> mempool_overlay" where
  "mempool_reset m cand = m\<lparr>mo_candidate := cand, mo_transactions := [], mo_total_bytes := 0\<rparr>"

definition admit ::
  "sha256 \<Rightarrow> persistent_execution \<Rightarrow> mempool_overlay \<Rightarrow> bytes \<Rightarrow> (comet_abci_error + unit) \<times> mempool_overlay" where
  "admit sha pe m tx =
     (if length (mo_transactions m) = MAX_PENDING_TRANSACTIONS then (Inl AbMempoolLimitExceeded, m)
      else case checked_add_usize (mo_total_bytes m) (length tx) of
        None \<Rightarrow> (Inl AbMempoolLimitExceeded, m)
      | Some total_bytes \<Rightarrow>
          if \<not> total_bytes \<le> MAX_PENDING_TRANSACTION_BYTES then (Inl AbMempoolLimitExceeded, m)
          else case pe_simulate_transaction sha pe (mo_candidate m) tx of
            (Inl e, _) \<Rightarrow> (Inl (AbStorage e), m)
          | (Inr _, next) \<Rightarrow>
              (Inr (), m\<lparr>mo_candidate := next, mo_transactions := mo_transactions m @ [tx],
                         mo_total_bytes := total_bytes\<rparr>))"

subsection \<open>The application core\<close>

record pending_finalization =
  pf_engine_decision :: comet_bft_decision
  pf_transactions :: "bytes list"
  pf_executed :: executed_block
  pf_result :: finalize_block_result

datatype lifecycle = GenesisUnverified | Running

record comet_core =
  nc_identity :: comet_identity
  nc_execution :: persistent_execution
  nc_mempool :: mempool_overlay
  nc_pending :: "pending_finalization option"
  nc_lifecycle :: lifecycle

definition try_new ::
  "sha256 \<Rightarrow> persistent_execution \<Rightarrow> settlement_service_authorization \<Rightarrow> comet_abci_error + comet_core" where
  "try_new sha pe authorization =
     and_then (map_err AbCryptoEligibility
         (ensure_matches sha authorization (xc_validation_context (pe_context pe)))) (\<lambda>_.
     Inr \<lparr>nc_identity = xc_comet_bft_genesis (pe_context pe), nc_execution = pe,
          nc_mempool = MempoolOverlay_new (pe_candidate_execution_state pe), nc_pending = None,
          nc_lifecycle = (if ce_height (pe_committed pe) = 0 then GenesisUnverified else Running)\<rparr>)"

definition info :: "comet_core \<Rightarrow> comet_abci_error + app_info" where
  "info core =
     (let durable_height = ce_height (pe_committed (nc_execution core)) in
      and_then (if durable_height = 0 then Inr 0
                else map_err AbHeight (identity_engine_height (nc_identity core) durable_height)) (\<lambda>height.
      Inr \<lparr>ai_last_block_height = height, ai_app_hash = pe_app_hash (nc_execution core)\<rparr>))"

definition init_chain :: "comet_core \<Rightarrow> init_chain_request \<Rightarrow> (comet_abci_error + unit) \<times> comet_core" where
  "init_chain core request =
     (let n = cg_identity (nc_identity core) in
      if ce_height (pe_committed (nc_execution core)) \<noteq> 0 then (Inl AbInitChainAfterCommit, core)
      else if ir_chain_id request \<noteq> ni_chain_id n \<or> ir_initial_height request \<noteq> ni_initial_height n \<or>
         ir_parameters_sha256 request \<noteq> ni_parameters_sha256 n \<or>
         ir_validators request \<noteq> cs_validators (cg_validators (nc_identity core))
      then (Inl AbInitChainMismatch, core)
      else (Inr (), core\<lparr>nc_lifecycle := Running\<rparr>))"

definition check_tx :: "sha256 \<Rightarrow> comet_core \<Rightarrow> bytes \<Rightarrow> check_tx_result \<times> comet_core" where
  "check_tx sha core tx =
     (if nc_lifecycle core \<noteq> Running then (\<lparr>ct_accepted = False, ct_code = 1\<rparr>, core)
      else case admit sha (nc_execution core) (nc_mempool core) tx of
        (Inr _, m) \<Rightarrow> (\<lparr>ct_accepted = True, ct_code = 0\<rparr>, core\<lparr>nc_mempool := m\<rparr>)
      | (Inl _, m) \<Rightarrow> (\<lparr>ct_accepted = False, ct_code = 1\<rparr>, core\<lparr>nc_mempool := m\<rparr>))"

definition expected_next_noxis_height :: "comet_core \<Rightarrow> comet_abci_error + u64" where
  "expected_next_noxis_height core =
     ok_or (checked_add (ce_height (pe_committed (nc_execution core))) 1) (AbHeight HmHeightOverflow)"

definition ensure_next_engine_height :: "comet_core \<Rightarrow> i64 \<Rightarrow> comet_abci_error + u64" where
  "ensure_next_engine_height core engine_height =
     and_then (expected_next_noxis_height core) (\<lambda>expected_noxis_height.
     and_then (map_err AbHeight (identity_engine_height (nc_identity core) expected_noxis_height))
       (\<lambda>expected_engine_height.
     if engine_height \<noteq> expected_engine_height
     then Inl (AbUnexpectedEngineHeight expected_engine_height engine_height)
     else Inr expected_noxis_height))"

definition ensure_initialized :: "comet_core \<Rightarrow> comet_abci_error + unit" where
  "ensure_initialized core =
     (if nc_lifecycle core = Running then Inr () else Inl AbConsensusBeforeInitChain)"

definition execute_for_engine_decision ::
  "sha256 \<Rightarrow> comet_core \<Rightarrow> comet_bft_decision \<Rightarrow> bytes list \<Rightarrow> comet_abci_error + executed_block" where
  "execute_for_engine_decision sha core d txs =
     and_then (ensure_next_engine_height core (de_height d)) (\<lambda>height.
     map_err AbStorage (pe_execute sha (nc_execution core)
       \<lparr>bp_height = height, bp_comet_decision = d, bp_transactions = txs\<rparr>))"

text \<open>The loop of \<^verbatim>\<open>prepare_proposal\<close>: \<^verbatim>\<open>break\<close> returns the selection, \<^verbatim>\<open>continue\<close> drops one transaction.\<close>

fun select_transactions ::
  "sha256 \<Rightarrow> persistent_execution \<Rightarrow> nat \<Rightarrow> nat \<Rightarrow> candidate_execution_state \<Rightarrow> nat \<Rightarrow> bytes list \<Rightarrow> bytes list \<Rightarrow>
     bytes list" where
  "select_transactions sha pe byte_limit record_limit candidate total_bytes selected [] = selected"
| "select_transactions sha pe byte_limit record_limit candidate total_bytes selected (tx # rest) =
     (if length selected = record_limit then selected
      else case checked_add_usize total_bytes (length tx) of
        None \<Rightarrow> select_transactions sha pe byte_limit record_limit candidate total_bytes selected rest
      | Some next_total \<Rightarrow>
          if next_total > byte_limit
          then select_transactions sha pe byte_limit record_limit candidate total_bytes selected rest
          else case pe_simulate_transaction sha pe candidate tx of
            (Inl _, _) \<Rightarrow> select_transactions sha pe byte_limit record_limit candidate total_bytes selected rest
          | (Inr _, next_candidate) \<Rightarrow>
              select_transactions sha pe byte_limit record_limit next_candidate next_total (selected @ [tx]) rest)"

definition prepare_proposal ::
  "sha256 \<Rightarrow> comet_core \<Rightarrow> i64 \<Rightarrow> i64 \<Rightarrow> id32 \<Rightarrow> bytes list \<Rightarrow> comet_abci_error + bytes list" where
  "prepare_proposal sha core engine_height engine_maximum_transaction_bytes next_validators_hash txs =
     and_then (ensure_initialized core) (\<lambda>_.
     and_then (ensure_next_engine_height core engine_height) (\<lambda>_.
     if next_validators_hash \<noteq> cs_hash (cg_validators (nc_identity core))
     then Inl AbUnexpectedNextValidatorsHash
     else if sint engine_maximum_transaction_bytes < 0
     then Inl (AbNegativeMaximumTransactionBytes engine_maximum_transaction_bytes)
     else
       let pe = nc_execution core;
           config = xc_consensus_config (pe_context pe);
           byte_limit = min (nat (sint engine_maximum_transaction_bytes))
             (unat (cc_maximum_block_transaction_bytes config));
           record_limit = unat (cc_maximum_block_records config)
       in Inr (select_transactions sha pe byte_limit record_limit (pe_candidate_execution_state pe) 0 [] txs)))"

definition process_proposal ::
  "sha256 \<Rightarrow> comet_core \<Rightarrow> comet_bft_decision \<Rightarrow> bytes list \<Rightarrow> comet_abci_error + proposal_status" where
  "process_proposal sha core d txs =
     and_then (ensure_initialized core) (\<lambda>_.
     and_then (expected_next_noxis_height core) (\<lambda>height.
     and_then (map_err AbEngineIdentity (validate_for d (nc_identity core) height)) (\<lambda>_.
     case execute_for_engine_decision sha core d txs of
       Inr _ \<Rightarrow> Inr Accept
     | Inl (AbStorage (PeExecution _)) \<Rightarrow> Inr Reject
     | Inl e \<Rightarrow> Inl e)))"

definition tx_result_of :: "execution_receipt \<Rightarrow> tx_result" where
  "tx_result_of receipt =
     \<lparr>tr_code = 0, tr_transaction_intent_id = er_transaction_intent_id receipt,
      tr_record_hash = er_record_hash receipt, tr_resulting_state_id = er_resulting_state_id receipt\<rparr>"

definition finalize_block ::
  "sha256 \<Rightarrow> comet_core \<Rightarrow> comet_bft_decision \<Rightarrow> bytes list \<Rightarrow>
     (comet_abci_error + finalize_block_result) \<times> comet_core" where
  "finalize_block sha core d txs =
     (case ensure_initialized core of
        Inl e \<Rightarrow> (Inl e, core)
      | Inr _ \<Rightarrow>
          (case nc_pending core of
             Some pending \<Rightarrow>
               if pf_engine_decision pending = d \<and> pf_transactions pending = txs
               then (Inr (pf_result pending), core)
               else (Inl (AbFinalizeConflict (de_height d)), core)
           | None \<Rightarrow>
               (case and_then (expected_next_noxis_height core) (\<lambda>height.
                   and_then (map_err AbEngineIdentity (validate_for d (nc_identity core) height)) (\<lambda>_.
                   execute_for_engine_decision sha core d txs)) of
                  Inl e \<Rightarrow> (Inl e, core)
                | Inr executed \<Rightarrow>
                    (let result = \<lparr>fb_app_hash = xb_app_hash executed,
                           fb_transaction_results = map tx_result_of (xb_receipts executed)\<rparr>
                     in (Inr result, core\<lparr>nc_pending := Some \<lparr>pf_engine_decision = d, pf_transactions = txs,
                           pf_executed = executed, pf_result = result\<rparr>\<rparr>)))))"

definition core_commit ::
  "sha256 \<Rightarrow> io_outcome \<Rightarrow> comet_core \<Rightarrow> (comet_abci_error + durable_block_receipt) \<times> comet_core" where
  "core_commit sha io core =
     (case ensure_initialized core of
        Inl e \<Rightarrow> (Inl e, core)
      | Inr _ \<Rightarrow>
          (case nc_pending core of
             None \<Rightarrow> (Inl AbMissingFinalizedBlock, core)
           | Some pending \<Rightarrow>
               (case commit_block sha io (nc_execution core) (pf_executed pending) of
                  (Inl e, pe) \<Rightarrow> (Inl (AbStorage e), core\<lparr>nc_execution := pe\<rparr>)
                | (Inr receipt, pe) \<Rightarrow>
                    (Inr receipt, core\<lparr>nc_execution := pe, nc_pending := None,
                       nc_mempool := mempool_reset (nc_mempool core) (pe_candidate_execution_state pe)\<rparr>))))"

subsection \<open>Facts about the handlers\<close>

lemma simulate_all_append:
  "simulate_all sha ctx cand (xs @ ys) =
     and_then (simulate_all sha ctx cand xs) (\<lambda>(rs, cand').
     and_then (simulate_all sha ctx cand' ys) (\<lambda>(rs', cand''). Inr (rs @ rs', cand'')))"
proof (induction xs arbitrary: cand)
  case Nil
  show ?case by (cases "simulate_all sha ctx cand ys") auto
next
  case (Cons x xs)
  then show ?case
    by (auto simp: and_then_def split: prod.splits sum.splits)
qed

lemma simulate_all_snoc:
  assumes "simulate_all sha ctx cand txs = Inr (rs, cand')" and "simulate_transaction sha ctx cand' tx = (Inr r, cand'')"
  shows "simulate_all sha ctx cand (txs @ [tx]) = Inr (rs @ [r], cand'')"
  using assms by (simp add: simulate_all_append)

lemma pe_simulate_Inr_iff:
  "pe_simulate_transaction sha pe cand tx = (Inr r, cand') \<longleftrightarrow>
   simulate_transaction sha (pe_context pe) cand tx = (Inr r, cand')"
  by (auto simp: pe_simulate_transaction_def split: prod.splits)

text \<open>The proposal loop keeps its selection executable, within the limits and in order.\<close>

lemma select_transactions_ok:
  fixes txs :: "bytes list"
  assumes "simulate_all sha (pe_context pe) c0 selected = Inr (rs, cand)"
    and "bytes_so_far = sum_list (map length selected)" "bytes_so_far \<le> byte_limit" "length selected \<le> record_limit"
  defines "out \<equiv> select_transactions sha pe byte_limit record_limit cand bytes_so_far selected txs"
  shows "(\<exists>rs' cand'. simulate_all sha (pe_context pe) c0 out = Inr (rs', cand')) \<and>
    sum_list (map length out) \<le> byte_limit \<and> length out \<le> record_limit \<and> (\<exists>ys. out = selected @ ys \<and> subseq ys txs)"
  using assms(1-4) unfolding out_def
proof (induction txs arbitrary: rs cand bytes_so_far selected)
  case (Cons tx txs)
  let ?sel = "select_transactions sha pe byte_limit record_limit"
  have skip: ?case if "?sel cand bytes_so_far selected (tx # txs) = ?sel cand bytes_so_far selected txs"
    using Cons.IH [OF Cons.prems] that by auto
  show ?case
  proof (cases "length selected = record_limit")
    case True
    then show ?thesis using Cons.prems by auto
  next
    case room: False
    show ?thesis
    proof (cases "checked_add_usize bytes_so_far (length tx)")
      case None
      then show ?thesis using room by (intro skip) simp
    next
      case (Some next_total)
      show ?thesis
      proof (cases "byte_limit < next_total")
        case True
        then show ?thesis using room Some by (intro skip) simp
      next
        case fits: False
        obtain res cand' where sim: "pe_simulate_transaction sha pe cand tx = (res, cand')" by (metis surj_pair)
        show ?thesis
        proof (cases res)
          case (Inl e)
          then show ?thesis using room Some fits sim by (intro skip) simp
        next
          case (Inr r)
          have "simulate_all sha (pe_context pe) c0 (selected @ [tx]) = Inr (rs @ [r], cand')"
            using Cons.prems(1) sim Inr by (intro simulate_all_snoc) (simp_all add: pe_simulate_Inr_iff)
          moreover have "next_total = sum_list (map length (selected @ [tx]))" "next_total \<le> byte_limit"
            "length (selected @ [tx]) \<le> record_limit"
            using Some fits Cons.prems(2,4) room by (auto simp: checked_add_usize_Some_iff)
          ultimately show ?thesis
            using Cons.IH [of "selected @ [tx]" "rs @ [r]" cand' next_total] room Some fits sim Inr
            by (auto intro!: subseq_Cons2)
        qed
      qed
    qed
  qed
qed auto

lemma ensure_next_engine_height_Inr_iff:
  "ensure_next_engine_height core h = Inr n \<longleftrightarrow>
   checked_add (ce_height (pe_committed (nc_execution core))) 1 = Some n \<and>
   engine_height_for (cg_identity (nc_identity core)) n = Inr h"
  by (auto simp: ensure_next_engine_height_def expected_next_noxis_height_def identity_engine_height_def
      and_then_eq_Inr split: if_splits)

lemma validate_for_Inr_iff:
  "validate_for d g n = Inr () \<longleftrightarrow>
   de_network_id d = cg_id g \<and> engine_height_for (cg_identity g) n = Inr (de_height d) \<and>
   de_next_validators_hash d = cs_hash (cg_validators g)"
  by (auto simp: validate_for_def and_then_eq_Inr split: if_splits)

definition next_proposal :: "committed_execution_state \<Rightarrow> comet_bft_decision \<Rightarrow> bytes list \<Rightarrow> block_proposal" where
  "next_proposal cs d txs =
     \<lparr>bp_height = ce_height cs + 1, bp_comet_decision = d, bp_transactions = txs\<rparr>"

lemma execute_for_engine_decision_Inr_iff:
  "execute_for_engine_decision sha core d txs = Inr x \<longleftrightarrow>
   ensure_next_engine_height core (de_height d) = Inr (ce_height (pe_committed (nc_execution core)) + 1) \<and>
   execute_block sha (pe_context (nc_execution core)) (pe_committed (nc_execution core))
     (next_proposal (pe_committed (nc_execution core)) d txs) = Inr x"
  by (auto simp: execute_for_engine_decision_def and_then_eq_Inr ensure_next_engine_height_Inr_iff pe_execute_def
      next_proposal_def checked_add_def split: if_splits)

text \<open>An execution at the tip has passed every check the handlers make before it.\<close>

lemma execute_next_checks:
  assumes "execute_block sha (pe_context (nc_execution core)) (pe_committed (nc_execution core))
      (next_proposal (pe_committed (nc_execution core)) d txs) = Inr x"
    and "nc_identity core = xc_comet_bft_genesis (pe_context (nc_execution core))"
  shows "execute_for_engine_decision sha core d txs = Inr x"
    and "expected_next_noxis_height core = Inr (ce_height (pe_committed (nc_execution core)) + 1)"
    and "validate_for d (nc_identity core) (ce_height (pe_committed (nc_execution core)) + 1) = Inr ()"
proof -
  let ?cs = "pe_committed (nc_execution core)"
  note f = execute_block_Inr(3,5) [OF assms(1)]
  have n: "checked_add (ce_height ?cs) 1 = Some (ce_height ?cs + 1)"
    using f(1) by (simp add: next_proposal_def checked_add_Some_iff)
  show v: "validate_for d (nc_identity core) (ce_height ?cs + 1) = Inr ()"
    using f(2) assms(2) by (simp add: next_proposal_def)
  show "expected_next_noxis_height core = Inr (ce_height ?cs + 1)"
    using n by (simp add: expected_next_noxis_height_def)
  show "execute_for_engine_decision sha core d txs = Inr x"
    using assms(1) n v
    by (simp add: execute_for_engine_decision_Inr_iff ensure_next_engine_height_Inr_iff validate_for_Inr_iff)
qed

subsection \<open>Lives of a core\<close>

text \<open>Every sequence of calls CometBFT can make on a core that was created over a durable coordinator.\<close>

inductive abci :: "sha256 \<Rightarrow> ledger_state \<Rightarrow> execution_context \<Rightarrow> comet_core \<Rightarrow> bool" for sha g ctx where
  abci_start: "durable sha g ctx pe \<Longrightarrow> try_new sha pe a = Inr core \<Longrightarrow> abci sha g ctx core"
| abci_init_chain: "abci sha g ctx core \<Longrightarrow> init_chain core request = (r, core') \<Longrightarrow> abci sha g ctx core'"
| abci_check_tx: "abci sha g ctx core \<Longrightarrow> check_tx sha core tx = (c, core') \<Longrightarrow> abci sha g ctx core'"
| abci_finalize: "abci sha g ctx core \<Longrightarrow> decision_ok d \<Longrightarrow> finalize_block sha core d txs = (f, core') \<Longrightarrow>
    abci sha g ctx core'"
| abci_commit: "abci sha g ctx core \<Longrightarrow> core_commit sha io core = (rc, core') \<Longrightarrow> abci sha g ctx core'"

definition finalize_result :: "executed_block \<Rightarrow> finalize_block_result" where
  "finalize_result x = \<lparr>fb_app_hash = xb_app_hash x, fb_transaction_results = map tx_result_of (xb_receipts x)\<rparr>"

definition mempool_ok :: "sha256 \<Rightarrow> execution_context \<Rightarrow> committed_execution_state \<Rightarrow> mempool_overlay \<Rightarrow> bool" where
  "mempool_ok sha ctx cs m =
     ((\<exists>rs. simulate_all sha ctx (from_committed cs) (mo_transactions m) = Inr (rs, mo_candidate m)) \<and>
      mo_total_bytes m = sum_list (map length (mo_transactions m)) \<and>
      mo_total_bytes m \<le> MAX_PENDING_TRANSACTION_BYTES \<and> length (mo_transactions m) \<le> MAX_PENDING_TRANSACTIONS)"

definition pending_ok :: "sha256 \<Rightarrow> execution_context \<Rightarrow> committed_execution_state \<Rightarrow> pending_finalization \<Rightarrow> bool" where
  "pending_ok sha ctx cs p =
     (execute_block sha ctx cs (next_proposal cs (pf_engine_decision p) (pf_transactions p)) = Inr (pf_executed p) \<and>
      decision_ok (pf_engine_decision p) \<and> pf_result p = finalize_result (pf_executed p))"

definition core_inv :: "sha256 \<Rightarrow> ledger_state \<Rightarrow> execution_context \<Rightarrow> comet_core \<Rightarrow> bool" where
  "core_inv sha g ctx core =
     (durable sha g ctx (nc_execution core) \<and> nc_identity core = xc_comet_bft_genesis ctx \<and>
      mempool_ok sha ctx (pe_committed (nc_execution core)) (nc_mempool core) \<and>
      (\<forall>p. nc_pending core = Some p \<longrightarrow> pending_ok sha ctx (pe_committed (nc_execution core)) p) \<and>
      (nc_pending core \<noteq> None \<longrightarrow> nc_lifecycle core = Running))"

lemma durable_context: "context_wf sha ctx \<Longrightarrow> durable sha g ctx pe \<Longrightarrow> pe_context pe = ctx"
  using durable_inv by (auto simp: pe_inv_def)

lemma commit_block_Inl_tip: "commit_block sha io pe b = (Inl e, pe') \<Longrightarrow> pe_committed pe' = pe_committed pe"
  by (auto simp: commit_block_def split: if_splits option.splits sum.splits prod.splits)

lemma mempool_ok_empty [simp]:
  "mempool_ok sha ctx (pe_committed pe) (MempoolOverlay_new (pe_candidate_execution_state pe))"
  "mempool_ok sha ctx (pe_committed pe) (mempool_reset m (pe_candidate_execution_state pe))"
  by (simp_all add: mempool_ok_def MempoolOverlay_new_def mempool_reset_def pe_candidate_execution_state_def)

lemma admit_ok:
  assumes "mempool_ok sha (pe_context pe) cs m" and "admit sha pe m tx = (r, m')"
  shows "mempool_ok sha (pe_context pe) cs m'"
proof (cases r)
  case Inl
  then have "m' = m" using assms(2) by (auto simp: admit_def split: if_splits option.splits prod.splits sum.splits)
  then show ?thesis using assms(1) by simp
next
  case (Inr u)
  from assms(1) obtain rs where rs: "simulate_all sha (pe_context pe) (from_committed cs) (mo_transactions m) =
      Inr (rs, mo_candidate m)" by (auto simp: mempool_ok_def)
  from assms(2) Inr obtain x where room: "length (mo_transactions m) \<noteq> MAX_PENDING_TRANSACTIONS"
    and bytes: "checked_add_usize (mo_total_bytes m) (length tx) = Some (mo_total_bytes m')"
      "mo_total_bytes m' \<le> MAX_PENDING_TRANSACTION_BYTES"
    and sim: "simulate_transaction sha (pe_context pe) (mo_candidate m) tx = (Inr x, mo_candidate m')"
    and m': "mo_transactions m' = mo_transactions m @ [tx]"
    by (auto simp: admit_def pe_simulate_Inr_iff split: if_splits option.splits prod.splits sum.splits)
  show ?thesis
    using assms(1) simulate_all_snoc [OF rs sim] room bytes m'
    by (auto simp: mempool_ok_def checked_add_usize_Some_iff)
qed

lemma finalize_new:
  assumes "finalize_block sha core d txs = (Inr result, core')" and "nc_pending core = None"
  obtains x where "execute_for_engine_decision sha core d txs = Inr x" and "result = finalize_result x"
    and "nc_lifecycle core = Running"
    and "core' = core\<lparr>nc_pending := Some \<lparr>pf_engine_decision = d, pf_transactions = txs, pf_executed = x,
      pf_result = finalize_result x\<rparr>\<rparr>"
  using assms
  by (auto simp: finalize_block_def ensure_initialized_def finalize_result_def Let_def and_then_eq_Inr
      split: if_splits sum.splits)

lemma finalize_keeps:
  assumes "finalize_block sha core d txs = (r, core')" and "r = Inl e \<or> nc_pending core \<noteq> None"
  shows "core' = core"
  using assms by (auto simp: finalize_block_def Let_def split: if_splits sum.splits option.splits)

lemma abci_inv:
  assumes "abci sha g ctx core" and ctx: "context_wf sha ctx"
  shows "core_inv sha g ctx core"
  using assms(1)
proof (induction rule: abci.induct)
  case (abci_start pe a core)
  then show ?case
    using durable_context [OF ctx abci_start(1)]
    by (auto simp: core_inv_def try_new_def and_then_eq_Inr)
next
  case (abci_init_chain core request r core')
  then show ?case by (auto simp: core_inv_def init_chain_def Let_def split: if_splits)
next
  case (abci_check_tx core tx c core')
  have "pe_context (nc_execution core) = ctx"
    using durable_context [OF ctx] abci_check_tx.IH unfolding core_inv_def by blast
  then show ?case
    using abci_check_tx.IH abci_check_tx.hyps(2)
      admit_ok [of sha "nc_execution core" "pe_committed (nc_execution core)" "nc_mempool core" tx]
    by (auto simp: core_inv_def check_tx_def split: if_splits prod.splits sum.splits)
next
  case (abci_finalize core d txs f core')
  have c: "pe_context (nc_execution core) = ctx"
    using durable_context [OF ctx] abci_finalize.IH unfolding core_inv_def by blast
  show ?case
  proof (cases "(\<exists>e. f = Inl e) \<or> nc_pending core \<noteq> None")
    case True
    then have "core' = core" using finalize_keeps [OF abci_finalize.hyps(3)] by blast
    then show ?thesis using abci_finalize.IH by simp
  next
    case False
    then obtain result where "finalize_block sha core d txs = (Inr result, core')" "nc_pending core = None"
      using abci_finalize.hyps(3) by (cases f) auto
    then obtain x where "execute_for_engine_decision sha core d txs = Inr x" "nc_lifecycle core = Running"
      "core' = core\<lparr>nc_pending := Some \<lparr>pf_engine_decision = d, pf_transactions = txs, pf_executed = x,
        pf_result = finalize_result x\<rparr>\<rparr>" by (rule finalize_new)
    then show ?thesis
      using abci_finalize.IH abci_finalize.hyps(2) c
      by (auto simp: core_inv_def pending_ok_def execute_for_engine_decision_Inr_iff)
  qed
next
  case (abci_commit core io rc core')
  show ?case
  proof (cases "nc_lifecycle core = Running \<and> nc_pending core \<noteq> None")
    case False
    then have "core' = core"
      using abci_commit.hyps(2)
      by (auto simp: core_commit_def ensure_initialized_def split: if_splits option.splits)
    then show ?thesis using abci_commit.IH by simp
  next
    case True
    then obtain p where p: "nc_pending core = Some p" by auto
    with abci_commit.IH have ok: "pending_ok sha ctx (pe_committed (nc_execution core)) p"
      by (simp add: core_inv_def)
    then have "decision_ok (xb_comet_decision (pf_executed p))"
      using execute_block_Inr(14) by (fastforce simp: pending_ok_def next_proposal_def)
    then have dur: "durable sha g ctx (snd (commit_block sha io (nc_execution core) (pf_executed p)))"
      using abci_commit.IH durable_commit [of sha g ctx "nc_execution core"] unfolding core_inv_def
      by (metis prod.collapse)
    show ?thesis
      using abci_commit.hyps(2) abci_commit.IH p True dur ok commit_block_Inl_tip [of sha io "nc_execution core" "pf_executed p"]
      by (auto simp: core_commit_def ensure_initialized_def core_inv_def split: prod.splits sum.splits)
  qed
qed

lemma core_inv_committed:
  assumes "context_wf sha ctx" and "ledger_inv g" and "core_inv sha g ctx core"
  shows "committed_inv sha ctx (pe_committed (nc_execution core))" and "pe_context (nc_execution core) = ctx"
  using assms durable_inv [of sha g ctx "nc_execution core"] pe_inv_committed [OF assms(2)]
  by (auto simp: core_inv_def pe_inv_def)

subsection \<open>A concrete core\<close>

definition sample_core :: comet_core where
  "sample_core = \<lparr>nc_identity = sample_genesis, nc_execution = sample_pe,
     nc_mempool = MempoolOverlay_new (pe_candidate_execution_state sample_pe), nc_pending = None,
     nc_lifecycle = Running\<rparr>"

text \<open>The InitChain request that matches a genesis, and the start of a core as the engine performs it.\<close>

definition genesis_request :: "comet_identity \<Rightarrow> init_chain_request" where
  "genesis_request g = \<lparr>ir_chain_id = ni_chain_id (cg_identity g), ir_initial_height = ni_initial_height (cg_identity g),
     ir_parameters_sha256 = ni_parameters_sha256 (cg_identity g), ir_validators = cs_validators (cg_validators g)\<rparr>"

definition boot :: "sha256 \<Rightarrow> persistent_execution \<Rightarrow> settlement_service_authorization \<Rightarrow> comet_abci_error + comet_core" where
  "boot sha pe a =
     and_then (try_new sha pe a) (\<lambda>core.
     if nc_lifecycle core = Running then Inr core
     else case init_chain core (genesis_request (nc_identity core)) of (r, core') \<Rightarrow> and_then r (\<lambda>_. Inr core'))"

definition core_at :: "persistent_execution \<Rightarrow> comet_core" where
  "core_at pe = \<lparr>nc_identity = xc_comet_bft_genesis (pe_context pe), nc_execution = pe,
     nc_mempool = MempoolOverlay_new (pe_candidate_execution_state pe), nc_pending = None, nc_lifecycle = Running\<rparr>"

lemma boot_eq:
  "boot sha pe a = and_then (map_err AbCryptoEligibility
     (ensure_matches sha a (xc_validation_context (pe_context pe)))) (\<lambda>_. Inr (core_at pe))"
  by (cases "ensure_matches sha a (xc_validation_context (pe_context pe))")
    (simp_all add: boot_def try_new_def init_chain_def genesis_request_def core_at_def)

lemma boot_abci: "durable sha g ctx pe \<Longrightarrow> boot sha pe a = Inr core \<Longrightarrow> abci sha g ctx core"
  by (auto simp: boot_def and_then_eq_Inr split: if_splits prod.splits dest: abci_start abci_init_chain)

lemma sample_boot: "boot (\<lambda>_. 0) sample_pe \<lparr>ssa_validation_context_id = 0\<rparr> = Inr sample_core"
  by (simp add: boot_eq ensure_matches_def context_id_def core_at_def sample_core_def)
    (simp add: sample_context_def)

lemma sample_core_abci: "abci (\<lambda>_. 0) sample_state sample_context sample_core"
  by (rule boot_abci [OF sample_pe_durable sample_boot])

lemma sample_core_simps [simp]: "nc_identity sample_core = sample_genesis" "nc_execution sample_core = sample_pe"
  "nc_lifecycle sample_core = Running" "nc_pending sample_core = None"
  by (simp_all add: sample_core_def)

abbreviation sample_engine_decision :: comet_bft_decision where
  "sample_engine_decision \<equiv> bp_comet_decision (sample_proposal 1)"

lemma sample_next_proposal:
  "next_proposal sample_committed sample_engine_decision (bp_transactions (sample_proposal 1)) = sample_proposal 1"
  by (simp add: next_proposal_def sample_proposal_def sample_committed_def)

lemma finalized_pending:
  assumes "context_wf sha ctx" and "abci sha g ctx core" and "decision_ok d"
    and "finalize_block sha core d txs = (Inr result, core1)"
  obtains x where "pe_context (nc_execution core) = ctx" and "nc_identity core = xc_comet_bft_genesis ctx"
    and "execute_block sha ctx (pe_committed (nc_execution core)) (next_proposal (pe_committed (nc_execution core)) d txs) = Inr x"
    and "result = finalize_result x" and "nc_execution core1 = nc_execution core" and "nc_identity core1 = nc_identity core"
    and "nc_lifecycle core1 = Running"
    and "nc_pending core1 = Some \<lparr>pf_engine_decision = d, pf_transactions = txs, pf_executed = x, pf_result = result\<rparr>"
    and "engine_height_for (cg_identity (xc_comet_bft_genesis ctx)) (ce_height (pe_committed (nc_execution core)) + 1) =
      Inr (de_height d)"
    and "ce_height (pe_committed (nc_execution core)) + 1 \<noteq> 0"
    and "bh_height (hd_input (xb_header x)) = ce_height (pe_committed (nc_execution core)) + 1"
proof -
  let ?cs = "pe_committed (nc_execution core)"
  have inv1: "core_inv sha g ctx core1"
    by (rule abci_inv [OF abci_finalize [OF assms(2-4)] assms(1)])
  have c: "pe_context (nc_execution core) = ctx" "nc_identity core = xc_comet_bft_genesis ctx"
    using abci_inv [OF assms(2,1)] durable_context [OF assms(1)] by (auto simp: core_inv_def)
  have same: "nc_execution core1 = nc_execution core" "nc_identity core1 = nc_identity core" "nc_lifecycle core1 = Running"
    and pend: "\<exists>p. nc_pending core1 = Some p \<and> pf_engine_decision p = d \<and> pf_transactions p = txs \<and> pf_result p = result"
    using assms(4)
    by (auto simp: finalize_block_def ensure_initialized_def Let_def split: if_splits sum.splits option.splits)
  then obtain x where p: "nc_pending core1 =
      Some \<lparr>pf_engine_decision = d, pf_transactions = txs, pf_executed = x, pf_result = result\<rparr>"
    by (metis (full_types) pending_finalization.surjective old.unit.exhaust)
  have ok: "execute_block sha ctx ?cs (next_proposal ?cs d txs) = Inr x" "result = finalize_result x"
    using inv1 p same by (auto simp: core_inv_def pending_ok_def)
  note f = execute_block_Inr(3,4,5) [OF ok(1)]
  show ?thesis
    by (rule that [OF c ok same p])
      (use f in \<open>auto simp: next_proposal_def validate_for_Inr_iff\<close>)
qed

subsection \<open>Properties\<close>

text \<open>C7: What an honest proposer prepares, every node accepts. In every reachable core, the transactions
  that PrepareProposal selects are a subsequence of those offered, within the engine's byte limit, and
  ProcessProposal accepts them at every running core whose durable tip is the same, for every block hash
  the engine may decide.\<close>

theorem prepared_proposal_is_accepted:
  assumes "context_wf sha ctx" and "ledger_inv g" and "abci sha g ctx core" and "abci sha g ctx core'"
    and "pe_committed (nc_execution core') = pe_committed (nc_execution core)" and "nc_lifecycle core' = Running"
    and prep: "prepare_proposal sha core (de_height d) limit (de_next_validators_hash d) txs = Inr selected"
    and "de_network_id d = cg_id (xc_comet_bft_genesis ctx)"
  shows "process_proposal sha core' d selected = Inr Accept \<and> subseq selected txs \<and>
    int (sum_list (map length selected)) \<le> sint limit"
proof -
  let ?cs = "pe_committed (nc_execution core)" and ?config = "xc_consensus_config ctx"
  note inv = abci_inv [OF assms(3,1)] and inv' = abci_inv [OF assms(4,1)]
  note cs = core_inv_committed [OF assms(1,2) inv] and cs' = core_inv_committed [OF assms(1,2) inv']
  have id: "nc_identity core = xc_comet_bft_genesis ctx" "nc_identity core' = xc_comet_bft_genesis ctx"
    using inv inv' by (simp_all add: core_inv_def)
  let ?limit = "min (nat (sint limit)) (unat (cc_maximum_block_transaction_bytes ?config))"
  have sel: "selected = select_transactions sha (nc_execution core) ?limit (unat (cc_maximum_block_records ?config))
      (from_committed ?cs) 0 [] txs"
    and h: "checked_add (ce_height ?cs) 1 = Some (ce_height ?cs + 1)"
      "engine_height_for (cg_identity (xc_comet_bft_genesis ctx)) (ce_height ?cs + 1) = Inr (de_height d)"
    and nv: "de_next_validators_hash d = cs_hash (cg_validators (xc_comet_bft_genesis ctx))" "0 \<le> sint limit"
    using prep cs(2) id
    by (auto simp: prepare_proposal_def and_then_eq_Inr ensure_next_engine_height_Inr_iff Let_def
        pe_candidate_execution_state_def checked_add_def split: if_splits)
  have "(\<exists>rs cand. simulate_all sha ctx (from_committed ?cs) selected = Inr (rs, cand)) \<and>
      sum_list (map length selected) \<le> ?limit \<and> length selected \<le> unat (cc_maximum_block_records ?config) \<and>
      subseq selected txs"
    using select_transactions_ok [of sha "nc_execution core" "from_committed ?cs" "[]" "[]" "from_committed ?cs" 0
        ?limit "unat (cc_maximum_block_records ?config)" txs] cs(2) sel
    by (simp del: min.bounded_iff)
  then obtain rs cand where ok: "simulate_all sha ctx (from_committed ?cs) selected = Inr (rs, cand)"
    "sum_list (map length selected) \<le> ?limit" "length selected \<le> unat (cc_maximum_block_records ?config)"
    "subseq selected txs" by blast
  have valid: "validate_for d (xc_comet_bft_genesis ctx) (ce_height ?cs + 1) = Inr ()"
    using assms(8) h(2) nv(1) by (simp add: validate_for_Inr_iff)
  have "proposal_ok ctx ?cs (next_proposal ?cs d selected)"
    using ok h(1) valid by (simp add: proposal_ok_def next_proposal_def checked_add_Some_iff)
  then obtain x where "execute_block sha ctx ?cs (next_proposal ?cs d selected) = Inr x"
    using execute_block_iff_simulation [OF assms(1) cs(1), of "next_proposal ?cs d selected" rs] ok(1)
    by (auto simp: next_proposal_def)
  then have "process_proposal sha core' d selected = Inr Accept"
    using execute_next_checks [of sha core' d selected x] cs'(2) assms(5,6) id(2)
    by (simp add: process_proposal_def ensure_initialized_def)
  with ok(2,4) nv(2) show ?thesis by (simp add: le_nat_iff)
qed

lemma sample_prepare:
  "\<exists>selected. prepare_proposal (\<lambda>_. 0) sample_core 5 100000 9 [transaction_bytes sample_mint] = Inr selected"
  using engine_height_iff [of sample_identity 1 5]
  by (simp add: prepare_proposal_def ensure_initialized_def and_then_eq_Inr ensure_next_engine_height_Inr_iff
      sample_committed_def checked_add_def sample_genesis_def sample_identity_def Let_def)

theorem prepared_proposal_is_accepted_witness:
  "\<exists>selected. process_proposal (\<lambda>_. 0) sample_core sample_engine_decision selected = Inr Accept \<and>
     subseq selected [transaction_bytes sample_mint]"
proof -
  have d: "de_height sample_engine_decision = 5" "de_next_validators_hash sample_engine_decision = 9"
    "de_network_id sample_engine_decision = cg_id (xc_comet_bft_genesis sample_context)"
    by (simp_all add: sample_proposal_def sample_context_def sample_genesis_def)
  obtain selected where "prepare_proposal (\<lambda>_. 0) sample_core 5 100000 9 [transaction_bytes sample_mint] = Inr selected"
    using sample_prepare by blast
  then have "prepare_proposal (\<lambda>_. 0) sample_core (de_height sample_engine_decision) 100000
      (de_next_validators_hash sample_engine_decision) [transaction_bytes sample_mint] = Inr selected"
    using d by simp
  from prepared_proposal_is_accepted [OF sample_context_wf sample_state_inv sample_core_abci sample_core_abci _ _ this d(3)]
  show ?thesis by auto
qed

text \<open>C16: What FinalizeBlock reports is what Commit makes durable. In every reachable core with a writable
  journal, after a FinalizeBlock that succeeded, repeating the call gives the same result, any other
  decision or transaction list is refused, and a commit the operating system carries out succeeds: Info
  then reports the decided engine height and the application hash that FinalizeBlock returned, and the
  mempool overlay is empty at the new tip.\<close>

theorem finalized_block_becomes_durable:
  assumes "context_wf sha ctx" and "abci sha g ctx core" and "decision_ok d"
    and "finalize_block sha core d txs = (Inr result, core1)" and "pe_writes_available (nc_execution core)"
  shows "finalize_block sha core1 d' txs' =
      (if d' = d \<and> txs' = txs then Inr result else Inl (AbFinalizeConflict (de_height d')), core1) \<and>
    (\<exists>receipt core2. core_commit sha Synced core1 = (Inr receipt, core2) \<and>
      dr_app_hash receipt = fb_app_hash result \<and> dr_height receipt = ce_height (pe_committed (nc_execution core)) + 1 \<and>
      info core2 = Inr \<lparr>ai_last_block_height = de_height d, ai_app_hash = Some (fb_app_hash result)\<rparr> \<and>
      nc_pending core2 = None \<and> mo_transactions (nc_mempool core2) = [])"
proof -
  let ?pe = "nc_execution core"
  obtain x where x: "pe_context ?pe = ctx" "nc_identity core = xc_comet_bft_genesis ctx"
    "execute_block sha ctx (pe_committed ?pe) (next_proposal (pe_committed ?pe) d txs) = Inr x" "result = finalize_result x"
    "nc_execution core1 = ?pe" "nc_identity core1 = nc_identity core" "nc_lifecycle core1 = Running"
    "nc_pending core1 = Some \<lparr>pf_engine_decision = d, pf_transactions = txs, pf_executed = x, pf_result = result\<rparr>"
    "engine_height_for (cg_identity (xc_comet_bft_genesis ctx)) (ce_height (pe_committed ?pe) + 1) = Inr (de_height d)"
    "ce_height (pe_committed ?pe) + 1 \<noteq> 0" "bh_height (hd_input (xb_header x)) = ce_height (pe_committed ?pe) + 1"
    by (rule finalized_pending [OF assms(1-4)])
  have "commit_block sha Synced ?pe x = (Inr (receipt_at (length (pe_journal ?pe)) x), pe_append ?pe x)"
    using commit_executed(1) [of sha ?pe "next_proposal (pe_committed ?pe) d txs"] assms(1,3,5) x(1,3)
    by (simp add: next_proposal_def)
  then show ?thesis
    using x
    by (auto simp: finalize_block_def core_commit_def ensure_initialized_def info_def receipt_at_def finalize_result_def
        pe_append_def identity_engine_height_def mempool_reset_def)
qed

lemma sample_finalize:
  obtains result core1 where "finalize_block (\<lambda>_. 0) sample_core sample_engine_decision (bp_transactions (sample_proposal 1)) =
    (Inr result, core1)"
proof -
  obtain x where "execute_block (\<lambda>_. 0) sample_context sample_committed (sample_proposal 1) = Inr x"
    by (rule sample_block)
  then have "execute_block (\<lambda>_. 0) (pe_context (nc_execution sample_core)) (pe_committed (nc_execution sample_core))
      (next_proposal (pe_committed (nc_execution sample_core)) sample_engine_decision (bp_transactions (sample_proposal 1))) = Inr x"
    by (simp add: sample_next_proposal)
  from execute_next_checks [OF this] show ?thesis
    using that by (simp add: finalize_block_def ensure_initialized_def Let_def sample_context_def)
qed

theorem finalized_block_becomes_durable_witness:
  "\<exists>result core1 receipt core2.
     finalize_block (\<lambda>_. 0) sample_core sample_engine_decision (bp_transactions (sample_proposal 1)) = (Inr result, core1) \<and>
     core_commit (\<lambda>_. 0) Synced core1 = (Inr receipt, core2) \<and>
     info core2 = Inr \<lparr>ai_last_block_height = 5, ai_app_hash = Some (fb_app_hash result)\<rparr>"
proof -
  obtain result core1 where f: "finalize_block (\<lambda>_. 0) sample_core sample_engine_decision
      (bp_transactions (sample_proposal 1)) = (Inr result, core1)" by (rule sample_finalize)
  have "de_height sample_engine_decision = 5" by (simp add: sample_proposal_def)
  with finalized_block_becomes_durable [OF sample_context_wf sample_core_abci sample_decision_ok f,
      of sample_engine_decision "[]"] f
  show ?thesis by auto
qed

text \<open>C1: A crash while a block is committed costs nothing. When the append of a finalized block stops after
  any number of bytes, opening the journal again and starting a new core succeeds, and the new core either
  already reports the decided height with the application hash FinalizeBlock had returned, or it is at the
  old tip and finalizing the same decision and transactions again gives the same result.\<close>

theorem crash_during_commit_is_recoverable:
  assumes "context_wf sha ctx" and "abci sha g ctx core" and "decision_ok d"
    and "finalize_block sha core d txs = (Inr result, core1)" and "pe_writes_available (nc_execution core)"
    and "ensure_matches sha a (xc_validation_context ctx) = Inr ()"
    and "core_commit sha (Torn k) core1 = (r, core2)" and "length (pe_journal (nc_execution core2)) < 2 ^ 64"
  shows "\<exists>pe f core3. PersistentExecution_open sha (pe_journal (nc_execution core2)) g ctx = (Inr pe, f) \<and>
    boot sha pe a = Inr core3 \<and>
    (info core3 = Inr \<lparr>ai_last_block_height = de_height d, ai_app_hash = Some (fb_app_hash result)\<rparr> \<or>
     info core3 = info core \<and> fst (finalize_block sha core3 d txs) = Inr result)"
proof -
  let ?pe = "nc_execution core"
  obtain x where x: "pe_context ?pe = ctx" "nc_identity core = xc_comet_bft_genesis ctx"
    "execute_block sha ctx (pe_committed ?pe) (next_proposal (pe_committed ?pe) d txs) = Inr x" "result = finalize_result x"
    "nc_execution core1 = ?pe" "nc_lifecycle core1 = Running"
    "nc_pending core1 = Some \<lparr>pf_engine_decision = d, pf_transactions = txs, pf_executed = x, pf_result = result\<rparr>"
    "engine_height_for (cg_identity (xc_comet_bft_genesis ctx)) (ce_height (pe_committed ?pe) + 1) = Inr (de_height d)"
    "ce_height (pe_committed ?pe) + 1 \<noteq> 0" "bh_height (hd_input (xb_header x)) = ce_height (pe_committed ?pe) + 1"
    by (rule finalized_pending [OF assms(1-4)])
  have dec: "decision_ok (bp_comet_decision (next_proposal (pe_committed ?pe) d txs))"
    using assms(3) by (simp add: next_proposal_def)
  have "\<exists>e. commit_block sha (Torn k) ?pe x = (Inl (PeJournal e),
      ?pe\<lparr>pe_journal := pe_journal ?pe @ take k (frame_bytes (stored_of x)), pe_writes_available := False\<rparr>)"
    using commit_executed(2) [of sha ?pe, OF _ _ _ dec] assms(1,5) x(1,3) by simp
  then have journal: "pe_journal (nc_execution core2) = pe_journal ?pe @ take k (frame_bytes (stored_of x))"
    using assms(7) x(5-7) by (auto simp: core_commit_def ensure_initialized_def)
  have "durable sha g ctx ?pe" using abci_inv [OF assms(2,1)] by (simp add: core_inv_def)
  from durable_inv [OF this assms(1)] obtain bs where bs: "\<forall>b \<in> set bs. storable sha b" "located 0 bs = bs"
    "replayed sha g ctx bs (pe_committed ?pe, pe_app_hash ?pe, pe_tip_offset ?pe)" "pe_journal ?pe = file_of bs"
    using assms(5) by (auto simp: pe_inv_def pe_tip_def)
  from reopen_tail [OF bs(1-3) executed_block_storable [OF assms(1) x(3) dec] reexecute_executed [OF x(3)], of k]
  obtain pe f where pe: "PersistentExecution_open sha (pe_journal (nc_execution core2)) g ctx = (Inr pe, f)"
    "pe_context pe = ctx"
    "pe_tip pe = (pe_committed ?pe, pe_app_hash ?pe, pe_tip_offset ?pe) \<or>
     pe_tip pe = (into_committed_state x, Some (xb_app_hash x), Some (length (file_of bs)))"
    using journal bs(4) assms(8) by auto
  have boot: "boot sha pe a = Inr (core_at pe)" using pe(2) assms(6) by (simp add: boot_eq)
  from pe(3) show ?thesis
  proof
    assume tip: "pe_tip pe = (pe_committed ?pe, pe_app_hash ?pe, pe_tip_offset ?pe)"
    then have "fst (finalize_block sha (core_at pe) d txs) = Inr result"
      using execute_next_checks [of sha "core_at pe" d txs x] x(3,4) pe(2)
      by (simp add: finalize_block_def ensure_initialized_def core_at_def pe_tip_def finalize_result_def Let_def)
    moreover have "info (core_at pe) = info core"
      using tip x(1,2) pe(2) by (simp add: info_def core_at_def pe_tip_def Let_def)
    ultimately show ?thesis using pe(1) boot by blast
  next
    assume "pe_tip pe = (into_committed_state x, Some (xb_app_hash x), Some (length (file_of bs)))"
    then have "info (core_at pe) = Inr \<lparr>ai_last_block_height = de_height d, ai_app_hash = Some (fb_app_hash result)\<rparr>"
      using x(4,8-10) pe(2)
      by (simp add: info_def core_at_def pe_tip_def identity_engine_height_def finalize_result_def Let_def)
    then show ?thesis using pe(1) boot by blast
  qed
qed

theorem crash_during_commit_is_recoverable_witness:
  "\<exists>result core1 r core2 pe f core3.
     finalize_block (\<lambda>_. 0) sample_core sample_engine_decision (bp_transactions (sample_proposal 1)) = (Inr result, core1) \<and>
     core_commit (\<lambda>_. 0) (Torn 11) core1 = (r, core2) \<and>
     PersistentExecution_open (\<lambda>_. 0) (pe_journal (nc_execution core2)) sample_state sample_context = (Inr pe, f) \<and>
     boot (\<lambda>_. 0) pe \<lparr>ssa_validation_context_id = 0\<rparr> = Inr core3"
proof -
  obtain result core1 where f: "finalize_block (\<lambda>_. 0) sample_core sample_engine_decision
      (bp_transactions (sample_proposal 1)) = (Inr result, core1)" by (rule sample_finalize)
  obtain r core2 where c: "core_commit (\<lambda>_. 0) (Torn 11) core1 = (r, core2)" by (metis surj_pair)
  obtain x where x: "nc_execution core1 = sample_pe" "nc_lifecycle core1 = Running"
    "execute_block (\<lambda>_. 0) sample_context sample_committed (sample_proposal 1) = Inr x"
    "nc_pending core1 = Some \<lparr>pf_engine_decision = sample_engine_decision,
       pf_transactions = bp_transactions (sample_proposal 1), pf_executed = x, pf_result = result\<rparr>"
    using finalized_pending [OF sample_context_wf sample_core_abci sample_decision_ok f]
    by (metis sample_core_simps(2) sample_next_proposal sample_pe_simps(2))
  have "length (pe_journal (nc_execution core2)) \<le> 11"
    using c x commit_executed(2) [of "\<lambda>_. 0" sample_pe, OF _ _ _ sample_decision_ok, of x 11] sample_context_wf
    by (auto simp: core_commit_def ensure_initialized_def)
  then have "length (pe_journal (nc_execution core2)) < 2 ^ 64" by simp
  moreover have "ensure_matches (\<lambda>_. 0) \<lparr>ssa_validation_context_id = 0\<rparr> (xc_validation_context sample_context) = Inr ()"
    by (simp add: ensure_matches_def context_id_def)
  ultimately show ?thesis
    using crash_during_commit_is_recoverable [OF sample_context_wf sample_core_abci sample_decision_ok f _ _ c,
        of "\<lparr>ssa_validation_context_id = 0\<rparr>"] f c by auto
qed

text \<open>C29: The core's volatile state is always consistent with its durable tip. In every reachable core the
  transactions in the mempool overlay execute in order from the durable tip to the overlay's candidate
  state, within the count and byte limits, and a pending block is exactly what executing its decision and
  transactions at the durable tip gives.\<close>

theorem volatile_state_follows_the_tip:
  assumes "context_wf sha ctx" and "abci sha g ctx core"
  shows "(\<exists>receipts. simulate_all sha ctx (from_committed (pe_committed (nc_execution core)))
      (mo_transactions (nc_mempool core)) = Inr (receipts, mo_candidate (nc_mempool core))) \<and>
    sum_list (map length (mo_transactions (nc_mempool core))) \<le> 67108864 \<and>
    length (mo_transactions (nc_mempool core)) \<le> 10000 \<and>
    (\<forall>p. nc_pending core = Some p \<longrightarrow>
      execute_block sha ctx (pe_committed (nc_execution core))
        (next_proposal (pe_committed (nc_execution core)) (pf_engine_decision p) (pf_transactions p)) = Inr (pf_executed p))"
  using abci_inv [OF assms(2,1)]
  by (auto simp: core_inv_def mempool_ok_def pending_ok_def MAX_PENDING_TRANSACTIONS_def
      MAX_PENDING_TRANSACTION_BYTES_def)

lemma sample_check_tx:
  "check_tx (\<lambda>_. 0) sample_core (transaction_bytes sample_mint) = (\<lparr>ct_accepted = True, ct_code = 0\<rparr>,
     sample_core\<lparr>nc_mempool := \<lparr>mo_candidate = \<lparr>cd_ledger_state = sample_minted,
         cd_record_chain = \<lparr>rc_next_sequence = 2, rc_current_state_id = 0\<rparr>\<rparr>,
       mo_transactions = [transaction_bytes sample_mint], mo_total_bytes = length (transaction_bytes sample_mint)\<rparr>\<rparr>)"
proof -
  have len: "length (transaction_bytes sample_mint) \<le> 1000"
    by (simp add: transaction_bytes_def sample_mint_def operation_bytes_def mint_bytes_def identifiers_bytes_def
        opaque_bytes_def TRANSACTION_MAGIC_def ascii_def)
  have sim: "pe_simulate_transaction (\<lambda>_. 0) sample_pe (from_committed sample_committed) (transaction_bytes sample_mint) =
     (Inr (receipt_of sample_block_record), \<lparr>cd_ledger_state = sample_minted,
        cd_record_chain = \<lparr>rc_next_sequence = 2, rc_current_state_id = 0\<rparr>\<rparr>)"
    by (simp add: pe_simulate_Inr_iff simulate_transaction_def from_committed_def sample_committed_def sample_apply)
  have add: "checked_add_usize 0 (length (transaction_bytes sample_mint)) = Some (length (transaction_bytes sample_mint))"
    using len by (simp add: checked_add_usize_Some_iff)
  have "nc_mempool sample_core = \<lparr>mo_candidate = from_committed sample_committed, mo_transactions = [], mo_total_bytes = 0\<rparr>"
    by (simp add: sample_core_def MempoolOverlay_new_def pe_candidate_execution_state_def)
  then show ?thesis
    using len sim add
    by (simp add: check_tx_def admit_def MAX_PENDING_TRANSACTIONS_def MAX_PENDING_TRANSACTION_BYTES_def)
qed

theorem volatile_state_follows_the_tip_witness:
  "\<exists>core. check_tx (\<lambda>_. 0) sample_core (transaction_bytes sample_mint) = (\<lparr>ct_accepted = True, ct_code = 0\<rparr>, core) \<and>
     (\<exists>receipts. simulate_all (\<lambda>_. 0) sample_context (from_committed sample_committed)
       [transaction_bytes sample_mint] = Inr (receipts, mo_candidate (nc_mempool core)))"
  using volatile_state_follows_the_tip [OF sample_context_wf abci_check_tx [OF sample_core_abci sample_check_tx]]
  by (simp add: sample_check_tx)

text \<open>
  The two height mappings are inverse to each other from the initial height on. Below it the reverse
  mapping does not report a height before genesis: one below the initial height it returns 0.
\<close>

lemma noxis_height_Inr_iff:
  assumes "0 < sint (ni_initial_height (cg_identity g))"
  shows "noxis_height g e = Inr n \<longleftrightarrow> 0 \<le> sint n \<and> sint n = sint e - sint (ni_initial_height (cg_identity g)) + 1"
proof -
  let ?i = "ni_initial_height (cg_identity g)"
  have "\<exists>r. checked_sub_i64 e ?i = Some r" if "0 \<le> sint n" "sint n = sint e - sint ?i + 1"
    using that sint_range [of n] by (simp add: checked_sub_i64_def)
  then show ?thesis
    by (auto simp: noxis_height_def and_then_eq_Inr checked_sub_i64_Some_iff checked_add_i64_Some_iff split: if_splits)
      metis
qed

lemma noxis_height_inverts:
  assumes "identity_wf (cg_identity g)"
  shows "identity_engine_height g n = Inr e \<longleftrightarrow> n \<noteq> 0 \<and> noxis_height g e = Inr n"
proof -
  let ?i = "ni_initial_height (cg_identity g)"
  have init: "0 < sint ?i" using assms by (simp add: identity_wf_iff)
  have nonneg: "sint n = int (unat n)" if "0 \<le> sint n"
    using that sint_range [of n] by (simp add: uint_sint [of n] take_bit_int_eq_self)
  have small: "sint n = int (unat n)" if "sint e = sint ?i + int (unat n) - 1"
  proof (rule sint_small)
    have "int (unat n) < int (2 ^ 63)" using that init sint_range [of e] by simp
    then show "unat n < 2 ^ 63" by (simp only: of_nat_less_iff)
  qed
  show ?thesis
    using nonneg small
    by (auto simp: identity_engine_height_def engine_height_iff [OF init] noxis_height_Inr_iff [OF init])
qed

lemma noxis_height_before_genesis:
  assumes "identity_wf (cg_identity g)" and "sint e = sint (ni_initial_height (cg_identity g)) - 1"
  shows "noxis_height g e = Inr 0"
  using assms by (simp add: noxis_height_Inr_iff identity_wf_iff)

end
