(* ===== verification/Record_Log.thy ===== *)
theory Record_Log
  imports Record_Chain Frame_Log
begin

text \<open>
  The two older append-only logs of \<^verbatim>\<open>crates/noxis-storage\<close>: the state-record log of \<^verbatim>\<open>record_log.rs\<close>,
  which the durable ledger writes, and the transaction-only log of \<^verbatim>\<open>lib.rs\<close>. A log is the content of its
  file; an operation that writes takes the I/O outcome and returns the new content with its result. Both are
  instances of the framed logs, so scans, crash recovery and exactness are those of the shared locale.
\<close>

subsection \<open>The state-record log\<close>

definition RECORD_FRAME_MAGIC :: bytes where "RECORD_FRAME_MAGIC = ascii ''NXRF''"
definition RECORD_FRAME_VERSION :: u16 where "RECORD_FRAME_VERSION = 1"
definition MAX_RECORD_FRAME_PAYLOAD_LENGTH :: u32 where
  "MAX_RECORD_FRAME_PAYLOAD_LENGTH = MAX_RECORD_TRANSACTION_BYTES + 146"

record stored_record =
  sr_offset :: nat
  sr_record :: transaction_record

datatype record_log_error =
  RlIo string
| RlInvalidMagic nat
| RlLegacyTransactionLog nat
| RlUnsupportedFrameVersion nat u16
| RlFrameTooLarge nat u32 u32
| RlTruncatedFrame nat string
| RlChecksumMismatch nat u32 u32
| RlRecord nat record_error
| RlOffsetOverflow
| RlRecoveryTailChanged

definition record_format :: "record_log_error frame_format" where
  "record_format =
     \<lparr>ff_magic = RECORD_FRAME_MAGIC, ff_version = RECORD_FRAME_VERSION,
      ff_maximum = MAX_RECORD_FRAME_PAYLOAD_LENGTH,
      fe_magic = (\<lambda>offset magic.
        if magic = ascii ''NXLG'' then RlLegacyTransactionLog offset else RlInvalidMagic offset),
      fe_version = RlUnsupportedFrameVersion, fe_too_large = RlFrameTooLarge,
      fe_checksum = RlChecksumMismatch, fe_overflow = RlOffsetOverflow\<rparr>"

definition decode_stored_record :: "sha256 \<Rightarrow> nat \<Rightarrow> bytes \<Rightarrow> record_log_error + stored_record" where
  "decode_stored_record sha offset payload =
     and_then (map_err (RlRecord offset) (decode_record sha payload)) (\<lambda>r.
     Inr \<lparr>sr_offset = offset, sr_record = r\<rparr>)"

definition append_record ::
  "sha256 \<Rightarrow> io_outcome \<Rightarrow> bytes \<Rightarrow> transaction_record \<Rightarrow> (record_log_error + nat) \<times> bytes" where
  "append_record sha io content r =
     (let payload = encode_record r in
      case and_then (map_err (RlRecord 0) (decode_record sha payload)) (\<lambda>_. encode_frame record_format payload) of
        Inl e \<Rightarrow> (Inl e, content)
      | Inr frame \<Rightarrow>
          append_frame io (\<lambda>writing. RlIo (if writing then ''append state-record frame''
            else ''sync state-record frame'')) content frame)"

definition record_scan_recoverable_tail ::
  "sha256 \<Rightarrow> bytes \<Rightarrow> record_log_error + stored_record list \<times> incomplete_tail option" where
  "record_scan_recoverable_tail sha content = scan_frames record_format (decode_stored_record sha) content"

definition record_truncate_verified_incomplete_tail ::
  "sha256 \<Rightarrow> bytes \<Rightarrow> incomplete_tail \<Rightarrow> (record_log_error + unit) \<times> bytes" where
  "record_truncate_verified_incomplete_tail sha content expected =
     truncate_frames record_format (decode_stored_record sha) RlTruncatedFrame RlRecoveryTailChanged content expected"

subsection \<open>The transaction log\<close>

definition FRAME_MAGIC :: bytes where "FRAME_MAGIC = ascii ''NXLG''"
definition FRAME_VERSION :: u16 where "FRAME_VERSION = 1"
definition MAX_FRAME_PAYLOAD_LENGTH :: u32 where "MAX_FRAME_PAYLOAD_LENGTH = 32 * 1024 * 1024"

record stored_transaction =
  st_offset :: nat
  st_bytes :: bytes

datatype storage_error =
  StIo string
| StInvalidMagic nat
| StUnsupportedFrameVersion nat u16
| StFrameTooLarge nat u32 u32
| StTruncatedFrame nat string
| StChecksumMismatch nat u32 u32
| StInvalidTransaction nat codec_error
| StNonCanonicalTransaction
| StLogOffsetOverflow
| StCodec codec_error

definition transaction_format :: "storage_error frame_format" where
  "transaction_format =
     \<lparr>ff_magic = FRAME_MAGIC, ff_version = FRAME_VERSION, ff_maximum = MAX_FRAME_PAYLOAD_LENGTH,
      fe_magic = (\<lambda>offset magic. StInvalidMagic offset), fe_version = StUnsupportedFrameVersion,
      fe_too_large = StFrameTooLarge, fe_checksum = StChecksumMismatch, fe_overflow = StLogOffsetOverflow\<rparr>"

definition decode_stored_transaction :: "nat \<Rightarrow> bytes \<Rightarrow> storage_error + stored_transaction" where
  "decode_stored_transaction offset payload =
     and_then (map_err (StInvalidTransaction offset) (decode_transaction payload)) (\<lambda>_.
     Inr \<lparr>st_offset = offset, st_bytes = payload\<rparr>)"

definition TransactionLog_open :: "bytes \<Rightarrow> storage_error + bytes" where
  "TransactionLog_open content =
     and_then (validate_frames transaction_format decode_stored_transaction StTruncatedFrame content) (\<lambda>_. Inr content)"

definition open_recovering_incomplete_tail :: "bytes \<Rightarrow> (storage_error + unit) \<times> bytes" where
  "open_recovering_incomplete_tail content =
     (case scan_frames transaction_format decode_stored_transaction content of
        Inl e \<Rightarrow> (Inl e, content)
      | Inr (_, None) \<Rightarrow> (Inr (), content)
      | Inr (_, Some tail) \<Rightarrow>
          let content' = take (it_valid_prefix_length tail) content
          in (validate_frames transaction_format decode_stored_transaction StTruncatedFrame content', content'))"

definition append_transaction_bytes ::
  "io_outcome \<Rightarrow> bytes \<Rightarrow> bytes \<Rightarrow> (storage_error + nat) \<times> bytes" where
  "append_transaction_bytes io content bs =
     (case and_then (map_err StCodec (decode_transaction bs)) (\<lambda>tx.
         and_then (map_err StCodec (encode_transaction tx)) (\<lambda>payload.
         if payload \<noteq> bs then Inl StNonCanonicalTransaction else encode_frame transaction_format payload)) of
        Inl e \<Rightarrow> (Inl e, content)
      | Inr frame \<Rightarrow>
          append_frame io (\<lambda>writing. StIo (if writing then ''append transaction frame''
            else ''sync transaction frame'')) content frame)"

definition read_transactions :: "bytes \<Rightarrow> storage_error + stored_transaction list" where
  "read_transactions content =
     and_then (scan_frames transaction_format decode_stored_transaction content) (\<lambda>(entries, tail).
     case tail of
       None \<Rightarrow> Inr entries
     | Some t \<Rightarrow> Inl (StTruncatedFrame (it_valid_prefix_length t) (it_section t)))"

subsection \<open>Both are framed logs\<close>

lemma log_limits [simp]:
  "unat MAX_RECORD_FRAME_PAYLOAD_LENGTH = 33554578" "unat MAX_FRAME_PAYLOAD_LENGTH = 33554432"
  "ff_magic record_format = RECORD_FRAME_MAGIC" "ff_magic transaction_format = FRAME_MAGIC"
  "ff_maximum record_format = MAX_RECORD_FRAME_PAYLOAD_LENGTH"
  "ff_maximum transaction_format = MAX_FRAME_PAYLOAD_LENGTH"
  "length RECORD_FRAME_MAGIC = 4" "length FRAME_MAGIC = 4"
  by (simp_all add: MAX_RECORD_FRAME_PAYLOAD_LENGTH_def MAX_RECORD_TRANSACTION_BYTES_def MAX_FRAME_PAYLOAD_LENGTH_def
      record_format_def transaction_format_def RECORD_FRAME_MAGIC_def FRAME_MAGIC_def ascii_def)

abbreviation record_payload :: "stored_record \<Rightarrow> bytes" where
  "record_payload x \<equiv> encode_record (sr_record x)"

lemma record_fits: "record_wf sha r \<Longrightarrow> length (encode_record r) \<le> 33554578"
  using record_wf_length [of sha r] by (simp add: encode_record_def)

interpretation records: framed_log record_format "decode_stored_record sha" record_payload
  "\<lambda>x. record_wf sha (sr_record x)" "\<lambda>n x. x\<lparr>sr_offset := n\<rparr>"
  for sha
proof unfold_locales
  fix x n p
  show "record_wf sha (sr_record x) \<Longrightarrow>
      decode_stored_record sha n (record_payload x) = Inr (x\<lparr>sr_offset := n\<rparr>)"
    by (cases x) (simp add: decode_stored_record_def decode_encode_record)
  show "decode_stored_record sha n p = Inr x \<Longrightarrow>
      record_wf sha (sr_record x) \<and> record_payload x = p \<and> x\<lparr>sr_offset := n\<rparr> = x"
    by (auto simp: decode_stored_record_def and_then_eq_Inr dest!: decode_record_only)
qed (use record_fits in auto)

lemma transaction_fits: "decode_transaction bs = Inr tx \<Longrightarrow> length bs \<le> 33554432"
  using decode_transaction_only length_transaction_bytes by fastforce

interpretation transactions: framed_log transaction_format decode_stored_transaction st_bytes
  "\<lambda>x. \<exists>tx. decode_transaction (st_bytes x) = Inr tx" "\<lambda>n x. x\<lparr>st_offset := n\<rparr>"
proof unfold_locales
  fix x n p
  show "\<exists>tx. decode_transaction (st_bytes x) = Inr tx \<Longrightarrow>
      decode_stored_transaction n (st_bytes x) = Inr (x\<lparr>st_offset := n\<rparr>)"
    by (cases x) (auto simp: decode_stored_transaction_def)
  show "decode_stored_transaction n p = Inr x \<Longrightarrow>
      (\<exists>tx. decode_transaction (st_bytes x) = Inr tx) \<and> st_bytes x = p \<and> x\<lparr>st_offset := n\<rparr> = x"
    by (auto simp: decode_stored_transaction_def and_then_eq_Inr)
qed (auto dest: transaction_fits)

subsection \<open>Appending\<close>

abbreviation record_file :: "stored_record list \<Rightarrow> bytes" where
  "record_file \<equiv> frames_of record_format record_payload"

abbreviation record_frame :: "transaction_record \<Rightarrow> bytes" where
  "record_frame r \<equiv> frame_of record_format (encode_record r)"

abbreviation located_records :: "nat \<Rightarrow> stored_record list \<Rightarrow> stored_record list" where
  "located_records \<equiv> located_frames record_format record_payload (\<lambda>n x. x\<lparr>sr_offset := n\<rparr>)"

lemma append_record_wf:
  assumes "record_wf sha r"
  shows "append_record sha Synced content r = (Inr (length content), content @ record_frame r)"
    and "\<exists>e. append_record sha (Torn k) content r = (Inl e, content @ take k (record_frame r))"
  using records.encode_frame_ok [of sha "\<lparr>sr_offset = 0, sr_record = r\<rparr>"] assms
  by (simp_all add: append_record_def decode_encode_record append_frame_def Let_def)

lemma append_transaction_ok:
  assumes "decode_transaction bs = Inr tx"
  shows "append_transaction_bytes Synced content bs = (Inr (length content), content @ frame_of transaction_format bs)"
    and "\<exists>e. append_transaction_bytes (Torn k) content bs = (Inl e, content @ take k (frame_of transaction_format bs))"
proof -
  have "encode_transaction tx = Inr bs"
    using decode_transaction_only [OF assms] by (simp add: encode_transaction_Inr_iff)
  moreover have "encode_frame transaction_format bs = Inr (frame_of transaction_format bs)"
    using transactions.encode_frame_ok [of "\<lparr>st_offset = 0, st_bytes = bs\<rparr>"] assms by simp
  ultimately show "append_transaction_bytes Synced content bs = (Inr (length content), content @ frame_of transaction_format bs)"
    and "\<exists>e. append_transaction_bytes (Torn k) content bs = (Inl e, content @ take k (frame_of transaction_format bs))"
    using assms by (simp_all add: append_transaction_bytes_def append_frame_def)
qed

subsection \<open>Crash recovery of the transaction log\<close>

abbreviation transaction_file :: "bytes list \<Rightarrow> bytes" where
  "transaction_file bss \<equiv> concat (map (frame_of transaction_format) bss)"

lemma transaction_file_frames: "frames_of transaction_format st_bytes (map (\<lambda>bs. \<lparr>st_offset = 0, st_bytes = bs\<rparr>) bss) =
    transaction_file bss"
  by (simp add: frames_of_def comp_def)

lemma located_bytes:
  "map st_bytes (located_frames transaction_format st_bytes (\<lambda>n x. x\<lparr>st_offset := n\<rparr>) n xs) = map st_bytes xs"
  by (induction xs arbitrary: n) simp_all

text \<open>
  After an interrupted append a plain open refuses the file and leaves it alone; the recovering open cuts
  off the partial frame, and every transaction appended before reads back in order.
\<close>

lemma transaction_log_recovers:
  assumes ok: "\<forall>bs \<in> set bss. \<exists>tx. decode_transaction bs = Inr tx" and tx: "decode_transaction bs = Inr tx"
    and k: "0 < k" "k < length (frame_of transaction_format bs)"
    and size: "length (transaction_file bss) + k < 2 ^ 64"
  shows "\<exists>e file. append_transaction_bytes (Torn k) (transaction_file bss) bs = (Inl e, file) \<and>
    (\<exists>e. TransactionLog_open file = Inl e) \<and>
    open_recovering_incomplete_tail file = (Inr (), transaction_file bss) \<and>
    TransactionLog_open (transaction_file bss) = Inr (transaction_file bss) \<and>
    (\<exists>xs. read_transactions (transaction_file bss) = Inr xs \<and> map st_bytes xs = bss)"
proof -
  let ?entry = "\<lambda>bs. \<lparr>st_offset = 0, st_bytes = bs\<rparr>"
  have entries: "\<forall>x \<in> set (map ?entry bss). \<exists>tx. decode_transaction (st_bytes x) = Inr tx" using ok by auto
  have torn: "scan_frames transaction_format decode_stored_transaction
      (transaction_file bss @ take k (frame_of transaction_format bs)) =
    Inr (located_frames transaction_format st_bytes (\<lambda>n x. x\<lparr>st_offset := n\<rparr>) 0 (map ?entry bss),
      Some \<lparr>it_valid_prefix_length = length (transaction_file bss), it_section = torn_section k bs\<rparr>)"
    using transactions.scan_torn [OF entries, of "?entry bs" k] tx k size by (simp add: transaction_file_frames)
  have complete: "scan_frames transaction_format decode_stored_transaction (transaction_file bss) =
    Inr (located_frames transaction_format st_bytes (\<lambda>n x. x\<lparr>st_offset := n\<rparr>) 0 (map ?entry bss), None)"
    using transactions.scan_complete [OF entries] size by (simp add: transaction_file_frames)
  show ?thesis
    using append_transaction_ok(2) [OF tx, of k "transaction_file bss"]
    by (auto simp: TransactionLog_open_def open_recovering_incomplete_tail_def read_transactions_def validate_frames_def
        torn complete Let_def located_bytes comp_def)
qed

end
