(* ===== verification/Checkpoint.thy ===== *)
theory Checkpoint
  imports Ledger_Snapshot Record_Chain Engine
begin

text \<open>
  The \<^verbatim>\<open>NXCP\<close> ledger checkpoints of \<^verbatim>\<open>crates/noxis-checkpoint\<close>: a complete ledger snapshot bound to one
  record of the chain, its byte encoding with two hashes, and the strict decoder that rebuilds the state it
  claims. \<^verbatim>\<open>encode\<close> unwraps the snapshot encoder with \<^verbatim>\<open>expect\<close>; an \<open>Inl\<close> there is that panic.
\<close>

subsection \<open>Constants, errors and values\<close>

definition CHECKPOINT_MAGIC :: bytes where "CHECKPOINT_MAGIC = ascii ''NXCP''"
definition CHECKPOINT_FORMAT_VERSION :: u16 where "CHECKPOINT_FORMAT_VERSION = 1"
definition SNAPSHOT_FORMAT_VERSION :: u16 where "SNAPSHOT_FORMAT_VERSION = 1"
definition MAX_SNAPSHOT_BYTES :: u32 where "MAX_SNAPSHOT_BYTES = 128 * 1024 * 1024"
definition HEADER_BYTES :: nat where "HEADER_BYTES = 180"
definition CHECKPOINT_HASH_BYTES :: nat where "CHECKPOINT_HASH_BYTES = 32"
definition MAX_CHECKPOINT_BYTES :: nat where
  "MAX_CHECKPOINT_BYTES = HEADER_BYTES + unat MAX_SNAPSHOT_BYTES + CHECKPOINT_HASH_BYTES"
definition MAX_SNAPSHOT_ASSETS :: u32 where "MAX_SNAPSHOT_ASSETS = 4096"
definition MAX_SNAPSHOT_IDENTIFIERS :: u32 where "MAX_SNAPSHOT_IDENTIFIERS = of_nat MAX_COMMITMENTS"
definition MAX_TICKER_BYTES :: nat where "MAX_TICKER_BYTES = 16"

datatype snapshot_error =
  SnUnexpectedEnd nat
| SnTrailingBytes nat
| SnCollectionTooLarge u32 u32
| SnUnknownAssetKind byte
| SnTickerTooLong nat nat
| SnInvalidTickerEncoding nat
| SnInvalidAsset nat asset_error
| SnZeroSupply

datatype checkpoint_error =
  CpInvalidMagic
| CpUnsupportedFormatVersion u16
| CpUnsupportedSnapshotVersion u16
| CpUnexpectedEnd nat
| CpTrailingBytes nat
| CpLengthOverflow
| CpSnapshotTooLarge nat u32
| CpCollectionTooLarge nat u32
| CpSnapshotHashMismatch
| CpCheckpointHashMismatch
| CpGenesisCheckpointUnsupported
| CpSnapshotSequenceMismatch u64 nat
| CpInvalidSnapshot ledger_snapshot_error
| CpSnapshot snapshot_error
| CpStateIdMismatch state_id state_id
| CpAnchorMismatch genesis_id genesis_id validation_context_id validation_context_id
| CpNonCanonicalEncoding

record checkpoint =
  cp_genesis_id :: genesis_id
  cp_validation_context_id :: validation_context_id
  cp_sequence :: u64
  cp_state_id :: state_id
  cp_terminal_record_hash :: record_hash
  cp_snapshot :: ledger_snapshot

definition checkpoint_reader :: "checkpoint_error reader_error" where
  "checkpoint_reader =
     \<lparr>err_overflow = CpLengthOverflow, err_end = CpUnexpectedEnd, err_trailing = CpTrailingBytes\<rparr>"

definition snapshot_reader :: "checkpoint_error reader_error" where
  "snapshot_reader =
     \<lparr>err_overflow = CpLengthOverflow, err_end = (\<lambda>n. CpSnapshot (SnUnexpectedEnd n)),
      err_trailing = (\<lambda>n. CpSnapshot (SnTrailingBytes n))\<rparr>"

subsection \<open>The snapshot payload\<close>

definition ensure_count :: "nat \<Rightarrow> u32 \<Rightarrow> checkpoint_error + unit" where
  "ensure_count actual maximum =
     (if actual > unat maximum then Inl (CpCollectionTooLarge actual maximum) else Inr ())"

definition validate_snapshot_bounds :: "ledger_snapshot \<Rightarrow> checkpoint_error + unit" where
  "validate_snapshot_bounds p =
     and_then (ensure_count (length (snap_assets p)) MAX_SNAPSHOT_ASSETS) (\<lambda>_.
     and_then (ensure_count (length (snap_commitments p)) MAX_SNAPSHOT_IDENTIFIERS) (\<lambda>_.
     and_then (ensure_count (length (snap_spent_nullifiers p)) MAX_SNAPSHOT_IDENTIFIERS) (\<lambda>_.
     and_then (ensure_count (length (snap_issued_supply p)) MAX_SNAPSHOT_ASSETS) (\<lambda>_.
     ensure_count (length (snap_accepted_transactions p)) MAX_SNAPSHOT_IDENTIFIERS))))"

definition snapshot_count :: "nat \<Rightarrow> checkpoint_error + bytes" where
  "snapshot_count n =
     and_then (ok_or (try_from_usize n) (CpCollectionTooLarge n (- 1))) (\<lambda>w :: u32. Inr (to_be_bytes w))"

fun encode_asset_kind :: "asset_kind \<Rightarrow> byte" where
  "encode_asset_kind NativeBacked = 1"
| "encode_asset_kind Synthetic = 2"

definition decode_asset_kind :: "byte \<Rightarrow> checkpoint_error + asset_kind" where
  "decode_asset_kind tag =
     (if tag = 1 then Inr NativeBacked else if tag = 2 then Inr Synthetic
      else Inl (CpSnapshot (SnUnknownAssetKind tag)))"

definition encode_asset :: "asset_definition \<Rightarrow> bytes" where
  "encode_asset a =
     to_be_bytes (ad_id a) @ [encode_asset_kind (ad_kind a)] @ [of_nat (length (ad_ticker a))] @ ad_ticker a"

definition encode_supply :: "asset_id \<times> amount \<Rightarrow> bytes" where
  "encode_supply e = to_be_bytes (fst e) @ to_be_bytes (snd e)"

definition encode_snapshot :: "ledger_snapshot \<Rightarrow> checkpoint_error + bytes" where
  "encode_snapshot p =
     and_then (validate_snapshot_bounds p) (\<lambda>_.
     and_then (snapshot_count (length (snap_assets p))) (\<lambda>assets.
     and_then (snapshot_count (length (snap_commitments p))) (\<lambda>commitments.
     and_then (snapshot_count (length (snap_spent_nullifiers p))) (\<lambda>nullifiers.
     and_then (snapshot_count (length (snap_issued_supply p))) (\<lambda>supply.
     and_then (snapshot_count (length (snap_accepted_transactions p))) (\<lambda>transactions.
     let bs = [snap_tree_depth p] @ assets @ concat (map encode_asset (snap_assets p)) @
           commitments @ concat (map to_be_bytes (snap_commitments p)) @
           nullifiers @ concat (map to_be_bytes (snap_spent_nullifiers p)) @
           supply @ concat (map encode_supply (snap_issued_supply p)) @
           transactions @ concat (map to_be_bytes (snap_accepted_transactions p)) in
     if length bs > unat MAX_SNAPSHOT_BYTES then Inl (CpSnapshotTooLarge (length bs) MAX_SNAPSHOT_BYTES)
     else Inr bs))))))"

definition read_count :: "u32 \<Rightarrow> reader \<Rightarrow> checkpoint_error + nat \<times> reader" where
  "read_count maximum r =
     and_then (read_word snapshot_reader r) (\<lambda>(count, r).
     if count > maximum then Inl (CpSnapshot (SnCollectionTooLarge count maximum))
     else Inr (unat count, r))"

definition read_asset :: "nat \<Rightarrow> reader \<Rightarrow> checkpoint_error + asset_definition \<times> reader" where
  "read_asset index r =
     and_then (read_word snapshot_reader r) (\<lambda>(i, r).
     and_then (read_word snapshot_reader r) (\<lambda>(tag, r).
     and_then (decode_asset_kind tag) (\<lambda>kind.
     and_then (read_word snapshot_reader r) (\<lambda>(ticker_length :: byte, r).
     if unat ticker_length > MAX_TICKER_BYTES
     then Inl (CpSnapshot (SnTickerTooLong index (unat ticker_length)))
     else and_then (read_exact snapshot_reader (unat ticker_length) r) (\<lambda>(ticker, r).
     if \<not> is_utf8 ticker then Inl (CpSnapshot (SnInvalidTickerEncoding index))
     else and_then (map_err (\<lambda>e. CpSnapshot (SnInvalidAsset index e)) (AssetDefinition_new i ticker kind))
       (\<lambda>asset. Inr (asset, r)))))))"

fun read_assets :: "nat \<Rightarrow> nat \<Rightarrow> reader \<Rightarrow> checkpoint_error + asset_definition list \<times> reader" where
  "read_assets index 0 r = Inr ([], r)"
| "read_assets index (Suc n) r =
     and_then (read_asset index r) (\<lambda>(a, r).
     and_then (read_assets (Suc index) n r) (\<lambda>(as, r). Inr (a # as, r)))"

definition snapshot_identifiers :: "reader \<Rightarrow> checkpoint_error + id32 list \<times> reader" where
  "snapshot_identifiers r =
     and_then (read_count MAX_SNAPSHOT_IDENTIFIERS r) (\<lambda>(count, r).
     read_many (read_word snapshot_reader) count r)"

definition read_supply :: "reader \<Rightarrow> checkpoint_error + (asset_id \<times> amount) \<times> reader" where
  "read_supply r =
     and_then (read_word snapshot_reader r) (\<lambda>(i, r).
     and_then (read_word snapshot_reader r) (\<lambda>(units, r).
     and_then (ok_or (Amount_new units) (CpSnapshot SnZeroSupply)) (\<lambda>amount. Inr ((i, amount), r))))"

definition decode_snapshot :: "bytes \<Rightarrow> checkpoint_error + ledger_snapshot" where
  "decode_snapshot bs =
     and_then (read_word snapshot_reader (new_reader bs)) (\<lambda>(tree_depth, r).
     and_then (read_count MAX_SNAPSHOT_ASSETS r) (\<lambda>(asset_count, r).
     and_then (read_assets 0 asset_count r) (\<lambda>(assets, r).
     and_then (snapshot_identifiers r) (\<lambda>(commitments, r).
     and_then (snapshot_identifiers r) (\<lambda>(nullifiers, r).
     and_then (read_count MAX_SNAPSHOT_ASSETS r) (\<lambda>(supply_count, r).
     and_then (read_many read_supply supply_count r) (\<lambda>(supply, r).
     and_then (snapshot_identifiers r) (\<lambda>(transactions, r).
     and_then (finish snapshot_reader r) (\<lambda>_.
     map_err CpInvalidSnapshot
       (from_canonical_parts tree_depth assets commitments nullifiers supply transactions))))))))))"

subsection \<open>Checkpoints\<close>

definition hash_snapshot :: "sha256 \<Rightarrow> bytes \<Rightarrow> id32" where
  "hash_snapshot sha bs = sha (ascii ''NOXIS/CHECKPOINT/V1/SNAPSHOT'' @ [0] @ bs)"

definition hash_checkpoint :: "sha256 \<Rightarrow> bytes \<Rightarrow> id32" where
  "hash_checkpoint sha bs = sha (ascii ''NOXIS/CHECKPOINT/V1'' @ [0] @ bs)"

definition checkpoint_from_snapshot ::
  "sha256 \<Rightarrow> chain_anchor \<Rightarrow> u64 \<Rightarrow> record_hash \<Rightarrow> ledger_snapshot \<Rightarrow> checkpoint_error + checkpoint" where
  "checkpoint_from_snapshot sha anchor sequence terminal p =
     (if sequence = 0 then Inl CpGenesisCheckpointUnsupported
      else if of_nat (length (snap_accepted_transactions p)) \<noteq> sequence
      then Inl (CpSnapshotSequenceMismatch sequence (length (snap_accepted_transactions p)))
      else and_then (validate_snapshot_bounds p) (\<lambda>_.
        and_then (map_err CpInvalidSnapshot (from_snapshot p)) (\<lambda>state.
        Inr \<lparr>cp_genesis_id = ca_genesis_id anchor, cp_validation_context_id = ca_validation_context_id anchor,
             cp_sequence = sequence, cp_state_id = ledger_state_id sha (ca_genesis_id anchor) state,
             cp_terminal_record_hash = terminal, cp_snapshot = p\<rparr>)))"

definition restore_state :: "sha256 \<Rightarrow> checkpoint \<Rightarrow> chain_anchor \<Rightarrow> checkpoint_error + ledger_state" where
  "restore_state sha c anchor =
     (if cp_genesis_id c \<noteq> ca_genesis_id anchor \<or> cp_validation_context_id c \<noteq> ca_validation_context_id anchor
      then Inl (CpAnchorMismatch (cp_genesis_id c) (ca_genesis_id anchor) (cp_validation_context_id c)
             (ca_validation_context_id anchor))
      else and_then (map_err CpInvalidSnapshot (from_snapshot (cp_snapshot c))) (\<lambda>state.
        let computed = ledger_state_id sha (ca_genesis_id anchor) state in
        if computed \<noteq> cp_state_id c then Inl (CpStateIdMismatch (cp_state_id c) computed)
        else Inr state))"

definition encode_checkpoint :: "sha256 \<Rightarrow> checkpoint \<Rightarrow> checkpoint_error + bytes" where
  "encode_checkpoint sha c =
     and_then (encode_snapshot (cp_snapshot c)) (\<lambda>snapshot_bytes.
     let bs = CHECKPOINT_MAGIC @ to_be_bytes CHECKPOINT_FORMAT_VERSION @ to_be_bytes SNAPSHOT_FORMAT_VERSION @
           to_be_bytes (cp_genesis_id c) @ to_be_bytes (cp_validation_context_id c) @
           to_be_bytes (cp_sequence c) @ to_be_bytes (cp_state_id c) @ to_be_bytes (cp_terminal_record_hash c) @
           to_be_bytes (of_nat (length snapshot_bytes) :: u32) @
           to_be_bytes (hash_snapshot sha snapshot_bytes) @ snapshot_bytes
     in Inr (bs @ to_be_bytes (hash_checkpoint sha bs)))"

definition decode_checkpoint :: "sha256 \<Rightarrow> bytes \<Rightarrow> checkpoint_error + checkpoint" where
  "decode_checkpoint sha bs =
     (if length bs < HEADER_BYTES + CHECKPOINT_HASH_BYTES then Inl (CpUnexpectedEnd (length bs))
      else
        let without_hash = take (length bs - CHECKPOINT_HASH_BYTES) bs;
            encoded_hash = from_be_bytes (drop (length bs - CHECKPOINT_HASH_BYTES) bs) in
        if encoded_hash \<noteq> hash_checkpoint sha without_hash then Inl CpCheckpointHashMismatch
        else and_then (read_array checkpoint_reader 4 (new_reader without_hash)) (\<lambda>(magic, r).
        if magic \<noteq> CHECKPOINT_MAGIC then Inl CpInvalidMagic
        else and_then (read_word checkpoint_reader r) (\<lambda>(format_version, r).
        if format_version \<noteq> CHECKPOINT_FORMAT_VERSION then Inl (CpUnsupportedFormatVersion format_version)
        else and_then (read_word checkpoint_reader r) (\<lambda>(snapshot_version, r).
        if snapshot_version \<noteq> SNAPSHOT_FORMAT_VERSION then Inl (CpUnsupportedSnapshotVersion snapshot_version)
        else and_then (read_word checkpoint_reader r) (\<lambda>(genesis, r).
        and_then (read_word checkpoint_reader r) (\<lambda>(context, r).
        and_then (read_word checkpoint_reader r) (\<lambda>(sequence, r).
        if sequence = 0 then Inl CpGenesisCheckpointUnsupported
        else and_then (read_word checkpoint_reader r) (\<lambda>(state, r).
        and_then (read_word checkpoint_reader r) (\<lambda>(terminal, r).
        and_then (read_word checkpoint_reader r) (\<lambda>(snapshot_length, r).
        if snapshot_length > MAX_SNAPSHOT_BYTES
        then Inl (CpSnapshotTooLarge (unat snapshot_length) MAX_SNAPSHOT_BYTES)
        else and_then (read_word checkpoint_reader r) (\<lambda>(encoded_snapshot_hash, r).
        and_then (read_exact checkpoint_reader (unat snapshot_length) r) (\<lambda>(snapshot_bytes, r).
        if encoded_snapshot_hash \<noteq> hash_snapshot sha snapshot_bytes then Inl CpSnapshotHashMismatch
        else and_then (finish checkpoint_reader r) (\<lambda>_.
        and_then (decode_snapshot snapshot_bytes) (\<lambda>p.
        if of_nat (length (snap_accepted_transactions p)) \<noteq> sequence
        then Inl (CpSnapshotSequenceMismatch sequence (length (snap_accepted_transactions p)))
        else and_then (map_err CpInvalidSnapshot (from_snapshot p)) (\<lambda>ledger.
        let computed = ledger_state_id sha genesis ledger in
        if computed \<noteq> state then Inl (CpStateIdMismatch state computed)
        else
          let c = \<lparr>cp_genesis_id = genesis, cp_validation_context_id = context, cp_sequence = sequence,
                cp_state_id = state, cp_terminal_record_hash = terminal, cp_snapshot = p\<rparr> in
          and_then (encode_checkpoint sha c) (\<lambda>canonical.
          if canonical \<noteq> bs then Inl CpNonCanonicalEncoding else Inr c))))))))))))))))"

subsection \<open>The payload is exact\<close>

lemma checkpoint_limits [simp]:
  "unat MAX_SNAPSHOT_ASSETS = 4096" "unat MAX_SNAPSHOT_IDENTIFIERS = 1048576" "unat MAX_SNAPSHOT_BYTES = 134217728"
  "MAX_TICKER_BYTES = 16" "HEADER_BYTES = 180" "CHECKPOINT_HASH_BYTES = 32" "length CHECKPOINT_MAGIC = 4"
  by (simp_all add: MAX_SNAPSHOT_ASSETS_def MAX_SNAPSHOT_IDENTIFIERS_def MAX_COMMITMENTS_def MAX_SNAPSHOT_BYTES_def
      MAX_TICKER_BYTES_def HEADER_BYTES_def CHECKPOINT_HASH_BYTES_def CHECKPOINT_MAGIC_def ascii_def)

definition bounds_ok :: "ledger_snapshot \<Rightarrow> bool" where
  "bounds_ok p =
     (length (snap_assets p) \<le> 4096 \<and> length (snap_commitments p) \<le> 1048576 \<and>
      length (snap_spent_nullifiers p) \<le> 1048576 \<and> length (snap_issued_supply p) \<le> 4096 \<and>
      length (snap_accepted_transactions p) \<le> 1048576)"

definition snapshot_bytes :: "ledger_snapshot \<Rightarrow> bytes" where
  "snapshot_bytes p =
     [snap_tree_depth p] @
     to_be_bytes (of_nat (length (snap_assets p)) :: u32) @ concat (map encode_asset (snap_assets p)) @
     to_be_bytes (of_nat (length (snap_commitments p)) :: u32) @ concat (map to_be_bytes (snap_commitments p)) @
     to_be_bytes (of_nat (length (snap_spent_nullifiers p)) :: u32) @ concat (map to_be_bytes (snap_spent_nullifiers p)) @
     to_be_bytes (of_nat (length (snap_issued_supply p)) :: u32) @ concat (map encode_supply (snap_issued_supply p)) @
     to_be_bytes (of_nat (length (snap_accepted_transactions p)) :: u32) @
       concat (map to_be_bytes (snap_accepted_transactions p))"

lemma validate_snapshot_bounds_iff: "validate_snapshot_bounds p = Inr () \<longleftrightarrow> bounds_ok p"
  by (auto simp: validate_snapshot_bounds_def ensure_count_def and_then_eq_Inr bounds_ok_def split: if_splits)

lemma snapshot_count_small: "n < 2 ^ 32 \<Longrightarrow> snapshot_count n = Inr (to_be_bytes (of_nat n :: u32))"
  by (simp add: snapshot_count_def try_from_usize_small)

lemma encode_snapshot_Inr_iff:
  "encode_snapshot p = Inr bs \<longleftrightarrow> bounds_ok p \<and> bs = snapshot_bytes p \<and> length bs \<le> 134217728"
proof (cases "bounds_ok p")
  case True
  then have "length (snap_assets p) < 2 ^ 32" "length (snap_commitments p) < 2 ^ 32"
    "length (snap_spent_nullifiers p) < 2 ^ 32" "length (snap_issued_supply p) < 2 ^ 32"
    "length (snap_accepted_transactions p) < 2 ^ 32" by (simp_all add: bounds_ok_def)
  note counts = this [THEN snapshot_count_small]
  show ?thesis
    using True unfolding encode_snapshot_def counts
    by (auto simp: validate_snapshot_bounds_iff [THEN iffD2] snapshot_bytes_def Let_def)
next
  case False
  then have "validate_snapshot_bounds p \<noteq> Inr ()" by (simp add: validate_snapshot_bounds_iff)
  with False show ?thesis by (auto simp: encode_snapshot_def and_then_eq_Inr)
qed

lemma length_concat_words: "length (concat (map (to_be_bytes :: id32 \<Rightarrow> bytes) xs)) = 32 * length xs"
  by (induction xs) simp_all

lemma length_supplies: "length (concat (map encode_supply xs)) = 48 * length xs"
  by (induction xs) (simp_all add: encode_supply_def)

lemma length_assets: "\<forall>a \<in> set xs. valid_ticker (ad_ticker a) \<Longrightarrow> length (concat (map encode_asset xs)) \<le> 50 * length xs"
  by (induction xs) (simp_all add: encode_asset_def valid_ticker_def)

lemma snapshot_bytes_bound:
  assumes "bounds_ok p" and "snapshot_ok p"
  shows "length (snapshot_bytes p) \<le> 134217728"
proof -
  have "length (concat (map encode_asset (snap_assets p))) \<le> 50 * length (snap_assets p)"
    using assms(2) by (intro length_assets) (simp add: snapshot_ok_def)
  then have "length (snapshot_bytes p) \<le> 21 + 50 * length (snap_assets p) + 32 * length (snap_commitments p) +
      32 * length (snap_spent_nullifiers p) + 48 * length (snap_issued_supply p) + 32 * length (snap_accepted_transactions p)"
    by (simp add: snapshot_bytes_def length_concat_words length_supplies del: length_concat)
  then show ?thesis using assms(1) by (simp add: bounds_ok_def)
qed

lemma decode_asset_kind_back [simp]: "decode_asset_kind (encode_asset_kind k) = Inr k"
  by (cases k) (simp_all add: decode_asset_kind_def)

lemma decode_asset_kind_only: "decode_asset_kind tag = Inr k \<Longrightarrow> tag = encode_asset_kind k"
  by (auto simp: decode_asset_kind_def split: if_splits)

lemma ticker_is_utf8: "valid_ticker t \<Longrightarrow> is_utf8 t"
proof (rule ascii_is_utf8)
  assume "valid_ticker t"
  moreover have "(33 :: byte) \<le> b" "b \<le> 126" if "65 \<le> b" "b \<le> 90" for b :: byte
    using that order_trans [of "33 :: byte" 65 b] order_trans [of b 90 126] by simp_all
  ultimately show "\<forall>b \<in> set t. is_ascii_graphic b"
    by (simp add: valid_ticker_def is_ascii_uppercase_def is_ascii_graphic_def)
qed

interpretation asset: wire_format encode_asset "read_asset index" "\<lambda>a. valid_ticker (ad_ticker a)" for index
proof
  fix a and pre rest :: bytes
  assume a: "valid_ticker (ad_ticker a)" and size: "length pre + length (encode_asset a) + length rest < 2 ^ 64"
  have t: "length (ad_ticker a) \<le> 16" using a by (simp add: valid_ticker_def)
  then have u: "unat (of_nat (length (ad_ticker a)) :: byte) = length (ad_ticker a)" by (intro unat_length_byte) simp
  show "read_asset index (reader_at pre (encode_asset a @ rest)) = Inr (a, reader_at (pre @ encode_asset a) rest)"
    using size a t
    by (simp add: read_asset_def encode_asset_def wire_simps u ticker_is_utf8 AssetDefinition_new_self)
next
  fix pre inp a r
  assume "read_asset index (reader_at pre inp) = Inr (a, r)"
  then show "valid_ticker (ad_ticker a) \<and> (\<exists>rest. inp = encode_asset a @ rest \<and> r = reader_at (pre @ encode_asset a) rest)"
    by (auto simp: read_asset_def and_then_eq_Inr encode_asset_def AssetDefinition_new_Inr_iff
        split: if_splits dest!: wire_dests decode_asset_kind_only)
qed

lemma read_assets_back:
  assumes "\<forall>a \<in> set xs. valid_ticker (ad_ticker a)"
    and "length pre + length (concat (map encode_asset xs)) + length rest < 2 ^ 64"
  shows "read_assets index (length xs) (reader_at pre (concat (map encode_asset xs) @ rest)) =
    Inr (xs, reader_at (pre @ concat (map encode_asset xs)) rest)"
  using assms by (induction xs arbitrary: pre index) (auto simp: asset.reads_back)

lemma read_assets_only:
  assumes "read_assets index n (reader_at pre inp) = Inr (xs, r)"
  shows "length xs = n \<and> (\<forall>a \<in> set xs. valid_ticker (ad_ticker a)) \<and>
    (\<exists>rest. inp = concat (map encode_asset xs) @ rest \<and> r = reader_at (pre @ concat (map encode_asset xs)) rest)"
  using assms
proof (induction n arbitrary: index pre inp xs)
  case 0
  then show ?case by simp
next
  case (Suc n)
  from Suc.prems obtain a r1 bs where a: "read_asset index (reader_at pre inp) = Inr (a, r1)"
    and bs: "read_assets (Suc index) n r1 = Inr (bs, r)" and list: "xs = a # bs"
    by (auto simp: and_then_eq_Inr)
  from asset.accepts_only [OF a] obtain inp1 where v: "valid_ticker (ad_ticker a)" and inp: "inp = encode_asset a @ inp1"
    and r1: "r1 = reader_at (pre @ encode_asset a) inp1" by auto
  from Suc.IH [OF bs [unfolded r1]] v inp list show ?case by auto
qed

interpretation supply_entry: wire_format encode_supply read_supply "\<lambda>e. snd e \<noteq> 0"
proof
  fix e and pre rest :: bytes
  assume "snd e \<noteq> 0" "length pre + length (encode_supply e) + length rest < 2 ^ 64"
  then show "read_supply (reader_at pre (encode_supply e @ rest)) = Inr (e, reader_at (pre @ encode_supply e) rest)"
    by (simp add: read_supply_def encode_supply_def wire_simps Amount_new_def)
next
  fix pre inp e r
  assume "read_supply (reader_at pre inp) = Inr (e, r)"
  then show "snd e \<noteq> 0 \<and> (\<exists>rest. inp = encode_supply e @ rest \<and> r = reader_at (pre @ encode_supply e) rest)"
    by (auto simp: read_supply_def and_then_eq_Inr encode_supply_def Amount_new_Some_iff dest!: wire_dests)
qed

lemma read_count_back:
  assumes "n \<le> unat maximum" and "length pre + 4 + length rest < 2 ^ 64"
  shows "read_count maximum (reader_at pre (to_be_bytes (of_nat n :: u32) @ rest)) =
    Inr (n, reader_at (pre @ to_be_bytes (of_nat n :: u32)) rest)"
proof -
  have "n < 2 ^ 32" using assms(1) unsigned_less [of maximum, where 'a = nat] by simp
  then have u: "unat (of_nat n :: u32) = n" unfolding unat_of_nat by simp
  then have "\<not> maximum < of_nat n" using assms(1) by (simp add: word_less_nat_alt)
  then show ?thesis using assms(2) by (simp add: read_count_def wire_simps u)
qed

lemma read_count_only:
  assumes "read_count maximum (reader_at pre inp) = Inr (n, r)"
  shows "n \<le> unat maximum \<and>
    (\<exists>rest. inp = to_be_bytes (of_nat n :: u32) @ rest \<and> r = reader_at (pre @ to_be_bytes (of_nat n :: u32)) rest)"
  using assms by (auto simp: read_count_def and_then_eq_Inr not_less word_le_nat_alt split: if_splits dest!: wire_dests)

definition counted_ids :: "id32 list \<Rightarrow> bytes" where
  "counted_ids xs = to_be_bytes (of_nat (length xs) :: u32) @ concat (map to_be_bytes xs)"

interpretation ids: wire_format counted_ids snapshot_identifiers "\<lambda>xs. length xs \<le> 1048576"
proof
  fix xs and pre rest :: bytes
  assume "length xs \<le> 1048576" "length pre + length (counted_ids xs) + length rest < 2 ^ 64"
  then show "snapshot_identifiers (reader_at pre (counted_ids xs @ rest)) = Inr (xs, reader_at (pre @ counted_ids xs) rest)"
    by (simp add: snapshot_identifiers_def counted_ids_def read_count_back id32.read_many_back del: length_concat)
next
  fix pre inp xs r
  assume "snapshot_identifiers (reader_at pre inp) = Inr (xs, r)"
  then show "length xs \<le> 1048576 \<and> (\<exists>rest. inp = counted_ids xs @ rest \<and> r = reader_at (pre @ counted_ids xs) rest)"
    by (auto simp: snapshot_identifiers_def and_then_eq_Inr counted_ids_def
        dest!: read_count_only id32.read_many_only)
qed

lemma snapshot_bytes_ids:
  "snapshot_bytes p =
     [snap_tree_depth p] @
     to_be_bytes (of_nat (length (snap_assets p)) :: u32) @ concat (map encode_asset (snap_assets p)) @
     counted_ids (snap_commitments p) @ counted_ids (snap_spent_nullifiers p) @
     to_be_bytes (of_nat (length (snap_issued_supply p)) :: u32) @ concat (map encode_supply (snap_issued_supply p)) @
     counted_ids (snap_accepted_transactions p)"
  by (simp add: snapshot_bytes_def counted_ids_def)

definition supply_positive :: "ledger_snapshot \<Rightarrow> bool" where
  "supply_positive p = (\<forall>e \<in> set (snap_issued_supply p). snd e \<noteq> 0)"

lemma decode_snapshot_back:
  assumes "snapshot_ok p" "bounds_ok p" "supply_positive p"
  shows "decode_snapshot (snapshot_bytes p) = Inr p"
proof -
  have size: "length (snapshot_bytes p) < 2 ^ 64" using snapshot_bytes_bound [OF assms(2,1)] by simp
  have tickers: "\<forall>a \<in> set (snap_assets p). valid_ticker (ad_ticker a)" using assms(1) by (simp add: snapshot_ok_def)
  note b = assms(2) [unfolded bounds_ok_def] and pos = assms(3) [unfolded supply_positive_def]
  show ?thesis
    using size b pos tickers assms(1) unfolding snapshot_bytes_ids
    by (simp add: decode_snapshot_def wire_simps read_count_back read_assets_back ids.reads_back
        ids.reads_back_end supply_entry.read_many_back from_canonical_parts_self del: length_concat)
qed

lemma decode_snapshot_only:
  assumes "decode_snapshot bs = Inr p"
  shows "snapshot_ok p \<and> bounds_ok p \<and> supply_positive p \<and> bs = snapshot_bytes p"
  using assms
  by (auto simp: decode_snapshot_def and_then_eq_Inr snapshot_bytes_ids from_canonical_parts_Inr_iff
      bounds_ok_def supply_positive_def
      dest!: wire_dests finish_only read_count_only read_assets_only ids.accepts_only supply_entry.read_many_only)

subsection \<open>The checkpoint is exact\<close>

definition checkpoint_wf :: "sha256 \<Rightarrow> checkpoint \<Rightarrow> bool" where
  "checkpoint_wf sha c =
     (cp_sequence c \<noteq> 0 \<and> of_nat (length (snap_accepted_transactions (cp_snapshot c))) = cp_sequence c \<and>
      bounds_ok (cp_snapshot c) \<and> supply_positive (cp_snapshot c) \<and>
      (\<exists>s. from_snapshot (cp_snapshot c) = Inr s \<and> cp_state_id c = ledger_state_id sha (cp_genesis_id c) s))"

definition checkpoint_body :: "sha256 \<Rightarrow> checkpoint \<Rightarrow> bytes" where
  "checkpoint_body sha c =
     CHECKPOINT_MAGIC @ to_be_bytes CHECKPOINT_FORMAT_VERSION @ to_be_bytes SNAPSHOT_FORMAT_VERSION @
     to_be_bytes (cp_genesis_id c) @ to_be_bytes (cp_validation_context_id c) @
     to_be_bytes (cp_sequence c) @ to_be_bytes (cp_state_id c) @ to_be_bytes (cp_terminal_record_hash c) @
     to_be_bytes (of_nat (length (snapshot_bytes (cp_snapshot c))) :: u32) @
     to_be_bytes (hash_snapshot sha (snapshot_bytes (cp_snapshot c))) @ snapshot_bytes (cp_snapshot c)"

lemma length_checkpoint_body: "length (checkpoint_body sha c) = 180 + length (snapshot_bytes (cp_snapshot c))"
  by (simp add: checkpoint_body_def)

lemma encode_checkpoint_wf:
  assumes "checkpoint_wf sha c"
  shows "encode_checkpoint sha c =
    Inr (checkpoint_body sha c @ to_be_bytes (hash_checkpoint sha (checkpoint_body sha c)))"
proof -
  have "snapshot_ok (cp_snapshot c)" "bounds_ok (cp_snapshot c)"
    using assms by (auto simp: checkpoint_wf_def from_snapshot_Inr_iff)
  then have "encode_snapshot (cp_snapshot c) = Inr (snapshot_bytes (cp_snapshot c))"
    using snapshot_bytes_bound by (simp add: encode_snapshot_Inr_iff)
  then show ?thesis by (simp add: encode_checkpoint_def checkpoint_body_def Let_def)
qed

lemma encode_checkpoint_fits:
  assumes "checkpoint_wf sha c" and "encode_checkpoint sha c = Inr bs"
  shows "length bs \<le> MAX_CHECKPOINT_BYTES"
proof -
  have "length (snapshot_bytes (cp_snapshot c)) \<le> 134217728"
    using assms(1) by (intro snapshot_bytes_bound) (auto simp: checkpoint_wf_def from_snapshot_Inr_iff)
  then show ?thesis
    using encode_checkpoint_wf [OF assms(1)] assms(2) by (auto simp: length_checkpoint_body MAX_CHECKPOINT_BYTES_def)
qed

lemma decode_checkpoint_back:
  assumes wf: "checkpoint_wf sha c" and enc: "encode_checkpoint sha c = Inr bs"
  shows "decode_checkpoint sha bs = Inr c"
proof -
  let ?p = "cp_snapshot c" and ?body = "checkpoint_body sha c"
  obtain s where s: "from_snapshot ?p = Inr s" "cp_state_id c = ledger_state_id sha (cp_genesis_id c) s"
    using wf by (auto simp: checkpoint_wf_def)
  have ok: "snapshot_ok ?p" "bounds_ok ?p" "supply_positive ?p"
    using wf s(1) by (auto simp: checkpoint_wf_def from_snapshot_Inr_iff)
  note bound = snapshot_bytes_bound [OF ok(2,1)]
  have u: "unat (of_nat (length (snapshot_bytes ?p)) :: u32) = length (snapshot_bytes ?p)"
    using bound unfolding unat_of_nat by simp
  then have fits: "\<not> MAX_SNAPSHOT_BYTES < of_nat (length (snapshot_bytes ?p))"
    using bound by (simp add: word_less_nat_alt)
  have bs: "bs = ?body @ to_be_bytes (hash_checkpoint sha ?body)"
    using enc encode_checkpoint_wf [OF wf] by simp
  have parts: "take (length bs - 32) bs = ?body" "drop (length bs - 32) bs = to_be_bytes (hash_checkpoint sha ?body)"
    "\<not> length bs < 212" by (simp_all add: bs length_checkpoint_body)
  have seq: "cp_sequence c \<noteq> 0" "of_nat (length (snap_accepted_transactions ?p)) = cp_sequence c"
    using wf by (simp_all add: checkpoint_wf_def)
  have again: "encode_checkpoint sha \<lparr>cp_genesis_id = cp_genesis_id c,
      cp_validation_context_id = cp_validation_context_id c, cp_sequence = cp_sequence c, cp_state_id = cp_state_id c,
      cp_terminal_record_hash = cp_terminal_record_hash c, cp_snapshot = ?p\<rparr> = Inr bs"
    using enc by (cases c) simp
  show ?thesis
    unfolding decode_checkpoint_def checkpoint_limits parts Let_def
    using bound seq parts(3)
    by (simp add: checkpoint_body_def wire_simps u fits decode_snapshot_back [OF ok] s(1) s(2) [symmetric] again)
qed

lemma decode_checkpoint_only:
  assumes "decode_checkpoint sha bs = Inr c"
  shows "checkpoint_wf sha c \<and> encode_checkpoint sha c = Inr bs"
  using assms
  by (auto simp: decode_checkpoint_def Let_def and_then_eq_Inr checkpoint_wf_def
      split: if_splits dest!: decode_snapshot_only)

lemma checkpoint_from_snapshot_wf:
  assumes "checkpoint_from_snapshot sha anchor n h p = Inr c" and "supply_positive p"
  shows "checkpoint_wf sha c"
  using assms
  by (auto simp: checkpoint_from_snapshot_def checkpoint_wf_def and_then_eq_Inr validate_snapshot_bounds_iff
      split: if_splits)

lemma snapshot_supply_positive: "ledger_inv s \<Longrightarrow> snapshot s = Inr p \<Longrightarrow> supply_positive p"
  using snapshot_supply_nonzero unfolding supply_positive_def by blast

lemma from_snapshot_back: "ledger_inv s \<Longrightarrow> snapshot s = Inr p \<Longrightarrow> from_snapshot p = Inr s"
  using snapshot_record_ok [of s] restored_snapshot_record [of s]
  by (auto simp: from_snapshot_Inr_iff snapshot_Inr_iff)

text \<open>Which states have a checkpoint.\<close>

lemma checkpoint_from_snapshot_Inr:
  assumes "ledger_inv s" and "snapshot s = Inr p"
  shows "checkpoint_from_snapshot sha anchor n h p = Inr c \<longleftrightarrow>
    n \<noteq> 0 \<and> of_nat (length (snap_accepted_transactions p)) = n \<and> bounds_ok p \<and>
    c = \<lparr>cp_genesis_id = ca_genesis_id anchor, cp_validation_context_id = ca_validation_context_id anchor,
         cp_sequence = n, cp_state_id = ledger_state_id sha (ca_genesis_id anchor) s,
         cp_terminal_record_hash = h, cp_snapshot = p\<rparr>"
  using from_snapshot_back [OF assms]
  by (auto simp: checkpoint_from_snapshot_def and_then_eq_Inr validate_snapshot_bounds_iff)

subsection \<open>Properties\<close>

text \<open>The checkpoint codec is exact. The decoder accepts a byte string precisely when it is the encoding of
  a well-formed checkpoint (a canonical snapshot within the limits whose state id and sequence number are
  the recomputed ones), and returns that checkpoint.\<close>

lemma checkpoint_codec_exact:
  "decode_checkpoint sha bs = Inr c \<longleftrightarrow> checkpoint_wf sha c \<and> encode_checkpoint sha c = Inr bs"
  using decode_checkpoint_only decode_checkpoint_back by blast

text \<open>C30: A checkpoint restores the state it was taken from. Encoding the checkpoint of a well-formed ledger
  never panics, and decoding the bytes and restoring under the same chain anchor gives back that very
  ledger; under another genesis or validation context it is refused.\<close>

theorem checkpoint_restores_state:
  assumes "ledger_inv s" and "snapshot s = Inr p" and "checkpoint_from_snapshot sha anchor n h p = Inr c"
  shows "\<exists>bs. encode_checkpoint sha c = Inr bs \<and> length bs \<le> MAX_CHECKPOINT_BYTES \<and>
    decode_checkpoint sha bs = Inr c \<and>
    restore_state sha c anchor' =
      (if ca_genesis_id anchor' = ca_genesis_id anchor \<and>
          ca_validation_context_id anchor' = ca_validation_context_id anchor then Inr s
       else Inl (CpAnchorMismatch (ca_genesis_id anchor) (ca_genesis_id anchor')
         (ca_validation_context_id anchor) (ca_validation_context_id anchor')))"
proof -
  have wf: "checkpoint_wf sha c"
    by (rule checkpoint_from_snapshot_wf [OF assms(3) snapshot_supply_positive [OF assms(1,2)]])
  note c = assms(3) [unfolded checkpoint_from_snapshot_Inr [OF assms(1,2)]]
  show ?thesis
    using encode_checkpoint_wf [OF wf] encode_checkpoint_fits [OF wf] decode_checkpoint_back [OF wf]
      from_snapshot_back [OF assms(1,2)] c by (auto simp: restore_state_def Let_def)
qed

definition sample_cp_anchor :: chain_anchor where
  "sample_cp_anchor = \<lparr>ca_genesis_id = 3, ca_validation_context_id = 4, ca_proof_verifier_id = 5,
     ca_mint_policy_id = 6, ca_genesis_state_id = 7\<rparr>"

lemma sample_snapshot:
  "snapshot sample_minted = Inr (snapshot_record sample_minted)" "bounds_ok (snapshot_record sample_minted)"
  "length (snap_accepted_transactions (snapshot_record sample_minted)) = 1"
  using snapshot_record_ok [OF sample_minted_inv]
  by (simp_all add: snapshot_Inr_iff bounds_ok_def snapshot_record_def sample_minted_def ledger_effect_def sample_simps
      op_simps sorted_supplies_def sorted_assets_def sorted_list_of_fmap_def sorted_list_of_fset.rep_eq)

lemma sample_checkpoint:
  "\<exists>c. checkpoint_from_snapshot sha anchor 1 h (snapshot_record sample_minted) = Inr c \<and> checkpoint_wf sha c"
proof -
  obtain c where c: "checkpoint_from_snapshot sha anchor 1 h (snapshot_record sample_minted) = Inr c"
    using sample_snapshot by (simp add: checkpoint_from_snapshot_Inr [OF sample_minted_inv sample_snapshot(1)])
  with checkpoint_from_snapshot_wf [OF c] snapshot_supply_positive [OF sample_minted_inv sample_snapshot(1)]
  show ?thesis by blast
qed

theorem checkpoint_restores_state_witness:
  "\<exists>p c bs. snapshot sample_minted = Inr p \<and>
     checkpoint_from_snapshot (\<lambda>_. 0) sample_cp_anchor 1 5 p = Inr c \<and>
     encode_checkpoint (\<lambda>_. 0) c = Inr bs \<and> decode_checkpoint (\<lambda>_. 0) bs = Inr c \<and>
     restore_state (\<lambda>_. 0) c sample_cp_anchor = Inr sample_minted"
proof -
  obtain c where c: "checkpoint_from_snapshot (\<lambda>_. 0) sample_cp_anchor 1 5 (snapshot_record sample_minted) = Inr c"
    using sample_checkpoint by blast
  show ?thesis
    using checkpoint_restores_state [OF sample_minted_inv sample_snapshot(1) c, of sample_cp_anchor] sample_snapshot(1) c
    by auto
qed

end
