(* ===== verification/Checkpoint_Store.thy ===== *)
theory Checkpoint_Store
  imports Checkpoint "HOL-Library.List_Lexorder" "HOL-Library.Product_Lexorder"
begin

text \<open>
  Publication and discovery of checkpoint files, \<^verbatim>\<open>crates/noxis-storage/src/checkpoint_store.rs\<close>. A directory
  is the list of its entries in the order the file system enumerates them, so a theorem about every list
  covers every order. Publication takes the step at which the file system fails, if any, and whether
  the removal of the temporary file succeeds; a process that stops in the middle leaves the directory of
  a failure at that step without the removal.
\<close>

subsection \<open>File names\<close>

definition CHECKPOINT_FILE_EXTENSION :: bytes where "CHECKPOINT_FILE_EXTENSION = ascii ''nxcp''"
definition TEMPORARY_FILE_EXTENSION :: bytes where "TEMPORARY_FILE_EXTENSION = ascii ''tmp''"
definition MAX_DISCOVERED_CHECKPOINTS :: nat where "MAX_DISCOVERED_CHECKPOINTS = 1024"

text \<open>The formatting of numbers: decimal, padded to a width, and two hexadecimal digits for each byte.\<close>

fun decimal :: "nat \<Rightarrow> bytes" where
  "decimal n = (if n < 10 then [48 + of_nat n] else decimal (n div 10) @ [48 + of_nat (n mod 10)])"

declare decimal.simps [simp del]

definition zero_padded :: "nat \<Rightarrow> nat \<Rightarrow> bytes" where
  "zero_padded width n = replicate (width - length (decimal n)) 48 @ decimal n"

definition hex_digit :: "byte \<Rightarrow> byte" where
  "hex_digit d = (if d < 10 then 48 + d else 87 + d)"

definition encode_hex :: "bytes \<Rightarrow> bytes" where
  "encode_hex bs = concat (map (\<lambda>b. [hex_digit (b div 16), hex_digit (b mod 16)]) bs)"

definition final_name :: "checkpoint \<Rightarrow> bytes" where
  "final_name c =
     ascii ''checkpoint-'' @ zero_padded 20 (unat (cp_sequence c)) @ ascii ''-'' @
     encode_hex (to_be_bytes (cp_terminal_record_hash c)) @ ascii ''.'' @ CHECKPOINT_FILE_EXTENSION"

definition temporary_name :: "nat \<Rightarrow> nat \<Rightarrow> bytes" where
  "temporary_name process sequence =
     ascii ''.checkpoint-'' @ decimal process @ ascii ''-'' @ decimal sequence @ ascii ''.'' @
     TEMPORARY_FILE_EXTENSION"

definition strip_prefix :: "bytes \<Rightarrow> bytes \<Rightarrow> bytes option" where
  "strip_prefix prefix xs = (if take (length prefix) xs = prefix then Some (drop (length prefix) xs) else None)"

definition strip_suffix :: "bytes \<Rightarrow> bytes \<Rightarrow> bytes option" where
  "strip_suffix suffix xs =
     (if length suffix \<le> length xs \<and> drop (length xs - length suffix) xs = suffix
      then Some (take (length xs - length suffix) xs) else None)"

definition rsplit_once :: "byte \<Rightarrow> bytes \<Rightarrow> (bytes \<times> bytes) option" where
  "rsplit_once c xs =
     (if c \<in> set xs
      then Some (rev (tl (dropWhile (\<lambda>b. b \<noteq> c) (rev xs))), rev (takeWhile (\<lambda>b. b \<noteq> c) (rev xs)))
      else None)"

definition is_ascii_digit :: "byte \<Rightarrow> bool" where
  "is_ascii_digit b = (48 \<le> b \<and> b \<le> 57)"

definition is_ascii_hexdigit :: "byte \<Rightarrow> bool" where
  "is_ascii_hexdigit b = (is_ascii_digit b \<or> 65 \<le> b \<and> b \<le> 70 \<or> 97 \<le> b \<and> b \<le> 102)"

definition is_candidate_filename :: "bytes \<Rightarrow> bool" where
  "is_candidate_filename name =
     (if \<not> is_utf8 name then False
      else case strip_suffix (ascii ''.nxcp'') name of
        None \<Rightarrow> False
      | Some stem \<Rightarrow>
          (case rsplit_once 45 stem of
             None \<Rightarrow> False
           | Some (prefix, hash) \<Rightarrow>
               (case strip_prefix (ascii ''checkpoint-'') prefix of
                  None \<Rightarrow> False
                | Some sequence \<Rightarrow>
                    length sequence = 20 \<and> (\<forall>b \<in> set sequence. is_ascii_digit b) \<and>
                    length hash = 64 \<and> (\<forall>b \<in> set hash. is_ascii_hexdigit b))))"

subsection \<open>The directory\<close>

datatype dir_entry = File bytes | NotAFile

type_synonym directory = "(bytes \<times> dir_entry) list"

record checkpoint_receipt =
  cr_path :: bytes
  cr_checkpoint :: checkpoint

datatype checkpoint_store_error =
  CsEmptyDirectoryPath
| CsDirectoryIsNotDirectory
| CsIo string
| CsExistingFileConflict bytes
| CsInvalidPublishedCheckpoint bytes checkpoint_error
| CsTooManyCandidates nat
| CsEncodePanic checkpoint_error

text \<open>A store is its directory path.\<close>

definition CheckpointStore_new :: "bytes \<Rightarrow> checkpoint_store_error + bytes" where
  "CheckpointStore_new path = (if path = [] then Inl CsEmptyDirectoryPath else Inr path)"

fun collect_candidates ::
  "sha256 \<Rightarrow> checkpoint_receipt list \<Rightarrow> directory \<Rightarrow> checkpoint_store_error + checkpoint_receipt list" where
  "collect_candidates sha candidates [] = Inr candidates"
| "collect_candidates sha candidates ((name, entry) # rest) =
     (if \<not> is_candidate_filename name then collect_candidates sha candidates rest
      else case entry of
        NotAFile \<Rightarrow> collect_candidates sha candidates rest
      | File bs \<Rightarrow>
          if length bs > MAX_CHECKPOINT_BYTES then collect_candidates sha candidates rest
          else case decode_checkpoint sha bs of
            Inl _ \<Rightarrow> collect_candidates sha candidates rest
          | Inr c \<Rightarrow>
              let candidates' = candidates @ [\<lparr>cr_path = name, cr_checkpoint = c\<rparr>] in
              if length candidates' > MAX_DISCOVERED_CHECKPOINTS
              then Inl (CsTooManyCandidates MAX_DISCOVERED_CHECKPOINTS)
              else collect_candidates sha candidates' rest)"

text \<open>The order of the result: descending by sequence number, then ascending by path.\<close>

definition candidate_key :: "checkpoint_receipt \<Rightarrow> nat \<times> bytes" where
  "candidate_key r = (2 ^ 64 - unat (cp_sequence (cr_checkpoint r)), cr_path r)"

definition load_candidates ::
  "sha256 \<Rightarrow> directory option \<Rightarrow> checkpoint_store_error + checkpoint_receipt list" where
  "load_candidates sha dir =
     (case dir of
        None \<Rightarrow> Inr []
      | Some entries \<Rightarrow> and_then (collect_candidates sha [] entries) (\<lambda>cs. Inr (sort_key candidate_key cs)))"

definition verify_existing ::
  "sha256 \<Rightarrow> directory \<Rightarrow> bytes \<Rightarrow> checkpoint \<Rightarrow> checkpoint_store_error + checkpoint_receipt" where
  "verify_existing sha dir name expected =
     (case map_of dir name of
        None \<Rightarrow> Inl (CsIo ''inspect published checkpoint'')
      | Some NotAFile \<Rightarrow> Inl (CsIo ''read published checkpoint'')
      | Some (File bs) \<Rightarrow>
          if length bs > MAX_CHECKPOINT_BYTES then Inl (CsExistingFileConflict name)
          else and_then (map_err (CsInvalidPublishedCheckpoint name) (decode_checkpoint sha bs)) (\<lambda>c.
            if c \<noteq> expected then Inl (CsExistingFileConflict name)
            else Inr \<lparr>cr_path = name, cr_checkpoint = c\<rparr>))"

subsection \<open>Publication\<close>

datatype publish_fault = NoFault | EnsureFails | NotADirectory | CreateFails | WriteFails nat | SyncFails | LinkFails

definition remove_name :: "bytes \<Rightarrow> directory \<Rightarrow> directory" where
  "remove_name name dir = filter (\<lambda>e. fst e \<noteq> name) dir"

text \<open>The closure that writes the temporary file and links it; it returns the directory as it leaves it.\<close>

definition write_and_link ::
  "sha256 \<Rightarrow> publish_fault \<Rightarrow> bytes \<Rightarrow> checkpoint \<Rightarrow> bytes \<Rightarrow> directory \<Rightarrow>
     (checkpoint_store_error + checkpoint_receipt) \<times> directory" where
  "write_and_link sha fault temporary c encoded dir =
     (if fault = CreateFails \<or> map_of dir temporary \<noteq> None then (Inl (CsIo ''create temporary checkpoint''), dir)
      else case fault of
        WriteFails k \<Rightarrow> (Inl (CsIo ''write temporary checkpoint''), (temporary, File (take k encoded)) # dir)
      | SyncFails \<Rightarrow> (Inl (CsIo ''sync temporary checkpoint''), (temporary, File encoded) # dir)
      | _ \<Rightarrow>
          (let dir = (temporary, File encoded) # dir in
           if map_of dir (final_name c) \<noteq> None then (verify_existing sha dir (final_name c) c, dir)
           else if fault = LinkFails then (Inl (CsIo ''publish checkpoint without overwrite''), dir)
           else let dir = (final_name c, File encoded) # dir in (verify_existing sha dir (final_name c) c, dir)))"

definition publish ::
  "sha256 \<Rightarrow> publish_fault \<Rightarrow> bool \<Rightarrow> bytes \<Rightarrow> checkpoint \<Rightarrow> directory option \<Rightarrow>
     (checkpoint_store_error + checkpoint_receipt) \<times> directory option" where
  "publish sha fault removed temporary c dir =
     (if fault = EnsureFails then (Inl (CsIo ''create checkpoint directory''), dir)
      else if fault = NotADirectory then (Inl CsDirectoryIsNotDirectory, dir)
      else
        let dir = (case dir of None \<Rightarrow> [] | Some entries \<Rightarrow> entries) in
        case encode_checkpoint sha c of
          Inl e \<Rightarrow> (Inl (CsEncodePanic e), Some dir)
        | Inr encoded \<Rightarrow>
            if map_of dir (final_name c) \<noteq> None then (verify_existing sha dir (final_name c) c, Some dir)
            else case write_and_link sha fault temporary c encoded dir of
              (result, dir) \<Rightarrow>
                ((if removed \<or> map_of dir temporary = None then result
                  else and_then result (\<lambda>_. Inl (CsIo ''remove published temporary checkpoint''))),
                 Some (if removed then remove_name temporary dir else dir)))"

subsection \<open>Names\<close>

lemma decimal_digits: "\<forall>b \<in> set (decimal n). is_ascii_digit b"
proof (induction n rule: decimal.induct)
  case (1 n)
  have "is_ascii_digit (48 + of_nat d)" if "d < 10" for d
  proof -
    have "d \<in> {0, 1, 2, 3, 4, 5, 6, 7, 8, 9}" using that by auto
    then show ?thesis by (auto simp: is_ascii_digit_def)
  qed
  moreover have "n mod 10 < 10" by simp
  ultimately show ?case using 1 by (subst decimal.simps) (auto simp del: mod_less_divisor)
qed

lemma length_decimal: "n < 10 ^ Suc d \<Longrightarrow> length (decimal n) \<le> Suc d"
proof (induction d arbitrary: n)
  case 0
  then show ?case by (simp add: decimal.simps)
next
  case (Suc d)
  have "n div 10 < 10 ^ Suc d" using Suc.prems by (simp add: less_mult_imp_div_less mult.commute)
  with Suc.IH [OF this] show ?case by (subst decimal.simps) simp
qed

lemma zero_padded_u64:
  "length (zero_padded 20 (unat (w :: u64))) = 20" "\<forall>b \<in> set (zero_padded 20 n). is_ascii_digit b"
proof -
  have "unat w < 10 ^ Suc 19" using unsigned_less [of w, where 'a = nat] by simp
  from length_decimal [OF this] show "length (zero_padded 20 (unat w)) = 20" by (simp add: zero_padded_def)
  show "\<forall>b \<in> set (zero_padded 20 n). is_ascii_digit b"
    using decimal_digits [of n] by (auto simp: zero_padded_def is_ascii_digit_def)
qed

lemma hex_digits: "b \<in> set (encode_hex bs) \<Longrightarrow> is_ascii_hexdigit b" "length (encode_hex bs) = 2 * length bs"
proof -
  have "is_ascii_hexdigit (hex_digit d)" if "d < 16" for d
    using that by (auto simp: hex_digit_def is_ascii_hexdigit_def is_ascii_digit_def word_le_nat_alt word_less_nat_alt unat_word_ariths)
  moreover have "c div 16 < 16" "c mod 16 < 16" for c :: byte
    using unsigned_less [of c, where 'a = nat] by (simp_all add: word_less_nat_alt unat_div unat_mod)
  ultimately show "b \<in> set (encode_hex bs) \<Longrightarrow> is_ascii_hexdigit b" by (auto simp: encode_hex_def)
  show "length (encode_hex bs) = 2 * length bs" by (induction bs) (simp_all add: encode_hex_def)
qed

lemma rsplit_once_append: "c \<notin> set ys \<Longrightarrow> rsplit_once c (xs @ c # ys) = Some (xs, ys)"
proof -
  assume c: "c \<notin> set ys"
  have "takeWhile (\<lambda>b. b \<noteq> c) (rev ys @ c # rev xs) = rev ys @ takeWhile (\<lambda>b. b \<noteq> c) (c # rev xs)"
    by (rule takeWhile_append2) (use c in auto)
  moreover have "dropWhile (\<lambda>b. b \<noteq> c) (rev ys @ c # rev xs) = dropWhile (\<lambda>b. b \<noteq> c) (c # rev xs)"
    by (rule dropWhile_append2) (use c in auto)
  ultimately show ?thesis by (simp add: rsplit_once_def)
qed

lemma strip_suffix_Some: "strip_suffix suffix xs = Some ys \<Longrightarrow> ys @ suffix = xs"
  unfolding strip_suffix_def by (metis append_take_drop_id option.distinct(1) option.inject)

lemma strip_append [simp]: "strip_suffix ys (xs @ ys) = Some xs" "strip_prefix xs (xs @ ys) = Some ys"
  by (simp_all add: strip_suffix_def strip_prefix_def)

lemma hexdigit_facts: "is_ascii_hexdigit b \<Longrightarrow> b \<noteq> 45 \<and> is_ascii_graphic b"
  "is_ascii_digit b \<Longrightarrow> is_ascii_graphic b"
  by (auto simp: is_ascii_hexdigit_def is_ascii_digit_def is_ascii_graphic_def word_le_nat_alt)

lemma final_name_is_candidate: "is_candidate_filename (final_name c)"
proof -
  let ?seq = "zero_padded 20 (unat (cp_sequence c))" and ?hash = "encode_hex (to_be_bytes (cp_terminal_record_hash c))"
  have "is_utf8 (final_name c)"
    unfolding final_name_def using zero_padded_u64(2) hex_digits(1) hexdigit_facts
    by (intro ascii_is_utf8)
      (auto simp: CHECKPOINT_FILE_EXTENSION_def ascii_def is_ascii_graphic_def)
  moreover have "45 \<notin> set ?hash" using hex_digits(1) hexdigit_facts by blast
  then have "rsplit_once 45 ((ascii ''checkpoint-'' @ ?seq) @ 45 # ?hash) = Some (ascii ''checkpoint-'' @ ?seq, ?hash)"
    by (rule rsplit_once_append)
  moreover have "final_name c = ((ascii ''checkpoint-'' @ ?seq) @ 45 # ?hash) @ ascii ''.nxcp''"
    by (simp add: final_name_def CHECKPOINT_FILE_EXTENSION_def ascii_def)
  ultimately show ?thesis
    using zero_padded_u64 hex_digits by (simp only: is_candidate_filename_def strip_append option.case prod.case) simp
qed

lemma temporary_name_is_not: "\<not> is_candidate_filename (temporary_name process sequence)"
proof -
  have "rev (temporary_name process sequence) ! 1 = 109"
    by (simp add: temporary_name_def TEMPORARY_FILE_EXTENSION_def ascii_def)
  moreover have "rev (ys @ ascii ''.nxcp'') ! 1 = 99" for ys by (simp add: ascii_def)
  ultimately have other: "rev (ys @ ascii ''.nxcp'') ! 1 \<noteq> rev (temporary_name process sequence) ! 1" for ys by simp
  have "ys @ ascii ''.nxcp'' \<noteq> temporary_name process sequence" for ys
    using other [of ys] by (rule contrapos_nn) (simp only:)
  then have "strip_suffix (ascii ''.nxcp'') (temporary_name process sequence) = None"
    using strip_suffix_Some by (cases "strip_suffix (ascii ''.nxcp'') (temporary_name process sequence)") auto
  then show ?thesis by (simp add: is_candidate_filename_def)
qed

subsection \<open>Discovery\<close>

definition eligible :: "sha256 \<Rightarrow> bytes \<times> dir_entry \<Rightarrow> checkpoint_receipt option" where
  "eligible sha e =
     (case e of
        (name, File bs) \<Rightarrow>
          if is_candidate_filename name \<and> length bs \<le> MAX_CHECKPOINT_BYTES
          then case decode_checkpoint sha bs of Inl _ \<Rightarrow> None | Inr c \<Rightarrow> Some \<lparr>cr_path = name, cr_checkpoint = c\<rparr>
          else None
      | _ \<Rightarrow> None)"

abbreviation discovered :: "sha256 \<Rightarrow> directory \<Rightarrow> checkpoint_receipt list" where
  "discovered sha dir \<equiv> List.map_filter (eligible sha) dir"

lemma collect_candidates_eq:
  "length acc \<le> 1024 \<Longrightarrow> collect_candidates sha acc dir =
     (if length acc + length (discovered sha dir) \<le> 1024 then Inr (acc @ discovered sha dir)
      else Inl (CsTooManyCandidates 1024))"
proof (induction dir arbitrary: acc)
  case (Cons e dir)
  obtain name f where e: "e = (name, f)" by (cases e)
  show ?case
  proof (cases "eligible sha e")
    case None
    then have "collect_candidates sha acc (e # dir) = collect_candidates sha acc dir"
      by (auto simp: e eligible_def split: if_splits dir_entry.splits sum.splits)
    with Cons None show ?thesis by (simp add: map_filter_simps)
  next
    case (Some r)
    then have "collect_candidates sha acc (e # dir) =
      (if length (acc @ [r]) > 1024 then Inl (CsTooManyCandidates 1024) else collect_candidates sha (acc @ [r]) dir)"
      by (auto simp: e eligible_def MAX_DISCOVERED_CHECKPOINTS_def Let_def split: if_splits dir_entry.splits sum.splits)
    with Cons.IH [of "acc @ [r]"] Some show ?thesis by (simp add: map_filter_simps)
  qed
qed (simp add: map_filter_simps)

lemma load_candidates_Inr:
  assumes "load_candidates sha (Some dir) = Inr cs"
  shows "set cs = set (discovered sha dir)"
  using assms by (auto simp: load_candidates_def and_then_eq_Inr collect_candidates_eq split: if_splits)

lemma eligible_Some_iff:
  "eligible sha (name, f) = Some r \<longleftrightarrow>
     (\<exists>bs. f = File bs \<and> is_candidate_filename name \<and> length bs \<le> MAX_CHECKPOINT_BYTES \<and>
       decode_checkpoint sha bs = Inr (cr_checkpoint r) \<and> cr_path r = name)"
  by (cases r) (auto simp: eligible_def split: dir_entry.splits sum.splits)

lemma in_discovered_iff: "r \<in> set (discovered sha dir) \<longleftrightarrow> (\<exists>e \<in> set dir. eligible sha e = Some r)"
  by (induction dir) (auto simp: map_filter_simps split: option.splits)

lemma eligible_not_candidate [simp]: "\<not> is_candidate_filename name \<Longrightarrow> eligible sha (name, f) = None"
  by (auto simp: eligible_def split: dir_entry.splits)

lemma verify_existing_Inr_iff:
  "verify_existing sha dir name c = Inr r \<longleftrightarrow>
     r = \<lparr>cr_path = name, cr_checkpoint = c\<rparr> \<and>
     (\<exists>bs. map_of dir name = Some (File bs) \<and> length bs \<le> MAX_CHECKPOINT_BYTES \<and> decode_checkpoint sha bs = Inr c)"
  by (auto simp: verify_existing_def and_then_eq_Inr split: option.splits dir_entry.splits if_splits)

subsection \<open>Publication\<close>

abbreviation entries_of :: "directory option \<Rightarrow> directory" where
  "entries_of dir \<equiv> (case dir of None \<Rightarrow> [] | Some entries \<Rightarrow> entries)"

lemma candidates_Cons_other [simp]:
  "\<not> is_candidate_filename name \<Longrightarrow> set (discovered sha ((name, f) # dir)) = set (discovered sha dir)"
  by (simp add: map_filter_simps eligible_not_candidate)

lemma candidates_Cons_published:
  assumes "checkpoint_wf sha c" and "encode_checkpoint sha c = Inr bs"
  shows "set (discovered sha ((final_name c, File bs) # dir)) =
    insert \<lparr>cr_path = final_name c, cr_checkpoint = c\<rparr> (set (discovered sha dir))"
proof -
  have "eligible sha (final_name c, File bs) = Some \<lparr>cr_path = final_name c, cr_checkpoint = c\<rparr>"
    using decode_checkpoint_back [OF assms] encode_checkpoint_fits [OF assms] final_name_is_candidate
    by (simp add: eligible_Some_iff)
  then show ?thesis by (simp add: map_filter_simps)
qed

lemma candidates_remove [simp]:
  "\<not> is_candidate_filename name \<Longrightarrow> set (discovered sha (remove_name name dir)) = set (discovered sha dir)"
  by (auto simp: in_discovered_iff remove_name_def eligible_not_candidate)
    (metis eligible_not_candidate option.distinct(1) prod.collapse)

lemma map_of_remove: "map_of (remove_name name dir) n = (if n = name then None else map_of dir n)"
  by (induction dir) (auto simp: remove_name_def)

lemma verify_existing_candidate:
  assumes "verify_existing sha dir (final_name c) c = Inr r"
  shows "r = \<lparr>cr_path = final_name c, cr_checkpoint = c\<rparr> \<and> r \<in> set (discovered sha dir)"
proof -
  from assms obtain bs where r: "r = \<lparr>cr_path = final_name c, cr_checkpoint = c\<rparr>"
    "(final_name c, File bs) \<in> set dir" "length bs \<le> MAX_CHECKPOINT_BYTES" "decode_checkpoint sha bs = Inr c"
    by (auto simp: verify_existing_Inr_iff dest: map_of_SomeD)
  then have "eligible sha (final_name c, File bs) = Some r"
    using final_name_is_candidate by (simp add: eligible_Some_iff)
  with r(1,2) show ?thesis by (auto simp: in_discovered_iff)
qed

text \<open>What the directory looks like after the temporary file has been written, and perhaps linked.\<close>

lemma write_and_link_eq:
  assumes wf: "checkpoint_wf sha c" and enc: "encode_checkpoint sha c = Inr bs"
    and absent: "map_of dir (final_name c) = None" and temp: "\<not> is_candidate_filename temporary"
  shows "write_and_link sha fault temporary c bs dir =
    (if fault = CreateFails \<or> map_of dir temporary \<noteq> None then (Inl (CsIo ''create temporary checkpoint''), dir)
     else case fault of
       WriteFails k \<Rightarrow> (Inl (CsIo ''write temporary checkpoint''), (temporary, File (take k bs)) # dir)
     | SyncFails \<Rightarrow> (Inl (CsIo ''sync temporary checkpoint''), (temporary, File bs) # dir)
     | LinkFails \<Rightarrow> (Inl (CsIo ''publish checkpoint without overwrite''), (temporary, File bs) # dir)
     | _ \<Rightarrow> (Inr \<lparr>cr_path = final_name c, cr_checkpoint = c\<rparr>,
              (final_name c, File bs) # (temporary, File bs) # dir))"
proof -
  have "temporary \<noteq> final_name c" using temp final_name_is_candidate by auto
  moreover have "verify_existing sha ((final_name c, File bs) # d) (final_name c) c =
      Inr \<lparr>cr_path = final_name c, cr_checkpoint = c\<rparr>" for d
    using decode_checkpoint_back [OF wf enc] encode_checkpoint_fits [OF wf enc] by (simp add: verify_existing_Inr_iff)
  ultimately show ?thesis
    using absent by (simp add: write_and_link_def Let_def split: publish_fault.split)
qed

lemma publish_outcome:
  assumes wf: "checkpoint_wf sha c"
    and run: "publish sha fault removed (temporary_name process n) c dir = (result, dir')"
  shows "(\<forall>name f. map_of (entries_of dir) name = Some f \<longrightarrow> name \<noteq> temporary_name process n \<longrightarrow>
      map_of (entries_of dir') name = Some f) \<and>
    set (discovered sha (entries_of dir')) \<in>
      {set (discovered sha (entries_of dir)),
       insert \<lparr>cr_path = final_name c, cr_checkpoint = c\<rparr> (set (discovered sha (entries_of dir)))} \<and>
    (\<forall>r. result = Inr r \<longrightarrow> r = \<lparr>cr_path = final_name c, cr_checkpoint = c\<rparr> \<and>
      r \<in> set (discovered sha (entries_of dir'))) \<and>
    (fault = NoFault \<longrightarrow> removed \<longrightarrow> map_of (entries_of dir) (final_name c) = None \<longrightarrow>
      map_of (entries_of dir) (temporary_name process n) = None \<longrightarrow> is_ok result)"
proof -
  let ?t = "temporary_name process n" and ?r = "\<lparr>cr_path = final_name c, cr_checkpoint = c\<rparr>"
  obtain bs where enc: "encode_checkpoint sha c = Inr bs" using encode_checkpoint_wf [OF wf] by blast
  note temp = temporary_name_is_not [of process n]
  show ?thesis
  proof (cases "fault = EnsureFails \<or> fault = NotADirectory \<or> map_of (entries_of dir) (final_name c) \<noteq> None")
    case True
    then have "entries_of dir' = entries_of dir"
      and "result = Inr r \<Longrightarrow> verify_existing sha (entries_of dir) (final_name c) c = Inr r" for r
      using run by (auto simp: publish_def enc Let_def split: if_splits)
    with True show ?thesis
      using verify_existing_candidate [of sha "entries_of dir" c] by auto
  next
    case False
    then have absent: "map_of (entries_of dir) (final_name c) = None" by simp
    obtain res d where wl: "write_and_link sha fault ?t c bs (entries_of dir) = (res, d)" by fastforce
    have out: "result = (if removed \<or> map_of d ?t = None then res
         else and_then res (\<lambda>_. Inl (CsIo ''remove published temporary checkpoint'')))"
      "entries_of dir' = (if removed then remove_name ?t d else d)"
      using run False by (auto simp: publish_def enc Let_def wl)
    have "d = entries_of dir \<and> (\<exists>e. res = Inl e) \<and> (fault = CreateFails \<or> map_of (entries_of dir) ?t \<noteq> None) \<or>
      (\<exists>x. d = (?t, File x) # entries_of dir \<and> (\<exists>e. res = Inl e)) \<and> fault \<noteq> NoFault \<or>
      d = (final_name c, File bs) # (?t, File bs) # entries_of dir \<and> res = Inr ?r"
      using wl unfolding write_and_link_eq [OF wf enc absent temp]
      by (auto split: if_splits publish_fault.splits)
    then consider (nothing) e where "d = entries_of dir" "res = Inl e" "fault = CreateFails \<or> map_of (entries_of dir) ?t \<noteq> None"
      | (written) e x where "d = (?t, File x) # entries_of dir" "res = Inl e" "fault \<noteq> NoFault"
      | (linked) "d = (final_name c, File bs) # (?t, File bs) # entries_of dir" "res = Inr ?r"
      by blast
    then show ?thesis
    proof cases
      case nothing
      then show ?thesis using out temp by (auto simp: map_of_remove)
    next
      case written
      then show ?thesis using out temp by (auto simp: map_of_remove)
    next
      case linked
      then have "set (discovered sha d) = insert ?r (set (discovered sha (entries_of dir)))"
        using candidates_Cons_published [OF wf enc, of "(?t, File bs) # entries_of dir"] temp by simp
      then show ?thesis using linked out temp absent by (auto simp: map_of_remove is_ok_def)
    qed
  qed
qed


lemma publish_fresh:
  assumes "checkpoint_wf sha c" and "encode_checkpoint sha c = Inr bs"
  shows "publish sha NoFault True (temporary_name process n) c None =
    (Inr \<lparr>cr_path = final_name c, cr_checkpoint = c\<rparr>, Some [(final_name c, File bs)])"
proof -
  have "temporary_name process n \<noteq> final_name c"
    using temporary_name_is_not final_name_is_candidate by metis
  then show ?thesis
    using write_and_link_eq [OF assms, of "[]" "temporary_name process n" NoFault] temporary_name_is_not
    by (simp add: publish_def assms(2) remove_name_def)
qed


end
