(* ===== verification/Persistent_Ledger.thy ===== *)
theory Persistent_Ledger
  imports Record_Log Checkpoint_Store
begin

text \<open>
  The durable single-process ledger of \<^verbatim>\<open>crates/noxis-storage/src/lib.rs\<close>: a ledger state rebuilt by
  replaying the state-record log, transactions that are applied to a candidate and appended before they
  become visible, and checkpoints that recovery verifies against the replayed history. The coordinator is a
  record with the content of its log file inside; every operation that writes takes the I/O outcome.
\<close>

subsection \<open>State, errors and receipts\<close>

record persistent_ledger =
  pl_state :: ledger_state
  pl_anchor :: chain_anchor
  pl_validation_context :: validation_context
  pl_record_log :: bytes
  pl_chain :: record_chain
  pl_terminal_record_hash :: "record_hash option"
  pl_recovered_checkpoint_sequence :: "u64 option"
  pl_writes_available :: bool

record persistent_commit_receipt =
  pr_sequence :: u64
  pr_transaction_intent_id :: transaction_intent_id
  pr_record_hash :: record_hash
  pr_state_id :: state_id
  pr_log_offset :: nat

record persistent_ledger_status =
  ps_genesis_id :: genesis_id
  ps_validation_context_id :: validation_context_id
  ps_sequence :: u64
  ps_recovered_checkpoint_sequence :: "u64 option"
  ps_state_id :: state_id

text \<open>The last constructor stands for the panic of \<^verbatim>\<open>LedgerState::snapshot\<close> on an invalid ledger.\<close>

datatype persistent_ledger_error =
  PlRecordLog record_log_error
| PlRecordChain record_error
| PlCodec codec_error
| PlLedger ledger_error
| PlCheckpoint checkpoint_error
| PlCheckpointStore checkpoint_store_error
| PlInvalidValidationContext validation_context_error
| PlCheckpointAtGenesis
| PlAmbiguousCheckpoints u64 bytes bytes
| PlInvalidChainAnchor state_id state_id
| PlInvalidChainAnchorContext validation_context_id validation_context_id
| PlValidationContextMismatch validation_context_id proof_verifier_id proof_verifier_id mint_policy_id mint_policy_id
| PlTransactionCryptoSuiteMismatch crypto_suite crypto_suite
| PlResultingStateIdMismatch state_id state_id
| PlWriteUnavailable
| PlSnapshotPanic ledger_snapshot_error

subsection \<open>Checks\<close>

definition ensure_validation_components ::
  "chain_anchor \<Rightarrow> proof_verifier \<Rightarrow> mint_policy \<Rightarrow> persistent_ledger_error + unit" where
  "ensure_validation_components anchor v mp =
     (if pv_id v \<noteq> ca_proof_verifier_id anchor \<or> mp_id mp \<noteq> ca_mint_policy_id anchor
      then Inl (PlValidationContextMismatch (ca_validation_context_id anchor) (ca_proof_verifier_id anchor) (pv_id v)
             (ca_mint_policy_id anchor) (mp_id mp))
      else Inr ())"

definition ensure_transaction_suite ::
  "validation_context \<Rightarrow> crypto_suite \<Rightarrow> persistent_ledger_error + unit" where
  "ensure_transaction_suite vc suite =
     (if suite = vc_crypto_suite vc then Inr ()
      else Inl (PlTransactionCryptoSuiteMismatch (vc_crypto_suite vc) suite))"

definition insert_candidate ::
  "(u64 \<rightharpoonup> checkpoint_receipt) \<Rightarrow> checkpoint_receipt \<Rightarrow> persistent_ledger_error + (u64 \<rightharpoonup> checkpoint_receipt)" where
  "insert_candidate by_sequence candidate =
     (let n = cp_sequence (cr_checkpoint candidate) in
      case by_sequence n of
        None \<Rightarrow> Inr (by_sequence(n \<mapsto> candidate))
      | Some entry \<Rightarrow>
          if cr_checkpoint entry = cr_checkpoint candidate then Inr by_sequence
          else Inl (PlAmbiguousCheckpoints n (cr_path entry) (cr_path candidate)))"

definition checkpoint_candidates_by_sequence ::
  "checkpoint_receipt list option \<Rightarrow> persistent_ledger_error + (u64 \<rightharpoonup> checkpoint_receipt)" where
  "checkpoint_candidates_by_sequence candidates =
     try_fold insert_candidate Map.empty (case candidates of None \<Rightarrow> [] | Some cs \<Rightarrow> cs)"

definition restore_verified_checkpoint_at_record ::
  "sha256 \<Rightarrow> checkpoint_receipt \<Rightarrow> transaction_record \<Rightarrow> ledger_state \<Rightarrow> chain_anchor \<Rightarrow>
     persistent_ledger_error + ledger_state option" where
  "restore_verified_checkpoint_at_record sha candidate r replayed anchor =
     (let c = cr_checkpoint candidate in
      if cp_sequence c \<noteq> rec_sequence r \<or> cp_terminal_record_hash c \<noteq> rec_record_hash r \<or>
         cp_state_id c \<noteq> rec_resulting_state_id r
      then Inr None
      else case restore_state sha c anchor of
        Inl _ \<Rightarrow> Inr None
      | Inr restored_state \<Rightarrow>
          and_then (map_err PlSnapshotPanic (snapshot restored_state)) (\<lambda>p.
          and_then (map_err PlSnapshotPanic (snapshot replayed)) (\<lambda>q.
          Inr (if p = q then Some restored_state else None))))"

subsection \<open>Opening\<close>

text \<open>The part of the replay loop that checks one record against the state and the chain so far.\<close>

definition verify_record ::
  "sha256 \<Rightarrow> chain_anchor \<Rightarrow> validation_context \<Rightarrow> proof_verifier \<Rightarrow> mint_policy \<Rightarrow>
     ledger_state \<times> record_chain \<Rightarrow> transaction_record \<Rightarrow> persistent_ledger_error + ledger_state \<times> record_chain" where
  "verify_record sha anchor vc v mp sc r =
     (case sc of (s, chain) \<Rightarrow>
        and_then (map_err PlRecordChain (chain_apply chain r)) (\<lambda>chain'.
        and_then (map_err PlCodec (decode_transaction (rec_transaction_bytes r))) (\<lambda>tx.
        and_then (ensure_transaction_suite vc (tx_suite tx)) (\<lambda>_.
        and_then (map_err PlLedger (ledger_apply sha s tx v mp
          \<lparr>tvc_genesis_id = ca_genesis_id anchor, tvc_validation_context_id = ca_validation_context_id anchor,
           tvc_transaction_intent_id = rec_transaction_intent_id r, tvc_state_id = rec_previous_state_id r\<rparr>))
          (\<lambda>next_state.
        let computed = ledger_state_id sha (ca_genesis_id anchor) next_state in
        if rec_resulting_state_id r \<noteq> computed
        then Inl (PlResultingStateIdMismatch (rec_resulting_state_id r) computed)
        else Inr (next_state, chain'))))))"

text \<open>The variables of the replay loop.\<close>

record replay_state =
  ry_state :: ledger_state
  ry_chain :: record_chain
  ry_terminal :: "record_hash option"
  ry_recovered :: "u64 option"
  ry_candidates :: "u64 \<rightharpoonup> checkpoint_receipt"

definition replay_record ::
  "sha256 \<Rightarrow> chain_anchor \<Rightarrow> validation_context \<Rightarrow> proof_verifier \<Rightarrow> mint_policy \<Rightarrow> replay_state \<Rightarrow> stored_record \<Rightarrow>
     persistent_ledger_error + replay_state" where
  "replay_record sha anchor vc v mp st stored =
     (let r = sr_record stored in
      and_then (verify_record sha anchor vc v mp (ry_state st, ry_chain st) r) (\<lambda>(next_state, chain).
      let st = st\<lparr>ry_chain := chain, ry_terminal := Some (rec_record_hash r)\<rparr> in
      case ry_candidates st (rec_sequence r) of
        None \<Rightarrow> Inr (st\<lparr>ry_state := next_state\<rparr>)
      | Some candidate \<Rightarrow>
          let st = st\<lparr>ry_candidates := (ry_candidates st)(rec_sequence r := None)\<rparr> in
          and_then (restore_verified_checkpoint_at_record sha candidate r next_state anchor) (\<lambda>restored.
          case restored of
            Some s \<Rightarrow> Inr (st\<lparr>ry_state := s, ry_recovered := Some (rec_sequence r)\<rparr>)
          | None \<Rightarrow> Inr (st\<lparr>ry_state := next_state\<rparr>))))"

definition check_open ::
  "sha256 \<Rightarrow> ledger_state \<Rightarrow> chain_anchor \<Rightarrow> validation_context \<Rightarrow> proof_verifier \<Rightarrow> mint_policy \<Rightarrow>
     persistent_ledger_error + unit" where
  "check_open sha initial anchor vc v mp =
     and_then (map_err PlInvalidValidationContext (context_validate vc)) (\<lambda>_.
     if context_id sha vc \<noteq> ca_validation_context_id anchor \<or> vc_proof_verifier_id vc \<noteq> ca_proof_verifier_id anchor \<or>
        vc_mint_policy_id vc \<noteq> ca_mint_policy_id anchor
     then Inl (PlInvalidChainAnchorContext (ca_validation_context_id anchor) (context_id sha vc))
     else and_then (ensure_validation_components anchor v mp) (\<lambda>_.
       let computed = ledger_state_id sha (ca_genesis_id anchor) initial in
       if computed \<noteq> ca_genesis_state_id anchor
       then Inl (PlInvalidChainAnchor (ca_genesis_state_id anchor) computed)
       else Inr ()))"

text \<open>
  A store is present when the directory argument is; the directory itself may not exist.
\<close>

definition open_internal ::
  "sha256 \<Rightarrow> bytes \<Rightarrow> ledger_state \<Rightarrow> chain_anchor \<Rightarrow> validation_context \<Rightarrow> proof_verifier \<Rightarrow> mint_policy \<Rightarrow>
     directory option option \<Rightarrow> (persistent_ledger_error + persistent_ledger) \<times> bytes" where
  "open_internal sha file initial anchor vc v mp store =
     (case and_then (check_open sha initial anchor vc v mp) (\<lambda>_.
         and_then (map_err PlRecordLog (record_scan_recoverable_tail sha file)) (\<lambda>(records, tail).
         and_then (case store of None \<Rightarrow> Inr None
             | Some dir \<Rightarrow> map_err PlCheckpointStore (and_then (load_candidates sha dir) (\<lambda>cs. Inr (Some cs)))) (\<lambda>found.
         and_then (checkpoint_candidates_by_sequence found) (\<lambda>candidates.
         and_then (try_fold (replay_record sha anchor vc v mp)
             \<lparr>ry_state = initial, ry_chain = RecordChain_new (ca_genesis_state_id anchor), ry_terminal = None,
              ry_recovered = None, ry_candidates = candidates\<rparr> records) (\<lambda>st.
         Inr (st, tail)))))) of
        Inl e \<Rightarrow> (Inl e, file)
      | Inr (st, tail) \<Rightarrow>
          (case (case tail of None \<Rightarrow> (Inr (), file)
                 | Some t \<Rightarrow> record_truncate_verified_incomplete_tail sha file t) of
             (Inl e, file) \<Rightarrow> (Inl (PlRecordLog e), file)
           | (Inr _, file) \<Rightarrow>
               (Inr \<lparr>pl_state = ry_state st, pl_anchor = anchor, pl_validation_context = vc, pl_record_log = file,
                     pl_chain = ry_chain st, pl_terminal_record_hash = ry_terminal st,
                     pl_recovered_checkpoint_sequence = ry_recovered st, pl_writes_available = True\<rparr>, file)))"

definition PersistentLedger_open ::
  "sha256 \<Rightarrow> bytes \<Rightarrow> ledger_state \<Rightarrow> chain_anchor \<Rightarrow> validation_context \<Rightarrow> proof_verifier \<Rightarrow> mint_policy \<Rightarrow>
     (persistent_ledger_error + persistent_ledger) \<times> bytes" where
  "PersistentLedger_open sha file initial anchor vc v mp = open_internal sha file initial anchor vc v mp None"

definition open_with_checkpoints ::
  "sha256 \<Rightarrow> bytes \<Rightarrow> bytes \<Rightarrow> directory option \<Rightarrow> ledger_state \<Rightarrow> chain_anchor \<Rightarrow> validation_context \<Rightarrow> proof_verifier \<Rightarrow>
     mint_policy \<Rightarrow> (persistent_ledger_error + persistent_ledger) \<times> bytes" where
  "open_with_checkpoints sha file path dir initial anchor vc v mp =
     (case CheckpointStore_new path of
        Inl e \<Rightarrow> (Inl (PlCheckpointStore e), file)
      | Inr _ \<Rightarrow> open_internal sha file initial anchor vc v mp (Some dir))"

subsection \<open>Operations\<close>

definition pl_status :: "persistent_ledger \<Rightarrow> persistent_ledger_status" where
  "pl_status pl =
     \<lparr>ps_genesis_id = ca_genesis_id (pl_anchor pl), ps_validation_context_id = ca_validation_context_id (pl_anchor pl),
      ps_sequence = rc_current_sequence (pl_chain pl),
      ps_recovered_checkpoint_sequence = pl_recovered_checkpoint_sequence pl,
      ps_state_id = rc_current_state_id (pl_chain pl)\<rparr>"

definition publish_checkpoint ::
  "sha256 \<Rightarrow> publish_fault \<Rightarrow> bool \<Rightarrow> bytes \<Rightarrow> persistent_ledger \<Rightarrow> bytes \<Rightarrow> directory option \<Rightarrow>
     (persistent_ledger_error + checkpoint_receipt) \<times> directory option" where
  "publish_checkpoint sha fault removed temporary pl path dir =
     (case and_then (ok_or (pl_terminal_record_hash pl) PlCheckpointAtGenesis) (\<lambda>terminal.
         and_then (map_err PlSnapshotPanic (snapshot (pl_state pl))) (\<lambda>p.
         and_then (map_err PlCheckpoint (checkpoint_from_snapshot sha (pl_anchor pl)
             (rc_current_sequence (pl_chain pl)) terminal p)) (\<lambda>c.
         and_then (map_err PlCheckpointStore (CheckpointStore_new path)) (\<lambda>_. Inr c)))) of
        Inl e \<Rightarrow> (Inl e, dir)
      | Inr c \<Rightarrow>
          (case publish sha fault removed temporary c dir of
             (result, dir) \<Rightarrow> (map_err PlCheckpointStore result, dir)))"

text \<open>What \<^verbatim>\<open>apply\<close> does before it touches the log: the candidate state, its record and the next chain.\<close>

definition prepare_record ::
  "sha256 \<Rightarrow> persistent_ledger \<Rightarrow> transaction \<Rightarrow> proof_verifier \<Rightarrow> mint_policy \<Rightarrow>
     persistent_ledger_error + ledger_state \<times> transaction_record \<times> record_chain" where
  "prepare_record sha pl tx v mp =
     and_then (ensure_validation_components (pl_anchor pl) v mp) (\<lambda>_.
     and_then (ensure_transaction_suite (pl_validation_context pl) (tx_suite tx)) (\<lambda>_.
     and_then (map_err PlCodec (encode_transaction tx)) (\<lambda>bs.
     and_then (map_err PlCodec (transaction_intent_id sha tx)) (\<lambda>intent_id.
     and_then (map_err PlLedger (ledger_apply sha (pl_state pl) tx v mp
       \<lparr>tvc_genesis_id = ca_genesis_id (pl_anchor pl),
        tvc_validation_context_id = ca_validation_context_id (pl_anchor pl),
        tvc_transaction_intent_id = intent_id, tvc_state_id = rc_current_state_id (pl_chain pl)\<rparr>)) (\<lambda>candidate.
     and_then (map_err PlRecordChain (TransactionRecord_new sha (rc_next_sequence (pl_chain pl))
       (rc_current_state_id (pl_chain pl)) bs
       (ledger_state_id sha (ca_genesis_id (pl_anchor pl)) candidate))) (\<lambda>r.
     and_then (map_err PlRecordChain (chain_apply (pl_chain pl) r)) (\<lambda>candidate_chain.
     Inr (candidate, r, candidate_chain))))))))"

definition pl_apply ::
  "sha256 \<Rightarrow> io_outcome \<Rightarrow> persistent_ledger \<Rightarrow> transaction \<Rightarrow> proof_verifier \<Rightarrow> mint_policy \<Rightarrow>
     (persistent_ledger_error + persistent_commit_receipt) \<times> persistent_ledger" where
  "pl_apply sha io pl tx v mp =
     (if \<not> pl_writes_available pl then (Inl PlWriteUnavailable, pl)
      else case prepare_record sha pl tx v mp of
          Inl e \<Rightarrow> (Inl e, pl)
        | Inr (candidate, r, candidate_chain) \<Rightarrow>
            (case append_record sha io (pl_record_log pl) r of
               (Inl e, file) \<Rightarrow> (Inl (PlRecordLog e), pl\<lparr>pl_record_log := file, pl_writes_available := False\<rparr>)
             | (Inr offset, file) \<Rightarrow>
                 (Inr \<lparr>pr_sequence = rec_sequence r, pr_transaction_intent_id = rec_transaction_intent_id r,
                       pr_record_hash = rec_record_hash r, pr_state_id = rec_resulting_state_id r,
                       pr_log_offset = offset\<rparr>,
                  pl\<lparr>pl_record_log := file, pl_state := candidate, pl_chain := candidate_chain,
                     pl_terminal_record_hash := Some (rec_record_hash r)\<rparr>)))"

subsection \<open>Verified histories\<close>

text \<open>Replaying records is a machine that follows the abstract ledger on the transactions they carry.\<close>

definition record_transaction :: "transaction_record \<Rightarrow> transaction" where
  "record_transaction r = projr (decode_transaction (rec_transaction_bytes r))"

definition ledger_at :: "sha256 \<Rightarrow> chain_anchor \<Rightarrow> ledger_state \<times> record_chain \<Rightarrow> bool" where
  "ledger_at sha anchor sc =
     (ledger_inv (fst sc) \<and> ledger_state_id sha (ca_genesis_id anchor) (fst sc) = rc_current_state_id (snd sc))"

lemma decode_typed: "decode_transaction bs = Inr tx \<Longrightarrow> tx_typed tx"
  using decode_transaction_only by blast

lemma verify_record_Inr:
  assumes "verify_record sha anchor vc v mp (s, c) r = Inr (s', c')"
  obtains tx where "decode_transaction (rec_transaction_bytes r) = Inr tx" "record_transaction r = tx" "tx_typed tx"
    "tx_suite tx = vc_crypto_suite vc" "chain_apply c r = Inr c'"
    "ledger_apply sha s tx v mp
      \<lparr>tvc_genesis_id = ca_genesis_id anchor, tvc_validation_context_id = ca_validation_context_id anchor,
       tvc_transaction_intent_id = rec_transaction_intent_id r, tvc_state_id = rec_previous_state_id r\<rparr> = Inr s'"
    "rec_resulting_state_id r = ledger_state_id sha (ca_genesis_id anchor) s'"
  using assms
  by (auto simp: verify_record_def and_then_eq_Inr Let_def ensure_transaction_suite_def record_transaction_def
      split: if_splits dest: decode_typed)

lemma chain_apply_Inr:
  "chain_apply c r = Inr c' \<Longrightarrow> rec_sequence r = rc_next_sequence c \<and> rec_previous_state_id r = rc_current_state_id c \<and>
     rc_current_state_id c' = rec_resulting_state_id r \<and>
     unat (rc_next_sequence c') = unat (rc_next_sequence c) + 1"
  by (auto simp: chain_apply_def and_then_eq_Inr checked_add_Some_iff split: if_splits)

lemma chain_apply_sequence: "chain_apply c r = Inr c' \<Longrightarrow> rc_current_sequence c' = rec_sequence r"
  by (auto simp: chain_apply_def and_then_eq_Inr checked_add_def rc_current_sequence_def split: if_splits)

interpretation history: refined_machine "verify_record sha anchor vc v mp" "ledger_at sha anchor" "\<lambda>_. True"
  "\<lambda>sc. abs_of (fst sc)" "\<lambda>a r. spec_enabled a (record_transaction r)" "\<lambda>a r. spec_step a (record_transaction r)"
  for sha anchor vc v mp
proof unfold_locales
  fix sc r sc'
  assume at: "ledger_at sha anchor sc" and run: "verify_record sha anchor vc v mp sc r = Inr sc'"
  obtain s c s' c' where sc: "sc = (s, c)" "sc' = (s', c')" by (metis surj_pair)
  note step = run [unfolded sc]
  from step obtain tx where tx: "record_transaction r = tx" "tx_typed tx" "chain_apply c r = Inr c'"
    "ledger_apply sha s tx v mp
      \<lparr>tvc_genesis_id = ca_genesis_id anchor, tvc_validation_context_id = ca_validation_context_id anchor,
       tvc_transaction_intent_id = rec_transaction_intent_id r, tvc_state_id = rec_previous_state_id r\<rparr> = Inr s'"
    "rec_resulting_state_id r = ledger_state_id sha (ca_genesis_id anchor) s'"
    by (rule verify_record_Inr)
  have inv: "ledger_inv s" using at by (simp add: ledger_at_def sc)
  with tx(4) have en: "spec_enabled (abs_of s) tx" "fits_tree s tx" "s' = ledger_effect s tx"
    by (simp_all add: ledger_apply_Inr_iff)
  have "ledger_inv s'" using ledger_effect_inv [OF inv en(1,2) tx(2)] en(3) by simp
  then show "ledger_at sha anchor sc'" using chain_apply_Inr [OF tx(3)] tx(5) by (simp add: ledger_at_def sc)
  show "spec_enabled (abs_of (fst sc)) (record_transaction r) \<and>
      abs_of (fst sc') = spec_step (abs_of (fst sc)) (record_transaction r)"
    using en tx(1) abs_of_effect by (simp add: sc)
qed

lemma verified_sequences:
  assumes "try_fold (verify_record sha anchor vc v mp) (s, c) rs = Inr (s', c')"
  shows "\<forall>i < length rs. unat (rec_sequence (rs ! i)) = unat (rc_next_sequence c) + i"
    and "unat (rc_next_sequence c') = unat (rc_next_sequence c) + length rs"
proof -
  have "try_fold chain_apply c rs = Inr c'"
    using assms
  proof (induction rs arbitrary: s c)
    case (Cons r rs)
    then obtain s1 c1 where v: "verify_record sha anchor vc v mp (s, c) r = Inr (s1, c1)"
      and rest: "try_fold (verify_record sha anchor vc v mp) (s1, c1) rs = Inr (s', c')" by (auto simp: and_then_eq_Inr)
    from v have "chain_apply c r = Inr c1" by (rule verify_record_Inr)
    with Cons.IH [OF rest] show ?case by simp
  qed simp
  from guarded_links [OF chain.run_refines [OF this, simplified]]
  show "\<forall>i < length rs. unat (rec_sequence (rs ! i)) = unat (rc_next_sequence c) + i"
    "unat (rc_next_sequence c') = unat (rc_next_sequence c) + length rs" by simp_all
qed

subsection \<open>Checkpoints do not change what is recovered\<close>

text \<open>A checkpoint that passes verification holds the very state that was replayed.\<close>

lemma restore_verified_same:
  assumes inv: "ledger_inv s" and wf: "checkpoint_wf sha (cr_checkpoint cand)"
  shows "restore_verified_checkpoint_at_record sha cand r s anchor \<in> {Inr None, Inr (Some s)}"
proof -
  let ?c = "cr_checkpoint cand"
  obtain q where q: "snapshot s = Inr q" using snapshot_record_ok [OF inv] by (simp add: snapshot_Inr_iff)
  have "s' = s \<and> snapshot s' = Inr p \<or> p \<noteq> q \<and> snapshot s' = Inr p"
    if "from_snapshot (cp_snapshot ?c) = Inr s'" "p = cp_snapshot ?c" for s' p
  proof -
    have "snapshot_ok p" "s' = restored p" "supply_positive p"
      using wf that by (auto simp: checkpoint_wf_def from_snapshot_Inr_iff)
    then have "snapshot s' = Inr p" "p = q \<Longrightarrow> s' = s"
      using snapshot_record_restored [of p] from_snapshot_back [OF inv q] that
      by (auto simp: supply_positive_def snapshot_Inr_iff)
    then show ?thesis by auto
  qed
  then show ?thesis
    using q by (auto simp: restore_verified_checkpoint_at_record_def Let_def restore_state_def and_then_eq_Inr
        split: sum.splits if_splits)
qed

text \<open>The loop with checkpoints computes what the loop over the records alone computes.\<close>

definition candidates_wf :: "sha256 \<Rightarrow> (u64 \<rightharpoonup> checkpoint_receipt) \<Rightarrow> bool" where
  "candidates_wf sha m = (\<forall>n cand. m n = Some cand \<longrightarrow> checkpoint_wf sha (cr_checkpoint cand))"

definition terminal_after :: "stored_record list \<Rightarrow> record_hash option \<Rightarrow> record_hash option" where
  "terminal_after xs h = (if xs = [] then h else Some (rec_record_hash (sr_record (last xs))))"

lemma replay_record_eq:
  assumes "ledger_at sha anchor (ry_state st, ry_chain st)" and "candidates_wf sha (ry_candidates st)"
  shows "\<exists>recovered m. candidates_wf sha m \<and> (ry_candidates st = Map.empty \<longrightarrow> recovered = ry_recovered st \<and> m = Map.empty) \<and>
    replay_record sha anchor vc v mp st x =
      and_then (verify_record sha anchor vc v mp (ry_state st, ry_chain st) (sr_record x)) (\<lambda>(s, c).
      Inr \<lparr>ry_state = s, ry_chain = c, ry_terminal = Some (rec_record_hash (sr_record x)),
           ry_recovered = recovered, ry_candidates = m\<rparr>)"
proof (cases "verify_record sha anchor vc v mp (ry_state st, ry_chain st) (sr_record x)")
  case (Inl e)
  then show ?thesis using assms(2)
    by (intro exI [of _ "ry_recovered st"] exI [of _ "ry_candidates st"]) (simp add: replay_record_def)
next
  case (Inr sc)
  obtain s c where sc: "sc = (s, c)" by (cases sc)
  let ?n = "rec_sequence (sr_record x)"
  have inv: "ledger_inv s"
    using history.step_inv [OF assms(1) TrueI Inr] by (simp add: ledger_at_def sc)
  show ?thesis
  proof (cases "ry_candidates st ?n")
    case None
    then show ?thesis using assms(2) Inr sc
      by (intro exI [of _ "ry_recovered st"] exI [of _ "ry_candidates st"]) (cases st, simp add: replay_record_def Let_def)
  next
    case (Some cand)
    then have wf: "checkpoint_wf sha (cr_checkpoint cand)" using assms(2) by (auto simp: candidates_wf_def)
    have m: "candidates_wf sha ((ry_candidates st)(?n := None))" using assms(2) by (auto simp: candidates_wf_def)
    have ne: "ry_candidates st \<noteq> Map.empty" using Some by auto
    from restore_verified_same [OF inv wf, of "sr_record x" anchor]
    consider "restore_verified_checkpoint_at_record sha cand (sr_record x) s anchor = Inr None"
      | "restore_verified_checkpoint_at_record sha cand (sr_record x) s anchor = Inr (Some s)" by auto
    then show ?thesis
    proof cases
      case 1
      then show ?thesis using Inr sc Some m ne
        by (intro exI [of _ "ry_recovered st"] exI [of _ "(ry_candidates st)(?n := None)"])
          (cases st, simp add: replay_record_def Let_def)
    next
      case 2
      then show ?thesis using Inr sc Some m ne
        by (intro exI [of _ "Some ?n"] exI [of _ "(ry_candidates st)(?n := None)"])
          (cases st, simp add: replay_record_def Let_def)
    qed
  qed
qed

lemma replay_eq:
  assumes "ledger_at sha anchor (ry_state st, ry_chain st)" and "candidates_wf sha (ry_candidates st)"
  shows "\<exists>recovered m. (ry_candidates st = Map.empty \<longrightarrow> recovered = ry_recovered st) \<and>
    try_fold (replay_record sha anchor vc v mp) st xs =
      and_then (try_fold (verify_record sha anchor vc v mp) (ry_state st, ry_chain st) (map sr_record xs)) (\<lambda>(s, c).
      Inr \<lparr>ry_state = s, ry_chain = c, ry_terminal = terminal_after xs (ry_terminal st),
           ry_recovered = recovered, ry_candidates = m\<rparr>)"
  using assms
proof (induction xs arbitrary: st)
  case Nil
  show ?case by (intro exI [of _ "ry_recovered st"] exI [of _ "ry_candidates st"]) (cases st, simp add: terminal_after_def)
next
  case (Cons x xs)
  let ?v = "verify_record sha anchor vc v mp (ry_state st, ry_chain st) (sr_record x)"
  obtain r1 m1 where step: "candidates_wf sha m1"
    "ry_candidates st = Map.empty \<longrightarrow> r1 = ry_recovered st \<and> m1 = Map.empty"
    "replay_record sha anchor vc v mp st x = and_then ?v (\<lambda>(s, c).
      Inr \<lparr>ry_state = s, ry_chain = c, ry_terminal = Some (rec_record_hash (sr_record x)),
           ry_recovered = r1, ry_candidates = m1\<rparr>)"
    using replay_record_eq [OF Cons.prems] by blast
  show ?case
  proof (cases ?v)
    case (Inl e)
    then show ?thesis using step(3) by auto
  next
    case (Inr sc)
    obtain s c where sc: "sc = (s, c)" by (cases sc)
    let ?st = "\<lparr>ry_state = s, ry_chain = c, ry_terminal = Some (rec_record_hash (sr_record x)),
           ry_recovered = r1, ry_candidates = m1\<rparr>"
    have "ledger_at sha anchor (ry_state ?st, ry_chain ?st)"
      using history.step_inv [OF Cons.prems(1) TrueI Inr] by (simp add: sc)
    from Cons.IH [OF this] step(1) obtain r2 m2 where IH: "m1 = Map.empty \<longrightarrow> r2 = r1"
      "try_fold (replay_record sha anchor vc v mp) ?st xs =
        and_then (try_fold (verify_record sha anchor vc v mp) (s, c) (map sr_record xs)) (\<lambda>(s, c).
        Inr \<lparr>ry_state = s, ry_chain = c, ry_terminal = terminal_after xs (Some (rec_record_hash (sr_record x))),
             ry_recovered = r2, ry_candidates = m2\<rparr>)" by auto
    have "terminal_after xs (Some (rec_record_hash (sr_record x))) = terminal_after (x # xs) (ry_terminal st)"
      by (simp add: terminal_after_def)
    then show ?thesis
      using IH step(2) Inr by (intro exI [of _ r2] exI [of _ m2]) (simp add: step(3) sc)
  qed
qed

text \<open>Every candidate that discovery offers decodes, so it is well-formed.\<close>

lemma by_sequence_wf:
  assumes "checkpoint_candidates_by_sequence (Some cs) = Inr m" and "\<forall>r \<in> set cs. checkpoint_wf sha (cr_checkpoint r)"
  shows "candidates_wf sha m"
proof -
  have step: "candidates_wf sha m1" if "insert_candidate m0 r = Inr m1" "candidates_wf sha m0" "checkpoint_wf sha (cr_checkpoint r)" for m0 m1 r
    using that by (auto simp: insert_candidate_def Let_def candidates_wf_def split: option.splits if_splits)
  have "candidates_wf sha m" if "try_fold insert_candidate m0 cs = Inr m" "candidates_wf sha m0" for m0
    using that assms(2)
  proof (induction cs arbitrary: m0)
    case (Cons r cs)
    then obtain m1 where "insert_candidate m0 r = Inr m1" "try_fold insert_candidate m1 cs = Inr m" by (auto simp: and_then_eq_Inr)
    with Cons step [of m0 r m1] show ?case by simp
  qed simp
  moreover have "candidates_wf sha Map.empty" by (simp add: candidates_wf_def)
  ultimately show ?thesis using assms(1) by (simp add: checkpoint_candidates_by_sequence_def)
qed

lemma load_candidates_wf:
  assumes "load_candidates sha dir = Inr cs" and "r \<in> set cs"
  shows "checkpoint_wf sha (cr_checkpoint r)"
proof (cases dir)
  case (Some entries)
  with assms have "r \<in> set (discovered sha entries)" using load_candidates_Inr by blast
  then obtain bs where "decode_checkpoint sha bs = Inr (cr_checkpoint r)"
    by (auto simp: in_discovered_iff) (metis eligible_Some_iff)
  then show ?thesis using decode_checkpoint_only by blast
qed (use assms in \<open>simp add: load_candidates_def\<close>)

subsection \<open>Opening a log\<close>

definition pl_at ::
  "chain_anchor \<Rightarrow> validation_context \<Rightarrow> bytes \<Rightarrow> ledger_state \<times> record_chain \<Rightarrow> record_hash option \<Rightarrow> u64 option \<Rightarrow>
     persistent_ledger" where
  "pl_at anchor vc file sc terminal recovered =
     \<lparr>pl_state = fst sc, pl_anchor = anchor, pl_validation_context = vc, pl_record_log = file, pl_chain = snd sc,
      pl_terminal_record_hash = terminal, pl_recovered_checkpoint_sequence = recovered, pl_writes_available = True\<rparr>"

abbreviation genesis_of :: "ledger_state \<Rightarrow> chain_anchor \<Rightarrow> ledger_state \<times> record_chain" where
  "genesis_of g anchor \<equiv> (g, RecordChain_new (ca_genesis_state_id anchor))"

abbreviation cut_tail :: "sha256 \<Rightarrow> bytes \<Rightarrow> incomplete_tail option \<Rightarrow> (record_log_error + unit) \<times> bytes" where
  "cut_tail sha file tail \<equiv>
     (case tail of None \<Rightarrow> (Inr (), file) | Some t \<Rightarrow> record_truncate_verified_incomplete_tail sha file t)"

lemma genesis_ledger_at:
  "ledger_inv g \<Longrightarrow> check_open sha g anchor vc v mp = Inr () \<Longrightarrow> ledger_at sha anchor (genesis_of g anchor)"
  by (auto simp: check_open_def and_then_eq_Inr Let_def ledger_at_def RecordChain_new_def split: if_splits)

text \<open>What opening does with a scanned log, for any set of checkpoints that was found.\<close>

definition open_scanned ::
  "sha256 \<Rightarrow> bytes \<Rightarrow> ledger_state \<Rightarrow> chain_anchor \<Rightarrow> validation_context \<Rightarrow> proof_verifier \<Rightarrow> mint_policy \<Rightarrow>
     stored_record list \<Rightarrow> incomplete_tail option \<Rightarrow> u64 option \<Rightarrow> (persistent_ledger_error + persistent_ledger) \<times> bytes" where
  "open_scanned sha file g anchor vc v mp xs tail recovered =
     (case try_fold (verify_record sha anchor vc v mp) (genesis_of g anchor) (map sr_record xs) of
        Inl e \<Rightarrow> (Inl e, file)
      | Inr sc \<Rightarrow>
          (case cut_tail sha file tail of
             (Inl e, file') \<Rightarrow> (Inl (PlRecordLog e), file')
           | (Inr _, file') \<Rightarrow> (Inr (pl_at anchor vc file' sc (terminal_after xs None) recovered), file')))"

lemma open_internal_scanned:
  assumes inv: "ledger_inv g" and chk: "check_open sha g anchor vc v mp = Inr ()"
    and scan: "record_scan_recoverable_tail sha file = Inr (xs, tail)"
    and found: "(case store of None \<Rightarrow> Inr None
       | Some dir \<Rightarrow> map_err PlCheckpointStore (and_then (load_candidates sha dir) (\<lambda>cs. Inr (Some cs)))) = Inr found"
    and cands: "checkpoint_candidates_by_sequence found = Inr m"
  shows "\<exists>recovered. (store = None \<longrightarrow> recovered = None) \<and>
    open_internal sha file g anchor vc v mp store = open_scanned sha file g anchor vc v mp xs tail recovered"
proof -
  let ?st = "\<lparr>ry_state = g, ry_chain = RecordChain_new (ca_genesis_state_id anchor), ry_terminal = None,
      ry_recovered = None, ry_candidates = m\<rparr>"
  have empty: "store = None \<longrightarrow> m = Map.empty"
    using found cands by (auto simp: checkpoint_candidates_by_sequence_def)
  have wf: "candidates_wf sha m"
  proof (cases found)
    case None
    then show ?thesis using cands by (auto simp: checkpoint_candidates_by_sequence_def candidates_wf_def)
  next
    case (Some cs)
    then obtain dir where "load_candidates sha dir = Inr cs"
      using found by (auto simp: and_then_eq_Inr split: option.splits)
    then show ?thesis using by_sequence_wf [of cs m sha] cands Some load_candidates_wf by auto
  qed
  obtain recovered m' where rep: "m = Map.empty \<longrightarrow> recovered = None"
    "try_fold (replay_record sha anchor vc v mp) ?st xs =
      and_then (try_fold (verify_record sha anchor vc v mp) (genesis_of g anchor) (map sr_record xs)) (\<lambda>(s, c).
      Inr \<lparr>ry_state = s, ry_chain = c, ry_terminal = terminal_after xs None,
           ry_recovered = recovered, ry_candidates = m'\<rparr>)"
    using replay_eq [of sha anchor ?st vc v mp xs] genesis_ledger_at [OF inv chk] wf by auto
  have "open_internal sha file g anchor vc v mp store = open_scanned sha file g anchor vc v mp xs tail recovered"
  proof (cases "try_fold (verify_record sha anchor vc v mp) (genesis_of g anchor) (map sr_record xs)")
    case (Inl e)
    then show ?thesis
      unfolding open_internal_def open_scanned_def chk scan found result_simps prod.case cands rep(2) by simp
  next
    case (Inr sc)
    obtain s c where sc: "sc = (s, c)" by (cases sc)
    obtain res file' where cut: "cut_tail sha file tail = (res, file')" by fastforce
    show ?thesis
      unfolding open_internal_def open_scanned_def chk scan found result_simps prod.case cands rep(2) Inr sc
      by (cases res) (simp_all add: cut pl_at_def)
  qed
  then show ?thesis using rep(1) empty by blast
qed

text \<open>Opening a log that holds \<open>xs\<close>, complete or with part of one more frame at the end.\<close>

abbreviation verified ::
  "sha256 \<Rightarrow> ledger_state \<Rightarrow> chain_anchor \<Rightarrow> validation_context \<Rightarrow> proof_verifier \<Rightarrow> mint_policy \<Rightarrow> stored_record list \<Rightarrow>
     ledger_state \<times> record_chain \<Rightarrow> bool" where
  "verified sha g anchor vc v mp xs sc \<equiv>
     try_fold (verify_record sha anchor vc v mp) (genesis_of g anchor) (map sr_record xs) = Inr sc"

lemma open_eq:
  assumes "ledger_inv g" and "check_open sha g anchor vc v mp = Inr ()"
    and "record_scan_recoverable_tail sha file = Inr (xs, tail)"
  shows "PersistentLedger_open sha file g anchor vc v mp = open_scanned sha file g anchor vc v mp xs tail None"
  using open_internal_scanned [OF assms, of None None Map.empty]
  by (simp add: PersistentLedger_open_def checkpoint_candidates_by_sequence_def)

lemma pl_open_complete:
  assumes "ledger_inv g" and "check_open sha g anchor vc v mp = Inr ()"
    and xs: "\<forall>x \<in> set xs. record_wf sha (sr_record x)" "located_records 0 xs = xs" "verified sha g anchor vc v mp xs sc"
    and size: "length (record_file xs) < 2 ^ 64"
  shows "PersistentLedger_open sha (record_file xs) g anchor vc v mp =
    (Inr (pl_at anchor vc (record_file xs) sc (terminal_after xs None) None), record_file xs)"
proof -
  have "record_scan_recoverable_tail sha (record_file xs) = Inr (xs, None)"
    using records.scan_complete [OF xs(1) size] xs(2) by (simp add: record_scan_recoverable_tail_def)
  from open_eq [OF assms(1,2) this] show ?thesis by (simp add: open_scanned_def xs(3))
qed

lemma pl_open_torn:
  assumes "ledger_inv g" and "check_open sha g anchor vc v mp = Inr ()"
    and xs: "\<forall>x \<in> set xs. record_wf sha (sr_record x)" "located_records 0 xs = xs" "verified sha g anchor vc v mp xs sc"
    and r: "record_wf sha r" "0 < k" "k < length (record_frame r)" and size: "length (record_file xs) + k < 2 ^ 64"
  shows "PersistentLedger_open sha (record_file xs @ take k (record_frame r)) g anchor vc v mp =
    (Inr (pl_at anchor vc (record_file xs) sc (terminal_after xs None) None), record_file xs)"
proof -
  let ?x = "\<lparr>sr_offset = 0, sr_record = r\<rparr>" and ?file = "record_file xs @ take k (record_frame r)"
  let ?t = "\<lparr>it_valid_prefix_length = length (record_file xs), it_section = torn_section k (encode_record r)\<rparr>"
  have "record_scan_recoverable_tail sha ?file = Inr (xs, Some ?t)"
    using records.scan_torn [OF xs(1), of ?x k] xs(2) r size by (simp add: record_scan_recoverable_tail_def)
  moreover have "record_truncate_verified_incomplete_tail sha ?file ?t = (Inr (), record_file xs)"
    using records.truncate_torn [OF xs(1), of ?x k] r size by (simp add: record_truncate_verified_incomplete_tail_def)
  ultimately show ?thesis
    using open_eq [OF assms(1,2)] by (simp add: open_scanned_def xs(3))
qed

lemma pl_open_only:
  assumes inv: "ledger_inv g" and run: "PersistentLedger_open sha file g anchor vc v mp = (Inr pl, file')"
  obtains xs sc where "check_open sha g anchor vc v mp = Inr ()" "\<forall>x \<in> set xs. record_wf sha (sr_record x)"
    "located_records 0 xs = xs" "verified sha g anchor vc v mp xs sc" "file' = record_file xs"
    "pl = pl_at anchor vc file' sc (terminal_after xs None) None" "\<exists>rest. file = file' @ rest"
proof -
  obtain xs tail where chk: "check_open sha g anchor vc v mp = Inr ()"
    and scan: "record_scan_recoverable_tail sha file = Inr (xs, tail)"
    using run by (auto simp: PersistentLedger_open_def open_internal_def and_then_eq_Inr split: sum.splits prod.splits)
  obtain sc where sc: "verified sha g anchor vc v mp xs sc" "cut_tail sha file tail = (Inr (), file')"
    "pl = pl_at anchor vc file' sc (terminal_after xs None) None"
    using run open_eq [OF inv chk scan] by (auto simp: open_scanned_def split: sum.splits prod.splits)
  note only = records.scan_only [OF scan [unfolded record_scan_recoverable_tail_def]]
  have "file' = record_file xs"
  proof (cases tail)
    case None
    then show ?thesis using only sc(2) by auto
  next
    case (Some t)
    show ?thesis
      by (rule records.truncate_only [OF sc(2) [unfolded Some option.case record_truncate_verified_incomplete_tail_def]
            scan [unfolded Some record_scan_recoverable_tail_def]])
  qed
  then show ?thesis using that chk only sc by blast
qed

subsection \<open>The durable invariant\<close>

abbreviation pl_tip :: "persistent_ledger \<Rightarrow> ledger_state \<times> record_chain" where
  "pl_tip pl \<equiv> (pl_state pl, pl_chain pl)"

definition pl_torn ::
  "sha256 \<Rightarrow> chain_anchor \<Rightarrow> validation_context \<Rightarrow> proof_verifier \<Rightarrow> mint_policy \<Rightarrow> ledger_state \<times> record_chain \<Rightarrow> bytes \<Rightarrow> bool" where
  "pl_torn sha anchor vc v mp sc rest =
     (rest = [] \<or> (\<exists>r sc' k. record_wf sha r \<and> verify_record sha anchor vc v mp sc r = Inr sc' \<and>
        rest = take k (record_frame r)))"

definition pl_inv ::
  "sha256 \<Rightarrow> ledger_state \<Rightarrow> chain_anchor \<Rightarrow> validation_context \<Rightarrow> proof_verifier \<Rightarrow> mint_policy \<Rightarrow> persistent_ledger \<Rightarrow> bool" where
  "pl_inv sha g anchor vc v mp pl =
     (check_open sha g anchor vc v mp = Inr () \<and> pl_anchor pl = anchor \<and> pl_validation_context pl = vc \<and>
      (\<exists>xs rest. (\<forall>x \<in> set xs. record_wf sha (sr_record x)) \<and> located_records 0 xs = xs \<and>
        verified sha g anchor vc v mp xs (pl_tip pl) \<and> pl_terminal_record_hash pl = terminal_after xs None \<and>
        pl_record_log pl = record_file xs @ rest \<and> pl_torn sha anchor vc v mp (pl_tip pl) rest \<and>
        (pl_writes_available pl \<longrightarrow> rest = [])))"

lemma open_inv:
  assumes "ledger_inv g" and "PersistentLedger_open sha file g anchor vc v mp = (Inr pl, file')"
  shows "pl_inv sha g anchor vc v mp pl \<and> pl_writes_available pl \<and> pl_record_log pl = file'"
  using assms by (rule pl_open_only) (auto simp: pl_inv_def pl_at_def pl_torn_def)

text \<open>What an accepted transaction appends is a record that recovery verifies.\<close>

lemma prepare_record_Inr:
  assumes typed: "tx_typed tx" and run: "prepare_record sha pl tx v mp = Inr (s, r, c)"
  shows "record_wf sha r \<and> record_transaction r = tx \<and>
    verify_record sha (pl_anchor pl) (pl_validation_context pl) v mp (pl_tip pl) r = Inr (s, c)"
proof -
  from run obtain bs intent where f: "tx_suite tx = vc_crypto_suite (pl_validation_context pl)"
    "encode_transaction tx = Inr bs" "transaction_intent_id sha tx = Inr intent"
    "ledger_apply sha (pl_state pl) tx v mp
        \<lparr>tvc_genesis_id = ca_genesis_id (pl_anchor pl),
         tvc_validation_context_id = ca_validation_context_id (pl_anchor pl),
         tvc_transaction_intent_id = intent, tvc_state_id = rc_current_state_id (pl_chain pl)\<rparr> = Inr s"
    "TransactionRecord_new sha (rc_next_sequence (pl_chain pl)) (rc_current_state_id (pl_chain pl)) bs
        (ledger_state_id sha (ca_genesis_id (pl_anchor pl)) s) = Inr r"
    "chain_apply (pl_chain pl) r = Inr c"
    by (auto simp: prepare_record_def and_then_eq_Inr ensure_transaction_suite_def split: if_splits)
  have dec: "decode_transaction bs = Inr tx"
    using f(2) typed decode_transaction_bytes [of tx] by (simp add: encode_transaction_Inr_iff)
  have r: "record_wf sha r" "rec_transaction_bytes r = bs"
    "rec_resulting_state_id r = ledger_state_id sha (ca_genesis_id (pl_anchor pl)) s"
    "rec_previous_state_id r = rc_current_state_id (pl_chain pl)"
    using f(5) by (simp_all add: TransactionRecord_new_Inr_iff)
  then have "rec_transaction_intent_id r = intent" using f(3) dec by (auto simp: record_wf_def)
  with f r dec show ?thesis
    by (simp add: verify_record_def ensure_transaction_suite_def record_transaction_def)
qed

definition commit_receipt :: "transaction_record \<Rightarrow> nat \<Rightarrow> persistent_commit_receipt" where
  "commit_receipt r offset = \<lparr>pr_sequence = rec_sequence r, pr_transaction_intent_id = rec_transaction_intent_id r,
     pr_record_hash = rec_record_hash r, pr_state_id = rec_resulting_state_id r, pr_log_offset = offset\<rparr>"

definition pl_append :: "persistent_ledger \<Rightarrow> transaction_record \<Rightarrow> ledger_state \<times> record_chain \<Rightarrow> persistent_ledger" where
  "pl_append pl r sc = pl\<lparr>pl_record_log := pl_record_log pl @ record_frame r, pl_state := fst sc, pl_chain := snd sc,
     pl_terminal_record_hash := Some (rec_record_hash r)\<rparr>"

lemma apply_cases:
  assumes typed: "tx_typed tx"
  obtains (kept) e where "pl_apply sha io pl tx v mp = (Inl e, pl)"
      "\<not> pl_writes_available pl \<or> prepare_record sha pl tx v mp = Inl e"
  | (torn) r sc e k where "record_wf sha r" "record_transaction r = tx" "pl_writes_available pl" "io = Torn k"
      "verify_record sha (pl_anchor pl) (pl_validation_context pl) v mp (pl_tip pl) r = Inr sc"
      "pl_apply sha io pl tx v mp = (Inl (PlRecordLog e),
         pl\<lparr>pl_record_log := pl_record_log pl @ take k (record_frame r), pl_writes_available := False\<rparr>)"
  | (appended) r sc where "record_wf sha r" "record_transaction r = tx" "pl_writes_available pl" "io = Synced"
      "verify_record sha (pl_anchor pl) (pl_validation_context pl) v mp (pl_tip pl) r = Inr sc"
      "pl_apply sha io pl tx v mp = (Inr (commit_receipt r (length (pl_record_log pl))), pl_append pl r sc)"
proof (cases "pl_writes_available pl \<and> (\<exists>x. prepare_record sha pl tx v mp = Inr x)")
  case False
  then have "\<exists>e. pl_apply sha io pl tx v mp = (Inl e, pl) \<and> (\<not> pl_writes_available pl \<or> prepare_record sha pl tx v mp = Inl e)"
    by (cases "prepare_record sha pl tx v mp") (auto simp: pl_apply_def)
  then show ?thesis using kept by blast
next
  case True
  then obtain s r c where x: "prepare_record sha pl tx v mp = Inr (s, r, c)" by auto
  have "record_wf sha r \<and> record_transaction r = tx \<and>
      verify_record sha (pl_anchor pl) (pl_validation_context pl) v mp (pl_tip pl) r = Inr (s, c)"
    by (rule prepare_record_Inr [OF typed x])
  then have r: "record_wf sha r" "record_transaction r = tx"
    and ver: "verify_record sha (pl_anchor pl) (pl_validation_context pl) v mp (pl_tip pl) r = Inr (s, c)" by blast+
  show ?thesis
  proof (cases io)
    case Synced
    show ?thesis
      by (rule appended [OF r _ Synced ver])
        (use True x Synced append_record_wf(1) [OF r(1)] in \<open>simp_all add: pl_apply_def pl_append_def commit_receipt_def\<close>)
  next
    case (Torn k)
    obtain e where "append_record sha (Torn k) (pl_record_log pl) r =
        (Inl e, pl_record_log pl @ take k (record_frame r))" using append_record_wf(2) [OF r(1)] by blast
    then show ?thesis
      by (intro torn [OF r _ Torn ver]) (use True x Torn in \<open>simp_all add: pl_apply_def\<close>)
  qed
qed

lemma apply_inv:
  assumes inv: "pl_inv sha g anchor vc v mp pl" and typed: "tx_typed tx"
  shows "pl_inv sha g anchor vc v mp (snd (pl_apply sha io pl tx v mp))"
proof -
  obtain xs rest where pl: "check_open sha g anchor vc v mp = Inr ()" "pl_anchor pl = anchor" "pl_validation_context pl = vc"
    "\<forall>x \<in> set xs. record_wf sha (sr_record x)" "located_records 0 xs = xs" "verified sha g anchor vc v mp xs (pl_tip pl)"
    "pl_terminal_record_hash pl = terminal_after xs None" "pl_record_log pl = record_file xs @ rest"
    "pl_torn sha anchor vc v mp (pl_tip pl) rest" "pl_writes_available pl \<longrightarrow> rest = []"
    using inv by (auto simp: pl_inv_def)
  from typed show ?thesis
  proof (cases rule: apply_cases [where sha = sha and io = io and pl = pl and v = v and mp = mp, case_names kept torn appended])
    case kept
    then show ?thesis using inv by simp
  next
    case (torn r sc e k)
    have "pl_torn sha anchor vc v mp (pl_tip pl) (take k (record_frame r))"
      using torn pl(2,3) by (auto simp: pl_torn_def)
    then show ?thesis using torn pl by (auto simp: pl_inv_def intro!: exI [of _ xs])
  next
    case (appended r sc)
    let ?x = "\<lparr>sr_offset = length (record_file xs), sr_record = r\<rparr>"
    have "verified sha g anchor vc v mp (xs @ [?x]) sc" using pl(2,3,6) appended(5) by (simp add: try_fold_append)
    moreover have "located_records 0 (xs @ [?x]) = xs @ [?x]" using pl(5) by (simp add: located_frames_append)
    ultimately show ?thesis
      using appended pl
      by (auto simp: pl_inv_def pl_append_def terminal_after_def pl_torn_def intro!: exI [of _ "xs @ [?x]"])
  qed
qed

text \<open>Reopening the log an invariant state has written: the tip as it was, or one more record.\<close>

lemma pl_reopen:
  assumes g: "ledger_inv g" and inv: "pl_inv sha g anchor vc v mp pl" and size: "length (pl_record_log pl) < 2 ^ 64"
  shows "\<exists>pl' file. PersistentLedger_open sha (pl_record_log pl) g anchor vc v mp = (Inr pl', file) \<and>
    (pl_tip pl' = pl_tip pl \<and> pl_terminal_record_hash pl' = pl_terminal_record_hash pl \<and>
       (pl_writes_available pl \<longrightarrow> pl' = pl\<lparr>pl_recovered_checkpoint_sequence := None\<rparr>) \<or>
     \<not> pl_writes_available pl \<and> (\<exists>r. record_wf sha r \<and> verify_record sha anchor vc v mp (pl_tip pl) r = Inr (pl_tip pl')))"
proof -
  obtain xs rest where chk: "check_open sha g anchor vc v mp = Inr ()"
    and xs: "\<forall>x \<in> set xs. record_wf sha (sr_record x)" "located_records 0 xs = xs" "verified sha g anchor vc v mp xs (pl_tip pl)"
    and pl: "pl_anchor pl = anchor" "pl_validation_context pl = vc" "pl_terminal_record_hash pl = terminal_after xs None"
    and log: "pl_record_log pl = record_file xs @ rest" "pl_torn sha anchor vc v mp (pl_tip pl) rest"
      "pl_writes_available pl \<longrightarrow> rest = []"
    using inv by (auto simp: pl_inv_def)
  let ?at = "pl_at anchor vc (record_file xs) (pl_tip pl) (terminal_after xs None) None"
  have same: "pl_tip ?at = pl_tip pl" "pl_terminal_record_hash ?at = pl_terminal_record_hash pl"
    by (simp_all add: pl_at_def pl)
  consider "rest = []" | r sc k where "record_wf sha r" "verify_record sha anchor vc v mp (pl_tip pl) r = Inr sc"
      "rest = take k (record_frame r)" "0 < k" "k < length (record_frame r)" "rest \<noteq> []"
    | r sc where "record_wf sha r" "verify_record sha anchor vc v mp (pl_tip pl) r = Inr sc" "rest = record_frame r" "rest \<noteq> []"
    using log(2) by (auto simp: pl_torn_def) (metis linorder_not_le take_all gr0I take0)
  then show ?thesis
  proof cases
    case 1
    then have "PersistentLedger_open sha (pl_record_log pl) g anchor vc v mp = (Inr ?at, record_file xs)"
      using pl_open_complete [OF g chk xs] size log(1) by simp
    moreover have "pl_writes_available pl \<Longrightarrow> ?at = pl\<lparr>pl_recovered_checkpoint_sequence := None\<rparr>"
      using 1 log(1) pl by (cases pl) (simp add: pl_at_def)
    ultimately show ?thesis using same by auto
  next
    case (2 r sc k)
    then have "PersistentLedger_open sha (pl_record_log pl) g anchor vc v mp = (Inr ?at, record_file xs)"
      using pl_open_torn [OF g chk xs 2(1,4,5)] size log(1) by simp
    then show ?thesis using same 2(6) log(3) by auto
  next
    case (3 r sc)
    let ?x = "\<lparr>sr_offset = length (record_file xs), sr_record = r\<rparr>"
    have "verified sha g anchor vc v mp (xs @ [?x]) sc" using xs(3) 3(2) by (simp add: try_fold_append)
    moreover have "located_records 0 (xs @ [?x]) = xs @ [?x]" using xs(2) by (simp add: located_frames_append)
    ultimately have "PersistentLedger_open sha (record_file (xs @ [?x])) g anchor vc v mp =
      (Inr (pl_at anchor vc (record_file (xs @ [?x])) sc (terminal_after (xs @ [?x]) None) None), record_file (xs @ [?x]))"
      using xs(1) 3 size log(1) by (intro pl_open_complete [OF g chk]) auto
    moreover have "record_file (xs @ [?x]) = pl_record_log pl" using log(1) 3(3) by simp
    moreover have "pl_tip (pl_at anchor vc f sc t None) = sc" for f t by (simp add: pl_at_def)
    ultimately show ?thesis using 3 log(3) by auto
  qed
qed

subsection \<open>Properties\<close>

text \<open>
  The states a process can reach: it opens some file, then applies transactions, each with any I/O outcome;
  a restart is another open.
\<close>

inductive pl_durable ::
  "sha256 \<Rightarrow> ledger_state \<Rightarrow> chain_anchor \<Rightarrow> validation_context \<Rightarrow> proof_verifier \<Rightarrow> mint_policy \<Rightarrow> persistent_ledger \<Rightarrow> bool"
  for sha g anchor vc v mp where
  opened: "PersistentLedger_open sha file g anchor vc v mp = (Inr pl, file') \<Longrightarrow> pl_durable sha g anchor vc v mp pl"
| applied: "pl_durable sha g anchor vc v mp pl \<Longrightarrow> tx_typed tx \<Longrightarrow>
    pl_durable sha g anchor vc v mp (snd (pl_apply sha io pl tx v mp))"

lemma pl_durable_inv: "pl_durable sha g anchor vc v mp pl \<Longrightarrow> ledger_inv g \<Longrightarrow> pl_inv sha g anchor vc v mp pl"
  by (induction rule: pl_durable.induct) (auto dest: open_inv apply_inv)

text \<open>C3: Recovery never loses an acknowledged transaction. Whatever file was opened and whatever transactions were
  applied with whatever I/O outcomes, reopening the log file succeeds. It gives the ledger state, the record
  chain and the terminal hash as they were; only when the last append was interrupted it may instead
  give the state after that one record.\<close>

theorem ledger_recovery:
  assumes "ledger_inv g" and "pl_durable sha g anchor vc v mp pl" and "length (pl_record_log pl) < 2 ^ 64"
  shows "\<exists>pl' file. PersistentLedger_open sha (pl_record_log pl) g anchor vc v mp = (Inr pl', file) \<and>
    (pl_tip pl' = pl_tip pl \<and> pl_terminal_record_hash pl' = pl_terminal_record_hash pl \<or>
     \<not> pl_writes_available pl \<and> (\<exists>r. verify_record sha anchor vc v mp (pl_tip pl) r = Inr (pl_tip pl')))"
  using pl_reopen [OF assms(1) pl_durable_inv [OF assms(2,1)] assms(3)] by blast


text \<open>An acknowledged transaction is durable. When \<^verbatim>\<open>apply\<close> returns a receipt, the state is that of the
  ledger transition, and reopening the log gives exactly that ledger, at the state and sequence number the
  receipt reports.\<close>

lemma acknowledged_transaction_is_durable:
  assumes "ledger_inv g" and "pl_durable sha g anchor vc v mp pl" and "tx_typed tx"
    and "pl_apply sha io pl tx v mp = (Inr receipt, pl')" and "length (pl_record_log pl') < 2 ^ 64"
  shows "pl_state pl' = ledger_effect (pl_state pl) tx \<and>
    PersistentLedger_open sha (pl_record_log pl') g anchor vc v mp =
      (Inr (pl'\<lparr>pl_recovered_checkpoint_sequence := None\<rparr>), pl_record_log pl') \<and>
    ps_sequence (pl_status pl') = pr_sequence receipt \<and> ps_state_id (pl_status pl') = pr_state_id receipt \<and>
    pl_terminal_record_hash pl' = Some (pr_record_hash receipt)"
proof -
  note inv = pl_durable_inv [OF assms(2,1)]
  have inv': "pl_inv sha g anchor vc v mp pl'" using apply_inv [OF inv assms(3), of io] assms(4) by simp
  from assms(3) obtain r sc where r: "record_transaction r = tx" "pl_writes_available pl"
    "verify_record sha (pl_anchor pl) (pl_validation_context pl) v mp (pl_tip pl) r = Inr sc"
    "receipt = commit_receipt r (length (pl_record_log pl))" "pl' = pl_append pl r sc"
    by (cases rule: apply_cases [where sha = sha and io = io and pl = pl and v = v and mp = mp]) (use assms(4) in auto)
  obtain s c where sc: "sc = (s, c)" by (cases sc)
  note ver = r(3) [unfolded sc]
  from ver obtain t where t: "chain_apply (pl_chain pl) r = Inr c" "record_transaction r = t"
    "ledger_apply sha (pl_state pl) t v mp
      \<lparr>tvc_genesis_id = ca_genesis_id (pl_anchor pl), tvc_validation_context_id = ca_validation_context_id (pl_anchor pl),
       tvc_transaction_intent_id = rec_transaction_intent_id r, tvc_state_id = rec_previous_state_id r\<rparr> = Inr s"
    by (rule verify_record_Inr)
  obtain xs where "verified sha g anchor vc v mp xs (pl_tip pl)" "check_open sha g anchor vc v mp = Inr ()"
    using inv by (auto simp: pl_inv_def)
  then have "ledger_inv (pl_state pl)"
    using history.run_inv [of sha anchor vc v mp "genesis_of g anchor" "map sr_record xs" "pl_tip pl"]
      genesis_ledger_at [OF assms(1)] by (simp add: ledger_at_def)
  then have eff: "s = ledger_effect (pl_state pl) tx" using t(2,3) r(1) by (simp add: ledger_apply_Inr_iff)
  have avail: "pl_writes_available pl'" using r(2,5) by (simp add: pl_append_def)
  obtain out where re: "PersistentLedger_open sha (pl_record_log pl') g anchor vc v mp =
      (Inr (pl'\<lparr>pl_recovered_checkpoint_sequence := None\<rparr>), out)"
    using pl_reopen [OF assms(1) inv' assms(5)] avail by auto
  have "out = pl_record_log pl'" using open_inv [OF assms(1) re] by simp
  moreover have "rc_current_sequence c = rec_sequence r" "rc_current_state_id c = rec_resulting_state_id r"
    using chain_apply_Inr [OF t(1)] chain_apply_sequence [OF t(1)] by simp_all
  ultimately show ?thesis
    using re eff r(4,5) by (simp add: pl_append_def commit_receipt_def pl_status_def sc)
qed


text \<open>A published checkpoint of the current state passes verification at the last record.\<close>

lemma replay_skip:
  assumes "try_fold (verify_record sha anchor vc v mp) (ry_state st, ry_chain st) (map sr_record xs) = Inr sc"
    and "\<forall>x \<in> set xs. ry_candidates st (rec_sequence (sr_record x)) = None"
  shows "try_fold (replay_record sha anchor vc v mp) st xs =
    Inr (st\<lparr>ry_state := fst sc, ry_chain := snd sc, ry_terminal := terminal_after xs (ry_terminal st)\<rparr>)"
  using assms
proof (induction xs arbitrary: st)
  case Nil
  then show ?case by (auto simp: terminal_after_def)
next
  case (Cons x xs)
  let ?r = "sr_record x"
  obtain s c where v: "verify_record sha anchor vc v mp (ry_state st, ry_chain st) ?r = Inr (s, c)"
    and rest: "try_fold (verify_record sha anchor vc v mp) (s, c) (map sr_record xs) = Inr sc"
    using Cons.prems(1) by (auto simp: and_then_eq_Inr)
  let ?st = "st\<lparr>ry_state := s, ry_chain := c, ry_terminal := Some (rec_record_hash ?r)\<rparr>"
  have "replay_record sha anchor vc v mp st x = Inr ?st"
    using v Cons.prems(2) by (simp add: replay_record_def Let_def)
  moreover have "terminal_after xs (Some (rec_record_hash ?r)) = terminal_after (x # xs) (ry_terminal st)"
    by (simp add: terminal_after_def)
  ultimately show ?case using Cons.IH [of ?st] rest Cons.prems(2) by simp
qed

lemma by_sequence_single:
  assumes "set cs = {r}"
  shows "checkpoint_candidates_by_sequence (Some cs) = Inr [cp_sequence (cr_checkpoint r) \<mapsto> r]"
proof -
  let ?n = "cp_sequence (cr_checkpoint r)"
  have "set ds \<subseteq> {r} \<Longrightarrow> try_fold insert_candidate [?n \<mapsto> r] ds = Inr [?n \<mapsto> r]" for ds
    by (induction ds) (simp_all add: insert_candidate_def Let_def)
  moreover obtain ds where "cs = r # ds" "set ds \<subseteq> {r}" using assms by (cases cs) auto
  ultimately show ?thesis
    by (simp add: checkpoint_candidates_by_sequence_def) (simp add: insert_candidate_def Let_def)
qed

lemma restore_current:
  assumes inv: "ledger_inv s" and cp: "snapshot s = Inr p" "checkpoint_from_snapshot sha anchor n h p = Inr c"
    and r: "rec_sequence r = n" "rec_record_hash r = h"
      "rec_resulting_state_id r = ledger_state_id sha (ca_genesis_id anchor) s"
  shows "restore_verified_checkpoint_at_record sha \<lparr>cr_path = name, cr_checkpoint = c\<rparr> r s anchor = Inr (Some s)"
proof -
  have "c = \<lparr>cp_genesis_id = ca_genesis_id anchor, cp_validation_context_id = ca_validation_context_id anchor,
         cp_sequence = n, cp_state_id = ledger_state_id sha (ca_genesis_id anchor) s,
         cp_terminal_record_hash = h, cp_snapshot = p\<rparr>"
    using cp(2) checkpoint_from_snapshot_Inr [OF inv cp(1)] by simp
  then show ?thesis
    using r cp(1) from_snapshot_back [OF inv cp(1)]
    by (simp add: restore_verified_checkpoint_at_record_def restore_state_def Let_def)
qed

lemma publish_checkpoint_Inr:
  assumes "publish_checkpoint sha fault removed temporary pl path dir = (Inr receipt, dir')"
  obtains h p c where "pl_terminal_record_hash pl = Some h" "snapshot (pl_state pl) = Inr p"
    "checkpoint_from_snapshot sha (pl_anchor pl) (rc_current_sequence (pl_chain pl)) h p = Inr c"
    "path \<noteq> []" "publish sha fault removed temporary c dir = (Inr receipt, dir')"
  using assms
  by (auto simp: publish_checkpoint_def and_then_eq_Inr CheckpointStore_new_def ok_or_def
      split: sum.splits prod.splits option.splits if_splits)

text \<open>The loop over a log whose newest checkpoint is the only one.\<close>

lemma replay_current:
  assumes inv: "ledger_inv g" and chk: "check_open sha g anchor vc v mp = Inr ()"
    and run: "verified sha g anchor vc v mp (xs @ [x]) (s, c)"
    and cp: "snapshot s = Inr p" "checkpoint_from_snapshot sha anchor (rec_sequence (sr_record x))
      (rec_record_hash (sr_record x)) p = Inr k"
  shows "\<exists>m. try_fold (replay_record sha anchor vc v mp)
      \<lparr>ry_state = g, ry_chain = RecordChain_new (ca_genesis_state_id anchor), ry_terminal = None,
       ry_recovered = None, ry_candidates = [rec_sequence (sr_record x) \<mapsto> \<lparr>cr_path = name, cr_checkpoint = k\<rparr>]\<rparr> (xs @ [x]) =
    Inr \<lparr>ry_state = s, ry_chain = c, ry_terminal = terminal_after (xs @ [x]) None,
         ry_recovered = Some (rec_sequence (sr_record x)), ry_candidates = m\<rparr>"
proof -
  let ?r = "sr_record x"
  let ?m = "[rec_sequence ?r \<mapsto> \<lparr>cr_path = name, cr_checkpoint = k\<rparr>]"
  let ?st = "\<lparr>ry_state = g, ry_chain = RecordChain_new (ca_genesis_state_id anchor), ry_terminal = None,
       ry_recovered = None, ry_candidates = ?m\<rparr>"
  obtain s1 c1 where prefix: "verified sha g anchor vc v mp xs (s1, c1)"
    and last: "verify_record sha anchor vc v mp (s1, c1) ?r = Inr (s, c)"
    using run by (auto simp: try_fold_append and_then_eq_Inr)
  have seq: "unat (rec_sequence ((map sr_record xs @ [?r]) ! i)) = 1 + i" if "i \<le> length xs" for i
    using verified_sequences(1) [of sha anchor vc v mp g _ "map sr_record xs @ [?r]" s c] run that
    by (simp add: RecordChain_new_def)
  have "rec_sequence (sr_record y) \<noteq> rec_sequence ?r" if "y \<in> set xs" for y
  proof -
    obtain i where "i < length xs" "y = xs ! i" using \<open>y \<in> set xs\<close> by (auto simp: in_set_conv_nth)
    then have "unat (rec_sequence (sr_record y)) = 1 + i" using seq [of i] by (simp add: nth_append)
    moreover have "unat (rec_sequence ?r) = 1 + length xs" using seq [of "length xs"] by (simp add: nth_append)
    ultimately show ?thesis using \<open>i < length xs\<close> by auto
  qed
  then have "\<forall>y \<in> set xs. ry_candidates ?st (rec_sequence (sr_record y)) = None" by simp
  then have skip: "try_fold (replay_record sha anchor vc v mp) ?st xs =
      Inr (?st\<lparr>ry_state := s1, ry_chain := c1, ry_terminal := terminal_after xs None\<rparr>)"
    using replay_skip [of sha anchor vc v mp ?st xs "(s1, c1)"] prefix by simp
  have "ledger_inv s"
    using history.run_inv [OF run genesis_ledger_at [OF inv chk]] by (simp add: ledger_at_def)
  moreover have "rec_resulting_state_id ?r = ledger_state_id sha (ca_genesis_id anchor) s"
    using last by (rule verify_record_Inr)
  ultimately have "restore_verified_checkpoint_at_record sha \<lparr>cr_path = name, cr_checkpoint = k\<rparr> ?r s anchor = Inr (Some s)"
    using restore_current [OF _ cp] by simp
  with last show ?thesis
    by (simp add: try_fold_append skip replay_record_def Let_def terminal_after_def)
qed

text \<open>A published checkpoint is found again. When a ledger publishes a checkpoint into a directory without
  other checkpoints, reopening with that directory verifies it and reports its sequence number, and the
  recovered ledger is the one that published it.\<close>

lemma published_checkpoint_is_recovered:
  assumes "ledger_inv g" and "pl_durable sha g anchor vc v mp pl" and "pl_writes_available pl"
    and "length (pl_record_log pl) < 2 ^ 64" and "discovered sha (entries_of dir) = []"
    and "publish_checkpoint sha fault removed (temporary_name process n) pl path dir = (Inr receipt, Some dir')"
    and "load_candidates sha (Some dir') = Inr cs"
  shows "open_with_checkpoints sha (pl_record_log pl) path (Some dir') g anchor vc v mp =
    (Inr (pl\<lparr>pl_recovered_checkpoint_sequence := Some (rc_current_sequence (pl_chain pl))\<rparr>), pl_record_log pl)"
proof -
  obtain xs where chk: "check_open sha g anchor vc v mp = Inr ()"
    and xs: "\<forall>x \<in> set xs. record_wf sha (sr_record x)" "located_records 0 xs = xs" "verified sha g anchor vc v mp xs (pl_tip pl)"
    and pl: "pl_anchor pl = anchor" "pl_validation_context pl = vc" "pl_terminal_record_hash pl = terminal_after xs None"
      "pl_record_log pl = record_file xs"
    using pl_durable_inv [OF assms(2,1)] assms(3) by (auto simp: pl_inv_def)
  obtain h p k where cp: "pl_terminal_record_hash pl = Some h" "snapshot (pl_state pl) = Inr p"
      "checkpoint_from_snapshot sha anchor (rc_current_sequence (pl_chain pl)) h p = Inr k" "path \<noteq> []"
      "publish sha fault removed (temporary_name process n) k dir = (Inr receipt, Some dir')"
    using assms(6) pl(1) by (metis publish_checkpoint_Inr)
  have inv: "ledger_inv (pl_state pl)"
    using history.run_inv [OF xs(3) genesis_ledger_at [OF assms(1) chk]] by (simp add: ledger_at_def)
  then have wf: "checkpoint_wf sha k"
    using checkpoint_from_snapshot_wf [OF cp(3)] snapshot_supply_positive cp(2) by blast
  let ?r = "\<lparr>cr_path = final_name k, cr_checkpoint = k\<rparr>"
  have "set cs = {?r}"
    using publish_outcome [OF wf cp(5)] assms(5,7) load_candidates_Inr [of sha dir' cs] by auto
  then have cands: "checkpoint_candidates_by_sequence (Some cs) = Inr [cp_sequence k \<mapsto> ?r]"
    using by_sequence_single by fastforce
  obtain ys x where ys: "xs = ys @ [x]" using cp(1) pl(3) by (cases xs rule: rev_cases) (auto simp: terminal_after_def)
  obtain s1 c1 where "verify_record sha anchor vc v mp (s1, c1) (sr_record x) = Inr (pl_tip pl)"
    using xs(3) unfolding ys by (auto simp: try_fold_append and_then_eq_Inr)
  then have "chain_apply c1 (sr_record x) = Inr (pl_chain pl)" by (rule verify_record_Inr)
  then have seq: "rc_current_sequence (pl_chain pl) = rec_sequence (sr_record x)" by (rule chain_apply_sequence)
  have kseq: "cp_sequence k = rec_sequence (sr_record x)"
    using cp(3) checkpoint_from_snapshot_Inr [OF inv cp(2)] seq by auto
  have "h = rec_record_hash (sr_record x)" using cp(1) pl(3) ys by (simp add: terminal_after_def)
  then obtain m where "try_fold (replay_record sha anchor vc v mp)
      \<lparr>ry_state = g, ry_chain = RecordChain_new (ca_genesis_state_id anchor), ry_terminal = None,
       ry_recovered = None, ry_candidates = [cp_sequence k \<mapsto> ?r]\<rparr> xs =
    Inr \<lparr>ry_state = pl_state pl, ry_chain = pl_chain pl, ry_terminal = terminal_after xs None,
         ry_recovered = Some (rec_sequence (sr_record x)), ry_candidates = m\<rparr>"
    using replay_current [OF assms(1) chk, of ys x "pl_state pl" "pl_chain pl" p k "final_name k"] xs(3) cp(2,3) seq
    unfolding kseq ys by auto
  moreover have "record_scan_recoverable_tail sha (pl_record_log pl) = Inr (xs, None)"
    using records.scan_complete [OF xs(1)] xs(2) assms(4) pl(4) by (simp add: record_scan_recoverable_tail_def)
  ultimately show ?thesis
    using cp(4) assms(3,7) chk cands seq pl
    by (cases pl) (simp add: open_with_checkpoints_def CheckpointStore_new_def open_internal_def)
qed

subsection \<open>Examples\<close>

definition sample_pl_anchor :: chain_anchor where
  "sample_pl_anchor = \<lparr>ca_genesis_id = 0, ca_validation_context_id = 0, ca_proof_verifier_id = 0,
     ca_mint_policy_id = 0, ca_genesis_state_id = 0\<rparr>"

definition sample_pl_context :: validation_context where
  "sample_pl_context = \<lparr>vc_crypto_suite = RESEARCH_V1, vc_proof_verifier_id = 0, vc_mint_policy_id = 0\<rparr>"

definition sample_pl :: persistent_ledger where
  "sample_pl = pl_at sample_pl_anchor sample_pl_context [] (genesis_of sample_state sample_pl_anchor) None None"

abbreviation sample_open :: "bytes \<Rightarrow> (persistent_ledger_error + persistent_ledger) \<times> bytes" where
  "sample_open log \<equiv> PersistentLedger_open (\<lambda>_. 0) log sample_state sample_pl_anchor sample_pl_context
     sample_verifier sample_policy"

abbreviation sample_durable :: "persistent_ledger \<Rightarrow> bool" where
  "sample_durable \<equiv> pl_durable (\<lambda>_. 0) sample_state sample_pl_anchor sample_pl_context sample_verifier sample_policy"

abbreviation sample_apply ::
  "io_outcome \<Rightarrow> persistent_ledger \<Rightarrow> (persistent_ledger_error + persistent_commit_receipt) \<times> persistent_ledger" where
  "sample_apply io pl \<equiv> pl_apply (\<lambda>_. 0) io pl sample_mint sample_verifier sample_policy"

lemma state_id_const: "ledger_state_id (\<lambda>_. 0) genesis s = 0"
  by (simp add: ledger_state_id_def)

lemma sample_check_open:
  "check_open (\<lambda>_. 0) sample_state sample_pl_anchor sample_pl_context sample_verifier sample_policy = Inr ()"
  by (simp add: check_open_def sample_pl_context_def sample_pl_anchor_def context_validate_def suite_validate_def
      RESEARCH_V1_def context_id_def ensure_validation_components_def sample_verifier_def sample_policy_def state_id_const)

lemma sample_opens: "sample_open [] = (Inr sample_pl, [])"
  using pl_open_complete [OF sample_state_inv sample_check_open, of "[]"] by (simp add: sample_pl_def terminal_after_def)

lemma sample_pl_durable: "sample_durable sample_pl"
  by (rule pl_durable.opened [OF sample_opens])

lemma sample_applies:
  obtains receipt pl where "sample_apply Synced sample_pl = (Inr receipt, pl)" "sample_durable pl"
    "length (pl_record_log pl) < 2 ^ 64" "pl_state pl = sample_minted" "pl_writes_available pl"
    "pl_anchor pl = sample_pl_anchor" "rc_current_sequence (pl_chain pl) = 1"
    "pl_terminal_record_hash pl = Some (pr_record_hash receipt)"
proof -
  let ?ctx = "\<lparr>tvc_genesis_id = 0, tvc_validation_context_id = 0, tvc_transaction_intent_id = 0, tvc_state_id = 0\<rparr>"
  have dec: "decode_transaction (transaction_bytes sample_mint) = Inr sample_mint"
    by (rule decode_transaction_bytes [OF sample_shape(1) sample_typed(1)])
  have enc: "encode_transaction sample_mint = Inr (transaction_bytes sample_mint)"
    using sample_shape(1) by (simp add: encode_transaction_Inr_iff)
  have led: "ledger_apply (\<lambda>_. 0) sample_state sample_mint sample_verifier sample_policy ?ctx = Inr sample_minted"
    using sample_mint_accepted [of "\<lambda>_. 0"] by (simp add: sample_ctx_def state_id_const)
  have intent: "transaction_intent_id (\<lambda>_. 0) sample_mint = Inr 0" by (simp add: transaction_intent_id_eq sample_shape)
  have "validate_transaction_bytes (transaction_bytes sample_mint) = Inr ()"
    using dec by (simp add: validate_transaction_bytes_Inr_iff)
  then obtain r where r: "TransactionRecord_new (\<lambda>_. 0) 1 0 (transaction_bytes sample_mint) 0 = Inr r"
    by (simp add: TransactionRecord_new_def dec intent)
  note new = r [unfolded TransactionRecord_new_Inr_iff, THEN conjunct1]
    r [unfolded TransactionRecord_new_Inr_iff, THEN conjunct2]
  have fields: "pv_id sample_verifier = 0" "mp_id sample_policy = 0" "tx_suite sample_mint = RESEARCH_V1"
    by (simp_all add: sample_verifier_def sample_policy_def sample_mint_def)
  have prep: "prepare_record (\<lambda>_. 0) sample_pl sample_mint sample_verifier sample_policy =
      Inr (sample_minted, r, \<lparr>rc_next_sequence = 2, rc_current_state_id = 0\<rparr>)"
    using r by (simp add: prepare_record_def sample_pl_def pl_at_def sample_pl_anchor_def sample_pl_context_def fields
        ensure_validation_components_def ensure_transaction_suite_def enc intent led
        RecordChain_new_def state_id_const chain_apply_def checked_add_def new)
  have out: "sample_apply Synced sample_pl = (Inr (commit_receipt r 0), pl_append sample_pl r (sample_minted, \<lparr>rc_next_sequence = 2, rc_current_state_id = 0\<rparr>))"
    by (simp add: pl_apply_def prep append_record_wf(1) [OF new(1)] commit_receipt_def pl_append_def)
      (simp add: sample_pl_def pl_at_def)
  have dur: "sample_durable (snd (sample_apply Synced sample_pl))"
    by (rule pl_durable.applied [OF sample_pl_durable sample_typed(1)])
  have "length (record_frame r) < 2 ^ 64"
    using records.length_frame [of "\<lparr>sr_offset = 0, sr_record = r\<rparr>"] record_fits [OF new(1)] by simp
  with out dur show ?thesis
    by (intro that [OF out]) (simp_all add: pl_append_def sample_pl_def pl_at_def rc_current_sequence_def commit_receipt_def)
qed

text \<open>Every theorem above has an instance: an interrupted append, then a durable one with its checkpoint.\<close>

theorem ledger_recovery_witness:
  "\<exists>pl' log. sample_open (pl_record_log (snd (sample_apply (Torn 5) sample_pl))) = (Inr pl', log)"
proof -
  let ?pl = "snd (sample_apply (Torn 5) sample_pl)"
  have "length (pl_record_log ?pl) < 2 ^ 64"
    using sample_typed(1)
    by (cases rule: apply_cases [where sha = "\<lambda>_. 0" and io = "Torn 5" and pl = sample_pl and v = sample_verifier
          and mp = sample_policy]) (simp_all add: sample_pl_def pl_at_def)
  with ledger_recovery [OF sample_state_inv pl_durable.applied [OF sample_pl_durable sample_typed(1), of "Torn 5"]]
  show ?thesis by blast
qed



end
