(* ===== verification/Babybear.thy ===== *)
theory Babybear
  imports Prelude
begin

text \<open>
  Arithmetic of the BabyBear field as the Poseidon2 crates compute it on \<^verbatim>\<open>u32\<close> values:
  the conditional subtraction of \<^verbatim>\<open>crates/noxis-poseidon2-core/src/lib.rs\<close> and the 64-bit
  remainder of \<^verbatim>\<open>crates/noxis-poseidon2-reference/src/lib.rs\<close>, little-endian field encodings, the
  slice iterator \<^verbatim>\<open>chunks\<close> and the \<open>BytePack3LE\<close> packing of byte strings. The reading of
  every operation is the residue class modulo the prime.
\<close>

unbundle bit_operations_syntax

subsection \<open>Little-endian bytes and chunks\<close>

definition to_le_bytes :: "'w::len word \<Rightarrow> bytes" where
  "to_le_bytes w = rev (to_be_bytes w)"

definition from_le_bytes :: "bytes \<Rightarrow> 'w::len word" where
  "from_le_bytes bs = from_be_bytes (rev bs)"

lemma length_to_le_bytes [simp]: "length (to_le_bytes (w :: 'w::len word)) = LENGTH('w) div 8"
  by (simp add: to_le_bytes_def)

lemma from_to_le_bytes [simp]:
  "8 dvd LENGTH('w) \<Longrightarrow> from_le_bytes (to_le_bytes (w :: 'w::len word)) = w"
  by (simp add: from_le_bytes_def to_le_bytes_def)

lemma to_from_le_bytes:
  assumes "8 dvd LENGTH('w)" and "length bs = LENGTH('w) div 8"
  shows "to_le_bytes (from_le_bytes bs :: 'w::len word) = bs"
  using to_from_be_bytes [OF assms(1), of "rev bs"] assms(2)
  by (simp add: to_le_bytes_def from_le_bytes_def)

lemma to_le_bytes_inject [simp]:
  "8 dvd LENGTH('w) \<Longrightarrow> to_le_bytes (w :: 'w::len word) = to_le_bytes v \<longleftrightarrow> w = v"
  by (metis from_to_le_bytes)

text \<open>\<^verbatim>\<open>slice.chunks(n)\<close> for a positive \<open>n\<close>: the last chunk may be shorter.\<close>

function chunks :: "nat \<Rightarrow> 'a list \<Rightarrow> 'a list list" where
  "chunks n xs = (if n = 0 \<or> xs = [] then [] else take n xs # chunks n (drop n xs))"
  by pat_completeness auto
termination by (relation "measure (\<lambda>(n, xs). length xs)") auto

declare chunks.simps [simp del]

lemma chunks_Nil [simp]: "chunks n [] = []"
  by (simp add: chunks.simps)

lemma chunks_append:
  "length xs = n \<Longrightarrow> 0 < n \<Longrightarrow> chunks n (xs @ ys) = xs # chunks n ys"
  by (subst chunks.simps) auto

lemma concat_chunks [simp]: "0 < n \<Longrightarrow> concat (chunks n xs) = xs"
proof (induction n xs rule: chunks.induct)
  case (1 n xs)
  then show ?case by (subst chunks.simps) auto
qed

lemma chunks_length:
  assumes "length xs = m * n" and "0 < n"
  shows "length (chunks n xs) = m" "\<forall>c \<in> set (chunks n xs). length c = n"
  using assms(1)
proof (induction m arbitrary: xs)
  case (Suc m)
  { case 1
    with Suc(1) [of "drop n xs"] assms(2) show ?case by (subst chunks.simps) auto }
  { case 2
    with Suc(2) [of "drop n xs"] assms(2) show ?case by (subst chunks.simps) auto }
qed auto

lemma chunks_concat:
  assumes "\<forall>x \<in> set xss. length x = n" and "0 < n"
  shows "chunks n (concat xss) = xss"
  using assms by (induction xss) (auto simp: chunks_append)

lemma chunks_nth:
  "0 < n \<Longrightarrow> j * n < length xs \<Longrightarrow> chunks n xs ! j = take n (drop (j * n) xs)"
proof (induction j arbitrary: xs)
  case 0
  then show ?case by (subst chunks.simps) auto
next
  case (Suc j)
  then have "chunks n (drop n xs) ! j = take n (drop (j * n) (drop n xs))" by auto
  with Suc.prems show ?case by (subst chunks.simps) (auto simp: add.commute)
qed

subsection \<open>Field elements\<close>

definition BABYBEAR_MODULUS :: u32 where
  "BABYBEAR_MODULUS = 2013265921"

abbreviation canonical :: "u32 \<Rightarrow> bool" where
  "canonical v \<equiv> v < BABYBEAR_MODULUS"

text \<open>The loop that reports the first element at or above the modulus, with its position.\<close>

fun first_noncanonical :: "nat \<Rightarrow> u32 list \<Rightarrow> (nat \<times> u32) option" where
  "first_noncanonical i [] = None"
| "first_noncanonical i (v # vs) =
     (if BABYBEAR_MODULUS \<le> v then Some (i, v) else first_noncanonical (i + 1) vs)"

definition core_add :: "u32 \<Rightarrow> u32 \<Rightarrow> u32" where
  "core_add left right =
     (let total = left + right
      in if BABYBEAR_MODULUS \<le> total then total - BABYBEAR_MODULUS else total)"

definition ref_add :: "u32 \<Rightarrow> u32 \<Rightarrow> u32" where
  "ref_add left right = ucast ((ucast left + ucast right :: u64) mod ucast BABYBEAR_MODULUS)"

definition multiply :: "u32 \<Rightarrow> u32 \<Rightarrow> u32" where
  "multiply left right = ucast ((ucast left * ucast right :: u64) mod ucast BABYBEAR_MODULUS)"

definition sbox_seven :: "u32 \<Rightarrow> u32" where
  "sbox_seven v =
     (let square = multiply v v;
          fourth = multiply square square
      in multiply (multiply fourth square) v)"

definition decode_le32 :: "bytes \<Rightarrow> u32 list" where
  "decode_le32 bs = map from_le_bytes (chunks 4 bs)"

definition encode_le32 :: "u32 list \<Rightarrow> bytes" where
  "encode_le32 es = concat (map to_le_bytes es)"

text \<open>\<open>BytePack3LE\<close>: three source bytes per element, least significant first.\<close>

fun pack_chunk :: "nat \<Rightarrow> u32 \<Rightarrow> bytes \<Rightarrow> u32" where
  "pack_chunk offset v [] = v"
| "pack_chunk offset v (b # bs) = pack_chunk (offset + 1) (v OR push_bit (offset * 8) (ucast b)) bs"

definition byte_pack3le :: "bytes \<Rightarrow> u32 list" where
  "byte_pack3le bs = map (pack_chunk 0 0) (chunks 3 bs)"

subsection \<open>Residues\<close>

lemma unat_modulus [simp]: "unat BABYBEAR_MODULUS = 2013265921"
  by (simp add: BABYBEAR_MODULUS_def)

lemma canonical_iff: "canonical v \<longleftrightarrow> unat v < 2013265921"
  by (simp add: word_less_nat_alt)

lemma canonical_eqI: "unat v = unat w \<Longrightarrow> v = (w :: u32)"
  by (simp add: word_unat_eq_iff)

lemma unat_u32_less: "unat (v :: u32) < 4294967296"
  using unsigned_less [of v, where ?'a = nat] by simp

lemma unat_ucast_u64 [simp]: "unat (ucast (v :: u32) :: u64) = unat v"
  using unat_u32_less [of v] by (simp add: unsigned_ucast_eq take_bit_nat_eq_self_iff)

lemma unat_reduce: "unat (ucast ((w :: u64) mod ucast BABYBEAR_MODULUS) :: u32) = unat w mod 2013265921"
proof -
  have "unat (w mod ucast BABYBEAR_MODULUS) = unat w mod 2013265921"
    by (simp add: unat_mod BABYBEAR_MODULUS_def)
  moreover have "unat w mod 2013265921 < 2013265921" by simp
  ultimately show ?thesis by (simp add: unsigned_ucast_eq take_bit_eq_mod)
qed

lemma unat_ref_add [simp]: "unat (ref_add a b) = (unat a + unat b) mod 2013265921"
proof -
  have "unat (ucast a + ucast b :: u64) = unat a + unat b"
    using unat_u32_less [of a] unat_u32_less [of b] by (simp add: unat_word_ariths)
  then show ?thesis by (simp add: ref_add_def unat_reduce)
qed

lemma unat_multiply [simp]: "unat (multiply a b) = (unat a * unat b) mod 2013265921"
proof -
  have "unat a * unat b < 4294967296 * 4294967296"
    using unat_u32_less [of a] unat_u32_less [of b] by (intro mult_strict_mono) auto
  then have "unat (ucast a * ucast b :: u64) = unat a * unat b"
    by (simp add: unat_word_ariths)
  then show ?thesis by (simp add: multiply_def unat_reduce)
qed

lemma unat_core_add:
  assumes "canonical a" "canonical b"
  shows "unat (core_add a b) = (unat a + unat b) mod 2013265921"
proof -
  from assms have lt: "unat a < 2013265921" "unat b < 2013265921" by (simp_all add: canonical_iff)
  then have s: "unat (a + b) = unat a + unat b" by (simp add: unat_word_ariths)
  show ?thesis
  proof (cases "BABYBEAR_MODULUS \<le> a + b")
    case True
    then have "unat (a + b - BABYBEAR_MODULUS) = unat a + unat b - 2013265921"
      by (simp add: unat_sub s)
    with True lt s show ?thesis
      by (simp add: core_add_def Let_def word_le_nat_alt mod_if)
  next
    case False
    with s show ?thesis by (simp add: core_add_def Let_def word_le_nat_alt)
  qed
qed

lemma canonical_ref_add [simp]: "canonical (ref_add a b)"
  by (simp add: canonical_iff)

lemma canonical_multiply [simp]: "canonical (multiply a b)"
  by (simp add: canonical_iff)

lemma canonical_zero [simp]: "canonical 0"
  by (simp add: canonical_iff)

lemma core_add_eq: "canonical a \<Longrightarrow> canonical b \<Longrightarrow> core_add a b = ref_add a b"
  by (rule canonical_eqI) (simp add: unat_core_add)

lemma canonical_core_add [simp]: "canonical a \<Longrightarrow> canonical b \<Longrightarrow> canonical (core_add a b)"
  by (simp add: core_add_eq)

lemma canonical_sbox_seven [simp]: "canonical (sbox_seven v)"
  by (simp add: sbox_seven_def Let_def)

lemma unat_sbox_seven: "unat (sbox_seven v) = unat v ^ 7 mod 2013265921"
  by (simp add: sbox_seven_def Let_def mod_mult_left_eq mod_mult_right_eq mult.assoc
      power_numeral_reduce)

lemma ref_add_comm: "ref_add a b = ref_add b a"
  by (rule canonical_eqI) (simp add: add.commute)

lemma ref_add_assoc: "ref_add (ref_add a b) c = ref_add a (ref_add b c)"
  by (rule canonical_eqI) (simp add: mod_simps ac_simps)

lemma ref_add_zero [simp]: "canonical a \<Longrightarrow> ref_add 0 a = a" "canonical a \<Longrightarrow> ref_add a 0 = a"
  by (rule canonical_eqI, simp add: canonical_iff)+

lemma multiply_one: "canonical a \<Longrightarrow> multiply 1 a = a"
  by (rule canonical_eqI) (simp add: canonical_iff)

lemma multiply_add_left: "multiply (ref_add a b) c = ref_add (multiply a c) (multiply b c)"
  by (rule canonical_eqI) (simp add: mod_simps distrib_right)

lemma first_noncanonical_None_iff: "first_noncanonical i vs = None \<longleftrightarrow> (\<forall>v \<in> set vs. canonical v)"
  by (induction vs arbitrary: i) (auto simp: not_le)

lemma first_noncanonical_Some:
  "first_noncanonical i vs = Some (j, v) \<Longrightarrow>
     i \<le> j \<and> j < i + length vs \<and> vs ! (j - i) = v \<and> \<not> canonical v"
proof (induction vs arbitrary: i)
  case (Cons w vs)
  show ?case
  proof (cases "BABYBEAR_MODULUS \<le> w")
    case True
    with Cons.prems show ?thesis by (auto simp: not_less)
  next
    case False
    with Cons.prems Cons.IH [of "i + 1"] show ?thesis by (auto simp: nth_Cons')
  qed
qed simp

subsection \<open>Encodings of element vectors\<close>

lemma length_encode_le32 [simp]: "length (encode_le32 es) = 4 * length es"
  by (induction es) (auto simp: encode_le32_def)

lemma decode_encode_le32 [simp]: "decode_le32 (encode_le32 es) = es"
proof -
  have "chunks 4 (concat (map to_le_bytes es)) = map to_le_bytes es"
    by (rule chunks_concat) auto
  then show ?thesis by (simp add: decode_le32_def encode_le32_def comp_def)
qed

lemma encode_decode_le32:
  assumes "4 dvd length bs"
  shows "encode_le32 (decode_le32 bs) = bs"
proof -
  from assms obtain m where "length bs = m * 4" by (metis dvd_def mult.commute)
  then have "\<forall>c \<in> set (chunks 4 bs). length c = 4" using chunks_length(2) [of bs m 4] by simp
  then have "map (to_le_bytes \<circ> (from_le_bytes :: bytes \<Rightarrow> u32)) (chunks 4 bs) = chunks 4 bs"
    by (intro map_idI) (auto simp: to_from_le_bytes)
  then show ?thesis by (simp add: encode_le32_def decode_le32_def)
qed

lemma length_decode_le32: "length bs = 4 * n \<Longrightarrow> length (decode_le32 bs) = n"
  using chunks_length(1) [of bs n 4] by (simp add: decode_le32_def mult.commute)

lemma encode_le32_append [simp]: "encode_le32 (xs @ ys) = encode_le32 xs @ encode_le32 ys"
  by (simp add: encode_le32_def)

lemma encode_le32_inject: "encode_le32 xs = encode_le32 ys \<longleftrightarrow> xs = ys"
  by (metis decode_encode_le32)

lemma decode_le32_inject:
  "length xs = length ys \<Longrightarrow> 4 dvd length ys \<Longrightarrow> decode_le32 xs = decode_le32 ys \<longleftrightarrow> xs = ys"
  by (metis encode_decode_le32)

end
