(* ===== verification/Tree_Params.thy ===== *)
theory Tree_Params
  imports Babybear Noxis_Types
begin

text \<open>
  The frozen parameter candidates of \<^verbatim>\<open>crates/noxis-tree-params\<close>: the draft manifest, the P24 tree
  parameters (\<open>p24.rs\<close>) and their children, the private-note domains \<open>NXPH\<close>, the intent
  commitment \<open>NXIC\<close>, the sparse nullifier tree \<open>NXSM\<close> and the recipient-envelope digest,
  each with the rejection sampler that derives its capacity vectors. SHA-256 and base64 are
  third-party code and the embedded texts are data files: they are the fields of one record, an
  argument of every definition. The \<^verbatim>\<open>expect\<close> on the sampler's counter is an error value.
\<close>

record candidate_env =
  ce_sha :: sha256
  ce_base64 :: "bytes \<Rightarrow> bytes option"
  ce_p24_text :: bytes
  ce_note_text :: bytes
  ce_intent_text :: bytes
  ce_sparse_text :: bytes

definition is_ascii_whitespace :: "byte \<Rightarrow> bool" where
  "is_ascii_whitespace c = (c \<in> {32, 9, 10, 12, 13})"

definition compact_text :: "bytes \<Rightarrow> bytes" where
  "compact_text text = filter (\<lambda>c. \<not> is_ascii_whitespace c) text"

definition le32_at :: "bytes \<Rightarrow> nat \<Rightarrow> u32" where
  "le32_at bs offset = from_le_bytes (take 4 (drop offset bs))"

definition nul_terminated :: "string \<Rightarrow> bytes" where
  "nul_terminated s = ascii s @ [0]"

subsection \<open>The rejection sampler of the capacity vectors\<close>

text \<open>The inner loop over the eight words of one digest, which stops at the ninth element.\<close>

fun accept_words :: "u32 list \<Rightarrow> u32 list \<Rightarrow> u32 list" where
  "accept_words out [] = out"
| "accept_words out (c # cs) =
     (if c < BABYBEAR_MODULUS
      then (if length out + 1 = 9 then out @ [c] else accept_words (out @ [c]) cs)
      else accept_words out cs)"

definition digest_words :: "id32 \<Rightarrow> u32 list" where
  "digest_words d = map from_be_bytes (chunks 4 (to_be_bytes d))"

text \<open>The outer loop; \<open>None\<close> is the panic of the exhausted counter.\<close>

function sample_iv :: "(u32 \<Rightarrow> id32) \<Rightarrow> u32 \<Rightarrow> u32 list \<Rightarrow> u32 list option" where
  "sample_iv digest counter out =
     (if length out < 9
      then (case checked_add counter 1 of
              None \<Rightarrow> None
            | Some counter' \<Rightarrow> sample_iv digest counter' (accept_words out (digest_words (digest counter))))
      else Some out)"
  by pat_completeness auto
termination
proof (relation "measure (\<lambda>(digest, counter, out). 2 ^ 32 - unat counter)")
  fix digest :: "u32 \<Rightarrow> id32" and counter counter' :: u32 and out :: "u32 list"
  assume "checked_add counter 1 = Some counter'"
  then have "unat counter' = unat counter + 1" by (simp add: checked_add_Some_iff)
  then show "((digest, counter', accept_words out (digest_words (digest counter))), digest, counter, out)
      \<in> measure (\<lambda>(digest, counter, out). 2 ^ 32 - unat counter)"
    using unsigned_less [of counter', where ?'a = nat] by simp
qed simp

declare sample_iv.simps [simp del]

subsection \<open>The draft manifest\<close>

datatype tree_params_error =
  DraftInvalidManifestLength nat nat
| DraftInvalidManifestMagic
| DraftUnsupportedManifestVersion
| DraftUnsupportedManifestKind
| NonCanonicalDraftManifest

definition draft_encode :: bytes where
  "draft_encode = ascii ''NXTM'' @ [0, 1, 0, 0, 32, 2, 1, 1, 16, 0, 0, 0, 0x78, 0, 0, 1, 0, 0, 0, 0]"

definition draft_decode :: "bytes \<Rightarrow> tree_params_error + unit" where
  "draft_decode bs =
     (if length bs \<noteq> 24 then Inl (DraftInvalidManifestLength (length bs) 24)
      else if take 4 bs \<noteq> ascii ''NXTM'' then Inl DraftInvalidManifestMagic
      else if take 2 (drop 4 bs) \<noteq> to_be_bytes (1 :: u16) then Inl DraftUnsupportedManifestVersion
      else if bs ! 6 \<noteq> 0 then Inl DraftUnsupportedManifestKind
      else if bs \<noteq> draft_encode then Inl NonCanonicalDraftManifest
      else Inr ())"

definition draft_candidate_id :: "sha256 \<Rightarrow> id32" where
  "draft_candidate_id sha = sha (nul_terminated ''NOXIS/TREE-PARAMETERS-ID/V2'' @ draft_encode)"

definition frozen_vector_elements :: "u32 list" where
  "frozen_vector_elements =
     [0, 1, 2, BABYBEAR_MODULUS - 2, BABYBEAR_MODULUS - 1, 42, 65535, 65536, 16909060, 987654321,
      5, 6, 7, 8, 9, 10]"

definition frozen_vector_encoded :: bytes where
  "frozen_vector_encoded =
     [0, 0, 0, 0, 1, 0, 0, 0, 2, 0, 0, 0, 255, 255, 255, 119, 0, 0, 0, 120, 42, 0, 0, 0,
      255, 255, 0, 0, 0, 0, 1, 0, 4, 3, 2, 1, 177, 104, 222, 58, 5, 0, 0, 0, 6, 0, 0, 0,
      7, 0, 0, 0, 8, 0, 0, 0, 9, 0, 0, 0, 10, 0, 0, 0]"

subsection \<open>The P24 tree parameters\<close>

datatype p24_tree_domain = TreeLeaf | TreeNode | TreeEmptyBase

datatype p24_candidate_error =
  P24InvalidEmbeddedBase64
| P24InvalidPayloadLength nat nat
| P24PayloadChecksumMismatch
| P24NonCanonicalFieldElement nat u32
| P24InvalidDerivedIv p24_tree_domain
| P24InvalidManifestLength nat nat
| P24InvalidManifestMagic
| P24UnsupportedManifestVersion
| P24UnsupportedManifestKind
| P24NonCanonicalManifest
| P24IvSamplerExhausted

fun p24_label :: "p24_tree_domain \<Rightarrow> bytes" where
  "p24_label TreeLeaf = nul_terminated ''NOXIS/POSEIDON2-TREE/V2/LEAF''"
| "p24_label TreeNode = nul_terminated ''NOXIS/POSEIDON2-TREE/V2/NODE''"
| "p24_label TreeEmptyBase = nul_terminated ''NOXIS/POSEIDON2-TREE/V2/EMPTY-BASE''"

fun p24_payload_index :: "p24_tree_domain \<Rightarrow> nat" where
  "p24_payload_index TreeLeaf = 0"
| "p24_payload_index TreeNode = 1"
| "p24_payload_index TreeEmptyBase = 2"

definition P24_EXPECTED_PAYLOAD_SHA256 :: id32 where
  "P24_EXPECTED_PAYLOAD_SHA256 = 0x48f6c25b02a640c06e3bbc8fc49704634f254cd0a77161a59b283e5302a390b0"

definition p24_derive_iv :: "candidate_env \<Rightarrow> p24_tree_domain \<Rightarrow> p24_candidate_error + u32 list" where
  "p24_derive_iv env role =
     ok_or (sample_iv (\<lambda>counter. ce_sha env (nul_terminated ''NOXIS/POSEIDON2-TREE-IV/V2''
               @ p24_label role @ to_be_bytes counter)) 0 [])
       P24IvSamplerExhausted"

text \<open>The nine elements stored for a domain: element \<open>1872 = 24 + 24 * 24 + 24 * 24 + 29 * 24\<close> on.\<close>

definition p24_stored_iv :: "bytes \<Rightarrow> p24_tree_domain \<Rightarrow> u32 list" where
  "p24_stored_iv payload role =
     map (\<lambda>i. le32_at payload ((1872 + p24_payload_index role * 9) * 4 + i * 4)) [0..<9]"

definition p24_check_iv ::
  "candidate_env \<Rightarrow> bytes \<Rightarrow> p24_tree_domain \<Rightarrow> p24_candidate_error + u32 list" where
  "p24_check_iv env payload role =
     and_then (p24_derive_iv env role) (\<lambda>derived.
       if p24_stored_iv payload role \<noteq> derived then Inl (P24InvalidDerivedIv role)
       else Inr (p24_stored_iv payload role))"

definition p24_validate_payload :: "candidate_env \<Rightarrow> bytes \<Rightarrow> p24_candidate_error + unit" where
  "p24_validate_payload env payload =
     (if length payload \<noteq> 7596 then Inl (P24InvalidPayloadLength (length payload) 7596)
      else if ce_sha env payload \<noteq> P24_EXPECTED_PAYLOAD_SHA256 then Inl P24PayloadChecksumMismatch
      else case first_noncanonical 0 (map (\<lambda>i. le32_at payload (i * 4)) [0..<1899]) of
        Some (i, v) \<Rightarrow> Inl (P24NonCanonicalFieldElement i v)
      | None \<Rightarrow>
          try_fold (\<lambda>_ role. and_then (p24_check_iv env payload role) (\<lambda>_. Inr ()))
            () [TreeLeaf, TreeNode, TreeEmptyBase])"

definition p24_parameter_payload :: "candidate_env \<Rightarrow> p24_candidate_error + bytes" where
  "p24_parameter_payload env =
     and_then (ok_or (ce_base64 env (compact_text (ce_p24_text env))) P24InvalidEmbeddedBase64)
       (\<lambda>payload. and_then (p24_validate_payload env payload) (\<lambda>_. Inr payload))"

definition p24_iv :: "candidate_env \<Rightarrow> p24_tree_domain \<Rightarrow> p24_candidate_error + u32 list" where
  "p24_iv env role = and_then (p24_parameter_payload env) (\<lambda>payload. p24_check_iv env payload role)"

definition p24_header :: bytes where
  "p24_header =
     ascii ''NXTM'' @ to_be_bytes (2 :: u16) @ [1, 0] @ to_be_bytes (1 :: u16)
     @ [32, 2, 1, 1, 16, 24, 7, 8, 21, 15, 9, 1, 1, 0]
     @ to_be_bytes BABYBEAR_MODULUS @ to_be_bytes (24 :: u16)
     @ [24, 24, 24, 24, 29, 24, 3, 9]
     @ to_be_bytes (7596 :: u32) @ replicate 22 0"

definition p24_encode :: "candidate_env \<Rightarrow> p24_candidate_error + bytes" where
  "p24_encode env = and_then (p24_parameter_payload env) (\<lambda>payload. Inr (p24_header @ payload))"

definition p24_decode :: "candidate_env \<Rightarrow> bytes \<Rightarrow> p24_candidate_error + unit" where
  "p24_decode env bs =
     (if length bs \<noteq> 7660 then Inl (P24InvalidManifestLength (length bs) 7660)
      else if take 4 bs \<noteq> ascii ''NXTM'' then Inl P24InvalidManifestMagic
      else if take 2 (drop 4 bs) \<noteq> to_be_bytes (2 :: u16) then Inl P24UnsupportedManifestVersion
      else if bs ! 6 \<noteq> 1 then Inl P24UnsupportedManifestKind
      else and_then (p24_encode env) (\<lambda>canonical_bytes.
        if bs \<noteq> canonical_bytes then Inl P24NonCanonicalManifest else Inr ()))"

definition p24_candidate_id :: "candidate_env \<Rightarrow> p24_candidate_error + id32" where
  "p24_candidate_id env =
     and_then (p24_encode env) (\<lambda>manifest.
       Inr (ce_sha env (nul_terminated ''NOXIS/TREE-P24-PARAMETERS-CANDIDATE-ID/V1'' @ manifest)))"

subsection \<open>The private-note domains\<close>

datatype note_domain = AddrDomain | NoteDomain | NullifierDomain

datatype note_domains_error =
  NoteParent p24_candidate_error
| NoteInvalidEmbeddedBase64
| NoteInvalidPayloadLength nat nat
| NotePayloadChecksumMismatch
| NoteManifestChecksumMismatch
| NoteNonCanonicalFieldElement nat u32
| NoteInvalidDerivedIv note_domain
| NoteInvalidManifestLength nat nat
| NoteInvalidManifestMagic
| NoteUnsupportedManifestVersion
| NoteNonCanonicalManifest
| NoteIvSamplerExhausted

fun note_input_bytes :: "note_domain \<Rightarrow> nat" where
  "note_input_bytes AddrDomain = 32"
| "note_input_bytes NoteDomain = 178"
| "note_input_bytes NullifierDomain = 132"

definition div_ceil :: "nat \<Rightarrow> nat \<Rightarrow> nat" where
  "div_ceil a b = (a + b - 1) div b"

definition note_input_elements :: "note_domain \<Rightarrow> nat" where
  "note_input_elements role = div_ceil (note_input_bytes role) 3"

fun note_label :: "note_domain \<Rightarrow> bytes" where
  "note_label AddrDomain = nul_terminated ''NOXIS/POSEIDON2-PRIVACY/V1/ADDR''"
| "note_label NoteDomain = nul_terminated ''NOXIS/POSEIDON2-PRIVACY/V1/NOTE''"
| "note_label NullifierDomain = nul_terminated ''NOXIS/POSEIDON2-PRIVACY/V1/NULLIFIER''"

fun note_payload_index :: "note_domain \<Rightarrow> nat" where
  "note_payload_index AddrDomain = 0"
| "note_payload_index NoteDomain = 1"
| "note_payload_index NullifierDomain = 2"

definition NOTE_EXPECTED_PAYLOAD_SHA256 :: id32 where
  "NOTE_EXPECTED_PAYLOAD_SHA256 = 0xd1ec18bc78ac13aad2edd6a0e99918a1ffb8964b0ead257730fabda2fa8df09c"

definition decode_iv :: "bytes \<Rightarrow> u32 list" where
  "decode_iv bs = map (\<lambda>i. le32_at bs (i * 4)) [0..<9]"

definition note_derive_iv :: "candidate_env \<Rightarrow> note_domain \<Rightarrow> note_domains_error + u32 list" where
  "note_derive_iv env role =
     and_then (map_err NoteParent (p24_candidate_id env)) (\<lambda>parent_id.
       ok_or (sample_iv (\<lambda>counter. ce_sha env (nul_terminated ''NOXIS/POSEIDON2-PRIVACY-HASH-IV/V1''
                 @ to_be_bytes parent_id @ note_label role @ to_be_bytes counter)) 0 [])
         NoteIvSamplerExhausted)"

definition note_check_iv ::
  "candidate_env \<Rightarrow> bytes \<Rightarrow> note_domain \<Rightarrow> note_domains_error + u32 list" where
  "note_check_iv env payload role =
     (let stored = decode_iv (take 36 (drop (note_payload_index role * 9 * 4) payload))
      in and_then (note_derive_iv env role) (\<lambda>derived.
           if stored \<noteq> derived then Inl (NoteInvalidDerivedIv role) else Inr stored))"

definition note_validate_payload :: "candidate_env \<Rightarrow> bytes \<Rightarrow> note_domains_error + unit" where
  "note_validate_payload env payload =
     (if length payload \<noteq> 108 then Inl (NoteInvalidPayloadLength (length payload) 108)
      else if ce_sha env payload \<noteq> NOTE_EXPECTED_PAYLOAD_SHA256 then Inl NotePayloadChecksumMismatch
      else case first_noncanonical 0 (decode_le32 payload) of
        Some (i, v) \<Rightarrow> Inl (NoteNonCanonicalFieldElement i v)
      | None \<Rightarrow>
          try_fold (\<lambda>_ role. and_then (note_check_iv env payload role) (\<lambda>_. Inr ()))
            () [AddrDomain, NoteDomain, NullifierDomain])"

definition note_payload :: "candidate_env \<Rightarrow> note_domains_error + bytes" where
  "note_payload env =
     and_then (ok_or (ce_base64 env (compact_text (ce_note_text env))) NoteInvalidEmbeddedBase64)
       (\<lambda>payload. and_then (note_validate_payload env payload) (\<lambda>_. Inr payload))"

definition note_iv :: "candidate_env \<Rightarrow> note_domain \<Rightarrow> note_domains_error + u32 list" where
  "note_iv env role = and_then (note_payload env) (\<lambda>payload. note_check_iv env payload role)"

definition note_descriptor :: "bytes \<Rightarrow> note_domain \<Rightarrow> bytes" where
  "note_descriptor payload role =
     [of_nat (note_payload_index role) + 1, of_nat (length (note_label role))]
     @ to_be_bytes (of_nat (note_input_bytes role) :: u16)
     @ [of_nat (note_input_elements role)] @ note_label role
     @ take 36 (drop (note_payload_index role * 9 * 4) payload)"

definition note_manifest_checksum :: "candidate_env \<Rightarrow> bytes \<Rightarrow> bytes" where
  "note_manifest_checksum env bs =
     to_be_bytes (ce_sha env
       (nul_terminated ''NOXIS/POSEIDON2-PRIVACY-HASH-MANIFEST-CHECKSUM/V1'' @ bs))"

definition note_manifest_body :: "bytes \<Rightarrow> id32 \<Rightarrow> bytes \<Rightarrow> bytes" where
  "note_manifest_body parent_bytes parent_id payload =
     ascii ''NXPH'' @ to_be_bytes (1 :: u16) @ [1, 0] @ to_be_bytes (7660 :: u16)
     @ to_be_bytes parent_id
     @ [1, 1, 16, 24, 15, 9, 1, 1, 3, 1, 1, 1, 1, 3, 9, 1, 0, 0, 0, 0, 0, 0]
     @ parent_bytes
     @ concat (map (note_descriptor payload) [AddrDomain, NoteDomain, NullifierDomain])"

definition note_encode :: "candidate_env \<Rightarrow> note_domains_error + bytes" where
  "note_encode env =
     and_then (map_err NoteParent (p24_encode env)) (\<lambda>parent_bytes.
     and_then (map_err NoteParent (p24_candidate_id env)) (\<lambda>parent_id.
     and_then (note_payload env) (\<lambda>payload.
       let manifest = note_manifest_body parent_bytes parent_id payload
       in Inr (manifest @ note_manifest_checksum env manifest))))"

definition note_decode :: "candidate_env \<Rightarrow> bytes \<Rightarrow> note_domains_error + unit" where
  "note_decode env bs =
     (if length bs \<noteq> 7980 then Inl (NoteInvalidManifestLength (length bs) 7980)
      else if take 4 bs \<noteq> ascii ''NXPH'' then Inl NoteInvalidManifestMagic
      else if take 2 (drop 4 bs) \<noteq> to_be_bytes (1 :: u16) then Inl NoteUnsupportedManifestVersion
      else if bs ! 6 \<noteq> 1 \<or> bs ! 7 \<noteq> 0 then Inl NoteNonCanonicalManifest
      else if drop (length bs - 32) bs \<noteq> note_manifest_checksum env (take (length bs - 32) bs)
        then Inl NoteManifestChecksumMismatch
      else and_then (note_encode env) (\<lambda>canonical_bytes.
        if bs \<noteq> canonical_bytes then Inl NoteNonCanonicalManifest else Inr ()))"

definition note_candidate_id :: "candidate_env \<Rightarrow> note_domains_error + id32" where
  "note_candidate_id env =
     and_then (note_encode env) (\<lambda>manifest.
       Inr (ce_sha env (nul_terminated ''NOXIS/POSEIDON2-PRIVACY-HASH-CANDIDATE-ID/V1'' @ manifest)))"

subsection \<open>The intent commitment\<close>

datatype intent_candidate_error =
  IntentParent note_domains_error
| IntentInvalidEmbeddedBase64
| IntentInvalidPayloadLength nat nat
| IntentPayloadChecksumMismatch
| IntentManifestChecksumMismatch
| IntentNonCanonicalFieldElement nat u32
| IntentInvalidDerivedIv
| IntentInvalidManifestLength nat nat
| IntentInvalidManifestMagic
| IntentUnsupportedManifestVersion
| IntentNonCanonicalManifest
| IntentIvSamplerExhausted

definition INTENT_LABEL :: bytes where
  "INTENT_LABEL = nul_terminated ''NOXIS/POSEIDON2-PRIVACY/V1/INTENT-COMMITMENT''"

definition INTENT_EXPECTED_PAYLOAD_SHA256 :: id32 where
  "INTENT_EXPECTED_PAYLOAD_SHA256 = 0xcf8283c18dd1ac74ae1eb9b1d05e4bb89ea419960dd6fff4270aa59f5274c469"

definition intent_derive_iv :: "candidate_env \<Rightarrow> intent_candidate_error + u32 list" where
  "intent_derive_iv env =
     and_then (map_err IntentParent (note_candidate_id env)) (\<lambda>parent_id.
       ok_or (sample_iv (\<lambda>counter. ce_sha env (nul_terminated ''NOXIS/POSEIDON2-INTENT-COMMITMENT-IV/V1''
                 @ to_be_bytes parent_id @ INTENT_LABEL @ to_be_bytes counter)) 0 [])
         IntentIvSamplerExhausted)"

definition intent_check_iv :: "candidate_env \<Rightarrow> bytes \<Rightarrow> intent_candidate_error + u32 list" where
  "intent_check_iv env payload =
     and_then (intent_derive_iv env) (\<lambda>derived.
       if decode_iv payload \<noteq> derived then Inl IntentInvalidDerivedIv else Inr (decode_iv payload))"

definition intent_validate_payload :: "candidate_env \<Rightarrow> bytes \<Rightarrow> intent_candidate_error + unit" where
  "intent_validate_payload env payload =
     (if length payload \<noteq> 36 then Inl (IntentInvalidPayloadLength (length payload) 36)
      else if ce_sha env payload \<noteq> INTENT_EXPECTED_PAYLOAD_SHA256 then Inl IntentPayloadChecksumMismatch
      else case first_noncanonical 0 (decode_le32 payload) of
        Some (i, v) \<Rightarrow> Inl (IntentNonCanonicalFieldElement i v)
      | None \<Rightarrow> and_then (intent_check_iv env payload) (\<lambda>_. Inr ()))"

definition intent_payload :: "candidate_env \<Rightarrow> intent_candidate_error + bytes" where
  "intent_payload env =
     and_then (ok_or (ce_base64 env (compact_text (ce_intent_text env))) IntentInvalidEmbeddedBase64)
       (\<lambda>payload. and_then (intent_validate_payload env payload) (\<lambda>_. Inr payload))"

definition intent_iv :: "candidate_env \<Rightarrow> intent_candidate_error + u32 list" where
  "intent_iv env = and_then (intent_payload env) (intent_check_iv env)"

definition intent_descriptor :: "bytes \<Rightarrow> bytes" where
  "intent_descriptor payload =
     [1, of_nat (length INTENT_LABEL)] @ to_be_bytes (640 :: u16) @ [214] @ INTENT_LABEL @ payload"

definition intent_manifest_checksum :: "candidate_env \<Rightarrow> bytes \<Rightarrow> bytes" where
  "intent_manifest_checksum env bs =
     to_be_bytes (ce_sha env
       (nul_terminated ''NOXIS/POSEIDON2-INTENT-COMMITMENT-MANIFEST-CHECKSUM/V1'' @ bs))"

definition intent_manifest_body :: "bytes \<Rightarrow> id32 \<Rightarrow> bytes \<Rightarrow> bytes" where
  "intent_manifest_body parent_bytes parent_id payload =
     ascii ''NXIC'' @ to_be_bytes (1 :: u16) @ [1, 0] @ to_be_bytes (7980 :: u16)
     @ to_be_bytes parent_id
     @ [1, 1, 16, 24, 15, 9, 1, 1, 3, 1, 1, 1, 1, 1, 9, 1, 0, 0, 0, 0, 0, 0]
     @ parent_bytes @ intent_descriptor payload"

definition intent_encode :: "candidate_env \<Rightarrow> intent_candidate_error + bytes" where
  "intent_encode env =
     and_then (map_err IntentParent (note_encode env)) (\<lambda>parent_bytes.
     and_then (map_err IntentParent (note_candidate_id env)) (\<lambda>parent_id.
     and_then (intent_payload env) (\<lambda>payload.
       let manifest = intent_manifest_body parent_bytes parent_id payload
       in Inr (manifest @ intent_manifest_checksum env manifest))))"

definition intent_decode :: "candidate_env \<Rightarrow> bytes \<Rightarrow> intent_candidate_error + unit" where
  "intent_decode env bs =
     (if length bs \<noteq> 8162 then Inl (IntentInvalidManifestLength (length bs) 8162)
      else if take 4 bs \<noteq> ascii ''NXIC'' then Inl IntentInvalidManifestMagic
      else if take 2 (drop 4 bs) \<noteq> to_be_bytes (1 :: u16) then Inl IntentUnsupportedManifestVersion
      else if bs ! 6 \<noteq> 1 \<or> bs ! 7 \<noteq> 0 then Inl IntentNonCanonicalManifest
      else if drop (length bs - 32) bs \<noteq> intent_manifest_checksum env (take (length bs - 32) bs)
        then Inl IntentManifestChecksumMismatch
      else and_then (intent_encode env) (\<lambda>canonical_bytes.
        if bs \<noteq> canonical_bytes then Inl IntentNonCanonicalManifest else Inr ()))"

definition intent_candidate_id :: "candidate_env \<Rightarrow> intent_candidate_error + id32" where
  "intent_candidate_id env =
     and_then (intent_encode env) (\<lambda>manifest.
       Inr (ce_sha env
         (nul_terminated ''NOXIS/POSEIDON2-INTENT-COMMITMENT-CANDIDATE-ID/V1'' @ manifest)))"

subsection \<open>The sparse nullifier tree\<close>

datatype sparse_domain = SparseLeaf | SparseNode | SparseEmpty

datatype sparse_candidate_error =
  SparseParent note_domains_error
| SparseInvalidEmbeddedBase64
| SparseInvalidPayloadLength nat nat
| SparsePayloadChecksumMismatch
| SparseManifestChecksumMismatch
| SparseNonCanonicalFieldElement nat u32
| SparseInvalidDerivedIv sparse_domain
| SparseInvalidManifestLength nat nat
| SparseInvalidManifestMagic
| SparseUnsupportedManifestVersion
| SparseNonCanonicalManifest
| SparseIvSamplerExhausted

fun sparse_input_bytes :: "sparse_domain \<Rightarrow> nat" where
  "sparse_input_bytes SparseLeaf = 64"
| "sparse_input_bytes SparseNode = 128"
| "sparse_input_bytes SparseEmpty = 0"

definition sparse_input_elements :: "sparse_domain \<Rightarrow> nat" where
  "sparse_input_elements role = div_ceil (sparse_input_bytes role) 3"

fun sparse_label :: "sparse_domain \<Rightarrow> bytes" where
  "sparse_label SparseLeaf = nul_terminated ''NOXIS/POSEIDON2-PRIVACY/V1/NULLIFIER-SPARSE-LEAF''"
| "sparse_label SparseNode = nul_terminated ''NOXIS/POSEIDON2-PRIVACY/V1/NULLIFIER-SPARSE-NODE''"
| "sparse_label SparseEmpty = nul_terminated ''NOXIS/POSEIDON2-PRIVACY/V1/NULLIFIER-SPARSE-EMPTY''"

fun sparse_payload_index :: "sparse_domain \<Rightarrow> nat" where
  "sparse_payload_index SparseLeaf = 0"
| "sparse_payload_index SparseNode = 1"
| "sparse_payload_index SparseEmpty = 2"

definition SPARSE_EXPECTED_PAYLOAD_SHA256 :: id32 where
  "SPARSE_EXPECTED_PAYLOAD_SHA256 = 0xfa1d306bf4a47d77e7662ffb48d9c7c92266d9daaee0792b31bc6cf49d978f57"

definition sparse_derive_iv :: "candidate_env \<Rightarrow> sparse_domain \<Rightarrow> sparse_candidate_error + u32 list" where
  "sparse_derive_iv env role =
     and_then (map_err SparseParent (note_candidate_id env)) (\<lambda>parent_id.
       ok_or (sample_iv (\<lambda>counter. ce_sha env
                 (nul_terminated ''NOXIS/POSEIDON2-NULLIFIER-SPARSE-MERKLE-IV/V1''
                 @ to_be_bytes parent_id @ sparse_label role @ to_be_bytes counter)) 0 [])
         SparseIvSamplerExhausted)"

definition sparse_check_iv ::
  "candidate_env \<Rightarrow> bytes \<Rightarrow> sparse_domain \<Rightarrow> sparse_candidate_error + u32 list" where
  "sparse_check_iv env payload role =
     (let stored = decode_iv (take 36 (drop (sparse_payload_index role * 9 * 4) payload))
      in and_then (sparse_derive_iv env role) (\<lambda>derived.
           if stored \<noteq> derived then Inl (SparseInvalidDerivedIv role) else Inr stored))"

definition sparse_validate_payload :: "candidate_env \<Rightarrow> bytes \<Rightarrow> sparse_candidate_error + unit" where
  "sparse_validate_payload env payload =
     (if length payload \<noteq> 108 then Inl (SparseInvalidPayloadLength (length payload) 108)
      else if ce_sha env payload \<noteq> SPARSE_EXPECTED_PAYLOAD_SHA256 then Inl SparsePayloadChecksumMismatch
      else case first_noncanonical 0 (decode_le32 payload) of
        Some (i, v) \<Rightarrow> Inl (SparseNonCanonicalFieldElement i v)
      | None \<Rightarrow>
          try_fold (\<lambda>_ role. and_then (sparse_check_iv env payload role) (\<lambda>_. Inr ()))
            () [SparseLeaf, SparseNode, SparseEmpty])"

definition sparse_payload :: "candidate_env \<Rightarrow> sparse_candidate_error + bytes" where
  "sparse_payload env =
     and_then (ok_or (ce_base64 env (compact_text (ce_sparse_text env))) SparseInvalidEmbeddedBase64)
       (\<lambda>payload. and_then (sparse_validate_payload env payload) (\<lambda>_. Inr payload))"

definition sparse_iv :: "candidate_env \<Rightarrow> sparse_domain \<Rightarrow> sparse_candidate_error + u32 list" where
  "sparse_iv env role = and_then (sparse_payload env) (\<lambda>payload. sparse_check_iv env payload role)"

definition sparse_descriptor :: "bytes \<Rightarrow> sparse_domain \<Rightarrow> bytes" where
  "sparse_descriptor payload role =
     [of_nat (sparse_payload_index role) + 1, of_nat (length (sparse_label role))]
     @ to_be_bytes (of_nat (sparse_input_bytes role) :: u16)
     @ [of_nat (sparse_input_elements role)] @ sparse_label role
     @ take 36 (drop (sparse_payload_index role * 9 * 4) payload)"

definition sparse_manifest_checksum :: "candidate_env \<Rightarrow> bytes \<Rightarrow> bytes" where
  "sparse_manifest_checksum env bs =
     to_be_bytes (ce_sha env
       (nul_terminated ''NOXIS/POSEIDON2-NULLIFIER-SPARSE-MERKLE-MANIFEST-CHECKSUM/V1'' @ bs))"

definition sparse_manifest_body :: "bytes \<Rightarrow> id32 \<Rightarrow> bytes \<Rightarrow> bytes" where
  "sparse_manifest_body parent_bytes parent_id payload =
     ascii ''NXSM'' @ to_be_bytes (1 :: u16) @ [1, 0] @ to_be_bytes (7980 :: u16)
     @ to_be_bytes parent_id
     @ [1, 1, 16, 24, 15, 9, 1, 1, 3, 1, 1, 1, 1, 3, 9, 1, 2, 0, 1, 1, 1, 1]
     @ parent_bytes
     @ concat (map (sparse_descriptor payload) [SparseLeaf, SparseNode, SparseEmpty])"

definition sparse_encode :: "candidate_env \<Rightarrow> sparse_candidate_error + bytes" where
  "sparse_encode env =
     and_then (map_err SparseParent (note_encode env)) (\<lambda>parent_bytes.
     and_then (map_err SparseParent (note_candidate_id env)) (\<lambda>parent_id.
     and_then (sparse_payload env) (\<lambda>payload.
       let manifest = sparse_manifest_body parent_bytes parent_id payload
       in Inr (manifest @ sparse_manifest_checksum env manifest))))"

definition sparse_decode :: "candidate_env \<Rightarrow> bytes \<Rightarrow> sparse_candidate_error + unit" where
  "sparse_decode env bs =
     (if length bs \<noteq> 8347 then Inl (SparseInvalidManifestLength (length bs) 8347)
      else if take 4 bs \<noteq> ascii ''NXSM'' then Inl SparseInvalidManifestMagic
      else if take 2 (drop 4 bs) \<noteq> to_be_bytes (1 :: u16) then Inl SparseUnsupportedManifestVersion
      else if bs ! 6 \<noteq> 1 \<or> bs ! 7 \<noteq> 0 then Inl SparseNonCanonicalManifest
      else if drop (length bs - 32) bs \<noteq> sparse_manifest_checksum env (take (length bs - 32) bs)
        then Inl SparseManifestChecksumMismatch
      else and_then (sparse_encode env) (\<lambda>canonical_bytes.
        if bs \<noteq> canonical_bytes then Inl SparseNonCanonicalManifest else Inr ()))"

definition sparse_candidate_id :: "candidate_env \<Rightarrow> sparse_candidate_error + id32" where
  "sparse_candidate_id env =
     and_then (sparse_encode env) (\<lambda>manifest.
       Inr (ce_sha env
         (nul_terminated ''NOXIS/POSEIDON2-NULLIFIER-SPARSE-MERKLE-CANDIDATE-ID/V1'' @ manifest)))"

subsection \<open>The recipient-envelope digest\<close>

datatype envelope_candidate_error =
  EnvelopeParent note_domains_error
| EnvelopeIvSamplerExhausted

definition ENVELOPE_LABEL :: bytes where
  "ENVELOPE_LABEL = nul_terminated ''NOXIS/POSEIDON2-PRIVACY/V1/RECIPIENT-ENVELOPE-DIGEST''"

definition ENVELOPE_DESCRIPTOR :: bytes where
  "ENVELOPE_DESCRIPTOR = ascii ''P24|BytePack3LE|zero-final-group|squeeze-16|frame-v1|slot-u8|commitment-babybear-le32x16|nxre-u16be-length|max-3311''"

definition envelope_min_input_bytes :: nat where
  "envelope_min_input_bytes = 1279"

definition envelope_max_input_bytes :: nat where
  "envelope_max_input_bytes = 69 + 3242"

definition envelope_candidate_id :: "candidate_env \<Rightarrow> envelope_candidate_error + id32" where
  "envelope_candidate_id env =
     and_then (map_err EnvelopeParent (note_candidate_id env)) (\<lambda>parent_id.
       Inr (ce_sha env (nul_terminated ''NOXIS/POSEIDON2-ENVELOPE-DIGEST-CANDIDATE-ID/V1''
         @ to_be_bytes parent_id @ ENVELOPE_DESCRIPTOR @ ENVELOPE_LABEL
         @ to_be_bytes (of_nat envelope_max_input_bytes :: u16))))"

definition envelope_iv :: "candidate_env \<Rightarrow> envelope_candidate_error + u32 list" where
  "envelope_iv env =
     and_then (map_err EnvelopeParent (note_candidate_id env)) (\<lambda>parent_id.
       ok_or (sample_iv (\<lambda>counter. ce_sha env (nul_terminated ''NOXIS/POSEIDON2-ENVELOPE-DIGEST-IV/V1''
                 @ to_be_bytes parent_id @ ENVELOPE_LABEL @ to_be_bytes counter)) 0 [])
         EnvelopeIvSamplerExhausted)"

subsection \<open>What the sampler returns\<close>

text \<open>The last counter value whose digest is used, and the words accepted from a range of them.\<close>

definition sampler_limit :: nat where
  "sampler_limit = 2 ^ 32 - 1"

definition accepted_words :: "(u32 \<Rightarrow> id32) \<Rightarrow> nat \<Rightarrow> nat \<Rightarrow> u32 list" where
  "accepted_words digest a b =
     filter (\<lambda>v. canonical v) (concat (map (\<lambda>i. digest_words (digest (of_nat i))) [a..<b]))"

lemma accept_words_eq:
  "length out < 9 \<Longrightarrow> accept_words out cs = take 9 (out @ filter (\<lambda>v. canonical v) cs)"
proof (induction out cs rule: accept_words.induct)
  case (2 out c cs)
  show ?case
  proof (cases "canonical c \<and> length out + 1 \<noteq> 9")
    case True
    with 2 show ?thesis by simp
  next
    case False
    then show ?thesis using 2 by (cases "canonical c") auto
  qed
qed simp

lemma sample_iv_full: "length out = 9 \<Longrightarrow> sample_iv digest counter out = Some out"
  by (subst sample_iv.simps) simp

lemma sample_iv_eq:
  "length out \<le> 9 \<Longrightarrow>
    sample_iv digest counter out =
      (let all = out @ accepted_words digest (unat counter) sampler_limit
       in if 9 \<le> length all then Some (take 9 all) else None)"
proof (induction digest counter out rule: sample_iv.induct)
  case (1 digest counter out)
  show ?case
  proof (cases "length out < 9")
    case False
    with 1(2) show ?thesis by (subst sample_iv.simps) (simp add: Let_def)
  next
    case short: True
    show ?thesis
    proof (cases "checked_add counter 1")
      case None
      then have "unat counter = sampler_limit"
        using unsigned_less [of counter, where ?'a = nat]
        by (simp add: checked_add_None_iff sampler_limit_def)
      with None short show ?thesis
        by (subst sample_iv.simps) (simp add: accepted_words_def)
    next
      case (Some counter')
      then have c': "unat counter' = unat counter + 1" by (simp add: checked_add_Some_iff)
      let ?ws = "filter (\<lambda>v. canonical v) (digest_words (digest counter))"
      let ?rest = "accepted_words digest (unat counter') sampler_limit"
      have "unat counter < sampler_limit"
        using c' unsigned_less [of counter', where ?'a = nat] by (simp add: sampler_limit_def)
      then have all: "accepted_words digest (unat counter) sampler_limit = ?ws @ ?rest"
        by (simp add: accepted_words_def upt_conv_Cons c')
      have out': "accept_words out (digest_words (digest counter)) = take 9 (out @ ?ws)"
        using short by (rule accept_words_eq)
      have step: "sample_iv digest counter out = sample_iv digest counter' (take 9 (out @ ?ws))"
        using short Some by (subst sample_iv.simps) (simp add: out')
      show ?thesis
      proof (cases "length (out @ ?ws) \<le> 9")
        case True
        with 1(1) [OF short Some] show ?thesis by (simp add: step all out')
      next
        case False
        with short have full: "length (take 9 (out @ ?ws)) = 9" by simp
        then have "sample_iv digest counter' (take 9 (out @ ?ws)) = Some (take 9 (out @ ?ws))"
          by (rule sample_iv_full)
        with False show ?thesis by (simp add: step all Let_def)
      qed
    qed
  qed
qed

lemma sample_iv_wf:
  assumes "sample_iv digest counter [] = Some iv"
  shows "length iv = 9" "\<forall>v \<in> set iv. canonical v"
  using assms by (auto simp: sample_iv_eq Let_def accepted_words_def split: if_splits dest!: in_set_takeD)

text \<open>Enough accepted words below some counter make the sampler return, with the words found there.\<close>

lemma sample_iv_returns:
  assumes "n \<le> sampler_limit" and "9 \<le> length (accepted_words digest 0 n)"
  shows "sample_iv digest 0 [] = Some (take 9 (accepted_words digest 0 n))"
proof -
  have "[0..<sampler_limit] = [0..<n] @ [n..<sampler_limit]"
    using upt_add_eq_append [of 0 n "sampler_limit - n"] assms(1) by simp
  then have "accepted_words digest 0 sampler_limit =
      accepted_words digest 0 n @ accepted_words digest n sampler_limit"
    by (simp add: accepted_words_def)
  with assms(2) show ?thesis by (simp add: sample_iv_eq Let_def)
qed

text \<open>A digest without a word at or above the modulus fills all but one of the nine places.\<close>

lemma length_digest_words [simp]: "length (digest_words d) = 8"
  using chunks_length(1) [of "to_be_bytes d" 8 4] by (simp add: digest_words_def)


subsection \<open>Validated candidates\<close>

definition iv_wf :: "u32 list \<Rightarrow> bool" where
  "iv_wf iv \<longleftrightarrow> length iv = 9 \<and> (\<forall>v \<in> set iv. canonical v)"

lemma ok_or_sample_iv_wf: "ok_or (sample_iv digest c []) e = Inr iv \<Longrightarrow> iv_wf iv"
  using sample_iv_wf [of digest c iv] by (simp add: iv_wf_def)

lemma p24_check_iv_wf: "p24_check_iv env payload role = Inr iv \<Longrightarrow> iv_wf iv"
  by (auto simp: p24_check_iv_def p24_derive_iv_def and_then_eq_Inr sample_iv_wf iv_wf_def)

lemma p24_iv_wf: "p24_iv env role = Inr iv \<Longrightarrow> iv_wf iv"
  by (auto simp: p24_iv_def and_then_eq_Inr p24_check_iv_wf)

lemma note_iv_wf: "note_iv env role = Inr iv \<Longrightarrow> iv_wf iv"
  by (auto simp: note_iv_def note_check_iv_def note_derive_iv_def and_then_eq_Inr Let_def
      sample_iv_wf iv_wf_def)

lemma intent_iv_wf: "intent_iv env = Inr iv \<Longrightarrow> iv_wf iv"
  by (auto simp: intent_iv_def intent_check_iv_def intent_derive_iv_def and_then_eq_Inr
      sample_iv_wf iv_wf_def)

lemma sparse_iv_wf: "sparse_iv env role = Inr iv \<Longrightarrow> iv_wf iv"
  by (auto simp: sparse_iv_def sparse_check_iv_def sparse_derive_iv_def and_then_eq_Inr Let_def
      sample_iv_wf iv_wf_def)

lemma envelope_iv_wf: "envelope_iv env = Inr iv \<Longrightarrow> iv_wf iv"
  by (auto simp: envelope_iv_def and_then_eq_Inr sample_iv_wf iv_wf_def)

lemma p24_parameter_payload_Inr:
  assumes "p24_parameter_payload env = Inr payload"
  shows "length payload = 7596" and "\<forall>v \<in> set (map (\<lambda>i. le32_at payload (i * 4)) [0..<1899]). canonical v"
    and "p24_iv env role = Inr (p24_stored_iv payload role)"
proof -
  from assms have v: "p24_validate_payload env payload = Inr ()"
    by (auto simp: p24_parameter_payload_def and_then_eq_Inr)
  then show "length payload = 7596"
    by (simp add: p24_validate_payload_def del: upt_rec_numeral split: if_splits)
  from v have none: "first_noncanonical 0 (map (\<lambda>i. le32_at payload (i * 4)) [0..<1899]) = None"
    by (auto simp: p24_validate_payload_def simp del: upt_rec_numeral split: if_splits option.splits)
  then show "\<forall>v \<in> set (map (\<lambda>i. le32_at payload (i * 4)) [0..<1899]). canonical v"
    by (simp only: first_noncanonical_None_iff)
  from v none have "\<exists>iv. p24_check_iv env payload role = Inr iv"
    by (cases role) (auto simp: p24_validate_payload_def and_then_eq_Inr simp del: upt_rec_numeral
        split: if_splits)
  then have "p24_check_iv env payload role = Inr (p24_stored_iv payload role)"
    by (auto simp: p24_check_iv_def and_then_eq_Inr)
  with assms show "p24_iv env role = Inr (p24_stored_iv payload role)"
    by (simp add: p24_iv_def)
qed

lemma note_payload_length: "note_payload env = Inr payload \<Longrightarrow> length payload = 108"
  by (auto simp: note_payload_def note_validate_payload_def and_then_eq_Inr split: if_splits)

lemma intent_payload_length: "intent_payload env = Inr payload \<Longrightarrow> length payload = 36"
  by (auto simp: intent_payload_def intent_validate_payload_def and_then_eq_Inr split: if_splits)

lemma sparse_payload_length: "sparse_payload env = Inr payload \<Longrightarrow> length payload = 108"
  by (auto simp: sparse_payload_def sparse_validate_payload_def and_then_eq_Inr split: if_splits)

lemma length_ascii [simp]: "length (ascii s) = length s"
  by (simp add: ascii_def)

lemma length_p24_header: "length p24_header = 64"
  by (simp add: p24_header_def)

lemma p24_encode_length: "p24_encode env = Inr bs \<Longrightarrow> length bs = 7660"
  by (auto simp: p24_encode_def and_then_eq_Inr length_p24_header p24_parameter_payload_Inr(1))

text \<open>A child manifest: a fixed start, the rest of the body, and the checksum of all of it.\<close>

definition sealed :: "(bytes \<Rightarrow> bytes) \<Rightarrow> bytes \<Rightarrow> nat \<Rightarrow> bytes \<Rightarrow> bool" where
  "sealed checksum magic n bs \<longleftrightarrow> length bs = n \<and>
     (\<exists>rest. let body = magic @ to_be_bytes (1 :: u16) @ [1, 0] @ rest
             in length (checksum body) = 32 \<and> bs = body @ checksum body)"

lemma sealed_parts:
  assumes "sealed checksum magic n bs" and "length magic = 4"
  shows "length bs = n" "take 4 bs = magic" "take 2 (drop 4 bs) = to_be_bytes (1 :: u16)"
    "bs ! 6 = 1" "bs ! 7 = 0" "drop (length bs - 32) bs = checksum (take (length bs - 32) bs)"
  using assms by (auto simp: sealed_def Let_def nth_append)

lemma sealedI:
  assumes "body = magic @ to_be_bytes (1 :: u16) @ [1, 0] @ rest" and "bs = body @ checksum body"
    and "length (checksum body) = 32" and "length body + 32 = n"
  shows "sealed checksum magic n bs"
  unfolding sealed_def Let_def using assms by (intro conjI exI [of _ rest]) auto

lemma note_encode_sealed:
  assumes "note_encode env = Inr bs"
  shows "sealed (note_manifest_checksum env) (ascii ''NXPH'') 7980 bs"
proof -
  from assms obtain parent parent_id payload where
    "p24_encode env = Inr parent" and "note_payload env = Inr payload"
    and bs: "bs = note_manifest_body parent parent_id payload
         @ note_manifest_checksum env (note_manifest_body parent parent_id payload)"
    by (auto simp: note_encode_def and_then_eq_Inr Let_def)
  then have "length parent = 7660" "length payload = 108"
    by (simp_all add: p24_encode_length note_payload_length)
  then show ?thesis unfolding bs
    by (intro sealedI [OF note_manifest_body_def refl])
      (simp_all add: note_manifest_body_def note_descriptor_def nul_terminated_def note_manifest_checksum_def)
qed

lemma intent_encode_sealed:
  assumes "intent_encode env = Inr bs"
  shows "sealed (intent_manifest_checksum env) (ascii ''NXIC'') 8162 bs"
proof -
  from assms obtain parent parent_id payload where
    parent: "note_encode env = Inr parent" and payload: "intent_payload env = Inr payload"
    and bs: "bs = intent_manifest_body parent parent_id payload
         @ intent_manifest_checksum env (intent_manifest_body parent parent_id payload)"
    by (auto simp: intent_encode_def and_then_eq_Inr Let_def)
  have "length parent = 7980" "length payload = 36"
    using sealed_parts(1) [OF note_encode_sealed [OF parent]] intent_payload_length [OF payload]
    by simp_all
  then show ?thesis unfolding bs
    by (intro sealedI [OF intent_manifest_body_def refl])
      (simp_all add: intent_manifest_body_def intent_descriptor_def nul_terminated_def INTENT_LABEL_def
        intent_manifest_checksum_def)
qed

lemma sparse_encode_sealed:
  assumes "sparse_encode env = Inr bs"
  shows "sealed (sparse_manifest_checksum env) (ascii ''NXSM'') 8347 bs"
proof -
  from assms obtain parent parent_id payload where
    parent: "note_encode env = Inr parent" and payload: "sparse_payload env = Inr payload"
    and bs: "bs = sparse_manifest_body parent parent_id payload
         @ sparse_manifest_checksum env (sparse_manifest_body parent parent_id payload)"
    by (auto simp: sparse_encode_def and_then_eq_Inr Let_def)
  have "length parent = 7980" "length payload = 108"
    using sealed_parts(1) [OF note_encode_sealed [OF parent]] sparse_payload_length [OF payload]
    by simp_all
  then show ?thesis unfolding bs
    by (intro sealedI [OF sparse_manifest_body_def refl])
      (simp_all add: sparse_manifest_body_def sparse_descriptor_def nul_terminated_def sparse_manifest_checksum_def)
qed

lemma p24_decode_iff: "p24_decode env bs = Inr () \<longleftrightarrow> p24_encode env = Inr bs"
proof
  assume enc: "p24_encode env = Inr bs"
  from this obtain payload where bs: "bs = p24_header @ payload"
    by (auto simp: p24_encode_def and_then_eq_Inr)
  have "take 4 p24_header = ascii ''NXTM''" "take 2 (drop 4 p24_header) = to_be_bytes (2 :: u16)"
     "p24_header ! 6 = 1"
    by (simp_all add: p24_header_def nth_append)
  then show "p24_decode env bs = Inr ()"
    using p24_encode_length [OF enc] enc by (simp add: p24_decode_def bs nth_append length_p24_header)
next
  assume "p24_decode env bs = Inr ()"
  then show "p24_encode env = Inr bs" by (simp add: p24_decode_def and_then_eq_Inr split: if_splits)
qed

lemma note_decode_iff: "note_decode env bs = Inr () \<longleftrightarrow> note_encode env = Inr bs"
proof
  assume enc: "note_encode env = Inr bs"
  from sealed_parts [OF note_encode_sealed [OF enc]] enc show "note_decode env bs = Inr ()"
    by (simp add: note_decode_def)
next
  assume "note_decode env bs = Inr ()"
  then show "note_encode env = Inr bs"
    by (simp add: note_decode_def and_then_eq_Inr split: if_splits)
qed

lemma intent_decode_iff: "intent_decode env bs = Inr () \<longleftrightarrow> intent_encode env = Inr bs"
proof
  assume enc: "intent_encode env = Inr bs"
  from sealed_parts [OF intent_encode_sealed [OF enc]] enc show "intent_decode env bs = Inr ()"
    by (simp add: intent_decode_def)
next
  assume "intent_decode env bs = Inr ()"
  then show "intent_encode env = Inr bs"
    by (simp add: intent_decode_def and_then_eq_Inr split: if_splits)
qed

lemma sparse_decode_iff: "sparse_decode env bs = Inr () \<longleftrightarrow> sparse_encode env = Inr bs"
proof
  assume enc: "sparse_encode env = Inr bs"
  from sealed_parts [OF sparse_encode_sealed [OF enc]] enc show "sparse_decode env bs = Inr ()"
    by (simp add: sparse_decode_def)
next
  assume "sparse_decode env bs = Inr ()"
  then show "sparse_encode env = Inr bs"
    by (simp add: sparse_decode_def and_then_eq_Inr split: if_splits)
qed

lemma to_be_bytes_u16_one: "to_be_bytes (1 :: u16) = [0, 1]"
proof -
  have "(from_be_bytes [0, 1] :: u16) = 1" by (simp add: from_be_bytes_def nat_of_be_def)
  then show ?thesis using to_from_be_bytes [where ?'w = 16, of "[0, 1]"] by simp
qed

lemma draft_decode_iff: "draft_decode bs = Inr () \<longleftrightarrow> bs = draft_encode"
  by (auto simp: draft_decode_def draft_encode_def to_be_bytes_u16_one ascii_def split: if_splits)

text \<open>Every manifest decoder accepts exactly the byte string its encoder produces and nothing
  else, for the draft, the P24 parameters and the three children; with the declared total lengths.\<close>

lemma manifests_are_exact:
  "(draft_decode bs = Inr () \<longleftrightarrow> bs = draft_encode)
   \<and> (p24_decode env bs = Inr () \<longleftrightarrow> p24_encode env = Inr bs)
   \<and> (note_decode env bs = Inr () \<longleftrightarrow> note_encode env = Inr bs)
   \<and> (intent_decode env bs = Inr () \<longleftrightarrow> intent_encode env = Inr bs)
   \<and> (sparse_decode env bs = Inr () \<longleftrightarrow> sparse_encode env = Inr bs)"
  by (intro conjI draft_decode_iff p24_decode_iff note_decode_iff intent_decode_iff sparse_decode_iff)

text \<open>The frozen interoperability vector is the little-endian encoding of its elements.\<close>

lemma frozen_vector_agrees:
  "decode_le32 frozen_vector_encoded = frozen_vector_elements"
  "encode_le32 frozen_vector_elements = frozen_vector_encoded"
proof -
  show d: "decode_le32 frozen_vector_encoded = frozen_vector_elements"
    by (simp add: decode_le32_def frozen_vector_elements_def frozen_vector_encoded_def
        chunks.simps from_le_bytes_def from_be_bytes_def nat_of_be_def BABYBEAR_MODULUS_def)
  have "length frozen_vector_encoded = 64" by (simp add: frozen_vector_encoded_def)
  with d show "encode_le32 frozen_vector_elements = frozen_vector_encoded"
    using encode_decode_le32 [of frozen_vector_encoded] by simp
qed

subsection \<open>A concrete environment\<close>

text \<open>
  Parameters that pass every check of the crate, for the witnesses: zero matrices and constants
  with an all-ones internal matrix, capacity vectors of zeros and, for the sparse tree, of ones,
  and a stand-in hash that gives the digests the checks ask for.
\<close>

definition ones_digest :: id32 where
  "ones_digest = from_be_bytes (concat (replicate 8 [0, 0, 0, 1]))"

definition sample_p24_elements :: "u32 list" where
  "sample_p24_elements = replicate 600 0 @ replicate 576 1 @ replicate 723 0"

definition sample_sha :: sha256 where
  "sample_sha bs =
     (if take 1 bs = ascii ''N'' then
        (if take 46 bs = nul_terminated ''NOXIS/POSEIDON2-NULLIFIER-SPARSE-MERKLE-IV/V1'' then ones_digest
         else 0)
      else if bs = encode_le32 sample_p24_elements then P24_EXPECTED_PAYLOAD_SHA256
      else if bs = encode_le32 (replicate 27 0) then NOTE_EXPECTED_PAYLOAD_SHA256
      else if bs = encode_le32 (replicate 9 0) then INTENT_EXPECTED_PAYLOAD_SHA256
      else if bs = encode_le32 (replicate 27 1) then SPARSE_EXPECTED_PAYLOAD_SHA256
      else 0)"

definition sample_base64 :: "bytes \<Rightarrow> bytes option" where
  "sample_base64 t =
     (if t = [1] then Some (encode_le32 sample_p24_elements)
      else if t = [2] then Some (encode_le32 (replicate 27 0))
      else if t = [3] then Some (encode_le32 (replicate 9 0))
      else if t = [4] then Some (encode_le32 (replicate 27 1))
      else None)"

definition sample_env :: candidate_env where
  "sample_env = \<lparr>ce_sha = sample_sha, ce_base64 = sample_base64, ce_p24_text = [1],
     ce_note_text = [2], ce_intent_text = [3], ce_sparse_text = [4]\<rparr>"

lemma sample_env_simps:
  "ce_sha sample_env = sample_sha" "ce_base64 sample_env = sample_base64"
  "ce_p24_text sample_env = [1]" "ce_note_text sample_env = [2]" "ce_intent_text sample_env = [3]"
  "ce_sparse_text sample_env = [4]"
  by (simp_all add: sample_env_def)

lemma be_of_nat_zero: "be_of_nat n 0 = replicate n 0"
  by (induction n) (simp_all add: replicate_append_same)

lemma concat_replicate_replicate: "concat (replicate m (replicate n x)) = replicate (m * n) x"
  by (induction m) (simp_all add: replicate_add)

lemma from_be_bytes_zeros: "from_be_bytes (replicate n 0) = 0"
proof -
  have "nat_of_be (replicate n 0) = 0"
    by (induction n) (simp_all add: nat_of_be_Cons)
  then show ?thesis by (simp add: from_be_bytes_def)
qed

lemma digest_words_zero: "digest_words 0 = replicate 8 0"
proof -
  have "to_be_bytes (0 :: id32) = concat (replicate 8 (replicate 4 0))"
    by (simp add: to_be_bytes_def be_of_nat_zero concat_replicate_replicate)
  then have "chunks 4 (to_be_bytes (0 :: id32)) = replicate 8 (replicate 4 0)"
    using chunks_concat [of "replicate 8 (replicate 4 0)" 4] by simp
  then show ?thesis by (simp add: digest_words_def from_be_bytes_zeros)
qed

lemma digest_words_ones: "digest_words ones_digest = replicate 8 1"
proof -
  have "to_be_bytes ones_digest = concat (replicate 8 [0, 0, 0, 1])"
    unfolding ones_digest_def by (rule to_from_be_bytes) (simp_all add: length_concat sum_list_replicate)
  then have "chunks 4 (to_be_bytes ones_digest) = replicate 8 [0, 0, 0, 1]"
    using chunks_concat [of "replicate 8 [0, 0, 0, 1]" 4] by simp
  then show ?thesis by (simp add: digest_words_def from_be_bytes_def nat_of_be_def)
qed

lemma sample_iv_const:
  assumes "\<And>c. digest c = d" and "digest_words d = replicate 8 w" and "canonical w"
  shows "sample_iv digest 0 [] = Some (replicate 9 w)"
proof -
  have "accepted_words digest 0 2 = replicate 8 w @ replicate 8 w"
    using assms by (simp add: accepted_words_def upt_rec)
  then show ?thesis
    using sample_iv_returns [of 2 digest] replicate_add [of 8 1 w] by (simp add: sampler_limit_def)
qed

lemma canonical_one [simp]: "canonical 1"
  by (simp add: canonical_iff)

lemma take_1_nul_terminated: "take (Suc 0) (nul_terminated (c # cs) @ xs) = [of_char c]"
  by (simp add: nul_terminated_def ascii_def)

lemma sample_sha_domain:
  assumes "take 46 (nul_terminated (CHR ''N'' # cs) @ xs) \<noteq>
    nul_terminated ''NOXIS/POSEIDON2-NULLIFIER-SPARSE-MERKLE-IV/V1''"
  shows "sample_sha (nul_terminated (CHR ''N'' # cs) @ xs) = 0"
  using assms take_1_nul_terminated [of "CHR ''N''" cs xs]
  by (simp add: sample_sha_def ascii_def)

lemma sample_sha_sparse:
  "sample_sha (nul_terminated ''NOXIS/POSEIDON2-NULLIFIER-SPARSE-MERKLE-IV/V1'' @ xs) = ones_digest"
  using take_1_nul_terminated [of "CHR ''N''" "''OXIS/POSEIDON2-NULLIFIER-SPARSE-MERKLE-IV/V1''" xs]
  by (simp add: sample_sha_def ascii_def nul_terminated_def)

lemma le32_at_encode: "j < length es \<Longrightarrow> le32_at (encode_le32 es) (j * 4) = es ! j"
proof -
  assume j: "j < length es"
  have "decode_le32 (encode_le32 es) ! j = le32_at (encode_le32 es) (j * 4)"
    using j chunks_length(1) [of "encode_le32 es" "length es" 4]
    by (simp add: decode_le32_def le32_at_def chunks_nth)
  then show ?thesis by simp
qed

lemma to_le_bytes_zero: "to_le_bytes (0 :: u32) = [0, 0, 0, 0]"
  by (simp add: to_le_bytes_def to_be_bytes_def be_of_nat_zero) (simp add: eval_nat_numeral)

lemma to_le_bytes_one: "to_le_bytes (1 :: u32) = [1, 0, 0, 0]"
proof -
  have "(from_be_bytes [0, 0, 0, 1] :: u32) = 1" by (simp add: from_be_bytes_def nat_of_be_def)
  then have "to_be_bytes (1 :: u32) = [0, 0, 0, 1]"
    using to_from_be_bytes [where ?'w = 32, of "[0, 0, 0, 1]"] by simp
  then show ?thesis by (simp add: to_le_bytes_def)
qed

lemma length_sample_p24_elements [simp]: "length sample_p24_elements = 1899"
  by (simp add: sample_p24_elements_def)

lemma sample_p24_elements_canonical: "\<forall>v \<in> set sample_p24_elements. canonical v"
  by (auto simp: sample_p24_elements_def)

lemma sample_p24_derive_iv: "p24_derive_iv sample_env role = Inr (replicate 9 0)"
proof -
  have "sample_iv (\<lambda>counter. sample_sha (nul_terminated ''NOXIS/POSEIDON2-TREE-IV/V2''
      @ p24_label role @ to_be_bytes counter)) 0 [] = Some (replicate 9 0)"
    by (rule sample_iv_const [OF _ digest_words_zero canonical_zero])
      (rule sample_sha_domain, simp add: nul_terminated_def ascii_def)
  then show ?thesis by (simp add: p24_derive_iv_def sample_env_def)
qed

lemma sample_p24_payload:
  "p24_parameter_payload sample_env = Inr (encode_le32 sample_p24_elements)"
proof -
  let ?payload = "encode_le32 sample_p24_elements"
  have iv: "p24_stored_iv ?payload role = replicate 9 0" for role
  proof (rule nth_equalityI)
    fix i assume "i < length (p24_stored_iv ?payload role)"
    then have i: "i < 9" by (simp add: p24_stored_iv_def)
    let ?j = "1872 + p24_payload_index role * 9 + i"
    have "?j < 1899" using i by (cases role) simp_all
    moreover from this have "sample_p24_elements ! ?j = 0"
      by (simp add: sample_p24_elements_def nth_append)
    ultimately have "le32_at ?payload (?j * 4) = 0"
      using le32_at_encode [of ?j sample_p24_elements] by simp
    then show "p24_stored_iv ?payload role ! i = replicate 9 0 ! i"
      using i by (simp add: p24_stored_iv_def algebra_simps del: upt_rec_numeral)
  qed (simp add: p24_stored_iv_def)
  have check: "p24_check_iv sample_env ?payload role = Inr (replicate 9 0)" for role
    by (simp add: p24_check_iv_def sample_p24_derive_iv iv)
  have elems: "map (\<lambda>i. le32_at ?payload (i * 4)) [0..<1899] = sample_p24_elements"
    by (rule nth_equalityI) (simp_all add: le32_at_encode del: upt_rec_numeral)
  have none: "first_noncanonical 0 (map (\<lambda>i. le32_at ?payload (i * 4)) [0..<1899]) = None"
    unfolding elems first_noncanonical_None_iff by (rule sample_p24_elements_canonical)
  have "take (Suc 0) ?payload \<noteq> ascii ''N''"
    using replicate_Suc [of 599 "0 :: u32"]
    by (simp add: sample_p24_elements_def encode_le32_def to_le_bytes_zero ascii_def)
  then have sha: "sample_sha ?payload = P24_EXPECTED_PAYLOAD_SHA256" by (simp add: sample_sha_def)
  have "p24_validate_payload sample_env ?payload = Inr ()"
    unfolding p24_validate_payload_def none
    using sha check by (simp add: sample_env_simps)
  then show ?thesis
    by (simp add: p24_parameter_payload_def sample_env_simps compact_text_def is_ascii_whitespace_def sample_base64_def)
qed

lemma take_encode_le32: "take (4 * n) (encode_le32 es) = encode_le32 (take n es)"
proof (induction es arbitrary: n)
  case (Cons e es)
  then show ?case by (cases n) (simp_all add: encode_le32_def)
qed (simp add: encode_le32_def)

lemma drop_encode_le32: "drop (4 * n) (encode_le32 es) = encode_le32 (drop n es)"
proof (induction es arbitrary: n)
  case (Cons e es)
  then show ?case by (cases n) (simp_all add: encode_le32_def)
qed (simp add: encode_le32_def)

lemma decode_iv_encode: "length es = 9 \<Longrightarrow> decode_iv (encode_le32 es) = es"
  by (rule nth_equalityI) (simp_all add: decode_iv_def le32_at_encode del: upt_rec_numeral)

lemma decode_iv_part:
  assumes "k < 3"
  shows "decode_iv (take 36 (drop (k * 9 * 4) (encode_le32 (replicate 27 w)))) = replicate 9 w"
proof -
  have "9 \<le> 27 - k * 9" using assms by arith
  then have "take (4 * 9) (drop (4 * (k * 9)) (encode_le32 (replicate 27 w))) = encode_le32 (replicate 9 w)"
    unfolding drop_encode_le32 take_encode_le32 by (simp add: min_def)
  then show ?thesis by (simp add: decode_iv_encode mult.commute)
qed

lemma note_payload_index_less: "note_payload_index role < 3"
  by (cases role) simp_all

lemma sparse_payload_index_less: "sparse_payload_index role < 3"
  by (cases role) simp_all

lemma first_noncanonical_replicate:
  "canonical w \<Longrightarrow> first_noncanonical 0 (decode_le32 (encode_le32 (replicate n w))) = None"
  by (simp add: first_noncanonical_None_iff)

lemma sample_p24_candidate_id: "\<exists>i. p24_candidate_id sample_env = Inr i"
  by (simp add: p24_candidate_id_def p24_encode_def sample_p24_payload)

lemma sample_payload_sha:
  "sample_sha (encode_le32 (replicate 27 0)) = NOTE_EXPECTED_PAYLOAD_SHA256"
  "sample_sha (encode_le32 (replicate 9 0)) = INTENT_EXPECTED_PAYLOAD_SHA256"
  "sample_sha (encode_le32 (replicate 27 1)) = SPARSE_EXPECTED_PAYLOAD_SHA256"
proof -
  have first: "take (Suc 0) (encode_le32 (replicate (Suc n) 0)) \<noteq> ascii ''N''"
    "take (Suc 0) (encode_le32 (replicate (Suc n) 1)) \<noteq> ascii ''N''" for n
    by (simp_all add: encode_le32_def to_le_bytes_zero to_le_bytes_one ascii_def)
  have diff: "encode_le32 xs \<noteq> encode_le32 ys" if "length xs \<noteq> length ys \<or> hd xs \<noteq> hd ys" for xs ys
    using that by (auto simp: encode_le32_inject)
  have "encode_le32 (replicate 27 0) \<noteq> encode_le32 sample_p24_elements"
    "encode_le32 (replicate 9 0) \<noteq> encode_le32 sample_p24_elements"
    "encode_le32 (replicate 27 1) \<noteq> encode_le32 sample_p24_elements"
    "encode_le32 (replicate 9 0) \<noteq> encode_le32 (replicate 27 0)"
    "encode_le32 (replicate 27 1) \<noteq> encode_le32 (replicate 27 0)"
    "encode_le32 (replicate 27 1) \<noteq> encode_le32 (replicate 9 0)"
    by (rule diff; simp)+
  with first(1) [of 26] first(1) [of 8] first(2) [of 26]
  show "sample_sha (encode_le32 (replicate 27 0)) = NOTE_EXPECTED_PAYLOAD_SHA256"
    "sample_sha (encode_le32 (replicate 9 0)) = INTENT_EXPECTED_PAYLOAD_SHA256"
    "sample_sha (encode_le32 (replicate 27 1)) = SPARSE_EXPECTED_PAYLOAD_SHA256"
    by (simp_all add: sample_sha_def)
qed

lemma sample_note_payload: "note_payload sample_env = Inr (encode_le32 (replicate 27 0))"
proof -
  obtain i where i: "p24_candidate_id sample_env = Inr i" using sample_p24_candidate_id by blast
  have "note_derive_iv sample_env role = Inr (replicate 9 0)" for role
  proof -
    have "sample_iv (\<lambda>counter. sample_sha (nul_terminated ''NOXIS/POSEIDON2-PRIVACY-HASH-IV/V1''
        @ to_be_bytes i @ note_label role @ to_be_bytes counter)) 0 [] = Some (replicate 9 0)"
      by (rule sample_iv_const [OF _ digest_words_zero canonical_zero])
        (rule sample_sha_domain, simp add: nul_terminated_def ascii_def)
    then show ?thesis by (simp add: note_derive_iv_def i sample_env_simps)
  qed
  then have "note_check_iv sample_env (encode_le32 (replicate 27 0)) role = Inr (replicate 9 0)" for role
    using decode_iv_part [OF note_payload_index_less] by (simp add: note_check_iv_def Let_def)
  then have "note_validate_payload sample_env (encode_le32 (replicate 27 0)) = Inr ()"
    by (simp add: note_validate_payload_def sample_env_simps sample_payload_sha first_noncanonical_replicate
        del: decode_encode_le32)
  then show ?thesis
    by (simp add: note_payload_def sample_env_simps compact_text_def is_ascii_whitespace_def sample_base64_def)
qed

lemma sample_note_candidate_id: "\<exists>i. note_candidate_id sample_env = Inr i"
  using sample_p24_candidate_id
  by (auto simp: note_candidate_id_def note_encode_def p24_encode_def sample_p24_payload
      sample_note_payload Let_def)

lemma sample_intent_payload: "intent_payload sample_env = Inr (encode_le32 (replicate 9 0))"
proof -
  obtain i where i: "note_candidate_id sample_env = Inr i" using sample_note_candidate_id by blast
  have "sample_iv (\<lambda>counter. sample_sha (nul_terminated ''NOXIS/POSEIDON2-INTENT-COMMITMENT-IV/V1''
      @ to_be_bytes i @ INTENT_LABEL @ to_be_bytes counter)) 0 [] = Some (replicate 9 0)"
    by (rule sample_iv_const [OF _ digest_words_zero canonical_zero])
      (rule sample_sha_domain, simp add: nul_terminated_def ascii_def)
  then have "intent_check_iv sample_env (encode_le32 (replicate 9 0)) = Inr (replicate 9 0)"
    by (simp add: intent_check_iv_def intent_derive_iv_def i sample_env_simps decode_iv_encode)
  then have "intent_validate_payload sample_env (encode_le32 (replicate 9 0)) = Inr ()"
    by (simp add: intent_validate_payload_def sample_env_simps sample_payload_sha
        first_noncanonical_replicate del: decode_encode_le32)
  then show ?thesis
    by (simp add: intent_payload_def sample_env_simps compact_text_def is_ascii_whitespace_def sample_base64_def)
qed

lemma sample_sparse_check: "sparse_check_iv sample_env (encode_le32 (replicate 27 1)) role = Inr (replicate 9 1)"
proof -
  obtain i where i: "note_candidate_id sample_env = Inr i" using sample_note_candidate_id by blast
  have "sample_iv (\<lambda>counter. sample_sha (nul_terminated ''NOXIS/POSEIDON2-NULLIFIER-SPARSE-MERKLE-IV/V1''
      @ to_be_bytes i @ sparse_label role @ to_be_bytes counter)) 0 [] = Some (replicate 9 1)"
    by (rule sample_iv_const [OF _ digest_words_ones canonical_one]) (simp only: sample_sha_sparse)
  then have "sparse_derive_iv sample_env role = Inr (replicate 9 1)"
    by (simp add: sparse_derive_iv_def i sample_env_simps)
  then show ?thesis
    using decode_iv_part [OF sparse_payload_index_less] by (simp add: sparse_check_iv_def Let_def)
qed

lemma sample_sparse_payload: "sparse_payload sample_env = Inr (encode_le32 (replicate 27 1))"
proof -
  have "sparse_validate_payload sample_env (encode_le32 (replicate 27 1)) = Inr ()"
    using sample_sparse_check
    by (simp add: sparse_validate_payload_def sample_env_simps sample_payload_sha
        first_noncanonical_replicate del: decode_encode_le32)
  then show ?thesis
    by (simp add: sparse_payload_def sample_env_simps compact_text_def is_ascii_whitespace_def sample_base64_def)
qed

lemma sample_sparse_iv: "sparse_iv sample_env role = Inr (replicate 9 1)"
  by (simp add: sparse_iv_def sample_sparse_payload sample_sparse_check)

lemma sample_sparse_encode: "\<exists>bs. sparse_encode sample_env = Inr bs"
  using sample_p24_candidate_id sample_note_candidate_id
  by (auto simp: sparse_encode_def note_encode_def p24_encode_def sample_p24_payload
      sample_note_payload sample_sparse_payload Let_def)

end
