(* ===== verification/Digest_Tree.thy ===== *)
theory Digest_Tree
  imports Prelude
begin

text \<open>
  Binary hash trees over digests, the mathematical object both Poseidon2 trees of the protocol
  implement: the value of every node of a complete tree over a leaf function, the path that climbs
  from a leaf to the root, and the contract of a fallible node hash that is total on well-formed
  digests (\<open>hash_tree\<close>). The note tree (depth 32) and the sparse nullifier tree (depth 512)
  interpret the contract with their own hashes.
\<close>

subsection \<open>Complete trees and paths\<close>

fun subtree :: "('d \<Rightarrow> 'd \<Rightarrow> 'd) \<Rightarrow> (nat \<Rightarrow> 'd) \<Rightarrow> nat \<Rightarrow> nat \<Rightarrow> 'd" where
  "subtree f leaf 0 i = leaf i"
| "subtree f leaf (Suc h) i = f (subtree f leaf h (2 * i)) (subtree f leaf h (2 * i + 1))"

fun climb :: "('d \<Rightarrow> 'd \<Rightarrow> 'd) \<Rightarrow> nat \<Rightarrow> 'd \<Rightarrow> 'd list \<Rightarrow> 'd" where
  "climb f i x [] = x"
| "climb f i x (s # ss) = climb f (i div 2) (if even i then f x s else f s x) ss"

definition sibling_index :: "nat \<Rightarrow> nat" where
  "sibling_index i = (if even i then i + 1 else i - 1)"

definition tree_path :: "('d \<Rightarrow> 'd \<Rightarrow> 'd) \<Rightarrow> (nat \<Rightarrow> 'd) \<Rightarrow> nat \<Rightarrow> nat \<Rightarrow> nat \<Rightarrow> 'd list" where
  "tree_path f leaf h n i = map (\<lambda>k. subtree f leaf (h + k) (sibling_index (i div 2 ^ k))) [0..<n]"

lemma div_2_pow_Suc: "(i :: nat) div 2 ^ Suc k = i div 2 div 2 ^ k"
  by (simp add: div_mult2_eq)

lemma tree_path_Suc:
  "tree_path f leaf h (Suc n) i = subtree f leaf h (sibling_index i) # tree_path f leaf (Suc h) n (i div 2)"
proof -
  have "map g [0..<Suc n] = g 0 # map (\<lambda>k. g (Suc k)) [0..<n]" for g :: "nat \<Rightarrow> 'a"
    by (simp add: upt_conv_Cons map_Suc_upt [symmetric] comp_def del: upt_Suc)
  then show ?thesis by (simp add: tree_path_def div_mult2_eq del: upt_Suc)
qed

lemma length_tree_path [simp]: "length (tree_path f leaf h n i) = n"
  by (simp add: tree_path_def)

lemma subtree_parent:
  "(if even i then f (subtree f leaf h i) (subtree f leaf h (sibling_index i))
    else f (subtree f leaf h (sibling_index i)) (subtree f leaf h i)) = subtree f leaf (Suc h) (i div 2)"
  by (auto simp: sibling_index_def elim!: evenE oddE)

text \<open>Climbing the siblings of a node gives the root of the tree above it.\<close>

lemma climb_tree_path:
  "climb f i (subtree f leaf h i) (tree_path f leaf h n i) = subtree f leaf (h + n) (i div 2 ^ n)"
proof (induction n arbitrary: h i)
  case 0
  then show ?case by (simp add: tree_path_def)
next
  case (Suc n)
  have "climb f i (subtree f leaf h i) (tree_path f leaf h (Suc n) i) =
      climb f (i div 2) (subtree f leaf (Suc h) (i div 2)) (tree_path f leaf (Suc h) n (i div 2))"
    by (simp only: tree_path_Suc climb.simps subtree_parent)
  also have "\<dots> = subtree f leaf (Suc h + n) (i div 2 div 2 ^ n)" by (rule Suc.IH)
  finally show ?case by (simp only: add_Suc_shift div_2_pow_Suc)
qed

lemma climb_path_append: "climb f i x (ss @ ts) = climb f (i div 2 ^ length ss) (climb f i x ss) ts"
  by (induction ss arbitrary: i x) (simp_all add: div_mult2_eq)

text \<open>The value of a node depends only on the leaves below it.\<close>

lemma subtree_cong:
  assumes "\<And>j. j div 2 ^ h = i \<Longrightarrow> leaf j = leaf' j"
  shows "subtree f leaf h i = subtree f leaf' h i"
  using assms
proof (induction h arbitrary: i)
  case (Suc h)
  have down: "j div 2 ^ Suc h = i" if "j div 2 ^ h = 2 * i \<or> j div 2 ^ h = 2 * i + 1" for j
    using that by (auto simp: mult.commute [of 2] div_mult2_eq)
  have "subtree f leaf h (2 * i) = subtree f leaf' h (2 * i)"
    by (rule Suc.IH) (use Suc.prems down in blast)
  moreover have "subtree f leaf h (2 * i + 1) = subtree f leaf' h (2 * i + 1)"
    by (rule Suc.IH) (use Suc.prems down in blast)
  ultimately show ?case by simp
qed simp

lemma subtree_wf:
  assumes "\<And>j. P (leaf j)" and "\<And>a b. P a \<Longrightarrow> P b \<Longrightarrow> P (f a b)"
  shows "P (subtree f leaf h i)"
  using assms by (induction h arbitrary: i) auto

lemma climb_wf:
  assumes "P x" and "\<forall>s \<in> set ss. P s" and "\<And>a b. P a \<Longrightarrow> P b \<Longrightarrow> P (f a b)"
  shows "P (climb f i x ss)"
  using assms by (induction ss arbitrary: i x) auto

subsection \<open>Trees filled from the left\<close>

text \<open>The value of a subtree without leaves, and the leaves of an append-only tree.\<close>

fun empty_at :: "('d \<Rightarrow> 'd \<Rightarrow> 'd) \<Rightarrow> 'd \<Rightarrow> nat \<Rightarrow> 'd" where
  "empty_at f e 0 = e"
| "empty_at f e (Suc k) = f (empty_at f e k) (empty_at f e k)"

definition padded :: "'d list \<Rightarrow> 'd \<Rightarrow> nat \<Rightarrow> 'd" where
  "padded xs e i = (if i < length xs then xs ! i else e)"

text \<open>The number of nodes of a level that have a leaf below them.\<close>

fun level_width :: "nat \<Rightarrow> nat \<Rightarrow> nat" where
  "level_width 0 n = n"
| "level_width (Suc k) n = (level_width k n + 1) div 2"

definition tree_level :: "('d \<Rightarrow> 'd \<Rightarrow> 'd) \<Rightarrow> 'd list \<Rightarrow> 'd \<Rightarrow> nat \<Rightarrow> 'd list" where
  "tree_level f xs e k = map (subtree f (padded xs e) k) [0..<level_width k (length xs)]"

lemma length_tree_level [simp]: "length (tree_level f xs e k) = level_width k (length xs)"
  by (simp add: tree_level_def)

lemma tree_level_0: "tree_level f xs e 0 = xs"
  by (auto simp: tree_level_def padded_def intro: nth_equalityI)

lemma subtree_empty: "level_width k (length xs) \<le> i \<Longrightarrow> subtree f (padded xs e) k i = empty_at f e k"
proof (induction k arbitrary: i)
  case 0
  then show ?case by (simp add: padded_def)
next
  case (Suc k)
  then have "level_width k (length xs) \<le> 2 * i" by simp
  with Suc.IH [of "2 * i"] Suc.IH [of "2 * i + 1"] show ?case by simp
qed

lemma level_width_pos: "0 < n \<Longrightarrow> 0 < level_width k n"
  by (induction k) auto

lemma level_width_le: "n \<le> 2 ^ (k + m) \<Longrightarrow> level_width k n \<le> 2 ^ m"
proof (induction k arbitrary: m)
  case (Suc k)
  from Suc.IH [of "Suc m"] Suc.prems show ?case by simp
qed simp

lemma level_width_top: "0 < n \<Longrightarrow> n \<le> 2 ^ k \<Longrightarrow> level_width k n = 1"
  using level_width_pos [of n k] level_width_le [of n k 0] by simp

lemma subtree_root_nth:
  "0 < length xs \<Longrightarrow> length xs \<le> 2 ^ k \<Longrightarrow> tree_level f xs e k ! 0 = subtree f (padded xs e) k 0"
  by (simp add: tree_level_def level_width_top)

text \<open>Appending a leaf changes only the padding.\<close>

lemma padded_append: "i < length xs \<Longrightarrow> padded (xs @ ys) e i = padded xs e i"
  by (simp add: padded_def nth_append)

subsection \<open>Binding\<close>

text \<open>Two different pairs of well-formed digests with the same parent.\<close>

definition node_collision :: "('d \<Rightarrow> bool) \<Rightarrow> ('d \<Rightarrow> 'd \<Rightarrow> 'd) \<Rightarrow> bool" where
  "node_collision good f \<longleftrightarrow>
     (\<exists>a b c d. good a \<and> good b \<and> good c \<and> good d \<and> (a, b) \<noteq> (c, d) \<and> f a b = f c d)"

lemma node_binds:
  assumes "\<not> node_collision good f" and "good a" "good b" "good c" "good d" and "f a b = f c d"
  shows "a = c \<and> b = d"
  using assms unfolding node_collision_def by blast

lemma climb_binds:
  assumes "climb f i x ss = climb f i y ts" and "length ss = length ts"
    and "good x" "good y" "\<forall>s \<in> set ss. good s" "\<forall>s \<in> set ts. good s"
    and closed: "\<And>a b. good a \<Longrightarrow> good b \<Longrightarrow> good (f a b)"
    and "\<not> node_collision good f"
  shows "x = y \<and> ss = ts"
  using assms(1-6)
proof (induction ss arbitrary: ts i x y)
  case Nil
  then show ?case by simp
next
  case (Cons s ss)
  from Cons.prems obtain t ts' where ts: "ts = t # ts'" by (cases ts) auto
  let ?p = "\<lambda>x s. if even i then f x s else f s x"
  from Cons.prems ts closed have eq: "?p x s = ?p y t \<and> ss = ts'" by (intro Cons.IH) auto
  have "good x" "good y" "good s" "good t" using Cons.prems ts by auto
  then have "x = y \<and> s = t"
    using node_binds [OF assms(8), of x s y t] node_binds [OF assms(8), of s x t y] eq
    by (cases "even i") simp_all
  with eq ts show ?case by simp
qed

lemma subtree_binds:
  assumes "subtree f leaf h i = subtree f leaf' h i"
    and "\<And>j. good (leaf j)" "\<And>j. good (leaf' j)"
    and closed: "\<And>a b. good a \<Longrightarrow> good b \<Longrightarrow> good (f a b)"
    and no: "\<not> node_collision good f"
  shows "j div 2 ^ h = i \<Longrightarrow> leaf j = leaf' j"
  using assms(1)
proof (induction h arbitrary: i)
  case 0
  then show ?case by simp
next
  case (Suc h)
  let ?l = "subtree f leaf h" and ?r = "subtree f leaf' h"
  have good: "good (?l k)" "good (?r k)" for k using assms(2,3) closed by (auto intro: subtree_wf)
  then have eq: "?l (2 * i) = ?r (2 * i)" "?l (2 * i + 1) = ?r (2 * i + 1)"
    using node_binds [OF no good(1,1,2,2), of "2 * i" "2 * i + 1" "2 * i" "2 * i + 1"] Suc.prems(2)
    by simp_all
  have "j div 2 ^ h div 2 = j div 2 ^ Suc h" by (simp add: div_mult2_eq [symmetric] mult.commute)
  with Suc.prems(1) have "j div 2 ^ h div 2 = i" by simp
  then consider "j div 2 ^ h = 2 * i" | "j div 2 ^ h = 2 * i + 1" by linarith
  then show ?case using Suc.IH eq by cases auto
qed

subsection \<open>The contract of a node hash\<close>

text \<open>The total function behind a fallible hash; its value where the hash fails is never used.\<close>

definition total_node :: "('d \<Rightarrow> 'd \<Rightarrow> 'e + 'd) \<Rightarrow> 'd \<Rightarrow> 'd \<Rightarrow> 'd" where
  "total_node node a b = (case node a b of Inr c \<Rightarrow> c | Inl _ \<Rightarrow> a)"

locale hash_tree =
  fixes ok :: "'r \<Rightarrow> bool"
    and good :: "'d \<Rightarrow> bool"
    and node :: "'r \<Rightarrow> 'd \<Rightarrow> 'd \<Rightarrow> 'e + 'd"
  assumes node_total: "ok r \<Longrightarrow> good a \<Longrightarrow> good b \<Longrightarrow> \<exists>c. node r a b = Inr c \<and> good c"
begin

lemma node_eq: "ok r \<Longrightarrow> good a \<Longrightarrow> good b \<Longrightarrow> node r a b = Inr (total_node (node r) a b)"
  using node_total [of r a b] by (auto simp: total_node_def)

lemma total_wf: "ok r \<Longrightarrow> good a \<Longrightarrow> good b \<Longrightarrow> good (total_node (node r) a b)"
  using node_total [of r a b] by (auto simp: total_node_def)

text \<open>A loop that climbs a path with the fallible hash computes the climb of the total one.\<close>

lemma climb_loop:
  assumes "ok r" "good x" "\<forall>s \<in> set ss. good s"
    and step: "\<And>k x s. k < length ss \<Longrightarrow> good x \<Longrightarrow> good s \<Longrightarrow>
      go (m + k) x s = (if even (i div 2 ^ k) then node r x s else node r s x)"
  shows "try_fold (\<lambda>x (k, s). go k x s) x (enumerate m ss) =
    Inr (climb (total_node (node r)) i x ss)"
  using assms(2-4)
proof (induction ss arbitrary: m i x)
  case Nil
  then show ?case by simp
next
  case (Cons s ss)
  let ?y = "if even i then total_node (node r) x s else total_node (node r) s x"
  have y: "go m x s = Inr ?y" "good ?y"
    using Cons.prems(3) [of 0 x s] Cons.prems(1,2) assms(1) by (auto simp: node_eq total_wf)
  have "try_fold (\<lambda>x (k, s). go k x s) ?y (enumerate (Suc m) ss) =
      Inr (climb (total_node (node r)) (i div 2) ?y ss)"
  proof (rule Cons.IH [OF y(2)])
    fix k x s assume "k < length ss" "good x" "good s"
    then show "go (Suc m + k) x s = (if even (i div 2 div 2 ^ k) then node r x s else node r s x)"
      using Cons.prems(3) [of "Suc k" x s] by (simp add: div_mult2_eq)
  qed (use Cons.prems in auto)
  with y show ?case by simp
qed

lemma subtree_total_wf:
  "ok r \<Longrightarrow> (\<And>j. good (leaf j)) \<Longrightarrow> good (subtree (total_node (node r)) leaf h i)"
  by (rule subtree_wf) (auto simp: total_wf)

lemma climb_total_wf:
  "ok r \<Longrightarrow> good x \<Longrightarrow> \<forall>s \<in> set ss. good s \<Longrightarrow> good (climb (total_node (node r)) i x ss)"
  by (rule climb_wf) (auto simp: total_wf)

text \<open>Without a collision of the node hash, a root and an index fix the leaf and the whole path.\<close>

lemma path_binds:
  assumes "ok r" and "climb (total_node (node r)) i x ss = climb (total_node (node r)) i y ts"
    and "length ss = length ts" "good x" "good y" "\<forall>s \<in> set ss. good s" "\<forall>s \<in> set ts. good s"
    and "\<not> node_collision good (total_node (node r))"
  shows "x = y \<and> ss = ts"
  using assms(2-7) total_wf [OF assms(1)] assms(8) by (rule climb_binds)

lemma tree_binds:
  assumes "ok r"
    and "subtree (total_node (node r)) leaf h i = subtree (total_node (node r)) leaf' h i"
    and "\<And>j. good (leaf j)" "\<And>j. good (leaf' j)"
    and "\<not> node_collision good (total_node (node r))" and "j div 2 ^ h = i"
  shows "leaf j = leaf' j"
  by (rule subtree_binds [OF assms(2-4) total_wf [OF assms(1)] assms(5,6)])

end

end
