(* ===== verification/Poseidon2.thy ===== *)
theory Poseidon2
  imports Tree_Params Digest_Tree
begin

text \<open>
  The two evaluators of the frozen Poseidon2-BabyBear-P24 candidate: the allocation-free kernel of
  \<^verbatim>\<open>crates/noxis-poseidon2-core\<close>, which reads one flat array of build-time parameters, reduces by
  conditional subtraction and evaluates the internal layer as \<open>J + diagonal\<close>, and the dense
  reference of \<^verbatim>\<open>crates/noxis-poseidon2-reference\<close>, which loads and validates full matrices. Both are
  modelled with the \<open>Hash16\<close> sponge, the leaf, node and path functions and the small trees.
  A fixed-size array is a list; its length is a hypothesis where a theorem needs it.
\<close>

declare upt_rec_numeral [simp del]

type_synonym p24_state = "u32 list"
type_synonym digest = "u32 list"

definition subslice :: "'a list \<Rightarrow> nat \<Rightarrow> nat \<Rightarrow> 'a list" where
  "subslice xs a b = take (b - a) (drop a xs)"

subsection \<open>The sponge shared by the evaluators\<close>

text \<open>\<^verbatim>\<open>for (lane, value) in state[..15].iter_mut().zip(block)\<close>.\<close>

definition absorb_block :: "(u32 \<Rightarrow> u32 \<Rightarrow> u32) \<Rightarrow> p24_state \<Rightarrow> u32 list \<Rightarrow> p24_state" where
  "absorb_block add s block =
     (let k = min 15 (length block) in map2 add (take k s) (take k block) @ drop k s)"

definition absorb_blocks ::
  "(u32 \<Rightarrow> u32 \<Rightarrow> u32) \<Rightarrow> (p24_state \<Rightarrow> 'e + p24_state) \<Rightarrow> p24_state \<Rightarrow> u32 list \<Rightarrow> 'e + p24_state" where
  "absorb_blocks add perm s input =
     try_fold (\<lambda>s block. perm (absorb_block add s block)) s (chunks 15 input)"

definition sponge_init :: "u32 list \<Rightarrow> p24_state" where
  "sponge_init iv = replicate 15 0 @ iv"

definition absorb ::
  "(u32 \<Rightarrow> u32 \<Rightarrow> u32) \<Rightarrow> (p24_state \<Rightarrow> 'e + p24_state) \<Rightarrow> p24_state \<Rightarrow> u32 list \<Rightarrow> 'e + p24_state" where
  "absorb add perm s input = (if input = [] then perm s else absorb_blocks add perm s input)"

definition squeeze :: "(p24_state \<Rightarrow> 'e + p24_state) \<Rightarrow> p24_state \<Rightarrow> 'e + digest" where
  "squeeze perm s = and_then (perm s) (\<lambda>s'. Inr (take 15 s @ [s' ! 0]))"

subsection \<open>The build step and the kernel\<close>

text \<open>The build script; \<open>None\<close> is a failed assertion, which stops the build.\<close>

definition core_parameters :: "candidate_env \<Rightarrow> u32 list option" where
  "core_parameters env =
     (case ce_base64 env (compact_text (ce_p24_text env)) of
        None \<Rightarrow> None
      | Some payload \<Rightarrow>
          if length payload \<noteq> 7596 then None
          else if ce_sha env payload \<noteq> P24_EXPECTED_PAYLOAD_SHA256 then None
          else if \<exists>v \<in> set (decode_le32 payload). \<not> v < BABYBEAR_MODULUS then None
          else Some (decode_le32 payload))"

datatype core_domain = CoreLeaf | CoreNode | CoreEmptyBase

datatype core_error =
  CoreNonCanonicalInput nat u32
| CoreInvalidDomainArity core_domain nat nat

fun core_input_elements :: "core_domain \<Rightarrow> nat" where
  "core_input_elements CoreLeaf = 16"
| "core_input_elements CoreNode = 32"
| "core_input_elements CoreEmptyBase = 0"

definition core_iv_offset :: "core_domain \<Rightarrow> nat" where
  "core_iv_offset role =
     1872 + (case role of CoreLeaf \<Rightarrow> 0 | CoreNode \<Rightarrow> 1 | CoreEmptyBase \<Rightarrow> 2) * 9"

definition core_validate_elements :: "u32 list \<Rightarrow> core_error + unit" where
  "core_validate_elements input =
     (case first_noncanonical 0 input of
        Some (i, v) \<Rightarrow> Inl (CoreNonCanonicalInput i v)
      | None \<Rightarrow> Inr ())"

definition core_matmul :: "u32 list \<Rightarrow> nat \<Rightarrow> p24_state \<Rightarrow> p24_state" where
  "core_matmul params offset s =
     map (\<lambda>row. foldl (\<lambda>accumulated column.
             core_add accumulated (multiply (params ! (offset + row * 24 + column)) (s ! column)))
           0 [0..<24])
       [0..<24]"

definition internal_j_plus_diagonal :: "u32 list \<Rightarrow> p24_state \<Rightarrow> p24_state" where
  "internal_j_plus_diagonal params s =
     (let total = foldl core_add 0 s
      in map (\<lambda>i. core_add total (multiply (params ! i) (s ! i))) [0..<24])"

definition core_round_constant :: "u32 list \<Rightarrow> nat \<Rightarrow> nat \<Rightarrow> u32" where
  "core_round_constant params rnd lane = params ! (1176 + rnd * 24 + lane)"

definition core_add_round_constants :: "u32 list \<Rightarrow> p24_state \<Rightarrow> nat \<Rightarrow> p24_state" where
  "core_add_round_constants params s rnd =
     map (\<lambda>lane. core_add (s ! lane) (core_round_constant params rnd lane)) [0..<length s]"

definition core_full_round :: "u32 list \<Rightarrow> p24_state \<Rightarrow> nat \<Rightarrow> p24_state" where
  "core_full_round params s rnd =
     core_matmul params 24 (map sbox_seven (core_add_round_constants params s rnd))"

definition core_partial_round :: "u32 list \<Rightarrow> p24_state \<Rightarrow> nat \<Rightarrow> p24_state" where
  "core_partial_round params s rnd =
     internal_j_plus_diagonal params
       (s[0 := sbox_seven (core_add (s ! 0) (core_round_constant params rnd 0))])"

definition core_permutation :: "u32 list \<Rightarrow> p24_state \<Rightarrow> core_error + p24_state" where
  "core_permutation params input =
     and_then (core_validate_elements input) (\<lambda>_.
       let s0 = core_matmul params 24 input;
           s1 = foldl (core_full_round params) s0 [0..<4];
           s2 = foldl (core_partial_round params) s1 [4..<25];
           s3 = foldl (core_full_round params) s2 [25..<29]
       in Inr s3)"

definition core_hash16 :: "u32 list \<Rightarrow> core_domain \<Rightarrow> u32 list \<Rightarrow> core_error + digest" where
  "core_hash16 params role input =
     (if length input \<noteq> core_input_elements role
      then Inl (CoreInvalidDomainArity role (length input) (core_input_elements role))
      else and_then (core_validate_elements input) (\<lambda>_.
        and_then (absorb core_add (core_permutation params)
                   (sponge_init (subslice params (core_iv_offset role) (core_iv_offset role + 9))) input)
          (squeeze (core_permutation params))))"

definition core_leaf :: "u32 list \<Rightarrow> digest \<Rightarrow> core_error + digest" where
  "core_leaf params note = core_hash16 params CoreLeaf note"

definition core_node :: "u32 list \<Rightarrow> digest \<Rightarrow> digest \<Rightarrow> core_error + digest" where
  "core_node params left right = core_hash16 params CoreNode (left @ right)"

definition core_root_from_note_path ::
  "u32 list \<Rightarrow> digest \<Rightarrow> u32 \<Rightarrow> digest list \<Rightarrow> core_error + digest" where
  "core_root_from_note_path params note leaf_index siblings =
     and_then (core_leaf params note) (\<lambda>current.
       try_fold (\<lambda>current (level, sibling).
           if drop_bit level leaf_index AND 1 = 0 then core_node params current sibling
           else core_node params sibling current)
         current (enumerate 0 siblings))"

subsection \<open>The dense reference\<close>

record p24_reference =
  external_matrix :: "u32 list list"
  internal_matrix :: "u32 list list"
  round_constants :: "u32 list list"

datatype p24_reference_error =
  RefCandidate p24_candidate_error
| RefInvalidPayloadLength nat
| RefNonCanonicalParameter nat u32
| RefInvalidInternalMatrix nat nat
| RefNonCanonicalInput nat u32
| RefInvalidDomainArity p24_tree_domain nat nat
| RefNonCanonicalHashInput nat u32
| RefTooManySmallTreeNotes nat nat
| RefSmallTreePathIndexOutOfBounds nat nat

definition decode_elements :: "bytes \<Rightarrow> p24_reference_error + u32 list" where
  "decode_elements payload =
     (if length payload mod 4 \<noteq> 0 then Inl (RefInvalidPayloadLength (length payload))
      else case first_noncanonical 0 (decode_le32 payload) of
        Some (i, v) \<Rightarrow> Inl (RefNonCanonicalParameter i v)
      | None \<Rightarrow> Inr (decode_le32 payload))"

definition matrix_from :: "nat \<Rightarrow> u32 list \<Rightarrow> u32 list list" where
  "matrix_from rows vals = map (\<lambda>row. subslice vals (row * 24) ((row + 1) * 24)) [0..<rows]"

definition validate_internal_matrix ::
  "u32 list \<Rightarrow> u32 list list \<Rightarrow> p24_reference_error + unit" where
  "validate_internal_matrix diagonal matrix =
     (case find (\<lambda>(row, column). matrix ! row ! column \<noteq>
             (if row = column then ref_add (diagonal ! row) 1 else 1))
           (List.product [0..<24] [0..<24]) of
        Some (row, column) \<Rightarrow> Inl (RefInvalidInternalMatrix row column)
      | None \<Rightarrow> Inr ())"

definition load_candidate :: "candidate_env \<Rightarrow> p24_reference_error + p24_reference" where
  "load_candidate env =
     and_then (map_err RefCandidate (p24_parameter_payload env)) (\<lambda>payload.
     and_then (decode_elements payload) (\<lambda>vals.
       let diagonal = subslice vals 0 24;
           external = matrix_from 24 (subslice vals 24 600);
           internal = matrix_from 24 (subslice vals 600 1176);
           constants = matrix_from 29 (subslice vals 1176 1872)
       in and_then (validate_internal_matrix diagonal internal) (\<lambda>_.
            Inr \<lparr>external_matrix = external, internal_matrix = internal,
                 round_constants = constants\<rparr>)))"

definition ref_validate_state :: "p24_state \<Rightarrow> p24_reference_error + unit" where
  "ref_validate_state s =
     (case first_noncanonical 0 s of
        Some (i, v) \<Rightarrow> Inl (RefNonCanonicalInput i v)
      | None \<Rightarrow> Inr ())"

definition ref_validate_digest :: "u32 list \<Rightarrow> p24_reference_error + unit" where
  "ref_validate_digest d =
     (case first_noncanonical 0 d of
        Some (i, v) \<Rightarrow> Inl (RefNonCanonicalHashInput i v)
      | None \<Rightarrow> Inr ())"

definition ref_matmul :: "u32 list list \<Rightarrow> p24_state \<Rightarrow> p24_state" where
  "ref_matmul matrix s =
     map (\<lambda>row. foldl (\<lambda>accumulated column.
             ref_add accumulated (multiply (matrix ! row ! column) (s ! column)))
           0 [0..<24])
       [0..<24]"

definition ref_full_round :: "p24_reference \<Rightarrow> p24_state \<Rightarrow> nat \<Rightarrow> p24_state" where
  "ref_full_round R s rnd =
     ref_matmul (external_matrix R) (map sbox_seven (map2 ref_add s (round_constants R ! rnd)))"

definition ref_partial_round :: "p24_reference \<Rightarrow> p24_state \<Rightarrow> nat \<Rightarrow> p24_state" where
  "ref_partial_round R s rnd =
     ref_matmul (internal_matrix R)
       (s[0 := sbox_seven (ref_add (s ! 0) (round_constants R ! rnd ! 0))])"

definition ref_permutation :: "p24_reference \<Rightarrow> p24_state \<Rightarrow> p24_reference_error + p24_state" where
  "ref_permutation R input =
     and_then (ref_validate_state input) (\<lambda>_.
       let s0 = ref_matmul (external_matrix R) input;
           s1 = foldl (ref_full_round R) s0 [0..<4];
           s2 = foldl (ref_partial_round R) s1 [4..<25];
           s3 = foldl (ref_full_round R) s2 [25..<29]
       in Inr s3)"

fun ref_input_elements :: "p24_tree_domain \<Rightarrow> nat" where
  "ref_input_elements TreeLeaf = 16"
| "ref_input_elements TreeNode = 32"
| "ref_input_elements TreeEmptyBase = 0"

definition ref_hash16 ::
  "candidate_env \<Rightarrow> p24_reference \<Rightarrow> p24_tree_domain \<Rightarrow> u32 list \<Rightarrow> p24_reference_error + digest" where
  "ref_hash16 env R role input =
     (if length input \<noteq> ref_input_elements role
      then Inl (RefInvalidDomainArity role (length input) (ref_input_elements role))
      else and_then (ref_validate_digest input) (\<lambda>_.
        and_then (map_err RefCandidate (p24_iv env role)) (\<lambda>iv.
        and_then (absorb ref_add (ref_permutation R) (sponge_init iv) input)
          (squeeze (ref_permutation R)))))"

definition ref_leaf :: "candidate_env \<Rightarrow> p24_reference \<Rightarrow> digest \<Rightarrow> p24_reference_error + digest" where
  "ref_leaf env R note = ref_hash16 env R TreeLeaf note"

definition ref_node ::
  "candidate_env \<times> p24_reference \<Rightarrow> digest \<Rightarrow> digest \<Rightarrow> p24_reference_error + digest" where
  "ref_node = (\<lambda>(env, R) left right. ref_hash16 env R TreeNode (left @ right))"

fun ref_empty_from ::
  "candidate_env \<times> p24_reference \<Rightarrow> digest \<Rightarrow> nat \<Rightarrow> p24_reference_error + digest list" where
  "ref_empty_from ER previous 0 = Inr []"
| "ref_empty_from ER previous (Suc n) =
     and_then (ref_node ER previous previous) (\<lambda>next_value.
       and_then (ref_empty_from ER next_value n) (\<lambda>rest. Inr (next_value # rest)))"

definition ref_empty_values ::
  "candidate_env \<Rightarrow> p24_reference \<Rightarrow> p24_reference_error + digest list" where
  "ref_empty_values env R =
     and_then (ref_hash16 env R TreeEmptyBase []) (\<lambda>base.
       and_then (ref_empty_from (env, R) base 32) (\<lambda>rest. Inr (base # rest)))"

text \<open>One level of a small tree: an odd list is completed by the empty value, then paired.\<close>

definition small_parents ::
  "candidate_env \<Rightarrow> p24_reference \<Rightarrow> digest \<Rightarrow> digest list \<Rightarrow> p24_reference_error + digest list" where
  "small_parents env R empty_value nodes =
     (let nodes' = (if length nodes mod 2 = 1 then nodes @ [empty_value] else nodes)
      in collect_results (\<lambda>pair. ref_node (env, R) (pair ! 0) (pair ! 1)) (chunks 2 nodes'))"

definition small_tree_root ::
  "candidate_env \<Rightarrow> p24_reference \<Rightarrow> digest list \<Rightarrow> p24_reference_error + digest" where
  "small_tree_root env R notes =
     (if 4 < length notes then Inl (RefTooManySmallTreeNotes (length notes) 4)
      else and_then (ref_empty_values env R) (\<lambda>empty_values.
        if notes = [] then Inr (empty_values ! 32)
        else and_then (collect_results (ref_leaf env R) notes) (\<lambda>nodes.
          and_then (try_fold (\<lambda>nodes empty_value. small_parents env R empty_value nodes)
                     nodes (take 32 empty_values))
            (\<lambda>nodes. Inr (nodes ! 0)))))"

definition small_path_step ::
  "candidate_env \<Rightarrow> p24_reference \<Rightarrow> digest list \<times> nat \<times> digest list \<Rightarrow> digest
    \<Rightarrow> p24_reference_error + (digest list \<times> nat \<times> digest list)" where
  "small_path_step env R = (\<lambda>(nodes, index, siblings) empty_value.
     (let sibling = (if index XOR 1 < length nodes then nodes ! (index XOR 1) else empty_value)
      in and_then (small_parents env R empty_value nodes) (\<lambda>parents.
           Inr (parents, drop_bit 1 index, siblings @ [sibling]))))"

definition small_tree_path ::
  "candidate_env \<Rightarrow> p24_reference \<Rightarrow> digest list \<Rightarrow> nat
    \<Rightarrow> p24_reference_error + (digest \<times> digest list \<times> digest)" where
  "small_tree_path env R commitments leaf_index =
     (if 4 < length commitments then Inl (RefTooManySmallTreeNotes (length commitments) 4)
      else if length commitments \<le> leaf_index
        then Inl (RefSmallTreePathIndexOutOfBounds leaf_index (length commitments))
      else and_then (ref_empty_values env R) (\<lambda>empty_values.
        and_then (ref_leaf env R (commitments ! leaf_index)) (\<lambda>leaf.
        and_then (collect_results (ref_leaf env R) commitments) (\<lambda>nodes.
        and_then (try_fold (small_path_step env R) (nodes, leaf_index, []) (take 32 empty_values))
          (\<lambda>(nodes, index, siblings). Inr (leaf, siblings, nodes ! 0))))))"

definition ref_root_from_path ::
  "candidate_env \<Rightarrow> p24_reference \<Rightarrow> digest \<Rightarrow> u32 \<Rightarrow> digest list \<Rightarrow> p24_reference_error + digest" where
  "ref_root_from_path env R leaf leaf_index siblings =
     and_then (ref_validate_digest leaf) (\<lambda>_.
       try_fold (\<lambda>current (level, sibling).
           and_then (ref_validate_digest sibling) (\<lambda>_.
             if drop_bit level leaf_index AND 1 = 0 then ref_node (env, R) current sibling
             else ref_node (env, R) sibling current))
         leaf (enumerate 0 siblings))"

subsection \<open>Well-formed states and digests\<close>

definition state_wf :: "p24_state \<Rightarrow> bool" where
  "state_wf s \<longleftrightarrow> length s = 24 \<and> (\<forall>v \<in> set s. canonical v)"

definition digest_wf :: "digest \<Rightarrow> bool" where
  "digest_wf d \<longleftrightarrow> length d = 16 \<and> (\<forall>v \<in> set d. canonical v)"

lemma core_validate_iff [simp]:
  "core_validate_elements vs = Inr () \<longleftrightarrow> (\<forall>v \<in> set vs. canonical v)"
  by (auto simp: core_validate_elements_def first_noncanonical_None_iff [symmetric, of vs 0]
      split: option.splits)

lemma ref_validate_iff [simp]:
  "ref_validate_state vs = Inr () \<longleftrightarrow> (\<forall>v \<in> set vs. canonical v)"
  "ref_validate_digest vs = Inr () \<longleftrightarrow> (\<forall>v \<in> set vs. canonical v)"
  by (auto simp: ref_validate_state_def ref_validate_digest_def
      first_noncanonical_None_iff [symmetric, of vs 0] split: option.splits)

lemma ref_validate_ok [simp]:
  "\<forall>v \<in> set vs. canonical v \<Longrightarrow> ref_validate_state vs = Inr ()"
  "\<forall>v \<in> set vs. canonical v \<Longrightarrow> ref_validate_digest vs = Inr ()"
  by simp_all

text \<open>The element-wise sums.\<close>

lemma foldl_core_add:
  assumes "canonical a" and "\<forall>c \<in> set cs. canonical (f c)"
  shows "foldl (\<lambda>a c. core_add a (f c)) a cs = foldl (\<lambda>a c. ref_add a (f c)) a cs"
  using assms by (induction cs arbitrary: a) (auto simp: core_add_eq)

lemma unat_foldl_ref_add:
  "canonical a \<Longrightarrow>
    unat (foldl (\<lambda>a c. ref_add a (f c)) a cs) = (unat a + (\<Sum>c\<leftarrow>cs. unat (f c))) mod 2013265921"
proof (induction cs arbitrary: a)
  case (Cons c cs)
  have "unat (foldl (\<lambda>a c. ref_add a (f c)) a (c # cs)) =
      (unat (ref_add a (f c)) + (\<Sum>c\<leftarrow>cs. unat (f c))) mod 2013265921"
    using Cons.IH [of "ref_add a (f c)"] by simp
  then show ?case by (simp add: mod_simps add.assoc)
qed (simp add: canonical_iff)

lemma canonical_foldl_ref_add: "canonical a \<Longrightarrow> canonical (foldl (\<lambda>a c. ref_add a (f c)) a cs)"
  by (induction cs arbitrary: a) auto

lemma ref_matmul_wf: "state_wf (ref_matmul m s)"
  by (auto simp: state_wf_def ref_matmul_def canonical_foldl_ref_add)

lemma set_zip_canonical:
  assumes "\<And>a b. canonical (f a b)"
  shows "\<forall>v \<in> set (map2 f xs ys). canonical v"
  using assms by auto

lemma state_wf_update:
  "state_wf s \<Longrightarrow> canonical v \<Longrightarrow> state_wf (s[0 := v])"
  by (auto simp: state_wf_def dest: subsetD [OF set_update_subset_insert])

lemma ref_round_wf: "state_wf (ref_full_round R s rnd)" "state_wf (ref_partial_round R s rnd)"
  by (simp_all add: ref_full_round_def ref_partial_round_def ref_matmul_wf)

lemma foldl_keeps: "P s \<Longrightarrow> (\<And>s x. P s \<Longrightarrow> P (f s x)) \<Longrightarrow> P (foldl f s xs)"
  by (induction xs arbitrary: s) auto

lemma foldl_same:
  assumes "P s" and "\<And>s x. P s \<Longrightarrow> x \<in> set xs \<Longrightarrow> f s x = g s x \<and> P (g s x)"
  shows "foldl f s xs = foldl g s xs \<and> P (foldl g s xs)"
  using assms by (induction xs arbitrary: s) auto

text \<open>The permutation is total on well-formed states and keeps them.\<close>

lemma ref_permutation_wf:
  assumes "state_wf s"
  shows "\<exists>s'. ref_permutation R s = Inr s' \<and> state_wf s'"
proof -
  let ?s2 = "foldl (ref_partial_round R) (foldl (ref_full_round R) (ref_matmul (external_matrix R) s) [0..<4]) [4..<25]"
  have "state_wf ?s2" by (intro foldl_keeps [where P = state_wf] ref_matmul_wf ref_round_wf)
  then have "state_wf (foldl (ref_full_round R) ?s2 [25..<29])"
    by (rule foldl_keeps [where P = state_wf]) (rule ref_round_wf)
  moreover from assms have "ref_validate_state s = Inr ()" by (simp add: state_wf_def)
  ultimately show ?thesis by (simp only: ref_permutation_def and_then_simps Let_def) blast
qed

subsection \<open>What a successful load says\<close>

text \<open>The reference holds the matrices of the flat array the kernel is built with.\<close>

definition same_parameters :: "u32 list \<Rightarrow> p24_reference \<Rightarrow> bool" where
  "same_parameters params R \<longleftrightarrow>
     length params = 1899 \<and> (\<forall>v \<in> set params. canonical v)
     \<and> (\<forall>r < 24. \<forall>c < 24. external_matrix R ! r ! c = params ! (24 + r * 24 + c))
     \<and> (\<forall>r < 29. length (round_constants R ! r) = 24
           \<and> (\<forall>c < 24. round_constants R ! r ! c = params ! (1176 + r * 24 + c)))
     \<and> (\<forall>r < 24. \<forall>c < 24. internal_matrix R ! r ! c = (if r = c then ref_add (params ! r) 1 else 1))"

lemma nth_slice: "i < b - a \<Longrightarrow> b \<le> length xs \<Longrightarrow> subslice xs a b ! i = xs ! (a + i)"
  by (simp add: subslice_def)

lemma length_slice: "b \<le> length xs \<Longrightarrow> length (subslice xs a b) = b - a"
  by (simp add: subslice_def min_absorb2 diff_le_mono)

lemma matrix_from_nth:
  assumes "r < rows" "c < 24" "rows * 24 \<le> length vals"
  shows "matrix_from rows vals ! r ! c = vals ! (r * 24 + c)"
proof -
  have "(r + 1) * 24 \<le> rows * 24" using assms(1) by (intro mult_right_mono) auto
  then show ?thesis using assms by (simp add: matrix_from_def nth_slice)
qed

lemma matrix_from_row_length:
  assumes "r < rows" "rows * 24 \<le> length vals"
  shows "length (matrix_from rows vals ! r) = 24"
proof -
  have "(r + 1) * 24 \<le> rows * 24" using assms(1) by (intro mult_right_mono) auto
  then show ?thesis using assms by (simp add: matrix_from_def length_slice)
qed

lemma validate_internal_matrix_Inr:
  assumes "validate_internal_matrix diagonal matrix = Inr ()" and "r < 24" "c < 24"
  shows "matrix ! r ! c = (if r = c then ref_add (diagonal ! r) 1 else 1)"
  using assms
  by (auto simp: validate_internal_matrix_def find_None_iff set_product
      split: option.splits)

lemma load_candidate_Inr:
  assumes "load_candidate env = Inr R"
  obtains payload where "p24_parameter_payload env = Inr payload"
    and "core_parameters env = Some (decode_le32 payload)"
    and "same_parameters (decode_le32 payload) R"
proof -
  from assms obtain payload vals where payload: "p24_parameter_payload env = Inr payload"
    and vals: "decode_elements payload = Inr vals"
    and internal: "validate_internal_matrix (subslice vals 0 24) (matrix_from 24 (subslice vals 600 1176)) = Inr ()"
    and R: "R = \<lparr>external_matrix = matrix_from 24 (subslice vals 24 600),
       internal_matrix = matrix_from 24 (subslice vals 600 1176),
       round_constants = matrix_from 29 (subslice vals 1176 1872)\<rparr>"
    by (auto simp: load_candidate_def and_then_eq_Inr Let_def)
  have len: "length payload = 7596" using p24_parameter_payload_Inr(1) [OF payload] .
  from vals have v: "vals = decode_le32 payload" and can: "\<forall>v \<in> set vals. canonical v"
    by (auto simp: decode_elements_def first_noncanonical_None_iff [symmetric, of _ 0]
        split: if_splits option.splits)
  have n: "length vals = 1899" unfolding v by (rule length_decode_le32) (simp add: len)
  from payload have sha: "ce_sha env payload = P24_EXPECTED_PAYLOAD_SHA256"
    and b64: "ce_base64 env (compact_text (ce_p24_text env)) = Some payload"
    by (auto simp: p24_parameter_payload_def p24_validate_payload_def and_then_eq_Inr
        split: if_splits)
  show ?thesis
  proof (rule that [OF payload])
    show "core_parameters env = Some (decode_le32 payload)"
      using b64 sha len can v by (auto simp: core_parameters_def)
    show "same_parameters (decode_le32 payload) R"
      unfolding same_parameters_def
    proof (intro conjI allI impI)
      fix r c :: nat
      assume r: "r < 24" and c: "c < 24"
      then show "external_matrix R ! r ! c = decode_le32 payload ! (24 + r * 24 + c)"
        by (simp add: R v [symmetric] matrix_from_nth length_slice nth_slice n add.assoc)
      show "internal_matrix R ! r ! c = (if r = c then ref_add (decode_le32 payload ! r) 1 else 1)"
        using validate_internal_matrix_Inr [OF internal r c] r c
        by (simp add: R v [symmetric] nth_slice n)
    next
      fix r c :: nat
      assume "r < 29" and "c < 24"
      then show "round_constants R ! r ! c = decode_le32 payload ! (1176 + r * 24 + c)"
        by (simp add: R v [symmetric] matrix_from_nth length_slice nth_slice n add.assoc)
    next
      fix r :: nat
      assume "r < 29"
      then show "length (round_constants R ! r) = 24"
        by (simp add: R matrix_from_row_length length_slice n)
    qed (use n can v in auto)
  qed
qed

subsection \<open>The kernel agrees with the reference\<close>

lemma params_canonical:
  "same_parameters params R \<Longrightarrow> i < 1899 \<Longrightarrow> canonical (params ! i)"
  by (auto simp: same_parameters_def)

lemma core_matmul_eq:
  assumes "same_parameters params R"
  shows "core_matmul params 24 s = ref_matmul (external_matrix R) s"
proof -
  have "foldl (\<lambda>a c. core_add a (multiply (params ! (24 + r * 24 + c)) (s ! c))) 0 [0..<24] =
      foldl (\<lambda>a c. ref_add a (multiply (external_matrix R ! r ! c) (s ! c))) 0 [0..<24]"
    if "r < 24" for r
  proof -
    have "foldl (\<lambda>a c. core_add a (multiply (params ! (24 + r * 24 + c)) (s ! c))) 0 [0..<24] =
      foldl (\<lambda>a c. ref_add a (multiply (params ! (24 + r * 24 + c)) (s ! c))) 0 [0..<24]"
      by (rule foldl_core_add) auto
    also have "\<dots> = foldl (\<lambda>a c. ref_add a (multiply (external_matrix R ! r ! c) (s ! c))) 0 [0..<24]"
      by (rule foldl_cong) (use assms that in \<open>auto simp: same_parameters_def\<close>)
    finally show ?thesis .
  qed
  then show ?thesis by (auto simp: core_matmul_def ref_matmul_def)
qed

lemma sum_list_indicator:
  "i < n \<Longrightarrow> (\<Sum>c\<leftarrow>[0..<n]. if c = i then x else 0) = (x :: nat)"
  by (induction n) auto

text \<open>A row of the dense internal layer, as residues: the sum of the state plus the diagonal term.\<close>

lemma internal_row:
  assumes R: "same_parameters params R" and s: "state_wf s" and r: "r < 24"
  shows "foldl (\<lambda>a c. ref_add a (multiply (internal_matrix R ! r ! c) (s ! c))) 0 [0..<24] =
    ref_add (foldl ref_add 0 s) (multiply (params ! r) (s ! r))"
proof (rule canonical_eqI)
  let ?p = "2013265921 :: nat"
  let ?S = "\<Sum>c\<leftarrow>[0..<24]. unat (s ! c)"
  let ?x = "unat (params ! r) * unat (s ! r)"
  have entry: "unat (multiply (internal_matrix R ! r ! c) (s ! c)) mod ?p =
      (unat (s ! c) + (if c = r then ?x else 0)) mod ?p" if "c < 24" for c
    using R r that by (auto simp: same_parameters_def mod_simps algebra_simps)
  have sum_mod: "(\<Sum>c\<leftarrow>cs. f c) mod ?p = (\<Sum>c\<leftarrow>cs. g c) mod ?p"
    if "\<forall>c \<in> set cs. f c mod ?p = g c mod ?p" for cs and f g :: "nat \<Rightarrow> nat"
    using that by (induction cs) (auto intro: mod_add_cong)
  have "unat (foldl (\<lambda>a c. ref_add a (multiply (internal_matrix R ! r ! c) (s ! c))) 0 [0..<24]) =
      (\<Sum>c\<leftarrow>[0..<24]. unat (multiply (internal_matrix R ! r ! c) (s ! c))) mod ?p"
    using unat_foldl_ref_add [where a = 0 and cs = "[0..<24]"] by simp
  also have "\<dots> = (\<Sum>c\<leftarrow>[0..<24]. unat (s ! c) + (if c = r then ?x else 0)) mod ?p"
    by (rule sum_mod) (use entry in auto)
  also have "\<dots> = (?S + ?x) mod ?p" using r by (simp add: sum_list_addf sum_list_indicator)
  finally have l: "unat (foldl (\<lambda>a c. ref_add a (multiply (internal_matrix R ! r ! c) (s ! c))) 0 [0..<24]) =
      (?S + ?x) mod ?p" .
  have "map ((!) s) [0..<24] = s" using s map_nth [of s] by (simp add: state_wf_def)
  then have "foldl ref_add 0 s = foldl ref_add 0 (map ((!) s) [0..<24])" by simp
  also have "\<dots> = foldl (\<lambda>a c. ref_add a (s ! c)) 0 [0..<24]" by (simp only: foldl_map)
  finally have "unat (foldl ref_add 0 s) = ?S mod ?p"
    using unat_foldl_ref_add [where a = 0 and cs = "[0..<24]" and f = "(!) s"] by simp
  then show "unat (foldl (\<lambda>a c. ref_add a (multiply (internal_matrix R ! r ! c) (s ! c))) 0 [0..<24]) =
      unat (ref_add (foldl ref_add 0 s) (multiply (params ! r) (s ! r)))"
    using l by (simp add: mod_simps)
qed

lemma internal_layer_eq:
  assumes R: "same_parameters params R" and s: "state_wf s"
  shows "internal_j_plus_diagonal params s = ref_matmul (internal_matrix R) s"
proof -
  have "\<forall>v \<in> set s. canonical v" using s by (simp add: state_wf_def)
  then have total: "foldl core_add 0 s = foldl ref_add 0 s"
    using foldl_core_add [where a = 0 and f = "\<lambda>v. v" and cs = s] by simp
  have "canonical (foldl ref_add 0 s)"
    using canonical_foldl_ref_add [where a = 0 and f = "\<lambda>v. v" and cs = s] by simp
  then have "core_add (foldl ref_add 0 s) (multiply (params ! r) (s ! r)) =
      foldl (\<lambda>a c. ref_add a (multiply (internal_matrix R ! r ! c) (s ! c))) 0 [0..<24]" if "r < 24" for r
    using internal_row [OF R s that] by (simp add: core_add_eq)
  then show ?thesis by (auto simp: internal_j_plus_diagonal_def ref_matmul_def total Let_def)
qed

lemma core_round_eq:
  assumes R: "same_parameters params R" and s: "state_wf s" and r: "rnd < 29"
  shows "core_full_round params s rnd = ref_full_round R s rnd"
    and "core_partial_round params s rnd = ref_partial_round R s rnd"
proof -
  have lane: "core_add (s ! i) (core_round_constant params rnd i) = ref_add (s ! i) (round_constants R ! rnd ! i)"
    if "i < 24" for i
  proof -
    have "core_round_constant params rnd i = round_constants R ! rnd ! i"
      using R r that by (simp add: same_parameters_def core_round_constant_def)
    moreover have "canonical (s ! i)" using s that by (simp add: state_wf_def)
    moreover have "canonical (core_round_constant params rnd i)"
      unfolding core_round_constant_def by (rule params_canonical [OF R]) (use r that in simp)
    ultimately show ?thesis by (simp add: core_add_eq)
  qed
  have len: "length s = 24" "length (round_constants R ! rnd) = 24"
    using s R r by (auto simp: state_wf_def same_parameters_def)
  then have "core_add_round_constants params s rnd = map2 ref_add s (round_constants R ! rnd)"
    unfolding core_add_round_constants_def by (intro nth_equalityI) (auto simp: lane)
  then show "core_full_round params s rnd = ref_full_round R s rnd"
    by (simp add: core_full_round_def ref_full_round_def core_matmul_eq [OF R])
  have "state_wf (s[0 := sbox_seven (ref_add (s ! 0) (round_constants R ! rnd ! 0))])"
    using s by (rule state_wf_update) simp
  then show "core_partial_round params s rnd = ref_partial_round R s rnd"
    by (simp add: core_partial_round_def ref_partial_round_def lane internal_layer_eq [OF R])
qed

text \<open>The kernel reports the reference's errors under its own names.\<close>

fun core_role :: "p24_tree_domain \<Rightarrow> core_domain" where
  "core_role TreeLeaf = CoreLeaf"
| "core_role TreeNode = CoreNode"
| "core_role TreeEmptyBase = CoreEmptyBase"

definition core_error_of :: "p24_reference_error \<Rightarrow> core_error" where
  "core_error_of e =
     (case e of RefNonCanonicalInput i v \<Rightarrow> CoreNonCanonicalInput i v
      | RefNonCanonicalHashInput i v \<Rightarrow> CoreNonCanonicalInput i v
      | RefInvalidDomainArity role a b \<Rightarrow>
          CoreInvalidDomainArity
            (core_role role) a b
      | _ \<Rightarrow> CoreNonCanonicalInput 0 0)"

lemma core_validate_eq:
  "core_validate_elements vs = map_err core_error_of (ref_validate_state vs)"
  "core_validate_elements vs = map_err core_error_of (ref_validate_digest vs)"
  by (auto simp: core_validate_elements_def ref_validate_state_def ref_validate_digest_def
      core_error_of_def split: option.splits)

lemma core_permutation_eq:
  assumes R: "same_parameters params R" and len: "length s = 24"
  shows "core_permutation params s = map_err core_error_of (ref_permutation R s)"
proof (cases "ref_validate_state s")
  case (Inl e)
  then show ?thesis by (simp add: core_permutation_def ref_permutation_def core_validate_eq(1))
next
  case (Inr u)
  let ?s0 = "ref_matmul (external_matrix R) s"
  have full: "foldl (core_full_round params) t [a..<b] = foldl (ref_full_round R) t [a..<b]
      \<and> state_wf (foldl (ref_full_round R) t [a..<b])" if "state_wf t" "b \<le> 29" for t a b
    by (rule foldl_same [where P = state_wf, OF that(1)])
      (use that core_round_eq [OF R] ref_round_wf in auto)
  have partial: "foldl (core_partial_round params) t [a..<b] = foldl (ref_partial_round R) t [a..<b]
      \<and> state_wf (foldl (ref_partial_round R) t [a..<b])" if "state_wf t" "b \<le> 29" for t a b
    by (rule foldl_same [where P = state_wf, OF that(1)])
      (use that core_round_eq [OF R] ref_round_wf in auto)
  have s0: "state_wf ?s0" by (rule ref_matmul_wf)
  have r1: "foldl (core_full_round params) ?s0 [0..<4] = foldl (ref_full_round R) ?s0 [0..<4]"
      "state_wf (foldl (ref_full_round R) ?s0 [0..<4])"
    using full [OF s0, of 4 0] by simp_all
  let ?s1 = "foldl (ref_full_round R) ?s0 [0..<4]"
  have r2: "foldl (core_partial_round params) ?s1 [4..<25] = foldl (ref_partial_round R) ?s1 [4..<25]"
      "state_wf (foldl (ref_partial_round R) ?s1 [4..<25])"
    using partial [OF r1(2), of 25 4] by simp_all
  have r3: "foldl (core_full_round params) (foldl (ref_partial_round R) ?s1 [4..<25]) [25..<29] =
      foldl (ref_full_round R) (foldl (ref_partial_round R) ?s1 [4..<25]) [25..<29]"
    using full [OF r2(2), of 29 25] by simp
  have ok: "ref_validate_state s = Inr ()" using Inr by simp
  show ?thesis
    by (simp only: core_permutation_def ref_permutation_def core_validate_eq(1) ok map_err_simps
        and_then_simps Let_def core_matmul_eq [OF R] r1(1) r2(1) r3)
qed

subsection \<open>The sponge on well-formed states\<close>

text \<open>Every permutation used here is total on well-formed states.\<close>

definition permutes :: "(p24_state \<Rightarrow> 'e + p24_state) \<Rightarrow> bool" where
  "permutes perm \<longleftrightarrow> (\<forall>s. state_wf s \<longrightarrow> (\<exists>s'. perm s = Inr s' \<and> state_wf s'))"

lemma permutes_ref: "permutes (ref_permutation R)"
  by (simp add: permutes_def ref_permutation_wf)

lemma absorb_block_wf:
  assumes "state_wf s"
  shows "state_wf (absorb_block ref_add s block)"
proof -
  let ?k = "min 15 (length block)"
  have "length (absorb_block ref_add s block) = 24"
    using assms by (simp add: absorb_block_def Let_def state_wf_def)
  moreover have "\<forall>v \<in> set (absorb_block ref_add s block). canonical v"
    using assms by (auto simp: absorb_block_def Let_def state_wf_def dest: in_set_dropD)
  ultimately show ?thesis by (simp add: state_wf_def)
qed

lemma absorb_block_core_eq:
  assumes "state_wf s" "\<forall>v \<in> set block. canonical v"
  shows "absorb_block core_add s block = absorb_block ref_add s block"
proof -
  let ?k = "min 15 (length block)"
  have "core_add a b = ref_add a b" if "(a, b) \<in> set (zip (take ?k s) (take ?k block))" for a b
  proof -
    have "a \<in> set s" "b \<in> set block"
      using that by (auto dest: set_zip_leftD set_zip_rightD in_set_takeD)
    with assms show ?thesis by (simp add: state_wf_def core_add_eq)
  qed
  then have "map2 core_add (take ?k s) (take ?k block) = map2 ref_add (take ?k s) (take ?k block)"
    by auto
  then show ?thesis by (simp add: absorb_block_def Let_def)
qed

lemma sponge_init_wf: "iv_wf iv \<Longrightarrow> state_wf (sponge_init iv)"
  by (auto simp: sponge_init_def state_wf_def iv_wf_def)

lemma absorb_blocks_wf:
  assumes "permutes perm" "state_wf s"
  shows "\<exists>s'. absorb_blocks ref_add perm s input = Inr s' \<and> state_wf s'"
proof -
  have "\<exists>s'. try_fold (\<lambda>s block. perm (absorb_block ref_add s block)) s blocks = Inr s' \<and> state_wf s'"
    for blocks
    using assms(2)
  proof (induction blocks arbitrary: s)
    case (Cons b bs)
    then obtain s' where "perm (absorb_block ref_add s b) = Inr s'" "state_wf s'"
      using assms(1) absorb_block_wf unfolding permutes_def by blast
    with Cons.IH [of s'] show ?case by simp
  qed simp
  then show ?thesis by (simp add: absorb_blocks_def)
qed

lemma absorb_wf:
  assumes "permutes perm" "state_wf s"
  shows "\<exists>s'. absorb ref_add perm s input = Inr s' \<and> state_wf s'"
  using assms absorb_blocks_wf [OF assms] by (auto simp: absorb_def permutes_def)

lemma squeeze_wf:
  assumes "permutes perm" "state_wf s"
  shows "\<exists>d. squeeze perm s = Inr d \<and> digest_wf d"
proof -
  from assms obtain s' where s': "perm s = Inr s'" "state_wf s'" unfolding permutes_def by blast
  then have "canonical (s' ! 0)" by (simp add: state_wf_def)
  with assms(2) s' show ?thesis
    by (auto simp: squeeze_def digest_wf_def state_wf_def dest: in_set_takeD)
qed

lemma in_chunks_canonical:
  assumes "\<forall>v \<in> set input. canonical v" and "0 < n" and "b \<in> set (chunks n input)"
  shows "\<forall>v \<in> set b. canonical v"
proof -
  have "set input = (\<Union>c \<in> set (chunks n input). set c)"
    using arg_cong [OF concat_chunks [OF assms(2), of input], of set] by simp
  with assms show ?thesis by blast
qed

lemma absorb_core_eq:
  assumes eq: "\<And>s. state_wf s \<Longrightarrow> core s = map_err g (ref s)" and perm: "permutes ref"
    and "state_wf s" and "\<forall>v \<in> set input. canonical v"
  shows "absorb core_add core s input = map_err g (absorb ref_add ref s input)"
proof -
  have "try_fold (\<lambda>s block. core (absorb_block core_add s block)) s blocks =
      map_err g (try_fold (\<lambda>s block. ref (absorb_block ref_add s block)) s blocks)"
    if "\<forall>b \<in> set blocks. \<forall>v \<in> set b. canonical v" for blocks
    using that assms(3)
  proof (induction blocks arbitrary: s)
    case (Cons b bs)
    from perm Cons.prems absorb_block_wf obtain s' where s': "ref (absorb_block ref_add s b) = Inr s'" "state_wf s'"
      unfolding permutes_def by blast
    moreover have "core (absorb_block core_add s b) = Inr s'"
      using Cons.prems s' eq [OF absorb_block_wf [OF Cons.prems(2)]] by (simp add: absorb_block_core_eq)
    ultimately show ?case using Cons.IH [of s'] Cons.prems by simp
  qed simp
  then show ?thesis
    using in_chunks_canonical [OF assms(4), of 15] eq [OF assms(3)]
    by (simp add: absorb_def absorb_blocks_def)
qed

subsection \<open>The tree hashes are total on canonical inputs and return canonical digests\<close>

lemma ref_hash16_wf:
  assumes "load_candidate env = Inr R" and "length input = ref_input_elements role"
    and "\<forall>v \<in> set input. canonical v"
  shows "\<exists>d. ref_hash16 env R role input = Inr d \<and> digest_wf d"
proof -
  from assms(1) obtain payload where "p24_parameter_payload env = Inr payload"
    by (rule load_candidate_Inr)
  then have iv: "p24_iv env role = Inr (p24_stored_iv payload role)"
    by (rule p24_parameter_payload_Inr)
  from absorb_wf [OF permutes_ref sponge_init_wf [OF p24_iv_wf [OF iv]], of R input]
  obtain s where "absorb ref_add (ref_permutation R) (sponge_init (p24_stored_iv payload role)) input = Inr s"
    and "state_wf s" by blast
  moreover from squeeze_wf [OF permutes_ref this(2)] obtain d where
    "squeeze (ref_permutation R) s = Inr d" "digest_wf d" by blast
  ultimately show ?thesis using assms(2,3) iv by (simp add: ref_hash16_def)
qed

abbreviation loaded :: "candidate_env \<times> p24_reference \<Rightarrow> bool" where
  "loaded ER \<equiv> load_candidate (fst ER) = Inr (snd ER)"

interpretation note_tree: hash_tree loaded digest_wf ref_node
proof
  fix ER :: "candidate_env \<times> p24_reference" and a b
  assume "loaded ER" "digest_wf a" "digest_wf b"
  then show "\<exists>c. ref_node ER a b = Inr c \<and> digest_wf c"
    using ref_hash16_wf [of "fst ER" "snd ER" "a @ b" TreeNode]
    by (simp add: ref_node_def digest_wf_def split_beta ball_Un)
qed

lemma ref_leaf_wf:
  assumes "load_candidate env = Inr R" "digest_wf d"
  shows "\<exists>l. ref_leaf env R d = Inr l \<and> digest_wf l"
  using ref_hash16_wf [OF assms(1), of d TreeLeaf] assms(2) by (simp add: ref_leaf_def digest_wf_def)

lemma stored_iv_slice:
  assumes "length payload = 7596"
  shows "subslice (decode_le32 payload)
      (core_iv_offset (core_role role))
      (core_iv_offset (core_role role) + 9)
    = p24_stored_iv payload role"
proof -
  have len: "length (decode_le32 payload) = 1899" by (rule length_decode_le32) (simp add: assms)
  have "decode_le32 payload ! j = le32_at payload (j * 4)" if "j < 1899" for j
    using that assms len by (simp add: decode_le32_def le32_at_def chunks_nth)
  then show ?thesis
    by (cases role; intro nth_equalityI) (auto simp: length_slice nth_slice len p24_stored_iv_def core_iv_offset_def)
qed

text \<open>The kernel's hash is the reference's, error for error.\<close>

lemma core_hash16_eq:
  assumes load: "load_candidate env = Inr R" and params: "core_parameters env = Some params"
  shows "core_hash16 params
      (core_role role) input =
    map_err core_error_of (ref_hash16 env R role input)"
proof -
  let ?role = "core_role role"
  from load obtain payload where payload: "p24_parameter_payload env = Inr payload"
    and p: "core_parameters env = Some (decode_le32 payload)"
    and same: "same_parameters (decode_le32 payload) R" by (rule load_candidate_Inr)
  from p params have params: "params = decode_le32 payload" by simp
  note iv = p24_parameter_payload_Inr(3) [OF payload, of role]
  have subslice: "subslice params (core_iv_offset ?role) (core_iv_offset ?role + 9) = p24_stored_iv payload role"
    unfolding params by (rule stored_iv_slice) (rule p24_parameter_payload_Inr(1) [OF payload])
  have arity: "core_input_elements ?role = ref_input_elements role" by (cases role) simp_all
  show ?thesis
  proof (cases "length input = ref_input_elements role \<and> (\<forall>v \<in> set input. canonical v)")
    case False
    then show ?thesis
      by (cases "ref_validate_digest input")
        (auto simp: core_hash16_def ref_hash16_def arity core_error_of_def core_validate_eq(2))
  next
    case True
    have init: "state_wf (sponge_init (p24_stored_iv payload role))"
      by (rule sponge_init_wf [OF p24_iv_wf [OF iv]])
    have eq: "core_permutation params s = map_err core_error_of (ref_permutation R s)" if "state_wf s" for s
      using core_permutation_eq [OF same, of s] that params by (simp add: state_wf_def)
    from absorb_wf [OF permutes_ref init, of R input] obtain s where
      s: "absorb ref_add (ref_permutation R) (sponge_init (p24_stored_iv payload role)) input = Inr s" "state_wf s"
      by blast
    have "absorb core_add (core_permutation params) (sponge_init (p24_stored_iv payload role)) input = Inr s"
      using absorb_core_eq [OF eq permutes_ref init, of input] True s(1) by simp
    moreover have "squeeze (core_permutation params) s = map_err core_error_of (squeeze (ref_permutation R) s)"
      using eq [OF s(2)] ref_permutation_wf [OF s(2), of R] by (auto simp: squeeze_def)
    ultimately show ?thesis
      using True iv s(1) by (simp add: core_hash16_def ref_hash16_def arity subslice core_validate_eq(2))
  qed
qed

subsection \<open>Empty values, paths and small trees\<close>

text \<open>The total node hash of a loaded reference, and the base of its empty values.\<close>

abbreviation node_of :: "candidate_env \<Rightarrow> p24_reference \<Rightarrow> digest \<Rightarrow> digest \<Rightarrow> digest" where
  "node_of env R \<equiv> total_node (ref_node (env, R))"

definition empty_base :: "candidate_env \<Rightarrow> p24_reference \<Rightarrow> digest" where
  "empty_base env R = (case ref_hash16 env R TreeEmptyBase [] of Inr d \<Rightarrow> d | Inl _ \<Rightarrow> [])"

definition leaf_of :: "candidate_env \<Rightarrow> p24_reference \<Rightarrow> digest \<Rightarrow> digest" where
  "leaf_of env R d = (case ref_leaf env R d of Inr l \<Rightarrow> l | Inl _ \<Rightarrow> [])"

lemma empty_base_eq:
  assumes "load_candidate env = Inr R"
  shows "ref_hash16 env R TreeEmptyBase [] = Inr (empty_base env R)" "digest_wf (empty_base env R)"
  using ref_hash16_wf [OF assms, of "[]" TreeEmptyBase] by (auto simp: empty_base_def)

lemma leaf_of_eq:
  assumes "load_candidate env = Inr R" "digest_wf d"
  shows "ref_leaf env R d = Inr (leaf_of env R d)" "digest_wf (leaf_of env R d)"
  using ref_leaf_wf [OF assms] by (auto simp: leaf_of_def)

lemma node_of_wf:
  "load_candidate env = Inr R \<Longrightarrow> digest_wf a \<Longrightarrow> digest_wf b \<Longrightarrow> digest_wf (node_of env R a b)"
  using note_tree.total_wf [of "(env, R)" a b] by simp

lemma node_of_eq:
  "load_candidate env = Inr R \<Longrightarrow> digest_wf a \<Longrightarrow> digest_wf b \<Longrightarrow>
    ref_node (env, R) a b = Inr (node_of env R a b)"
  using note_tree.node_eq [of "(env, R)" a b] by simp

lemma empty_at_wf:
  "load_candidate env = Inr R \<Longrightarrow> digest_wf e \<Longrightarrow> digest_wf (empty_at (node_of env R) e k)"
  by (induction k) (auto simp: node_of_wf)

lemma ref_empty_from_eq:
  assumes "load_candidate env = Inr R" "digest_wf e"
  shows "ref_empty_from (env, R) (empty_at (node_of env R) e k) n =
    Inr (map (empty_at (node_of env R) e) [Suc k..<Suc k + n])"
proof (induction n arbitrary: k)
  case (Suc n)
  have "ref_node (env, R) (empty_at (node_of env R) e k) (empty_at (node_of env R) e k) =
      Inr (empty_at (node_of env R) e (Suc k))"
    using assms by (simp add: node_of_eq empty_at_wf)
  moreover have "[Suc k..<Suc k + Suc n] = Suc k # [Suc (Suc k)..<Suc (Suc k) + n]"
    by (simp add: upt_conv_Cons del: upt_Suc)
  ultimately show ?case using Suc [of "Suc k"] by (simp del: empty_at.simps upt_Suc)
qed simp

lemma ref_empty_values_eq:
  assumes "load_candidate env = Inr R"
  shows "ref_empty_values env R = Inr (map (empty_at (node_of env R) (empty_base env R)) [0..<33])"
proof -
  have "ref_empty_from (env, R) (empty_base env R) 32 =
      Inr (map (empty_at (node_of env R) (empty_base env R)) [1..<33])"
    using ref_empty_from_eq [OF assms empty_base_eq(2) [OF assms], of 0 32] by simp
  moreover have "[0..<33 :: nat] = 0 # [1..<33]" by (simp add: upt_conv_Cons)
  ultimately show ?thesis using empty_base_eq(1) [OF assms] by (simp add: ref_empty_values_def)
qed

lemma and_one_eq_zero: "drop_bit level (w :: u32) AND 1 = 0 \<longleftrightarrow> even (unat w div 2 ^ level)"
proof -
  have "drop_bit level w AND 1 = 0 \<longleftrightarrow> \<not> bit w level"
    by (simp add: and_one_eq mod_2_eq_odd bit_iff_odd_drop_bit)
  moreover have "bit w level \<longleftrightarrow> bit (unat w) level" by (simp add: bit_unsigned_iff)
  ultimately show ?thesis by (simp add: bit_iff_odd [of "unat w"])
qed

text \<open>The reference's path loop is the climb of the total node hash.\<close>

lemma ref_root_from_path_eq:
  assumes "load_candidate env = Inr R" "digest_wf leaf" "\<forall>s \<in> set siblings. digest_wf s"
  shows "ref_root_from_path env R leaf i siblings = Inr (climb (node_of env R) (unat i) leaf siblings)"
proof -
  have "try_fold (\<lambda>x (k, s). and_then (ref_validate_digest s) (\<lambda>_.
        if drop_bit k i AND 1 = 0 then ref_node (env, R) x s else ref_node (env, R) s x)) leaf
      (enumerate 0 siblings) = Inr (climb (node_of env R) (unat i) leaf siblings)"
    using assms by (intro note_tree.climb_loop) (auto simp: and_one_eq_zero digest_wf_def)
  with assms(2) show ?thesis by (simp add: ref_root_from_path_def digest_wf_def)
qed

lemma ref_root_from_path_Inr:
  assumes "load_candidate env = Inr R" and "ref_root_from_path env R leaf i siblings = Inr root"
    and "length leaf = 16" "\<forall>s \<in> set siblings. length s = 16"
  shows "digest_wf leaf \<and> (\<forall>s \<in> set siblings. digest_wf s)"
proof -
  have "\<forall>s \<in> set siblings. \<forall>v \<in> set s. canonical v"
    if "try_fold (\<lambda>x (k, s). and_then (ref_validate_digest s) (\<lambda>_. g x k s)) x (enumerate m siblings) = Inr r"
    for g :: "digest \<Rightarrow> nat \<Rightarrow> digest \<Rightarrow> p24_reference_error + digest" and x m r
    using that by (induction siblings arbitrary: x m) (auto simp: and_then_eq_Inr)
  with assms show ?thesis
    by (auto simp: ref_root_from_path_def digest_wf_def and_then_eq_Inr)
qed

lemma chunks_pairs:
  assumes "length xs = 2 * m"
  shows "chunks 2 xs = map (\<lambda>j. [xs ! (2 * j), xs ! (2 * j + 1)]) [0..<m]"
proof (rule nth_equalityI)
  show len: "length (chunks 2 xs) = length (map (\<lambda>j. [xs ! (2 * j), xs ! (2 * j + 1)]) [0..<m])"
    using chunks_length(1) [of xs m 2] assms by (simp add: mult.commute)
  fix j assume "j < length (chunks 2 xs)"
  then have j: "j < m" using len by simp
  then have "chunks 2 xs ! j = take 2 (drop (j * 2) xs)" using assms by (intro chunks_nth) auto
  also have "\<dots> = [xs ! (2 * j), xs ! (2 * j + 1)]"
    using j assms by (simp add: numeral_2_eq_2 take_Suc_conv_app_nth mult.commute)
  finally show "chunks 2 xs ! j = map (\<lambda>j. [xs ! (2 * j), xs ! (2 * j + 1)]) [0..<m] ! j"
    using j by simp
qed

lemma collect_results_map:
  "\<forall>x \<in> set xs. f (g x) = Inr (h x) \<Longrightarrow> collect_results f (map g xs) = Inr (map h xs)"
  by (induction xs) auto

text \<open>One level of a small tree.\<close>

lemma small_parents_level:
  assumes load: "load_candidate env = Inr R" and xs: "\<forall>x \<in> set xs. digest_wf x"
  shows "small_parents env R (empty_at (node_of env R) (empty_base env R) k)
      (tree_level (node_of env R) xs (empty_base env R) k) =
    Inr (tree_level (node_of env R) xs (empty_base env R) (Suc k))"
proof -
  let ?f = "node_of env R" and ?e = "empty_base env R"
  let ?S = "subtree ?f (padded xs ?e) k"
  let ?n = "level_width k (length xs)"
  have leaf: "digest_wf (padded xs ?e j)" for j
    using xs empty_base_eq(2) [OF load] by (auto simp: padded_def)
  then have S: "digest_wf (?S j)" for j
    using note_tree.subtree_total_wf [of "(env, R)"] load by simp
  have "(if ?n mod 2 = 1 then tree_level ?f xs ?e k @ [empty_at ?f ?e k] else tree_level ?f xs ?e k)
      = map ?S [0..<2 * ((?n + 1) div 2)]"
  proof (cases "?n mod 2 = 1")
    case True
    then have "2 * ((?n + 1) div 2) = Suc ?n" by presburger
    with True show ?thesis by (simp add: tree_level_def subtree_empty)
  next
    case False
    then have "2 * ((?n + 1) div 2) = ?n" by presburger
    with False show ?thesis by (simp add: tree_level_def)
  qed
  moreover have "chunks 2 (map ?S [0..<2 * ((?n + 1) div 2)]) =
      map (\<lambda>j. [?S (2 * j), ?S (2 * j + 1)]) [0..<(?n + 1) div 2]"
    by (subst chunks_pairs) (auto simp del: upt_Suc)
  moreover have "collect_results (\<lambda>pair. ref_node (env, R) (pair ! 0) (pair ! 1))
      (map (\<lambda>j. [?S (2 * j), ?S (2 * j + 1)]) [0..<(?n + 1) div 2]) =
      Inr (map (\<lambda>j. ?f (?S (2 * j)) (?S (2 * j + 1))) [0..<(?n + 1) div 2])"
    by (rule collect_results_map) (use load S in \<open>simp add: node_of_eq\<close>)
  ultimately show ?thesis by (simp add: small_parents_def Let_def) (simp add: tree_level_def)
qed

lemma empty_upt: "take 32 (map g [0..<33]) = map g [0..<32]"
  by (simp add: take_map)

text \<open>The leaves of the note tree of a list of commitments: hashed notes, then empty leaves.\<close>

definition note_leaves :: "candidate_env \<Rightarrow> p24_reference \<Rightarrow> digest list \<Rightarrow> nat \<Rightarrow> digest" where
  "note_leaves env R cs = padded (map (leaf_of env R) cs) (empty_base env R)"

definition note_root :: "candidate_env \<Rightarrow> p24_reference \<Rightarrow> digest list \<Rightarrow> digest" where
  "note_root env R cs = subtree (node_of env R) (note_leaves env R cs) 32 0"

lemma note_leaves_wf:
  assumes "load_candidate env = Inr R" "\<forall>c \<in> set cs. digest_wf c"
  shows "digest_wf (note_leaves env R cs j)"
  using assms empty_base_eq(2) [OF assms(1)] leaf_of_eq(2) [OF assms(1)]
  by (auto simp: note_leaves_def padded_def)

lemma note_subtree_wf:
  assumes "load_candidate env = Inr R" "\<forall>c \<in> set cs. digest_wf c"
  shows "digest_wf (subtree (node_of env R) (note_leaves env R cs) h i)"
  using note_tree.subtree_total_wf [of "(env, R)"] note_leaves_wf [OF assms] assms(1) by simp

lemma small_levels:
  assumes load: "load_candidate env = Inr R" and xs: "\<forall>x \<in> set xs. digest_wf x"
  shows "try_fold (\<lambda>nodes e. small_parents env R e nodes)
      (tree_level (node_of env R) xs (empty_base env R) k)
      (map (empty_at (node_of env R) (empty_base env R)) [k..<k + m]) =
    Inr (tree_level (node_of env R) xs (empty_base env R) (k + m))"
proof (induction m arbitrary: k)
  case (Suc m)
  have "[k..<k + Suc m] = k # [Suc k..<Suc k + m]" by (simp add: upt_conv_Cons del: upt_Suc)
  then show ?case using Suc [of "Suc k"] small_parents_level [OF assms, of k] by (simp del: upt_Suc)
qed simp

lemma collect_leaves:
  assumes "load_candidate env = Inr R" "\<forall>c \<in> set cs. digest_wf c"
  shows "collect_results (ref_leaf env R) cs = Inr (map (leaf_of env R) cs)"
  using collect_results_map [of cs "ref_leaf env R" "\<lambda>c. c" "leaf_of env R"] leaf_of_eq(1) [OF assms(1)] assms(2)
  by simp

lemma small_tree_root_eq:
  assumes load: "load_candidate env = Inr R" and cs: "\<forall>c \<in> set cs. digest_wf c" and "length cs \<le> 4"
  shows "small_tree_root env R cs = Inr (note_root env R cs)"
proof -
  let ?xs = "map (leaf_of env R) cs" and ?f = "node_of env R" and ?e = "empty_base env R"
  have xs: "\<forall>x \<in> set ?xs. digest_wf x" using leaf_of_eq(2) [OF load] cs by auto
  have levels: "try_fold (\<lambda>nodes e. small_parents env R e nodes) ?xs (map (empty_at ?f ?e) [0..<32]) =
      Inr (tree_level ?f ?xs ?e 32)"
    using small_levels [OF load xs, of 0 32] by (simp add: tree_level_0)
  show ?thesis
  proof (cases "cs = []")
    case True
    have "level_width 32 0 = 0"
    proof -
      have "level_width k 0 = 0" for k by (induction k) auto
      then show ?thesis .
    qed
    then have "note_root env R cs = empty_at ?f ?e 32"
      using True subtree_empty [of 32 "[]" 0 ?f ?e] by (simp add: note_root_def note_leaves_def)
    with True show ?thesis
      using ref_empty_values_eq [OF load] by (simp add: small_tree_root_def)
  next
    case False
    have "length ?xs \<le> 2 ^ 32"
    proof -
      have "(4 :: nat) \<le> 2 ^ 32" by simp
      with assms(3) show ?thesis by (simp del: power_numeral)
    qed
    with False have "tree_level ?f ?xs ?e 32 ! 0 = note_root env R cs"
      unfolding note_root_def note_leaves_def by (intro subtree_root_nth) auto
    with False levels show ?thesis
      using ref_empty_values_eq [OF load] collect_leaves [OF load cs] assms(3)
      by (simp add: small_tree_root_def empty_upt)
  qed
qed

lemma sibling_xor: "(i :: nat) XOR Suc 0 = sibling_index i"
  using xor_one_eq [of i] by (simp add: sibling_index_def)

lemma small_path_levels:
  assumes load: "load_candidate env = Inr R" and xs: "\<forall>x \<in> set xs. digest_wf x"
  shows "try_fold (small_path_step env R)
      (tree_level (node_of env R) xs (empty_base env R) k, i, path)
      (map (empty_at (node_of env R) (empty_base env R)) [k..<k + m]) =
    Inr (tree_level (node_of env R) xs (empty_base env R) (k + m), i div 2 ^ m,
         path @ tree_path (node_of env R) (padded xs (empty_base env R)) k m i)"
proof (induction m arbitrary: k i path)
  case 0
  then show ?case by (simp add: tree_path_def)
next
  case (Suc m)
  let ?f = "node_of env R" and ?e = "empty_base env R"
  let ?S = "subtree ?f (padded xs ?e) k"
  have upt: "[k..<k + Suc m] = k # [Suc k..<Suc k + m]" by (simp add: upt_conv_Cons del: upt_Suc)
  have sib: "(if sibling_index i < level_width k (length xs) then tree_level ?f xs ?e k ! sibling_index i
      else empty_at ?f ?e k) = ?S (sibling_index i)"
    by (simp add: tree_level_def subtree_empty)
  have step: "small_path_step env R (tree_level ?f xs ?e k, i, path) (empty_at ?f ?e k) =
      Inr (tree_level ?f xs ?e (Suc k), i div 2, path @ [?S (sibling_index i)])"
    using sib by (auto simp: small_path_step_def Let_def sibling_xor small_parents_level [OF assms]
        drop_bit_eq_div split: if_splits)
  show ?case
    using Suc [of "Suc k" "i div 2" "path @ [?S (sibling_index i)]"] step upt
    by (simp add: tree_path_Suc div_mult2_eq del: upt_Suc)
qed

lemma small_tree_path_eq:
  assumes load: "load_candidate env = Inr R" and cs: "\<forall>c \<in> set cs. digest_wf c"
    and "length cs \<le> 4" "i < length cs"
  shows "small_tree_path env R cs i =
    Inr (leaf_of env R (cs ! i), tree_path (node_of env R) (note_leaves env R cs) 0 32 i,
         note_root env R cs)"
proof -
  let ?xs = "map (leaf_of env R) cs" and ?f = "node_of env R" and ?e = "empty_base env R"
  have xs: "\<forall>x \<in> set ?xs. digest_wf x" using leaf_of_eq(2) [OF load] cs by auto
  have "try_fold (small_path_step env R) (?xs, i, []) (map (empty_at ?f ?e) [0..<32]) =
      Inr (tree_level ?f ?xs ?e 32, i div 2 ^ 32, tree_path ?f (padded ?xs ?e) 0 32 i)"
    using small_path_levels [OF load xs, of 0 i "[]" 32] by (simp add: tree_level_0)
  moreover have "tree_level ?f ?xs ?e 32 ! 0 = note_root env R cs"
  proof -
    have "(4 :: nat) \<le> 2 ^ 32" by simp
    then have "length ?xs \<le> 2 ^ 32" using assms(3) by (simp del: power_numeral)
    with assms(4) show ?thesis
      unfolding note_root_def note_leaves_def by (intro subtree_root_nth) auto
  qed
  moreover have "ref_leaf env R (cs ! i) = Inr (leaf_of env R (cs ! i))"
    using leaf_of_eq(1) [OF load] cs assms(4) by simp
  ultimately show ?thesis
    using ref_empty_values_eq [OF load] collect_leaves [OF load cs] assms(3,4)
    by (simp add: small_tree_path_def empty_upt note_leaves_def)
qed

lemma note_path_wf:
  assumes "load_candidate env = Inr R" "\<forall>c \<in> set cs. digest_wf c"
  shows "\<forall>s \<in> set (tree_path (node_of env R) (note_leaves env R cs) h n i). digest_wf s"
  using note_subtree_wf [OF assms] by (auto simp: tree_path_def)

text \<open>A path of the tree over some commitments leads to its root.\<close>

lemma note_path_verifies:
  assumes load: "load_candidate env = Inr R" and cs: "\<forall>c \<in> set cs. digest_wf c"
    and i: "unat i < length cs"
  shows "ref_root_from_path env R (leaf_of env R (cs ! unat i)) i
      (tree_path (node_of env R) (note_leaves env R cs) 0 32 (unat i)) = Inr (note_root env R cs)"
proof -
  let ?f = "node_of env R" and ?l = "note_leaves env R cs"
  have leaf: "leaf_of env R (cs ! unat i) = subtree ?f ?l 0 (unat i)"
    using i by (simp add: note_leaves_def padded_def)
  have "unat i div 2 ^ 32 = 0" using unat_u32_less [of i] by simp
  then have "climb ?f (unat i) (leaf_of env R (cs ! unat i)) (tree_path ?f ?l 0 32 (unat i)) = note_root env R cs"
    unfolding leaf note_root_def by (subst climb_tree_path) simp
  moreover have "digest_wf (leaf_of env R (cs ! unat i))" using leaf_of_eq(2) [OF load] cs i by simp
  ultimately show ?thesis
    using ref_root_from_path_eq [OF load _ note_path_wf [OF load cs]] by simp
qed

lemma core_node_eq:
  assumes "load_candidate env = Inr R" "core_parameters env = Some params"
  shows "core_node params a b = map_err core_error_of (ref_node (env, R) a b)"
    and "core_leaf params a = map_err core_error_of (ref_leaf env R a)"
  using core_hash16_eq [OF assms, of TreeNode "a @ b"] core_hash16_eq [OF assms, of TreeLeaf a]
  by (simp_all add: core_node_def ref_node_def core_leaf_def ref_leaf_def)

lemma ref_hash16_Inr:
  "ref_hash16 env R role input = Inr d \<Longrightarrow> \<forall>v \<in> set input. canonical v"
  by (auto simp: ref_hash16_def and_then_eq_Inr split: if_splits)

lemma try_fold_map_err:
  "try_fold (\<lambda>a x. map_err g (f a x)) a xs = map_err g (try_fold f a xs)"
proof (induction xs arbitrary: a)
  case (Cons x xs)
  then show ?case by (cases "f a x") simp_all
qed simp

lemma try_fold_Inr_cong:
  assumes "\<And>a x b. x \<in> set xs \<Longrightarrow> f a x = Inr b \<longleftrightarrow> g a x = Inr b"
  shows "try_fold f a xs = Inr r \<longleftrightarrow> try_fold g a xs = Inr r"
  using assms by (induction xs arbitrary: a) (auto simp: and_then_eq_Inr)

lemma core_path_iff:
  assumes load: "load_candidate env = Inr R" and params: "core_parameters env = Some params"
  shows "core_root_from_note_path params note i siblings = Inr root \<longleftrightarrow>
    and_then (ref_leaf env R note) (\<lambda>leaf. ref_root_from_path env R leaf i siblings) = Inr root"
proof -
  let ?go = "\<lambda>current (level, sibling). if drop_bit level i AND 1 = 0
      then ref_node (env, R) current sibling else ref_node (env, R) sibling current"
  let ?checked = "\<lambda>current (level, sibling). and_then (ref_validate_digest sibling) (\<lambda>_.
      if drop_bit level i AND 1 = 0 then ref_node (env, R) current sibling
      else ref_node (env, R) sibling current)"
  have same: "?go a x = Inr b \<longleftrightarrow> ?checked a x = Inr b" for a x b
    by (auto simp: ref_node_def and_then_eq_Inr split: prod.splits dest: ref_hash16_Inr)
  have "(\<lambda>current (level, sibling). if drop_bit level i AND 1 = 0 then core_node params current sibling
      else core_node params sibling current) = (\<lambda>a x. map_err core_error_of (?go a x))"
    using core_node_eq [OF assms] by (auto simp: fun_eq_iff)
  then have core: "core_root_from_note_path params note i siblings =
      map_err core_error_of (and_then (ref_leaf env R note) (\<lambda>leaf. try_fold ?go leaf (enumerate 0 siblings)))"
    using core_node_eq(2) [OF assms, of "note"]
    by (cases "ref_leaf env R note") (simp_all add: core_root_from_note_path_def try_fold_map_err)
  show ?thesis
  proof (cases "ref_leaf env R note")
    case (Inl e)
    then show ?thesis by (simp add: core)
  next
    case (Inr leaf)
    have "\<forall>v \<in> set leaf. canonical v"
    proof -
      from Inr have "\<forall>v \<in> set note. canonical v" "length note = 16"
        by (auto simp: ref_leaf_def dest: ref_hash16_Inr) (auto simp: ref_hash16_def split: if_splits)
      then have "digest_wf leaf" using ref_leaf_wf [OF load, of "note"] Inr by (simp add: digest_wf_def)
      then show ?thesis by (simp add: digest_wf_def)
    qed
    with Inr show ?thesis
      using try_fold_Inr_cong [of "enumerate 0 siblings" ?go ?checked leaf root] same
      by (simp add: core ref_root_from_path_def)
  qed
qed

subsection \<open>Properties\<close>

text \<open>C37: The optimised kernel computes the function of the audited reference. With the build-time
  parameters of the same validated artifact, the permutation (conditional subtraction and a
  \<open>J + diagonal\<close> internal layer against 64-bit remainders and dense matrices) and every
  fixed-arity hash give equal results, errors included, and a depth-32 path reconstruction
  succeeds in one exactly when it does in the other, with the same root.\<close>

theorem kernel_agrees_with_reference:
  assumes "load_candidate env = Inr R"
  shows "\<exists>params. core_parameters env = Some params
    \<and> (\<forall>s. length s = 24 \<longrightarrow>
          core_permutation params s = map_err core_error_of (ref_permutation R s))
    \<and> (\<forall>role input. core_hash16 params (core_role role) input =
          map_err core_error_of (ref_hash16 env R role input))
    \<and> (\<forall>note i siblings root. core_root_from_note_path params note i siblings = Inr root \<longleftrightarrow>
          and_then (ref_leaf env R note) (\<lambda>leaf. ref_root_from_path env R leaf i siblings) = Inr root)"
proof -
  from assms obtain payload where p: "core_parameters env = Some (decode_le32 payload)"
    and same: "same_parameters (decode_le32 payload) R" by (rule load_candidate_Inr)
  show ?thesis
    using p core_permutation_eq [OF same] core_hash16_eq [OF assms p] core_path_iff [OF assms p]
    by blast
qed

text \<open>C38: The hashes of the private domain are total on their types. On canonical inputs the
  permutation returns a canonical state and every fixed-arity hash a canonical 16-element digest,
  so hashing never fails after the length and range checks, at any level of a tree.\<close>

theorem digests_stay_canonical:
  assumes "load_candidate env = Inr R"
  shows "(\<forall>s. state_wf s \<longrightarrow> (\<exists>s'. ref_permutation R s = Inr s' \<and> state_wf s'))
    \<and> (\<forall>role input. length input = ref_input_elements role \<and> (\<forall>v \<in> set input. canonical v) \<longrightarrow>
          (\<exists>d. ref_hash16 env R role input = Inr d \<and> digest_wf d))
    \<and> (\<forall>a b. digest_wf a \<and> digest_wf b \<longrightarrow> (\<exists>c. ref_node (env, R) a b = Inr c \<and> digest_wf c))
    \<and> (\<exists>empties. ref_empty_values env R = Inr empties \<and> length empties = 33
          \<and> (\<forall>d \<in> set empties. digest_wf d))"
proof (intro conjI allI impI)
  show "\<exists>empties. ref_empty_values env R = Inr empties \<and> length empties = 33 \<and> (\<forall>d \<in> set empties. digest_wf d)"
    using ref_empty_values_eq [OF assms] empty_at_wf [OF assms empty_base_eq(2) [OF assms]] by auto
qed (use ref_permutation_wf ref_hash16_wf [OF assms] note_tree.node_total [of "(env, R)"] assms in auto)

text \<open>For up to four canonical commitments the small tree gives, for every position, a leaf,
  thirty-two siblings and the root that the tree function computes, and reconstructing the root
  from that leaf, position and path gives this root again.\<close>

lemma small_tree_path_roundtrip:
  assumes load: "load_candidate env = Inr R" and cs: "\<forall>c \<in> set cs. digest_wf c"
    and "length cs \<le> 4" "unat i < length cs"
  shows "\<exists>leaf siblings root. small_tree_path env R cs (unat i) = Inr (leaf, siblings, root)
    \<and> length siblings = 32 \<and> ref_leaf env R (cs ! unat i) = Inr leaf
    \<and> small_tree_root env R cs = Inr root
    \<and> ref_root_from_path env R leaf i siblings = Inr root"
proof -
  have "ref_leaf env R (cs ! unat i) = Inr (leaf_of env R (cs ! unat i))"
    using leaf_of_eq(1) [OF load] cs assms(4) by simp
  then show ?thesis
    using small_tree_path_eq [OF assms] small_tree_root_eq [OF assms(1-3)]
      note_path_verifies [OF load cs assms(4)] by auto
qed

subsection \<open>Witnesses\<close>

definition sample_reference :: p24_reference where
  "sample_reference = \<lparr>external_matrix = replicate 24 (replicate 24 0),
     internal_matrix = replicate 24 (replicate 24 1), round_constants = replicate 29 (replicate 24 0)\<rparr>"

lemma matrix_from_replicate:
  assumes "rows * 24 \<le> n"
  shows "matrix_from rows (replicate n w) = replicate rows (replicate 24 w)"
proof (rule nth_equalityI)
  fix r assume "r < length (matrix_from rows (replicate n w))"
  then have r: "r < rows" by (simp add: matrix_from_def)
  then have "(r + 1) * 24 \<le> rows * 24" by (intro mult_right_mono) auto
  then have "24 \<le> n - r * 24" using assms by simp
  then show "matrix_from rows (replicate n w) ! r = replicate rows (replicate 24 w) ! r"
    using r by (simp add: matrix_from_def subslice_def min_def)
qed (simp add: matrix_from_def)

lemma load_sample: "load_candidate sample_env = Inr sample_reference"
proof -
  have parts: "subslice sample_p24_elements 0 24 = replicate 24 0"
    "subslice sample_p24_elements 24 600 = replicate 576 0"
    "subslice sample_p24_elements 600 1176 = replicate 576 1"
    "subslice sample_p24_elements 1176 1872 = replicate 696 0"
    by (simp_all add: subslice_def sample_p24_elements_def)
  have "decode_elements (encode_le32 sample_p24_elements) = Inr sample_p24_elements"
    using sample_p24_elements_canonical
    by (simp add: decode_elements_def first_noncanonical_None_iff [symmetric, of _ 0])
  moreover have "validate_internal_matrix (replicate 24 0) (replicate 24 (replicate 24 1)) = Inr ()"
  proof -
    have "find (\<lambda>(row, column). replicate 24 (replicate 24 (1 :: u32)) ! row ! column \<noteq>
        (if row = column then ref_add (replicate 24 0 ! row) 1 else 1)) (List.product [0..<24] [0..<24]) = None"
      by (auto simp: find_None_iff)
    then show ?thesis by (simp add: validate_internal_matrix_def)
  qed
  ultimately show ?thesis
    by (simp add: load_candidate_def sample_p24_payload parts matrix_from_replicate sample_reference_def)
qed

lemma zero_digest_wf: "digest_wf (replicate 16 0)"
  by (simp add: digest_wf_def)

theorem kernel_agrees_with_reference_witness:
  "\<exists>params. core_parameters sample_env = Some params
    \<and> (\<forall>s. length s = 24 \<longrightarrow>
          core_permutation params s = map_err core_error_of (ref_permutation sample_reference s))
    \<and> (\<forall>role input. core_hash16 params (core_role role) input =
          map_err core_error_of (ref_hash16 sample_env sample_reference role input))
    \<and> (\<forall>note i siblings root. core_root_from_note_path params note i siblings = Inr root \<longleftrightarrow>
          and_then (ref_leaf sample_env sample_reference note)
            (\<lambda>leaf. ref_root_from_path sample_env sample_reference leaf i siblings) = Inr root)"
  by (rule kernel_agrees_with_reference [OF load_sample])

theorem digests_stay_canonical_witness:
  "\<exists>c. ref_node (sample_env, sample_reference) (replicate 16 0) (replicate 16 0) = Inr c \<and> digest_wf c"
  using digests_stay_canonical [OF load_sample] zero_digest_wf by blast

end
