(* ===== verification/Privacy_Types.thy ===== *)
theory Privacy_Types
  imports Babybear Noxis_Types "HOL-Library.List_Lexorder"
begin

text \<open>
  The public values of the private-transfer protocol in \<^verbatim>\<open>crates/noxis-privacy-types\<close>: 64-byte vectors
  of sixteen canonical BabyBear elements (commitments, nullifiers, roots and digests share one
  macro) and the 640-byte canonical transfer intent with its structural checks. A
  \<^verbatim>\<open>[u8; 64]\<close> is the list of its bytes, compared lexicographically as the derived order of the
  array does; a two-element array is a pair.
\<close>

type_synonym vector = bytes

datatype privacy_types_error =
  InvalidIntentLength nat nat
| DuplicateInputNullifier
| NonCanonicalInputNullifierOrder
| DuplicateOutputCommitment
| NonCanonicalOutputCommitmentOrder
| NonCanonicalBabyBearElement nat u32

subsection \<open>Field vectors\<close>

definition vector_new :: "bytes \<Rightarrow> privacy_types_error + vector" where
  "vector_new bs =
     (case first_noncanonical 0 (decode_le32 bs) of
        Some (i, v) \<Rightarrow> Inl (NonCanonicalBabyBearElement i v)
      | None \<Rightarrow> Inr bs)"

definition vector_from_elements :: "u32 list \<Rightarrow> privacy_types_error + vector" where
  "vector_from_elements es =
     (case first_noncanonical 0 es of
        Some (i, v) \<Rightarrow> Inl (NonCanonicalBabyBearElement i v)
      | None \<Rightarrow> Inr (encode_le32 es))"

definition vector_elements :: "vector \<Rightarrow> u32 list" where
  "vector_elements v = decode_le32 v"

definition vector_wf :: "vector \<Rightarrow> bool" where
  "vector_wf v \<longleftrightarrow> length v = 64 \<and> (\<forall>e \<in> set (decode_le32 v). canonical e)"

lemma vector_new_Inr_iff:
  "vector_new bs = Inr v \<longleftrightarrow> v = bs \<and> (\<forall>e \<in> set (decode_le32 bs). canonical e)"
  by (auto simp: vector_new_def first_noncanonical_None_iff [symmetric, of _ 0] split: option.splits)

lemma vector_new_wf: "vector_wf v \<Longrightarrow> vector_new v = Inr v"
  by (simp add: vector_new_Inr_iff vector_wf_def)

lemma vector_from_elements_Inr_iff:
  "vector_from_elements es = Inr v \<longleftrightarrow> v = encode_le32 es \<and> (\<forall>e \<in> set es. canonical e)"
  by (auto simp: vector_from_elements_def first_noncanonical_None_iff [symmetric, of _ 0] split: option.splits)

lemma vector_from_elements_wf:
  "length es = 16 \<Longrightarrow> \<forall>e \<in> set es. canonical e \<Longrightarrow>
    vector_from_elements es = Inr (encode_le32 es) \<and> vector_wf (encode_le32 es)"
  by (simp add: vector_from_elements_Inr_iff vector_wf_def)

lemma vector_elements_encode [simp]: "vector_elements (encode_le32 es) = es"
  by (simp add: vector_elements_def)

lemma vector_elements_wf: "vector_wf v \<Longrightarrow> length (vector_elements v) = 16"
  using length_decode_le32 [of v 16] by (simp add: vector_wf_def vector_elements_def)

lemma vector_elements_inject:
  "vector_wf v \<Longrightarrow> vector_wf w \<Longrightarrow> vector_elements v = vector_elements w \<longleftrightarrow> v = w"
  by (simp add: vector_wf_def vector_elements_def decode_le32_inject)

lemma encode_vector_elements: "vector_wf v \<Longrightarrow> encode_le32 (vector_elements v) = v"
  by (simp add: vector_wf_def vector_elements_def encode_decode_le32)

subsection \<open>Transfer intents\<close>

record private_output =
  po_commitment :: vector
  po_ciphertext_digest :: vector

record private_intent =
  pi_circuit_id :: id32
  pi_genesis_id :: genesis_id
  pi_validation_context_id :: validation_context_id
  pi_pre_state_id :: state_id
  pi_tree_parameters :: id32
  pi_pre_state_root :: vector
  pi_asset_id :: asset_id
  pi_nullifiers :: "vector \<times> vector"
  pi_outputs :: "private_output \<times> private_output"

definition INTENT_LENGTH :: nat where
  "INTENT_LENGTH = 640"

definition output_commitments :: "private_intent \<Rightarrow> vector \<times> vector" where
  "output_commitments t = (po_commitment (fst (pi_outputs t)), po_commitment (snd (pi_outputs t)))"

definition private_intent_new ::
  "id32 \<Rightarrow> genesis_id \<Rightarrow> validation_context_id \<Rightarrow> state_id \<Rightarrow> id32 \<Rightarrow> vector \<Rightarrow> asset_id
    \<Rightarrow> vector \<times> vector \<Rightarrow> private_output \<times> private_output \<Rightarrow> privacy_types_error + private_intent" where
  "private_intent_new circuit genesis context pre_state tree root asset nullifiers outputs =
     (if fst nullifiers = snd nullifiers then Inl DuplicateInputNullifier
      else if snd nullifiers < fst nullifiers then Inl NonCanonicalInputNullifierOrder
      else if po_commitment (fst outputs) = po_commitment (snd outputs) then Inl DuplicateOutputCommitment
      else if po_commitment (snd outputs) < po_commitment (fst outputs)
        then Inl NonCanonicalOutputCommitmentOrder
      else Inr \<lparr>pi_circuit_id = circuit, pi_genesis_id = genesis, pi_validation_context_id = context,
        pi_pre_state_id = pre_state, pi_tree_parameters = tree, pi_pre_state_root = root,
        pi_asset_id = asset, pi_nullifiers = nullifiers, pi_outputs = outputs\<rparr>)"

definition private_intent_encode :: "private_intent \<Rightarrow> bytes" where
  "private_intent_encode t =
     to_be_bytes (pi_circuit_id t) @ to_be_bytes (pi_genesis_id t)
     @ to_be_bytes (pi_validation_context_id t) @ to_be_bytes (pi_pre_state_id t)
     @ to_be_bytes (pi_tree_parameters t) @ pi_pre_state_root t @ to_be_bytes (pi_asset_id t)
     @ fst (pi_nullifiers t) @ snd (pi_nullifiers t)
     @ fst (output_commitments t) @ snd (output_commitments t)
     @ po_ciphertext_digest (fst (pi_outputs t)) @ po_ciphertext_digest (snd (pi_outputs t))"

text \<open>\<^verbatim>\<open>read\<close>: the \<open>n\<close> bytes at the offset.\<close>

definition field_at :: "bytes \<Rightarrow> nat \<Rightarrow> nat \<Rightarrow> bytes" where
  "field_at bs offset n = take n (drop offset bs)"

definition private_intent_decode :: "bytes \<Rightarrow> privacy_types_error + private_intent" where
  "private_intent_decode bs =
     (if length bs \<noteq> INTENT_LENGTH then Inl (InvalidIntentLength (length bs) INTENT_LENGTH)
      else
        and_then (vector_new (field_at bs 160 64)) (\<lambda>root.
        and_then (vector_new (field_at bs 256 64)) (\<lambda>nullifier0.
        and_then (vector_new (field_at bs 320 64)) (\<lambda>nullifier1.
        and_then (vector_new (field_at bs 384 64)) (\<lambda>commitment0.
        and_then (vector_new (field_at bs 448 64)) (\<lambda>commitment1.
        and_then (vector_new (field_at bs 512 64)) (\<lambda>digest0.
        and_then (vector_new (field_at bs 576 64)) (\<lambda>digest1.
          private_intent_new (from_be_bytes (field_at bs 0 32)) (from_be_bytes (field_at bs 32 32))
            (from_be_bytes (field_at bs 64 32)) (from_be_bytes (field_at bs 96 32))
            (from_be_bytes (field_at bs 128 32)) root (from_be_bytes (field_at bs 224 32))
            (nullifier0, nullifier1)
            (\<lparr>po_commitment = commitment0, po_ciphertext_digest = digest0\<rparr>,
             \<lparr>po_commitment = commitment1, po_ciphertext_digest = digest1\<rparr>)))))))))"

subsection \<open>The intent codec\<close>

text \<open>What every constructed intent satisfies.\<close>

definition intent_wf :: "private_intent \<Rightarrow> bool" where
  "intent_wf t \<longleftrightarrow>
     vector_wf (pi_pre_state_root t)
     \<and> vector_wf (fst (pi_nullifiers t)) \<and> vector_wf (snd (pi_nullifiers t))
     \<and> fst (pi_nullifiers t) < snd (pi_nullifiers t)
     \<and> vector_wf (fst (output_commitments t)) \<and> vector_wf (snd (output_commitments t))
     \<and> fst (output_commitments t) < snd (output_commitments t)
     \<and> vector_wf (po_ciphertext_digest (fst (pi_outputs t)))
     \<and> vector_wf (po_ciphertext_digest (snd (pi_outputs t)))"

lemma private_intent_new_Inr:
  "private_intent_new circuit genesis context pre_state tree root asset ns os = Inr t \<longleftrightarrow>
     fst ns < snd ns \<and> po_commitment (fst os) < po_commitment (snd os)
     \<and> t = \<lparr>pi_circuit_id = circuit, pi_genesis_id = genesis, pi_validation_context_id = context,
        pi_pre_state_id = pre_state, pi_tree_parameters = tree, pi_pre_state_root = root,
        pi_asset_id = asset, pi_nullifiers = ns, pi_outputs = os\<rparr>"
  by (auto simp: private_intent_new_def)

lemma private_intent_new_self:
  assumes "intent_wf t"
  shows "private_intent_new (pi_circuit_id t) (pi_genesis_id t) (pi_validation_context_id t) (pi_pre_state_id t)
     (pi_tree_parameters t) (pi_pre_state_root t) (pi_asset_id t) (pi_nullifiers t) (pi_outputs t) = Inr t"
  using assms by (simp add: private_intent_new_Inr intent_wf_def output_commitments_def)

lemma length_private_intent_encode: "intent_wf t \<Longrightarrow> length (private_intent_encode t) = 640"
  by (simp add: private_intent_encode_def intent_wf_def vector_wf_def)

lemma field_at_skip: "length xs \<le> offset \<Longrightarrow> field_at (xs @ ys) offset n = field_at ys (offset - length xs) n"
  by (simp add: field_at_def)

lemma field_at_here: "length xs = n \<Longrightarrow> field_at (xs @ ys) 0 n = xs" "length xs = n \<Longrightarrow> field_at xs 0 n = xs"
  by (simp_all add: field_at_def)

lemma private_intent_decode_encode:
  assumes "intent_wf t"
  shows "private_intent_decode (private_intent_encode t) = Inr t"
proof -
  let ?ns = "pi_nullifiers t" and ?os = "pi_outputs t"
  have len: "length (pi_pre_state_root t) = 64" "length (fst ?ns) = 64" "length (snd ?ns) = 64"
    "length (po_commitment (fst ?os)) = 64" "length (po_commitment (snd ?os)) = 64"
    "length (po_ciphertext_digest (fst ?os)) = 64" "length (po_ciphertext_digest (snd ?os)) = 64"
    using assms by (simp_all add: intent_wf_def vector_wf_def output_commitments_def)
  have new: "vector_new v = Inr v" if "v \<in> {pi_pre_state_root t, fst ?ns, snd ?ns, po_commitment (fst ?os),
      po_commitment (snd ?os), po_ciphertext_digest (fst ?os), po_ciphertext_digest (snd ?os)}" for v
    using that assms by (auto simp: intent_wf_def vector_new_wf output_commitments_def)
  have eta: "(\<lparr>po_commitment = po_commitment (fst ?os), po_ciphertext_digest = po_ciphertext_digest (fst ?os)\<rparr>,
      \<lparr>po_commitment = po_commitment (snd ?os), po_ciphertext_digest = po_ciphertext_digest (snd ?os)\<rparr>) = ?os"
    by (cases ?os) simp
  show ?thesis
    using private_intent_new_self [OF assms] length_private_intent_encode [OF assms]
    by (simp add: private_intent_decode_def INTENT_LENGTH_def)
      (simp add: private_intent_encode_def output_commitments_def field_at_skip field_at_here len new eta)
qed

lemma drop_field: "k + n \<le> length bs \<Longrightarrow> drop k bs = field_at bs k n @ drop (k + n) bs"
  by (metis append_take_drop_id drop_drop add.commute field_at_def)

lemma private_intent_encode_decode:
  assumes "private_intent_decode bs = Inr t"
  shows "intent_wf t \<and> bs = private_intent_encode t"
proof -
  from assms have len: "length bs = 640"
    by (auto simp: private_intent_decode_def INTENT_LENGTH_def split: if_splits)
  let ?f = "field_at bs"
  from assms have t: "t = \<lparr>pi_circuit_id = from_be_bytes (?f 0 32), pi_genesis_id = from_be_bytes (?f 32 32),
      pi_validation_context_id = from_be_bytes (?f 64 32), pi_pre_state_id = from_be_bytes (?f 96 32),
      pi_tree_parameters = from_be_bytes (?f 128 32), pi_pre_state_root = ?f 160 64,
      pi_asset_id = from_be_bytes (?f 224 32), pi_nullifiers = (?f 256 64, ?f 320 64),
      pi_outputs = (\<lparr>po_commitment = ?f 384 64, po_ciphertext_digest = ?f 512 64\<rparr>,
        \<lparr>po_commitment = ?f 448 64, po_ciphertext_digest = ?f 576 64\<rparr>)\<rparr>"
    and order: "?f 256 64 < ?f 320 64" "?f 384 64 < ?f 448 64"
    and can: "\<forall>k \<in> {160, 256, 320, 384, 448, 512, 576}. \<forall>e \<in> set (decode_le32 (?f k 64)). canonical e"
    by (auto simp: private_intent_decode_def and_then_eq_Inr vector_new_Inr_iff private_intent_new_Inr split: if_splits)
  have vec: "length (?f k n) = n" if "k + n \<le> 640" for k n using that len by (simp add: field_at_def)
  have "intent_wf t"
    using order can vec by (simp add: t intent_wf_def vector_wf_def output_commitments_def)
  moreover have word: "to_be_bytes (from_be_bytes (?f k 32) :: id32) = ?f k 32" if "k + 32 \<le> 640" for k
    using vec [OF that] by (simp add: to_from_be_bytes)
  have "bs = ?f 0 32 @ ?f 32 32 @ ?f 64 32 @ ?f 96 32 @ ?f 128 32 @ ?f 160 64 @ ?f 224 32
      @ ?f 256 64 @ ?f 320 64 @ ?f 384 64 @ ?f 448 64 @ ?f 512 64 @ ?f 576 64"
    using drop_field [of 0 32 bs] drop_field [of 32 32 bs] drop_field [of 64 32 bs] drop_field [of 96 32 bs]
      drop_field [of 128 32 bs] drop_field [of 160 64 bs] drop_field [of 224 32 bs] drop_field [of 256 64 bs]
      drop_field [of 320 64 bs] drop_field [of 384 64 bs] drop_field [of 448 64 bs] drop_field [of 512 64 bs]
      drop_field [of 576 64 bs] len
    by simp
  then have "bs = private_intent_encode t" by (simp add: t private_intent_encode_def output_commitments_def word)
  ultimately show ?thesis by blast
qed

text \<open>The intent decoder reads back every intent and accepts exactly the 640-byte encodings of
  well-formed intents: canonical field vectors, strictly increasing nullifiers and strictly
  increasing output commitments. In particular one transfer has one encoding.\<close>

lemma intent_codec_exact:
  "private_intent_decode bs = Inr t \<longleftrightarrow> intent_wf t \<and> bs = private_intent_encode t"
  using private_intent_decode_encode private_intent_encode_decode by blast

end
