(* ===== verification/Nullifier_Tree.thy ===== *)
theory Nullifier_Tree
  imports Poseidon2 Privacy_Types Machine "HOL-Library.Finite_Map"
begin

text \<open>
  The sparse nullifier tree: the reference evaluator of \<^verbatim>\<open>crates/noxis-nullifier-tree-reference\<close>
  (the three domain-separated byte hashes, the 513 empty values, path reconstruction and the
  inclusion and absence checks) and the mutable state of \<^verbatim>\<open>crates/noxis-nullifier-tree-state\<close>, which
  stores only the non-empty nodes of a tree of depth 512 under positions made of a height and a
  64-byte key with the consumed path bits cleared. The abstract object is the complete tree over
  the set of spent nullifiers.
\<close>

declare upt_rec_numeral [simp del]

subsection \<open>The reference evaluator\<close>

record nullifier_reference =
  nr_permutation :: p24_reference
  nr_leaf_iv :: "u32 list"
  nr_node_iv :: "u32 list"
  nr_empty_iv :: "u32 list"
  nr_empty_values :: "digest list"

datatype nullifier_reference_error =
  NrTreeReference p24_reference_error
| NrCandidate sparse_candidate_error
| NrPublicValue privacy_types_error
| NrInvalidInputLength sparse_domain nat nat
| NrInvalidPathLength nat nat
| NrNonCanonicalDigest nat u32
| NrRootMismatch

type_synonym sparse_root = vector

definition sparse_root_from_elements :: "digest \<Rightarrow> nullifier_reference_error + sparse_root" where
  "sparse_root_from_elements es = map_err NrPublicValue (vector_from_elements es)"

fun nr_iv :: "nullifier_reference \<Rightarrow> sparse_domain \<Rightarrow> u32 list" where
  "nr_iv N SparseLeaf = nr_leaf_iv N"
| "nr_iv N SparseNode = nr_node_iv N"
| "nr_iv N SparseEmpty = nr_empty_iv N"

definition nr_permute :: "nullifier_reference \<Rightarrow> p24_state \<Rightarrow> nullifier_reference_error + p24_state" where
  "nr_permute N s = map_err NrTreeReference (ref_permutation (nr_permutation N) s)"

definition nr_hash_bytes ::
  "nullifier_reference \<Rightarrow> sparse_domain \<Rightarrow> bytes \<Rightarrow> nullifier_reference_error + digest" where
  "nr_hash_bytes N role input =
     (if length input \<noteq> sparse_input_bytes role
      then Inl (NrInvalidInputLength role (length input) (sparse_input_bytes role))
      else and_then (absorb ref_add (nr_permute N) (sponge_init (nr_iv N role)) (byte_pack3le input))
             (squeeze (nr_permute N)))"

definition nr_validate_digest :: "digest \<Rightarrow> nullifier_reference_error + unit" where
  "nr_validate_digest d =
     (case first_noncanonical 0 d of
        Some (i, v) \<Rightarrow> Inl (NrNonCanonicalDigest i v)
      | None \<Rightarrow> Inr ())"

definition nr_spent_leaf :: "nullifier_reference \<Rightarrow> vector \<Rightarrow> nullifier_reference_error + digest" where
  "nr_spent_leaf N nullifier = nr_hash_bytes N SparseLeaf nullifier"

definition nr_node ::
  "nullifier_reference \<Rightarrow> digest \<Rightarrow> digest \<Rightarrow> nullifier_reference_error + digest" where
  "nr_node N left right =
     and_then (nr_validate_digest left) (\<lambda>_.
     and_then (nr_validate_digest right) (\<lambda>_.
       nr_hash_bytes N SparseNode (encode_le32 left @ encode_le32 right)))"

fun nr_empty_from ::
  "nullifier_reference \<Rightarrow> digest \<Rightarrow> nat \<Rightarrow> nullifier_reference_error + digest list" where
  "nr_empty_from N current 0 = Inr []"
| "nr_empty_from N current (Suc n) =
     and_then (nr_node N current current) (\<lambda>next_value.
       and_then (nr_empty_from N next_value n) (\<lambda>rest. Inr (next_value # rest)))"

definition nr_derive_empty_values ::
  "nullifier_reference \<Rightarrow> nullifier_reference_error + digest list" where
  "nr_derive_empty_values N =
     and_then (nr_hash_bytes N SparseEmpty []) (\<lambda>base.
       and_then (nr_empty_from N base 512) (\<lambda>rest. Inr (base # rest)))"

definition nr_load_candidate :: "candidate_env \<Rightarrow> nullifier_reference_error + nullifier_reference" where
  "nr_load_candidate env =
     and_then (map_err NrCandidate (sparse_encode env)) (\<lambda>_.
     and_then (map_err NrTreeReference (load_candidate env)) (\<lambda>R.
     and_then (map_err NrCandidate (sparse_iv env SparseLeaf)) (\<lambda>leaf_iv.
     and_then (map_err NrCandidate (sparse_iv env SparseNode)) (\<lambda>node_iv.
     and_then (map_err NrCandidate (sparse_iv env SparseEmpty)) (\<lambda>empty_iv.
       let N = \<lparr>nr_permutation = R, nr_leaf_iv = leaf_iv, nr_node_iv = node_iv,
                nr_empty_iv = empty_iv, nr_empty_values = []\<rparr>
       in and_then (nr_derive_empty_values N) (\<lambda>values_list.
            Inr (N\<lparr>nr_empty_values := values_list\<rparr>)))))))"

definition nr_empty_root :: "nullifier_reference \<Rightarrow> nullifier_reference_error + sparse_root" where
  "nr_empty_root N = sparse_root_from_elements (nr_empty_values N ! 512)"

definition path_bit :: "vector \<Rightarrow> nat \<Rightarrow> bool" where
  "path_bit nullifier level \<longleftrightarrow> drop_bit (level mod 8) (nullifier ! (level div 8)) AND 1 = 1"

definition nr_root_from_path ::
  "nullifier_reference \<Rightarrow> vector \<Rightarrow> digest \<Rightarrow> digest list \<Rightarrow> nullifier_reference_error + sparse_root" where
  "nr_root_from_path N nullifier leaf siblings =
     (if length siblings \<noteq> 512 then Inl (NrInvalidPathLength (length siblings) 512)
      else and_then (nr_validate_digest leaf) (\<lambda>_.
        and_then
          (try_fold (\<lambda>current (level, sibling).
              and_then (nr_validate_digest sibling) (\<lambda>_.
                if path_bit nullifier level then nr_node N sibling current
                else nr_node N current sibling))
            leaf (enumerate 0 siblings))
          sparse_root_from_elements))"

definition nr_verify_inclusion ::
  "nullifier_reference \<Rightarrow> sparse_root \<Rightarrow> vector \<Rightarrow> digest list \<Rightarrow> nullifier_reference_error + unit" where
  "nr_verify_inclusion N root nullifier siblings =
     and_then (nr_spent_leaf N nullifier) (\<lambda>leaf.
     and_then (nr_root_from_path N nullifier leaf siblings) (\<lambda>computed.
       if computed \<noteq> root then Inl NrRootMismatch else Inr ()))"

definition nr_verify_absence ::
  "nullifier_reference \<Rightarrow> sparse_root \<Rightarrow> vector \<Rightarrow> digest list \<Rightarrow> nullifier_reference_error + unit" where
  "nr_verify_absence N root nullifier siblings =
     and_then (nr_root_from_path N nullifier (nr_empty_values N ! 0) siblings) (\<lambda>computed.
       if computed \<noteq> root then Inl NrRootMismatch else Inr ())"

subsection \<open>Node positions\<close>

record node_position =
  np_height :: nat
  np_key :: bytes

definition leaf_position :: "vector \<Rightarrow> node_position" where
  "leaf_position nullifier = \<lparr>np_height = 0, np_key = nullifier\<rparr>"

definition root_position :: node_position where
  "root_position = \<lparr>np_height = 512, np_key = replicate 64 0\<rparr>"

definition np_sibling :: "node_position \<Rightarrow> node_position" where
  "np_sibling p =
     (let i = np_height p div 8
      in p\<lparr>np_key := (np_key p)[i := (np_key p ! i) XOR push_bit (np_height p mod 8) 1]\<rparr>)"

definition np_parent :: "node_position \<Rightarrow> node_position" where
  "np_parent p =
     (let i = np_height p div 8
      in \<lparr>np_height = np_height p + 1,
          np_key = (np_key p)[i := (np_key p ! i) AND NOT (push_bit (np_height p mod 8) 1)]\<rparr>)"

definition np_path_bit :: "node_position \<Rightarrow> bool" where
  "np_path_bit p \<longleftrightarrow> drop_bit (np_height p mod 8) (np_key p ! (np_height p div 8)) AND 1 = 1"

subsection \<open>The mutable state\<close>

record nullifier_tree =
  nt_reference :: nullifier_reference
  nt_non_empty_nodes :: "(node_position, digest) fmap"
  nt_spent_count :: u64

datatype nullifier_tree_error =
  NtReference nullifier_reference_error
| AlreadySpent vector
| NtCountOverflow

record nullifier_update =
  nu_nullifier :: vector
  nu_previous_root :: sparse_root
  nu_root :: sparse_root

definition nt_new_candidate :: "candidate_env \<Rightarrow> nullifier_tree_error + nullifier_tree" where
  "nt_new_candidate env =
     and_then (map_err NtReference (nr_load_candidate env)) (\<lambda>N.
       Inr \<lparr>nt_reference = N, nt_non_empty_nodes = fmempty, nt_spent_count = 0\<rparr>)"

definition nt_value_at :: "nullifier_tree \<Rightarrow> node_position \<Rightarrow> digest" where
  "nt_value_at st p =
     (case fmlookup (nt_non_empty_nodes st) p of
        Some d \<Rightarrow> d
      | None \<Rightarrow> nr_empty_values (nt_reference st) ! np_height p)"

definition nt_root :: "nullifier_tree \<Rightarrow> nullifier_tree_error + sparse_root" where
  "nt_root st = map_err NtReference (sparse_root_from_elements (nt_value_at st root_position))"

definition nt_stored_node_count :: "nullifier_tree \<Rightarrow> nat" where
  "nt_stored_node_count st = fcard (fmdom (nt_non_empty_nodes st))"

definition nt_is_spent :: "nullifier_tree \<Rightarrow> vector \<Rightarrow> bool" where
  "nt_is_spent st nullifier \<longleftrightarrow> fmlookup (nt_non_empty_nodes st) (leaf_position nullifier) \<noteq> None"

fun nt_siblings :: "nullifier_tree \<Rightarrow> node_position \<Rightarrow> nat \<Rightarrow> digest list" where
  "nt_siblings st p 0 = []"
| "nt_siblings st p (Suc n) = nt_value_at st (np_sibling p) # nt_siblings st (np_parent p) n"

definition nt_prove :: "nullifier_tree \<Rightarrow> vector \<Rightarrow> digest list" where
  "nt_prove st nullifier = nt_siblings st (leaf_position nullifier) 512"

definition nt_verify_inclusion ::
  "nullifier_tree \<Rightarrow> sparse_root \<Rightarrow> vector \<Rightarrow> digest list \<Rightarrow> nullifier_tree_error + unit" where
  "nt_verify_inclusion st root nullifier path =
     map_err NtReference (nr_verify_inclusion (nt_reference st) root nullifier path)"

definition nt_verify_absence ::
  "nullifier_tree \<Rightarrow> sparse_root \<Rightarrow> vector \<Rightarrow> digest list \<Rightarrow> nullifier_tree_error + unit" where
  "nt_verify_absence st root nullifier path =
     map_err NtReference (nr_verify_absence (nt_reference st) root nullifier path)"

fun prepare_path ::
  "nullifier_tree \<Rightarrow> node_position \<Rightarrow> digest \<Rightarrow> nat
    \<Rightarrow> nullifier_tree_error + (node_position \<times> digest) list" where
  "prepare_path st p current 0 = Inr []"
| "prepare_path st p current (Suc n) =
     (let sibling = nt_value_at st (np_sibling p)
      in and_then (map_err NtReference
             (if np_path_bit p then nr_node (nt_reference st) sibling current
              else nr_node (nt_reference st) current sibling)) (\<lambda>next_value.
           and_then (prepare_path st (np_parent p) next_value n) (\<lambda>rest.
             Inr ((np_parent p, next_value) # rest))))"

definition prepare_spend ::
  "nullifier_tree \<Rightarrow> vector \<Rightarrow> nullifier_tree_error + (node_position \<times> digest) list" where
  "prepare_spend st nullifier =
     and_then (map_err NtReference (nr_spent_leaf (nt_reference st) nullifier)) (\<lambda>current.
     and_then (prepare_path st (leaf_position nullifier) current 512) (\<lambda>rest.
       Inr ((leaf_position nullifier, current) # rest)))"

definition nt_mark_spent ::
  "nullifier_tree \<Rightarrow> vector \<Rightarrow> nullifier_tree_error + (nullifier_update \<times> nullifier_tree)" where
  "nt_mark_spent st nullifier =
     and_then (nt_root st) (\<lambda>previous_root.
       if nt_is_spent st nullifier then Inl (AlreadySpent nullifier)
       else
         and_then (prepare_spend st nullifier) (\<lambda>updates.
         and_then (map_err NtReference (sparse_root_from_elements (snd (last updates)))) (\<lambda>root.
         and_then (ok_or (checked_add (nt_spent_count st) 1) NtCountOverflow) (\<lambda>n.
           Inr (\<lparr>nu_nullifier = nullifier, nu_previous_root = previous_root, nu_root = root\<rparr>,
                st\<lparr>nt_non_empty_nodes :=
                     fold (\<lambda>(p, d) m. fmupd p d m) updates (nt_non_empty_nodes st),
                   nt_spent_count := n\<rparr>)))))"

definition nt_mark_all ::
  "nullifier_tree \<Rightarrow> vector list \<Rightarrow> nullifier_tree_error + nullifier_tree" where
  "nt_mark_all st nullifiers =
     try_fold (\<lambda>st n. and_then (nt_mark_spent st n) (\<lambda>(u, st'). Inr st')) st nullifiers"

subsection \<open>Keys as indices\<close>

text \<open>A key is the little-endian number of its bytes; bit \<open>n\<close> of it is the direction at level \<open>n\<close>.\<close>

definition key_index :: "bytes \<Rightarrow> nat" where
  "key_index key = nat_of_be (rev key)"

lemma key_index_simps [simp]: "key_index [] = 0" "key_index (b # bs) = unat b + 256 * key_index bs"
  by (simp_all add: key_index_def)

lemma key_index_less: "key_index key < 2 ^ (8 * length key)"
  using nat_of_be_less [of "rev key"] by (simp add: key_index_def pow_256)

lemma key_index_inject:
  assumes "length k = length l" "key_index k = key_index l"
  shows "k = l"
proof -
  have "be_of_nat (length (rev k)) (nat_of_be (rev k)) = be_of_nat (length (rev l)) (nat_of_be (rev l))"
    using assms by (simp only: key_index_def length_rev)
  then have "rev k = rev l" by (simp only: be_of_nat_of_be)
  then show ?thesis by simp
qed

lemma bit_low_high:
  assumes "(a :: nat) < 256"
  shows "bit (a + 256 * m) n \<longleftrightarrow> (if n < 8 then bit a n else bit m (n - 8))"
proof (cases "n < 8")
  case True
  then have n: "8 = n + Suc (7 - n)" by simp
  have "(256 :: nat) = 2 ^ 8" by simp
  also have "\<dots> = 2 ^ (n + Suc (7 - n))" by (subst n) (rule refl)
  also have "\<dots> = 2 ^ n * (2 * 2 ^ (7 - n))" by (simp only: power_add power_Suc)
  finally have "a + 256 * m = a + 2 ^ n * (2 * (2 ^ (7 - n) * m))" by (simp only: mult.assoc)
  then have "(a + 256 * m) div 2 ^ n = 2 * (2 ^ (7 - n) * m) + a div 2 ^ n"
    by (simp only: div_mult_self2 power_not_zero) simp
  with True show ?thesis by (simp add: bit_iff_odd)
next
  case False
  then have n: "n = 8 + (n - 8)" by simp
  have "(2 :: nat) ^ n = 2 ^ (8 + (n - 8))" by (subst n) (rule refl)
  then have "(2 :: nat) ^ n = 256 * 2 ^ (n - 8)" by (simp add: power_add)
  then have "(a + 256 * m) div 2 ^ n = m div 2 ^ (n - 8)"
    using assms by (simp add: div_mult2_eq)
  with False show ?thesis by (simp add: bit_iff_odd)
qed

lemma bit_key_index:
  "bit (key_index key) n \<longleftrightarrow> n < 8 * length key \<and> bit (key ! (n div 8)) (n mod 8)"
proof (induction key arbitrary: n)
  case (Cons b bs)
  show ?case
  proof (cases "n < 8")
    case True
    then show ?thesis
      using unat_byte_less [of b] by (simp add: bit_low_high bit_unsigned_iff)
  next
    case False
    have "bit (key_index (b # bs)) n \<longleftrightarrow> bit (key_index bs) (n - 8)"
      using False unat_byte_less [of b] by (simp only: key_index_simps bit_low_high if_False)
    also have "\<dots> \<longleftrightarrow> n - 8 < 8 * length bs \<and> bit (bs ! ((n - 8) div 8)) ((n - 8) mod 8)"
      by (rule Cons.IH)
    also have "n - 8 < 8 * length bs \<longleftrightarrow> n < 8 * length (b # bs)" using False by auto
    also have "bs ! ((n - 8) div 8) = (b # bs) ! (n div 8)"
      using False le_div_geq [of 8 n] by simp
    also have "(n - 8) mod 8 = n mod 8" using False le_mod_geq [of 8 n] by simp
    finally show ?thesis .
  qed
qed simp

lemma and_one_iff_bit: "drop_bit k (b :: byte) AND 1 = 1 \<longleftrightarrow> bit b k"
  by (simp add: and_one_eq mod_2_eq_odd bit_iff_odd_drop_bit)

lemma path_bit_index:
  "length key = 64 \<Longrightarrow> level < 512 \<Longrightarrow> path_bit key level \<longleftrightarrow> odd (key_index key div 2 ^ level)"
  by (simp add: path_bit_def and_one_iff_bit bit_iff_odd [of "key_index key", symmetric] bit_key_index)

text \<open>Valid positions: the bits below the height are cleared.\<close>

definition position_ok :: "node_position \<Rightarrow> bool" where
  "position_ok p \<longleftrightarrow> length (np_key p) = 64 \<and> np_height p \<le> 512 \<and> 2 ^ np_height p dvd key_index (np_key p)"

definition position_index :: "node_position \<Rightarrow> nat" where
  "position_index p = key_index (np_key p) div 2 ^ np_height p"

lemma same_bit_place: "n div 8 = h div 8 \<Longrightarrow> n mod 8 = h mod 8 \<longleftrightarrow> n = (h :: nat)"
  by (metis div_mult_mod_eq)

lemma dvd_iff_bits: "2 ^ h dvd (x :: nat) \<longleftrightarrow> (\<forall>n < h. \<not> bit x n)"
proof -
  have "2 ^ h dvd x \<longleftrightarrow> take_bit h x = 0" by (simp add: take_bit_eq_mod mod_eq_0_iff_dvd)
  also have "\<dots> \<longleftrightarrow> (\<forall>n < h. \<not> bit x n)" by (auto simp: bit_eq_iff bit_take_bit_iff)
  finally show ?thesis .
qed

lemma bit_div_pow: "bit ((x :: nat) div 2 ^ h) m \<longleftrightarrow> bit x (h + m)"
  by (simp add: drop_bit_eq_div [symmetric] bit_drop_bit_eq)

lemma bit_byte_pow: "bit (2 ^ a :: byte) k \<longleftrightarrow> a = k \<and> k < 8"
  by (auto simp: bit_exp_iff)

lemma bit_sibling_key:
  assumes "length (np_key p) = 64" "np_height p < 512"
  shows "bit (key_index (np_key (np_sibling p))) n \<longleftrightarrow>
    (bit (key_index (np_key p)) n \<noteq> (n = np_height p))"
proof (cases "n < 512")
  case True
  have "np_height p div 8 < 64" using assms(2) by simp
  with True assms show ?thesis
    by (cases "n div 8 = np_height p div 8")
      (auto simp: np_sibling_def Let_def bit_key_index nth_list_update bit_xor_iff bit_push_bit_iff
        bit_1_iff bit_byte_pow same_bit_place)
next
  case False
  with assms show ?thesis by (auto simp: np_sibling_def Let_def bit_key_index)
qed

lemma bit_parent_key:
  assumes "length (np_key p) = 64" "np_height p < 512"
  shows "bit (key_index (np_key (np_parent p))) n \<longleftrightarrow>
    bit (key_index (np_key p)) n \<and> n \<noteq> np_height p"
proof (cases "n < 512")
  case True
  have "np_height p div 8 < 64" using assms(2) by simp
  with True assms show ?thesis
    by (cases "n div 8 = np_height p div 8")
      (auto simp: np_parent_def Let_def bit_key_index nth_list_update bit_and_iff bit_not_iff
        bit_push_bit_iff bit_1_iff bit_byte_pow same_bit_place)
next
  case False
  with assms show ?thesis by (auto simp: np_parent_def Let_def bit_key_index)
qed

lemma np_sibling_height [simp]: "np_height (np_sibling p) = np_height p"
  by (simp add: np_sibling_def Let_def)

lemma np_parent_height [simp]: "np_height (np_parent p) = Suc (np_height p)"
  by (simp add: np_parent_def Let_def)

lemma np_key_lengths [simp]:
  "length (np_key (np_sibling p)) = length (np_key p)" "length (np_key (np_parent p)) = length (np_key p)"
  by (simp_all add: np_sibling_def np_parent_def Let_def)

lemma np_sibling_ok:
  assumes "position_ok p" "np_height p < 512"
  shows "position_ok (np_sibling p)" "position_index (np_sibling p) = sibling_index (position_index p)"
proof -
  note bits = bit_sibling_key [of p]
  show "position_ok (np_sibling p)"
    using assms bits by (auto simp: position_ok_def dvd_iff_bits)
  show "position_index (np_sibling p) = sibling_index (position_index p)"
    unfolding sibling_xor [symmetric]
    using assms bits
    by (intro bit_eqI) (auto simp: position_index_def position_ok_def bit_div_pow bit_xor_iff bit_1_iff
        One_nat_def [symmetric] simp del: One_nat_def)
qed

lemma np_parent_ok:
  assumes "position_ok p" "np_height p < 512"
  shows "position_ok (np_parent p)" "position_index (np_parent p) = position_index p div 2"
proof -
  note bits = bit_parent_key [of p]
  show "position_ok (np_parent p)"
    using assms bits
    by (auto simp: position_ok_def dvd_iff_bits [of "Suc _"] dvd_iff_bits [of "np_height p"] less_Suc_eq
        simp del: power_Suc)
  have "key_index (np_key (np_parent p)) div 2 ^ Suc (np_height p) = key_index (np_key p) div 2 ^ Suc (np_height p)"
    using assms bits by (intro bit_eqI) (auto simp: position_ok_def bit_div_pow simp del: power_Suc)
  then show "position_index (np_parent p) = position_index p div 2"
    by (simp add: position_index_def div_mult2_eq [symmetric] mult.commute)
qed

lemma np_path_bit_index:
  assumes "position_ok p" "np_height p < 512"
  shows "np_path_bit p \<longleftrightarrow> odd (position_index p)"
  using assms
  by (simp add: np_path_bit_def and_one_iff_bit position_index_def bit_iff_odd [of "key_index _", symmetric]
      bit_key_index position_ok_def)

lemma leaf_position_ok:
  assumes "length n = 64"
  shows "position_ok (leaf_position n)" "position_index (leaf_position n) = key_index n"
    "np_height (leaf_position n) = 0"
  using assms by (simp_all add: leaf_position_def position_ok_def position_index_def)

lemma key_index_zeros: "key_index (replicate k 0) = 0"
  by (induction k) simp_all

lemma root_position_ok:
  "position_ok root_position" "position_index root_position = 0" "np_height root_position = 512"
  by (simp_all add: root_position_def position_ok_def position_index_def key_index_zeros)

lemma position_eqI:
  assumes "position_ok p" "position_ok q" "np_height p = np_height q" "position_index p = position_index q"
  shows "p = q"
proof -
  have "key_index (np_key p) = key_index (np_key q)"
    using assms unfolding position_ok_def position_index_def by (metis dvd_div_mult_self)
  with assms have "np_key p = np_key q" by (intro key_index_inject) (simp_all add: position_ok_def)
  with assms(3) show ?thesis by simp
qed

lemma position_root:
  assumes "position_ok p" "np_height p = 512"
  shows "p = root_position"
proof (rule position_eqI [OF assms(1) root_position_ok(1)])
  have "key_index (np_key p) div 2 ^ 512 = 0"
    using key_index_less [of "np_key p"] assms by (simp add: position_ok_def div_eq_0_iff)
  then have "position_index p = 0" by (simp add: position_index_def assms(2))
  then show "position_index p = position_index root_position" by (simp add: root_position_ok(2))
qed (simp add: assms(2) root_position_ok)

subsection \<open>The hashes of the sparse tree\<close>

definition nr_wf :: "nullifier_reference \<Rightarrow> bool" where
  "nr_wf N \<longleftrightarrow> (\<forall>role. iv_wf (nr_iv N role))"

lemma permutes_nr: "permutes (nr_permute N)"
  using ref_permutation_wf by (fastforce simp: permutes_def nr_permute_def)

lemma nr_hash_bytes_wf:
  assumes "nr_wf N" "length input = sparse_input_bytes role"
  shows "\<exists>d. nr_hash_bytes N role input = Inr d \<and> digest_wf d"
proof -
  have "state_wf (sponge_init (nr_iv N role))" using assms(1) by (simp add: nr_wf_def sponge_init_wf)
  from absorb_wf [OF permutes_nr this] obtain s where
    "absorb ref_add (nr_permute N) (sponge_init (nr_iv N role)) (byte_pack3le input) = Inr s" "state_wf s"
    by blast
  moreover from squeeze_wf [OF permutes_nr this(2)] obtain d where
    "squeeze (nr_permute N) s = Inr d" "digest_wf d" by blast
  ultimately show ?thesis using assms(2) by (simp add: nr_hash_bytes_def)
qed

lemma nr_validate_iff [simp]: "nr_validate_digest d = Inr () \<longleftrightarrow> (\<forall>v \<in> set d. canonical v)"
  by (auto simp: nr_validate_digest_def first_noncanonical_None_iff [symmetric, of d 0] split: option.splits)

lemma nr_validate_ok [simp]: "digest_wf d \<Longrightarrow> nr_validate_digest d = Inr ()"
  by (simp add: digest_wf_def)

interpretation spent_tree: hash_tree nr_wf digest_wf nr_node
proof
  fix N a b assume "nr_wf N" "digest_wf a" "digest_wf b"
  then show "\<exists>c. nr_node N a b = Inr c \<and> digest_wf c"
    using nr_hash_bytes_wf [of N "encode_le32 a @ encode_le32 b" SparseNode]
    by (simp add: nr_node_def) (simp add: digest_wf_def)
qed

abbreviation spent_node :: "nullifier_reference \<Rightarrow> digest \<Rightarrow> digest \<Rightarrow> digest" where
  "spent_node N \<equiv> total_node (nr_node N)"

definition spent_leaf_of :: "nullifier_reference \<Rightarrow> vector \<Rightarrow> digest" where
  "spent_leaf_of N n = (case nr_spent_leaf N n of Inr d \<Rightarrow> d | Inl _ \<Rightarrow> [])"

definition unspent_leaf :: "nullifier_reference \<Rightarrow> digest" where
  "unspent_leaf N = (case nr_hash_bytes N SparseEmpty [] of Inr d \<Rightarrow> d | Inl _ \<Rightarrow> [])"

lemma spent_leaf_eq:
  assumes "nr_wf N" "length n = 64"
  shows "nr_spent_leaf N n = Inr (spent_leaf_of N n)" "digest_wf (spent_leaf_of N n)"
  using nr_hash_bytes_wf [OF assms(1), of n SparseLeaf] assms(2)
  by (auto simp: spent_leaf_of_def nr_spent_leaf_def)

lemma unspent_leaf_eq:
  assumes "nr_wf N"
  shows "nr_hash_bytes N SparseEmpty [] = Inr (unspent_leaf N)" "digest_wf (unspent_leaf N)"
  using nr_hash_bytes_wf [OF assms, of "[]" SparseEmpty] by (auto simp: unspent_leaf_def)

lemma spent_empty_wf: "nr_wf N \<Longrightarrow> digest_wf (empty_at (spent_node N) (unspent_leaf N) k)"
  by (induction k) (auto simp: unspent_leaf_eq spent_tree.total_wf)

lemma nr_empty_from_eq:
  assumes "nr_wf N"
  shows "nr_empty_from N (empty_at (spent_node N) (unspent_leaf N) k) n =
    Inr (map (empty_at (spent_node N) (unspent_leaf N)) [Suc k..<Suc k + n])"
proof (induction n arbitrary: k)
  case (Suc n)
  have "nr_node N (empty_at (spent_node N) (unspent_leaf N) k) (empty_at (spent_node N) (unspent_leaf N) k) =
      Inr (empty_at (spent_node N) (unspent_leaf N) (Suc k))"
    using assms by (simp add: spent_tree.node_eq spent_empty_wf)
  moreover have "[Suc k..<Suc k + Suc n] = Suc k # [Suc (Suc k)..<Suc (Suc k) + n]"
    by (simp add: upt_conv_Cons del: upt_Suc)
  ultimately show ?case using Suc [of "Suc k"] by (simp del: empty_at.simps upt_Suc)
qed simp

text \<open>A loaded reference: checked capacity vectors and the 513 derived empty values.\<close>

definition nr_ready :: "nullifier_reference \<Rightarrow> bool" where
  "nr_ready N \<longleftrightarrow> nr_wf N
     \<and> nr_empty_values N = map (empty_at (spent_node N) (unspent_leaf N)) [0..<513]"

lemma nr_empty_at: "nr_ready N \<Longrightarrow> k \<le> 512 \<Longrightarrow> nr_empty_values N ! k = empty_at (spent_node N) (unspent_leaf N) k"
  by (simp add: nr_ready_def)

text \<open>The hashes do not read the stored empty values.\<close>

lemma nr_hashes_update:
  "nr_iv (N\<lparr>nr_empty_values := vs\<rparr>) role = nr_iv N role"
  "nr_hash_bytes (N\<lparr>nr_empty_values := vs\<rparr>) = nr_hash_bytes N"
  "nr_node (N\<lparr>nr_empty_values := vs\<rparr>) = nr_node N"
proof -
  show iv: "nr_iv (N\<lparr>nr_empty_values := vs\<rparr>) role = nr_iv N role" for role by (cases role) simp_all
  have "nr_permute (N\<lparr>nr_empty_values := vs\<rparr>) = nr_permute N" by (simp add: nr_permute_def fun_eq_iff)
  then show h: "nr_hash_bytes (N\<lparr>nr_empty_values := vs\<rparr>) = nr_hash_bytes N"
    using iv by (intro ext) (simp only: nr_hash_bytes_def)
  then show "nr_node (N\<lparr>nr_empty_values := vs\<rparr>) = nr_node N" by (simp add: nr_node_def fun_eq_iff)
qed

lemma nr_load_candidate_ready:
  assumes "nr_load_candidate env = Inr N"
  shows "nr_ready N" "load_candidate env = Inr (nr_permutation N)"
proof -
  from assms obtain R l n e vs where R: "load_candidate env = Inr R"
    and iv: "sparse_iv env SparseLeaf = Inr l" "sparse_iv env SparseNode = Inr n" "sparse_iv env SparseEmpty = Inr e"
    and vs: "nr_derive_empty_values \<lparr>nr_permutation = R, nr_leaf_iv = l, nr_node_iv = n, nr_empty_iv = e,
        nr_empty_values = []\<rparr> = Inr vs"
    and N: "N = \<lparr>nr_permutation = R, nr_leaf_iv = l, nr_node_iv = n, nr_empty_iv = e, nr_empty_values = vs\<rparr>"
    by (auto simp: nr_load_candidate_def and_then_eq_Inr Let_def)
  let ?M = "\<lparr>nr_permutation = R, nr_leaf_iv = l, nr_node_iv = n, nr_empty_iv = e, nr_empty_values = []\<rparr>"
  have NM: "N = ?M\<lparr>nr_empty_values := vs\<rparr>" by (simp add: N)
  have "iv_wf (nr_iv ?M role)" for role
    using iv by (cases role) (auto dest: sparse_iv_wf)
  then have M: "nr_wf ?M" by (simp add: nr_wf_def)
  have "[0..<513 :: nat] = 0 # [Suc 0..<513]" by (rule upt_conv_Cons) simp
  with vs have "vs = map (empty_at (spent_node ?M) (unspent_leaf ?M)) [0..<513]"
    using nr_empty_from_eq [OF M, of 0 512] unspent_leaf_eq(1) [OF M]
    by (simp add: nr_derive_empty_values_def)
  moreover have "nr_wf N" using M unfolding NM nr_wf_def by (simp only: nr_hashes_update simp_thms)
  moreover have "unspent_leaf N = unspent_leaf ?M" "nr_node N = nr_node ?M"
    unfolding NM unspent_leaf_def by (simp_all only: nr_hashes_update)
  ultimately show "nr_ready N" by (simp add: nr_ready_def N)
  show "load_candidate env = Inr (nr_permutation N)" by (simp add: R N)
qed

subsection \<open>What the state represents\<close>

text \<open>The leaves of a set of spent nullifiers, and the root of the complete tree over them.\<close>

definition index_key :: "nat \<Rightarrow> vector" where
  "index_key i = rev (be_of_nat 64 i)"

definition spent_leaves :: "nullifier_reference \<Rightarrow> vector set \<Rightarrow> nat \<Rightarrow> digest" where
  "spent_leaves N S i =
     (if index_key i \<in> S \<and> key_index (index_key i) = i then spent_leaf_of N (index_key i)
      else unspent_leaf N)"

definition spent_root :: "nullifier_reference \<Rightarrow> vector set \<Rightarrow> digest" where
  "spent_root N S = subtree (spent_node N) (spent_leaves N S) 512 0"

definition keys_ok :: "vector set \<Rightarrow> bool" where
  "keys_ok S \<longleftrightarrow> finite S \<and> (\<forall>n \<in> S. length n = 64)"

text \<open>The positions rewritten by a spend: the leaf and its ancestors up to the root.\<close>

fun ancestors :: "node_position \<Rightarrow> nat \<Rightarrow> node_position list" where
  "ancestors p 0 = []"
| "ancestors p (Suc n) = np_parent p # ancestors (np_parent p) n"

definition spend_positions :: "vector \<Rightarrow> node_position list" where
  "spend_positions n = leaf_position n # ancestors (leaf_position n) 512"

text \<open>The stored nodes give the tree over \<open>S\<close> and are the paths of \<open>S\<close>, and no others.\<close>

definition represents :: "nullifier_tree \<Rightarrow> vector set \<Rightarrow> bool" where
  "represents st S \<longleftrightarrow> nr_ready (nt_reference st) \<and> keys_ok S
     \<and> (\<forall>p. position_ok p \<longrightarrow> nt_value_at st p =
           subtree (spent_node (nt_reference st)) (spent_leaves (nt_reference st) S) (np_height p) (position_index p))
     \<and> (\<forall>n. length n = 64 \<longrightarrow> (nt_is_spent st n \<longleftrightarrow> n \<in> S))
     \<and> fmdom' (nt_non_empty_nodes st) = (\<Union>n \<in> S. set (spend_positions n))
     \<and> unat (nt_spent_count st) = card S"

lemma index_key_inverse: "length n = 64 \<Longrightarrow> index_key (key_index n) = n"
  using be_of_nat_of_be [of "rev n"] by (simp add: index_key_def key_index_def)

lemma spent_leaves_key:
  assumes "length n = 64"
  shows "spent_leaves N S (key_index n) = (if n \<in> S then spent_leaf_of N n else unspent_leaf N)"
  using assms by (simp add: spent_leaves_def index_key_inverse)

lemma spent_leaves_insert:
  assumes "length n = 64" "j \<noteq> key_index n"
  shows "spent_leaves N (insert n S) j = spent_leaves N S j"
  using assms by (auto simp: spent_leaves_def)

lemma spent_leaves_wf:
  assumes "nr_wf N" "keys_ok S"
  shows "digest_wf (spent_leaves N S j)"
  using assms by (auto simp: spent_leaves_def keys_ok_def unspent_leaf_eq spent_leaf_eq)

lemma spent_subtree_wf:
  assumes "nr_wf N" "keys_ok S"
  shows "digest_wf (subtree (spent_node N) (spent_leaves N S) h i)"
  using spent_tree.subtree_total_wf [OF assms(1)] spent_leaves_wf [OF assms] by simp

lemma represents_simps:
  assumes "represents st S"
  shows "nr_ready (nt_reference st)" "nr_wf (nt_reference st)" "keys_ok S"
    and "position_ok p \<Longrightarrow> nt_value_at st p =
      subtree (spent_node (nt_reference st)) (spent_leaves (nt_reference st) S) (np_height p) (position_index p)"
    and "length n = 64 \<Longrightarrow> nt_is_spent st n \<longleftrightarrow> n \<in> S"
    and "unat (nt_spent_count st) = card S"
    and "fmdom' (nt_non_empty_nodes st) = (\<Union>n \<in> S. set (spend_positions n))"
  using assms by (auto simp: represents_def nr_ready_def)

lemma subtree_all_empty: "subtree f (\<lambda>_. e) h i = empty_at f e h"
  by (induction h arbitrary: i) simp_all

lemma represents_new:
  assumes "nt_new_candidate env = Inr st"
  shows "represents st {}" "nr_load_candidate env = Inr (nt_reference st)"
proof -
  from assms obtain N where N: "nr_load_candidate env = Inr N"
    and st: "st = \<lparr>nt_reference = N, nt_non_empty_nodes = fmempty, nt_spent_count = 0\<rparr>"
    by (auto simp: nt_new_candidate_def and_then_eq_Inr)
  have ready: "nr_ready N" by (rule nr_load_candidate_ready [OF N])
  have "spent_leaves N {} = (\<lambda>_. unspent_leaf N)" by (simp add: spent_leaves_def fun_eq_iff)
  then show "represents st {}"
    using ready by (auto simp: represents_def st keys_ok_def nt_value_at_def nt_is_spent_def
        position_ok_def subtree_all_empty nr_empty_at)
  show "nr_load_candidate env = Inr (nt_reference st)" using N st by simp
qed

text \<open>The root of the state is the root of the complete tree.\<close>

lemma digest_vector: "digest_wf d \<Longrightarrow> vector_from_elements d = Inr (encode_le32 d)"
  by (simp add: vector_from_elements_Inr_iff digest_wf_def)

lemma represents_root:
  assumes "represents st S"
  shows "nt_root st = Inr (encode_le32 (spent_root (nt_reference st) S))"
proof -
  note r = represents_simps [OF assms]
  have "nt_value_at st root_position = spent_root (nt_reference st) S"
    using r(4) [OF root_position_ok(1)] by (simp add: root_position_ok spent_root_def)
  moreover have "digest_wf (spent_root (nt_reference st) S)"
    unfolding spent_root_def by (rule spent_subtree_wf [OF r(2,3)])
  ultimately show ?thesis by (simp add: nt_root_def sparse_root_from_elements_def digest_vector)
qed

text \<open>The siblings read from the state are the path of the complete tree.\<close>

lemma represents_siblings:
  assumes "represents st S" "position_ok p" "np_height p + n \<le> 512"
  shows "nt_siblings st p n = tree_path (spent_node (nt_reference st)) (spent_leaves (nt_reference st) S)
    (np_height p) n (position_index p)"
  using assms(2,3)
proof (induction n arbitrary: p)
  case 0
  then show ?case by (simp add: tree_path_def)
next
  case (Suc n)
  then have lt: "np_height p < 512" by simp
  note sib = np_sibling_ok [OF Suc.prems(1) lt] and par = np_parent_ok [OF Suc.prems(1) lt]
  from Suc.IH [OF par(1)] Suc.prems(2) show ?case
    by (simp add: tree_path_Suc represents_simps(4) [OF assms(1) sib(1)] sib(2) par(2))
qed

subsection \<open>Marking a nullifier\<close>

lemma set_ancestors:
  assumes "position_ok p" "np_height p + n \<le> 512"
  shows "q \<in> set (ancestors p n) \<longleftrightarrow> position_ok q \<and> np_height p < np_height q \<and> np_height q \<le> np_height p + n
    \<and> position_index q = position_index p div 2 ^ (np_height q - np_height p)"
  using assms
proof (induction n arbitrary: p)
  case 0
  then show ?case by auto
next
  case (Suc n)
  then have lt: "np_height p < 512" by simp
  note par = np_parent_ok [OF Suc.prems(1) lt]
  have IH: "q \<in> set (ancestors (np_parent p) n) \<longleftrightarrow> position_ok q \<and> Suc (np_height p) < np_height q
      \<and> np_height q \<le> Suc (np_height p) + n
      \<and> position_index q = position_index p div 2 div 2 ^ (np_height q - Suc (np_height p))"
    using Suc.IH [OF par(1)] Suc.prems(2) by (simp add: par(2))
  have higher: "x div 2 div 2 ^ (np_height q - Suc (np_height p)) = x div 2 ^ (np_height q - np_height p)"
    if "Suc (np_height p) \<le> np_height q" for x :: nat
    using that by (simp add: div_2_pow_Suc [symmetric] Suc_diff_Suc [symmetric] del: power_Suc)
  have here: "q = np_parent p \<longleftrightarrow> position_ok q \<and> np_height q = Suc (np_height p) \<and> position_index q = position_index p div 2"
    using par position_eqI [of q "np_parent p"] by auto
  show ?case
    by (cases "np_height q = Suc (np_height p)") (auto simp: IH here higher)
qed

lemma sibling_index_neq: "sibling_index i \<noteq> i"
  by (auto simp: sibling_index_def elim: oddE)

text \<open>The value of a node that is not above the new leaf does not change.\<close>

lemma value_unchanged:
  assumes "length n = 64" "i \<noteq> key_index n div 2 ^ h"
  shows "subtree f (spent_leaves N (insert n S)) h i = subtree f (spent_leaves N S) h i"
  using assms by (intro subtree_cong) (auto intro: spent_leaves_insert)

lemma prepare_path_eq:
  assumes "represents st S" and n: "length n = 64"
    and "position_ok p" "np_height p + m \<le> 512" "position_index p = key_index n div 2 ^ np_height p"
  defines "V \<equiv> (\<lambda>q. subtree (spent_node (nt_reference st)) (spent_leaves (nt_reference st) (insert n S))
    (np_height q) (position_index q))"
  shows "prepare_path st p (V p) m = Inr (map (\<lambda>q. (q, V q)) (ancestors p m))"
  using assms(3-5)
proof (induction m arbitrary: p)
  case 0
  then show ?case by simp
next
  case (Suc m)
  let ?N = "nt_reference st" and ?L = "spent_leaves (nt_reference st) (insert n S)"
  from Suc.prems have lt: "np_height p < 512" by simp
  note r = represents_simps [OF assms(1)]
  note sib = np_sibling_ok [OF Suc.prems(1) lt] and par = np_parent_ok [OF Suc.prems(1) lt]
  have keys: "keys_ok (insert n S)" using r(3) n by (simp add: keys_ok_def)
  have sibling: "nt_value_at st (np_sibling p) = subtree (spent_node ?N) ?L (np_height p) (sibling_index (position_index p))"
    using r(4) [OF sib(1)] sib(2) value_unchanged [OF n] sibling_index_neq Suc.prems(3) by simp
  have good: "digest_wf (subtree (spent_node ?N) ?L h i)" for h i
    by (rule spent_subtree_wf [OF r(2) keys])
  have "(if np_path_bit p then nr_node ?N (nt_value_at st (np_sibling p)) (V p)
      else nr_node ?N (V p) (nt_value_at st (np_sibling p))) = Inr (V (np_parent p))"
    using subtree_parent [of "position_index p" "spent_node ?N" ?L "np_height p"]
    by (cases "even (position_index p)")
      (simp_all add: np_path_bit_index [OF Suc.prems(1) lt] sibling V_def par(2) spent_tree.node_eq [OF r(2) good good]
        del: subtree.simps)
  moreover have "position_index (np_parent p) = key_index n div 2 ^ np_height (np_parent p)"
    using Suc.prems(3) by (simp add: par(2) div_mult2_eq [symmetric] mult.commute)
  ultimately show ?case using Suc.IH [OF par(1)] Suc.prems(2) by (simp add: Let_def)
qed

lemma lookup_fold_fmupd:
  "fmlookup (fold (\<lambda>(p, d) m. fmupd p d m) (map (\<lambda>q. (q, f q)) qs) m) p =
    (if p \<in> set qs then Some (f p) else fmlookup m p)"
  by (induction qs arbitrary: m) auto

lemma dom_fold_fmupd:
  "fmdom' (fold (\<lambda>(p, d) m. fmupd p d m) (map (\<lambda>q. (q, f q)) qs) m) = set qs \<union> fmdom' m"
  by (auto simp: fmlookup_dom'_iff lookup_fold_fmupd split: if_splits)

lemma set_spend_positions:
  assumes "length n = 64"
  shows "q \<in> set (spend_positions n) \<longleftrightarrow> position_ok q \<and> position_index q = key_index n div 2 ^ np_height q"
proof -
  note leaf = leaf_position_ok [OF assms]
  have "q = leaf_position n \<longleftrightarrow> position_ok q \<and> np_height q = 0 \<and> position_index q = key_index n"
    using leaf position_eqI [of q "leaf_position n"] by auto
  then show ?thesis
    using set_ancestors [OF leaf(1), of 512 q] leaf
    by (cases "np_height q") (auto simp: spend_positions_def position_ok_def)
qed

lemma last_spend_positions:
  assumes "length n = 64"
  shows "last (spend_positions n) = root_position"
proof -
  have "np_height (last (p # ancestors p m)) = np_height p + m" for p m
    by (induction m arbitrary: p) simp_all
  then have "np_height (last (spend_positions n)) = 512"
    using leaf_position_ok(3) [OF assms] by (simp add: spend_positions_def del: last.simps)
  moreover have "last (spend_positions n) \<in> set (spend_positions n)"
    by (rule last_in_set) (simp add: spend_positions_def)
  then have "position_ok (last (spend_positions n))" using set_spend_positions [OF assms] by blast
  ultimately show ?thesis by (rule position_root [rotated])
qed

lemma prepare_spend_eq:
  assumes "represents st S" "length n = 64"
  shows "prepare_spend st n = Inr (map (\<lambda>q. (q, subtree (spent_node (nt_reference st))
    (spent_leaves (nt_reference st) (insert n S)) (np_height q) (position_index q))) (spend_positions n))"
proof -
  note leaf = leaf_position_ok [OF assms(2)] and r = represents_simps [OF assms(1)]
  have "spent_leaves (nt_reference st) (insert n S) (key_index n) = spent_leaf_of (nt_reference st) n"
    using assms(2) by (simp add: spent_leaves_key)
  then show ?thesis
    using prepare_path_eq [OF assms leaf(1), of 512] leaf spent_leaf_eq(1) [OF r(2) assms(2)]
    by (simp add: prepare_spend_def spend_positions_def)
qed

lemma represents_mark:
  assumes "represents st S" "length n = 64" "n \<notin> S"
    and "unat c = Suc (card S)"
    and upd: "upd = map (\<lambda>q. (q, subtree (spent_node (nt_reference st))
      (spent_leaves (nt_reference st) (insert n S)) (np_height q) (position_index q))) (spend_positions n)"
  shows "represents (st\<lparr>nt_non_empty_nodes := fold (\<lambda>(p, d) m. fmupd p d m) upd (nt_non_empty_nodes st),
    nt_spent_count := c\<rparr>) (insert n S)" (is "represents ?st _")
proof -
  note r = represents_simps [OF assms(1)] and pos = set_spend_positions [OF assms(2)]
  let ?V = "\<lambda>S q. subtree (spent_node (nt_reference st)) (spent_leaves (nt_reference st) S) (np_height q) (position_index q)"
  have at: "nt_value_at ?st p = ?V (insert n S) p" if p: "position_ok p" for p
  proof (cases "p \<in> set (spend_positions n)")
    case True
    then show ?thesis by (simp add: nt_value_at_def upd lookup_fold_fmupd)
  next
    case False
    then have "position_index p \<noteq> key_index n div 2 ^ np_height p" using pos p by blast
    then have "?V (insert n S) p = ?V S p" by (rule value_unchanged [OF assms(2)])
    with False r(4) [OF p] show ?thesis
      by (simp add: nt_value_at_def upd lookup_fold_fmupd split: option.splits)
  qed
  have "leaf_position m \<in> set (spend_positions n) \<longleftrightarrow> m = n" if "length m = 64" for m
    using pos leaf_position_ok [OF that] key_index_inject [of m n] that assms(2) by auto
  then have "nt_is_spent ?st m \<longleftrightarrow> m \<in> insert n S" if "length m = 64" for m
    using r(5) [OF that] that by (auto simp: nt_is_spent_def upd lookup_fold_fmupd)
  moreover have "keys_ok (insert n S)" "unat (nt_spent_count ?st) = card (insert n S)"
    using r(3) assms by (auto simp: keys_ok_def)
  moreover have "fmdom' (nt_non_empty_nodes ?st) = (\<Union>m \<in> insert n S. set (spend_positions m))"
    using r(7) by (simp add: upd dom_fold_fmupd)
  ultimately show ?thesis using r(1) at unfolding represents_def by simp
qed

text \<open>The stored tree is determined by the set: two histories of the same spends give equal states.\<close>

lemma represents_unique:
  assumes "represents st S" "represents st' S" "nt_reference st = nt_reference st'"
  shows "st = st'"
proof -
  note r = represents_simps [OF assms(1)] and r' = represents_simps [OF assms(2)]
  have "fmlookup (nt_non_empty_nodes st) p = fmlookup (nt_non_empty_nodes st') p" for p
  proof (cases "p \<in> fmdom' (nt_non_empty_nodes st)")
    case False
    with r(7) r'(7) show ?thesis by (simp add: fmdom'_notD)
  next
    case True
    then obtain n where n: "n \<in> S" "p \<in> set (spend_positions n)" using r(7) by blast
    then have "length n = 64" using r(3) by (simp add: keys_ok_def)
    then have "position_ok p" using set_spend_positions n(2) by blast
    then have "nt_value_at st p = nt_value_at st' p" using r(4) r'(4) assms(3) by simp
    moreover obtain d where "fmlookup (nt_non_empty_nodes st) p = Some d" using True by (auto simp: fmlookup_dom'_iff)
    moreover have "p \<in> fmdom' (nt_non_empty_nodes st')" using True r(7) r'(7) by simp
    then obtain d' where "fmlookup (nt_non_empty_nodes st') p = Some d'" by (auto simp: fmlookup_dom'_iff)
    ultimately show ?thesis by (simp add: nt_value_at_def)
  qed
  then have "nt_non_empty_nodes st = nt_non_empty_nodes st'" by (rule fmap_ext)
  moreover have "unat (nt_spent_count st) = unat (nt_spent_count st')" using r(6) r'(6) by simp
  then have "nt_spent_count st = nt_spent_count st'" by (simp only: word_unat_eq_iff)
  ultimately show ?thesis using assms(3) by (cases st; cases st') simp
qed

text \<open>Marking decides membership, and on success it adds the nullifier.\<close>

lemma mark_spent_eq:
  assumes "represents st S" "length n = 64"
  shows "n \<in> S \<Longrightarrow> nt_mark_spent st n = Inl (AlreadySpent n)"
    and "n \<notin> S \<Longrightarrow> 2 ^ 64 \<le> Suc (card S) \<Longrightarrow> nt_mark_spent st n = Inl NtCountOverflow"
    and "n \<notin> S \<Longrightarrow> Suc (card S) < 2 ^ 64 \<Longrightarrow> \<exists>st'. nt_mark_spent st n =
      Inr (\<lparr>nu_nullifier = n, nu_previous_root = encode_le32 (spent_root (nt_reference st) S),
            nu_root = encode_le32 (spent_root (nt_reference st) (insert n S))\<rparr>, st')
      \<and> represents st' (insert n S) \<and> nt_reference st' = nt_reference st"
proof -
  note r = represents_simps [OF assms(1)] and root = represents_root [OF assms(1)]
  show "n \<in> S \<Longrightarrow> nt_mark_spent st n = Inl (AlreadySpent n)"
    using r(5) [OF assms(2)] by (simp add: nt_mark_spent_def root)
  define upd where "upd = map (\<lambda>q. (q, subtree (spent_node (nt_reference st))
    (spent_leaves (nt_reference st) (insert n S)) (np_height q) (position_index q))) (spend_positions n)"
  have prep: "prepare_spend st n = Inr upd" unfolding upd_def by (rule prepare_spend_eq [OF assms])
  have "spend_positions n \<noteq> []" by (simp add: spend_positions_def)
  then have last: "snd (last upd) = spent_root (nt_reference st) (insert n S)"
    by (simp add: upd_def last_map last_spend_positions [OF assms(2)] root_position_ok spent_root_def)
  have "keys_ok (insert n S)" using r(3) assms(2) by (simp add: keys_ok_def)
  then have "sparse_root_from_elements (snd (last upd)) = Inr (encode_le32 (spent_root (nt_reference st) (insert n S)))"
    using spent_subtree_wf [OF r(2)] by (simp add: last sparse_root_from_elements_def digest_vector spent_root_def)
  note mark = nt_mark_spent_def [of st n] root prep this r(5) [OF assms(2)]
  show "nt_mark_spent st n = Inl NtCountOverflow" if "n \<notin> S" "2 ^ 64 \<le> Suc (card S)"
  proof -
    have "checked_add (nt_spent_count st) 1 = None" using that(2) r(6) by (simp add: checked_add_None_iff)
    then show ?thesis using that(1) by (simp add: mark)
  qed
  show "\<exists>st'. nt_mark_spent st n =
      Inr (\<lparr>nu_nullifier = n, nu_previous_root = encode_le32 (spent_root (nt_reference st) S),
            nu_root = encode_le32 (spent_root (nt_reference st) (insert n S))\<rparr>, st')
      \<and> represents st' (insert n S) \<and> nt_reference st' = nt_reference st"
    if new: "n \<notin> S" and bound: "Suc (card S) < 2 ^ 64"
  proof -
    obtain c where c: "checked_add (nt_spent_count st) 1 = Some c" "unat c = Suc (card S)"
      using bound r(6) checked_add_None_iff [of "nt_spent_count st" 1]
      by (cases "checked_add (nt_spent_count st) 1") (auto simp: checked_add_Some_iff)
    with new represents_mark [OF assms new c(2) upd_def] show ?thesis by (simp add: mark)
  qed
qed

text \<open>Sequences of spends: the step of the state machine and the set it maintains.\<close>

definition nt_spent_set :: "nullifier_tree \<Rightarrow> vector set" where
  "nt_spent_set st = {n. length n = 64 \<and> nt_is_spent st n}"

definition nt_step :: "nullifier_tree \<Rightarrow> vector \<Rightarrow> nullifier_tree_error + nullifier_tree" where
  "nt_step st n = and_then (nt_mark_spent st n) (\<lambda>(u, st'). Inr st')"

lemma nt_mark_all_steps: "nt_mark_all st ns = try_fold nt_step st ns"
  by (simp add: nt_mark_all_def nt_step_def [abs_def])

lemma represents_set: "represents st S \<Longrightarrow> nt_spent_set st = S"
  by (auto simp: nt_spent_set_def represents_def keys_ok_def)

lemma nt_step_Inr:
  assumes "represents st S" "length n = 64" "nt_step st n = Inr st'"
  shows "n \<notin> S" "represents st' (insert n S)" "nt_reference st' = nt_reference st"
proof -
  from assms(3) obtain u where u: "nt_mark_spent st n = Inr (u, st')"
    by (auto simp: nt_step_def and_then_eq_Inr)
  show new: "n \<notin> S" using mark_spent_eq(1) [OF assms(1,2)] u by auto
  have "Suc (card S) < 2 ^ 64" using mark_spent_eq(2) [OF assms(1,2) new] u by (force simp: not_less [symmetric])
  from mark_spent_eq(3) [OF assms(1,2) new this] u
  show "represents st' (insert n S)" "nt_reference st' = nt_reference st" by auto
qed

interpretation spent_machine: refined_machine nt_step "\<lambda>st. represents st (nt_spent_set st)"
  "\<lambda>n. length n = 64" nt_spent_set "\<lambda>S n. n \<notin> S" "\<lambda>S n. insert n S"
proof
  fix st n st'
  assume r: "represents st (nt_spent_set st)" and "length n = 64" "nt_step st n = Inr st'"
  note step = nt_step_Inr [OF this]
  with represents_set [OF step(2)] show "represents st' (nt_spent_set st')" by simp
  from step represents_set [OF step(2)]
  show "n \<notin> nt_spent_set st \<and> nt_spent_set st' = insert n (nt_spent_set st)" by simp
qed

lemma guarded_run_insert:
  "guarded_run (\<lambda>S n. n \<notin> S) (\<lambda>S n. insert n S) S ns =
    (if distinct ns \<and> set ns \<inter> S = {} then Some (set ns \<union> S) else None)"
  by (induction ns arbitrary: S) auto

lemma nt_mark_all_reference:
  "represents st S \<Longrightarrow> \<forall>n \<in> set ns. length n = 64 \<Longrightarrow> nt_mark_all st ns = Inr st' \<Longrightarrow>
    nt_reference st' = nt_reference st"
proof (induction ns arbitrary: st S)
  case (Cons n ns)
  then obtain st1 where "nt_step st n = Inr st1" "nt_mark_all st1 ns = Inr st'"
    by (auto simp: nt_mark_all_steps and_then_eq_Inr)
  with Cons nt_step_Inr [of st S n st1] show ?case by simp
qed (simp add: nt_mark_all_def)

lemma nt_mark_all_represents:
  assumes "represents st S" "\<forall>n \<in> set ns. length n = 64" "nt_mark_all st ns = Inr st'"
  shows "distinct ns" "set ns \<inter> S = {}" "represents st' (set ns \<union> S)"
proof -
  note set = represents_set [OF assms(1)]
  have run: "try_fold nt_step st ns = Inr st'" using assms(3) by (simp add: nt_mark_all_steps)
  have "represents st (nt_spent_set st)" using assms(1) set by simp
  note r = spent_machine.run_inv [OF run this assms(2)] spent_machine.run_refines [OF run this assms(2)]
  from r(2) show "distinct ns" "set ns \<inter> S = {}" by (auto simp: guarded_run_insert set split: if_splits)
  from r(2) have "nt_spent_set st' = set ns \<union> S" by (simp add: guarded_run_insert set split: if_splits)
  with r(1) show "represents st' (set ns \<union> S)" by simp
qed

lemma nt_mark_all_succeeds:
  assumes "represents st S" "\<forall>n \<in> set ns. length n = 64" "distinct ns" "set ns \<inter> S = {}"
    and "card S + length ns < 2 ^ 64"
  shows "\<exists>st'. nt_mark_all st ns = Inr st'"
  using assms
proof (induction ns arbitrary: st S)
  case Nil
  then show ?case by (simp add: nt_mark_all_def)
next
  case (Cons n ns)
  have len: "length n = 64" and new: "n \<notin> S" using Cons.prems by auto
  have "Suc (card S) < 2 ^ 64" using Cons.prems(5) by simp
  from mark_spent_eq(3) [OF Cons.prems(1) len new this] obtain st1
    where st1: "nt_step st n = Inr st1" "represents st1 (insert n S)" by (auto simp: nt_step_def)
  have "finite S" using represents_simps(3) [OF Cons.prems(1)] by (simp add: keys_ok_def)
  then have "card (insert n S) + length ns < 2 ^ 64" using new Cons.prems(5) by simp
  with Cons.IH [OF st1(2)] Cons.prems obtain st' where "nt_mark_all st1 ns = Inr st'" by auto
  with st1 show ?case by (simp add: nt_mark_all_steps)
qed

subsection \<open>Paths\<close>

lemma nr_root_from_path_eq:
  assumes "nr_wf N" "length n = 64" "digest_wf leaf" "\<forall>s \<in> set path. digest_wf s" "length path = 512"
  shows "nr_root_from_path N n leaf path = Inr (encode_le32 (climb (spent_node N) (key_index n) leaf path))"
proof -
  have "try_fold (\<lambda>current (level, sibling).
      and_then (nr_validate_digest sibling) (\<lambda>_.
        if path_bit n level then nr_node N sibling current else nr_node N current sibling))
      leaf (enumerate 0 path) = Inr (climb (spent_node N) (key_index n) leaf path)"
    using assms(2,5) by (intro spent_tree.climb_loop [OF assms(1,3,4)]) (simp_all add: path_bit_index)
  moreover have "digest_wf (climb (spent_node N) (key_index n) leaf path)"
    by (rule spent_tree.climb_total_wf [OF assms(1,3,4)])
  ultimately show ?thesis
    using assms(3,5) by (simp add: nr_root_from_path_def sparse_root_from_elements_def digest_vector)
qed

lemma nr_root_from_path_canonical:
  assumes "nr_root_from_path N n leaf path = Inr root" "s \<in> set path" "length s = 16"
  shows "digest_wf s" "length path = 512"
proof -
  let ?go = "\<lambda>current (level, sibling). and_then (nr_validate_digest sibling) (\<lambda>_.
      if path_bit n level then nr_node N sibling current else nr_node N current sibling)"
  have "\<forall>s \<in> set xs. \<forall>v \<in> set s. canonical v" if "try_fold ?go x (enumerate k xs) = Inr y" for x k xs y
    using that by (induction xs arbitrary: x k) (auto simp: and_then_eq_Inr)
  with assms show "digest_wf s" "length path = 512"
    by (auto simp: nr_root_from_path_def and_then_eq_Inr digest_wf_def split: if_splits)
qed

text \<open>The value of a stored leaf, and the path the state hands out.\<close>

lemma nt_prove_eq:
  assumes "represents st S" "length n = 64"
  shows "nt_prove st n = tree_path (spent_node (nt_reference st)) (spent_leaves (nt_reference st) S) 0 512 (key_index n)"
  using represents_siblings [OF assms(1) leaf_position_ok(1) [OF assms(2)], of 512] leaf_position_ok(2,3) [OF assms(2)]
  by (simp add: nt_prove_def)

lemma key_index_top: "length n = 64 \<Longrightarrow> key_index n div 2 ^ 512 = 0"
  using key_index_less [of n] by (simp add: div_eq_0_iff)

lemma nt_prove_root:
  assumes "represents st S" "length n = 64"
  shows "nr_root_from_path (nt_reference st) n (spent_leaves (nt_reference st) S (key_index n)) (nt_prove st n) =
    Inr (encode_le32 (spent_root (nt_reference st) S))"
proof -
  let ?N = "nt_reference st" and ?L = "spent_leaves (nt_reference st) S"
  note r = represents_simps [OF assms(1)] and path = nt_prove_eq [OF assms]
  have "climb (spent_node ?N) (key_index n) (?L (key_index n)) (nt_prove st n) = spent_root ?N S"
    using climb_tree_path [of "spent_node ?N" "key_index n" ?L 0 512] key_index_top [OF assms(2)]
    by (simp add: path spent_root_def)
  moreover have "\<forall>s \<in> set (nt_prove st n). digest_wf s"
    using spent_subtree_wf [OF r(2,3)] by (auto simp: path tree_path_def)
  ultimately show ?thesis
    using nr_root_from_path_eq [OF r(2) assms(2) spent_leaves_wf [OF r(2,3)]] by (simp add: path)
qed

lemma nt_verify_iff:
  assumes "represents st S" "length n = 64"
  shows "nt_verify_inclusion st root n path = Inr () \<longleftrightarrow>
      nr_root_from_path (nt_reference st) n (spent_leaf_of (nt_reference st) n) path = Inr root"
    and "nt_verify_absence st root n path = Inr () \<longleftrightarrow>
      nr_root_from_path (nt_reference st) n (unspent_leaf (nt_reference st)) path = Inr root"
  using represents_simps [OF assms(1)] spent_leaf_eq(1) [of "nt_reference st" n] assms(2)
  by (auto simp: nt_verify_inclusion_def nt_verify_absence_def nr_verify_inclusion_def
      nr_verify_absence_def and_then_eq_Inr nr_empty_at split: if_splits)

text \<open>A collision of the sparse tree's hashes: of two nodes, or of a spent leaf with the unspent one.\<close>

definition spent_collision :: "nullifier_reference \<Rightarrow> bool" where
  "spent_collision N \<longleftrightarrow> node_collision digest_wf (spent_node N)
     \<or> (\<exists>n. length n = 64 \<and> spent_leaf_of N n = unspent_leaf N)"

lemma encode_digest_inject:
  assumes "digest_wf a" "digest_wf b" "encode_le32 a = encode_le32 b"
  shows "a = b"
  using assms by (metis decode_encode_le32)

text \<open>A path to the root of the state proves the leaf the state has there.\<close>

lemma path_proves_leaf:
  assumes "represents st S" "length n = 64" "\<not> spent_collision (nt_reference st)"
    and "\<forall>s \<in> set path. length s = 16" "digest_wf leaf"
    and "nr_root_from_path (nt_reference st) n leaf path = Inr (encode_le32 (spent_root (nt_reference st) S))"
  shows "leaf = spent_leaves (nt_reference st) S (key_index n)"
proof -
  let ?N = "nt_reference st" and ?L = "spent_leaves (nt_reference st) S"
  note r = represents_simps [OF assms(1)] and path = nt_prove_eq [OF assms(1,2)]
  have good: "\<forall>s \<in> set path. digest_wf s" using nr_root_from_path_canonical(1) [OF assms(6)] assms(4) by blast
  have len: "length path = 512" using assms(6) by (simp add: nr_root_from_path_def split: if_splits)
  have good': "\<forall>s \<in> set (nt_prove st n). digest_wf s"
    using spent_subtree_wf [OF r(2,3)] by (auto simp: path tree_path_def)
  have root: "digest_wf (spent_root ?N S)" unfolding spent_root_def by (rule spent_subtree_wf [OF r(2,3)])
  have "climb (spent_node ?N) (key_index n) leaf path = spent_root ?N S"
    using assms(6) nr_root_from_path_eq [OF r(2) assms(2,5) good len] root
      spent_tree.climb_total_wf [OF r(2) assms(5) good] by (auto intro: encode_digest_inject)
  also have "\<dots> = climb (spent_node ?N) (key_index n) (?L (key_index n)) (nt_prove st n)"
    using climb_tree_path [of "spent_node ?N" "key_index n" ?L 0 512] key_index_top [OF assms(2)]
    by (simp add: path spent_root_def)
  finally have "leaf = ?L (key_index n) \<and> path = nt_prove st n"
    using spent_tree.path_binds [OF r(2) _ _ assms(5) spent_leaves_wf [OF r(2,3)] good good'] len assms(3)
    by (simp add: path spent_collision_def)
  then show ?thesis by simp
qed

subsection \<open>Properties\<close>

text \<open>C35: The sparse nullifier tree is a set of spent nullifiers. From a new tree a sequence of
  spends succeeds exactly when no nullifier occurs twice (below the range of the counter); it then
  reports as spent exactly those nullifiers, counts them, and its root is the root of the complete
  tree of depth 512 over the set, whatever the order of the spends.\<close>

theorem nullifier_tree_is_a_set:
  assumes "nt_new_candidate env = Inr st0" and "\<forall>n \<in> set ns. length n = 64" and "length ns < 2 ^ 64"
  shows "((\<exists>st. nt_mark_all st0 ns = Inr st) \<longleftrightarrow> distinct ns)
    \<and> (\<forall>st. nt_mark_all st0 ns = Inr st \<longrightarrow> nt_spent_set st = set ns
          \<and> unat (nt_spent_count st) = length ns
          \<and> nt_root st = Inr (encode_le32 (spent_root (nt_reference st0) (set ns))))"
proof (intro conjI allI impI)
  note new = represents_new(1) [OF assms(1)]
  note run = nt_mark_all_represents [OF new assms(2)] and ref = nt_mark_all_reference [OF new assms(2)]
  show "(\<exists>st. nt_mark_all st0 ns = Inr st) \<longleftrightarrow> distinct ns"
    using run(1) nt_mark_all_succeeds [OF new assms(2)] assms(3) by auto
  fix st assume ok: "nt_mark_all st0 ns = Inr st"
  have r: "represents st (set ns)" using run(3) [OF ok] by simp
  show "nt_spent_set st = set ns" by (rule represents_set [OF r])
  show "unat (nt_spent_count st) = length ns"
    using represents_simps(6) [OF r] distinct_card [OF run(1) [OF ok]] by simp
  show "nt_root st = Inr (encode_le32 (spent_root (nt_reference st0) (set ns)))"
    using represents_root [OF r] ref [OF ok] by simp
qed

text \<open>The example candidate gives a tree.\<close>

lemma nt_new_sample: "\<exists>st. nt_new_candidate sample_env = Inr st"
proof -
  let ?M = "\<lparr>nr_permutation = sample_reference, nr_leaf_iv = replicate 9 1, nr_node_iv = replicate 9 1,
    nr_empty_iv = replicate 9 1, nr_empty_values = []\<rparr>"
  have "nr_iv ?M role = replicate 9 1" for role by (cases role) simp_all
  then have M: "nr_wf ?M" by (simp add: nr_wf_def iv_wf_def)
  obtain vs where "nr_derive_empty_values ?M = Inr vs"
    using nr_empty_from_eq [OF M, of 0 512] unspent_leaf_eq(1) [OF M] by (simp add: nr_derive_empty_values_def)
  moreover obtain bs where "sparse_encode sample_env = Inr bs" using sample_sparse_encode by blast
  ultimately show ?thesis
    by (simp add: nt_new_candidate_def nr_load_candidate_def load_sample sample_sparse_iv Let_def)
qed

theorem nullifier_tree_is_a_set_witness:
  "\<exists>st0 st. nt_new_candidate sample_env = Inr st0
    \<and> nt_mark_all st0 [replicate 64 1, replicate 64 2] = Inr st
    \<and> nt_spent_set st = {replicate 64 1, replicate 64 2}
    \<and> \<not> (\<exists>st. nt_mark_all st0 [replicate 64 1, replicate 64 2, replicate 64 1] = Inr st)"
proof -
  obtain st0 where st0: "nt_new_candidate sample_env = Inr st0" using nt_new_sample by blast
  have neq: "replicate 64 (1 :: byte) \<noteq> replicate 64 2" by (simp add: replicate_eq_replicate)
  note t = nullifier_tree_is_a_set [OF st0]
  from t [of "[replicate 64 1, replicate 64 2]"] neq obtain st
    where "nt_mark_all st0 [replicate 64 1, replicate 64 2] = Inr st"
      "nt_spent_set st = {replicate 64 1, replicate 64 2}" by auto
  with t [of "[replicate 64 1, replicate 64 2, replicate 64 1]"] st0 show ?thesis by auto
qed



end
