(* ===== verification/Private_State.thy ===== *)
theory Private_State
  imports Nullifier_Tree
begin

text \<open>
  The candidate private state of \<^verbatim>\<open>crates/noxis-private-state\<close>: snapshots of note commitments and
  spent nullifiers with the depth-32 note root (\<^verbatim>\<open>lib.rs\<close>), the state anchors \<open>NXPS v1\<close> and
  \<open>v2\<close> with their identities (\<^verbatim>\<open>state_anchor.rs\<close>, \<^verbatim>\<open>state_anchor_v2.rs\<close>) and the transparent
  two-by-two transition (\<^verbatim>\<open>transition_v2.rs\<close>). A \<^verbatim>\<open>BTreeMap\<close> that is only filled in key order is the
  list of its entries. An \<^verbatim>\<open>expect\<close> is an error value of its own.
\<close>

declare upt_rec_numeral [simp del]

unbundle bit_operations_syntax

subsection \<open>Snapshots\<close>

datatype private_state_error =
  PsTree p24_reference_error
| PsCandidate p24_candidate_error
| PsPublicValue privacy_types_error
| PsTooManyCommitments nat
| PsDuplicateCommitment
| PsDuplicateNullifier
| PsPanic

record private_snapshot =
  ps_commitments :: "vector list"
  ps_spent_nullifiers :: "vector list"
  ps_root :: vector

text \<open>One level of the note tree: the parents of the stored nodes, missing children being empty.\<close>

definition note_level ::
  "candidate_env \<Rightarrow> p24_reference \<Rightarrow> digest \<Rightarrow> (u32 \<times> digest) list
    \<Rightarrow> private_state_error + (u32 \<times> digest) list" where
  "note_level env R empty_value nodes =
     (let parents = sorted_list_of_set (set (map (\<lambda>(index, _). drop_bit 1 index) nodes));
          get = (\<lambda>index. case map_of nodes index of Some d \<Rightarrow> d | None \<Rightarrow> empty_value)
      in collect_results (\<lambda>parent.
           and_then (map_err PsTree
             (ref_node (env, R) (get (push_bit 1 parent)) (get (push_bit 1 parent OR 1))))
             (\<lambda>d. Inr (parent, d)))
           parents)"

definition root_for_commitments ::
  "candidate_env \<Rightarrow> p24_reference \<Rightarrow> vector list \<Rightarrow> private_state_error + digest" where
  "root_for_commitments env R commitments =
     and_then (map_err PsTree (ref_empty_values env R)) (\<lambda>empty_values.
       if commitments = [] then Inr (empty_values ! 32)
       else
         and_then (collect_results (\<lambda>(index, commitment).
             and_then (ok_or (try_from_usize index) PsPanic) (\<lambda>i :: u32.
             and_then (map_err PsTree (ref_leaf env R (vector_elements commitment))) (\<lambda>d.
               Inr (i, d))))
           (enumerate 0 commitments)) (\<lambda>nodes.
         and_then (try_fold (\<lambda>nodes empty_value. note_level env R empty_value nodes)
             nodes (take 32 empty_values)) (\<lambda>nodes.
           ok_or (map_of nodes 0) PsPanic)))"

text \<open>\<^verbatim>\<open>windows(2).any(|pair| pair[0] == pair[1])\<close>.\<close>

definition adjacent_equal :: "'a list \<Rightarrow> bool" where
  "adjacent_equal xs = (\<exists>i < length xs - 1. xs ! i = xs ! Suc i)"

definition private_snapshot_new ::
  "candidate_env \<Rightarrow> p24_reference \<Rightarrow> vector list \<Rightarrow> vector list \<Rightarrow> private_state_error + private_snapshot" where
  "private_snapshot_new env R commitments nullifiers =
     (if 1024 < length commitments then Inl (PsTooManyCommitments (length commitments))
      else if card (set commitments) \<noteq> length commitments then Inl PsDuplicateCommitment
      else let spent = sort nullifiers
        in if adjacent_equal spent then Inl PsDuplicateNullifier
           else and_then (root_for_commitments env R commitments) (\<lambda>d.
             and_then (map_err PsPublicValue (vector_from_elements d)) (\<lambda>root.
               Inr \<lparr>ps_commitments = commitments, ps_spent_nullifiers = spent, ps_root = root\<rparr>)))"

definition ps_is_spent :: "private_snapshot \<Rightarrow> vector \<Rightarrow> bool" where
  "ps_is_spent s nullifier \<longleftrightarrow>
     binary_search_by_key (\<lambda>n. n) (ps_spent_nullifiers s) nullifier 0 (length (ps_spent_nullifiers s)) \<noteq> None"

definition private_state_id_input :: "private_snapshot \<Rightarrow> id32 \<Rightarrow> u32 \<Rightarrow> u32 \<Rightarrow> bytes" where
  "private_state_id_input s candidate commitments nullifiers =
     nul_terminated ''NOXIS/PRIVATE-STATE-CANDIDATE-ID/V1'' @ to_be_bytes candidate @ ps_root s
     @ to_be_bytes commitments @ concat (ps_commitments s)
     @ to_be_bytes nullifiers @ concat (ps_spent_nullifiers s)"

definition private_state_id :: "candidate_env \<Rightarrow> private_snapshot \<Rightarrow> private_state_error + id32" where
  "private_state_id env s =
     and_then (map_err PsCandidate (p24_candidate_id env)) (\<lambda>candidate.
     and_then (ok_or (try_from_usize (length (ps_commitments s))) PsPanic) (\<lambda>commitments.
     and_then (ok_or (try_from_usize (length (ps_spent_nullifiers s))) PsPanic) (\<lambda>nullifiers.
       Inr (ce_sha env (private_state_id_input s candidate commitments nullifiers)))))"

subsection \<open>The first anchor\<close>

datatype private_anchor_error =
  GenesisMismatch
| ValidationContextMismatch
| TreeParametersMismatch
| NoteRootMismatch
| StateIdMismatch

record private_anchor1 =
  a1_genesis_id :: genesis_id
  a1_validation_context_id :: validation_context_id
  a1_tree_parameters :: id32
  a1_next_leaf_index :: u64
  a1_note_root :: vector
  a1_spent_nullifier_count :: u64
  a1_nullifier_set_commitment :: id32
  a1_state_id :: state_id

definition nullifier_set_input :: "vector list \<Rightarrow> bytes" where
  "nullifier_set_input nullifiers =
     nul_terminated ''NOXIS/PRIVATE-NULLIFIER-SET/V1'' @ to_be_bytes (of_nat (length nullifiers) :: u64)
     @ concat nullifiers"

definition nullifier_set_commitment :: "sha256 \<Rightarrow> vector list \<Rightarrow> id32" where
  "nullifier_set_commitment sha nullifiers = sha (nullifier_set_input nullifiers)"

definition a1_encode :: "private_anchor1 \<Rightarrow> bytes" where
  "a1_encode a =
     ascii ''NXPS'' @ to_be_bytes (1 :: u16) @ [0, 0] @ to_be_bytes (a1_genesis_id a)
     @ to_be_bytes (a1_validation_context_id a) @ to_be_bytes (a1_tree_parameters a)
     @ [32, 2, 1, 1] @ to_be_bytes (a1_next_leaf_index a) @ a1_note_root a
     @ to_be_bytes (a1_spent_nullifier_count a) @ to_be_bytes (a1_nullifier_set_commitment a)"

definition a1_new ::
  "sha256 \<Rightarrow> genesis_id \<Rightarrow> validation_context_id \<Rightarrow> id32 \<Rightarrow> private_snapshot \<Rightarrow> private_anchor1" where
  "a1_new sha genesis context tree_parameters s =
     (let a = \<lparr>a1_genesis_id = genesis, a1_validation_context_id = context,
                a1_tree_parameters = tree_parameters,
                a1_next_leaf_index = of_nat (length (ps_commitments s)), a1_note_root = ps_root s,
                a1_spent_nullifier_count = of_nat (length (ps_spent_nullifiers s)),
                a1_nullifier_set_commitment = nullifier_set_commitment sha (ps_spent_nullifiers s),
                a1_state_id = 0\<rparr>
      in a\<lparr>a1_state_id := sha (nul_terminated ''NOXIS/PRIVATE-STATE-ID/V1'' @ a1_encode a)\<rparr>)"

definition a1_assert_matches_intent :: "private_anchor1 \<Rightarrow> private_intent \<Rightarrow> private_anchor_error + unit" where
  "a1_assert_matches_intent a intent =
     (if pi_genesis_id intent \<noteq> a1_genesis_id a then Inl GenesisMismatch
      else if pi_validation_context_id intent \<noteq> a1_validation_context_id a then Inl ValidationContextMismatch
      else if pi_tree_parameters intent \<noteq> a1_tree_parameters a then Inl TreeParametersMismatch
      else if pi_pre_state_root intent \<noteq> a1_note_root a then Inl NoteRootMismatch
      else if pi_pre_state_id intent \<noteq> a1_state_id a then Inl StateIdMismatch
      else Inr ())"

subsection \<open>The second anchor\<close>

datatype private_anchor2_error =
  A2Candidate sparse_candidate_error
| A2SparseTree nullifier_tree_error
| A2SpentCountMismatch u64 u64
| A2NullifierRootMismatch

record private_anchor =
  pa_genesis_id :: genesis_id
  pa_validation_context_id :: validation_context_id
  pa_note_tree_parameters :: id32
  pa_nullifier_tree_candidate :: id32
  pa_next_leaf_index :: u64
  pa_note_root :: vector
  pa_spent_nullifier_count :: u64
  pa_nullifier_root :: sparse_root
  pa_state_id :: state_id

definition verify_snapshot_tree ::
  "candidate_env \<Rightarrow> private_snapshot \<Rightarrow> nullifier_tree \<Rightarrow> private_anchor2_error + sparse_root" where
  "verify_snapshot_tree env s tree =
     (let snapshot_count = of_nat (length (ps_spent_nullifiers s))
      in if nt_spent_count tree \<noteq> snapshot_count
         then Inl (A2SpentCountMismatch snapshot_count (nt_spent_count tree))
         else
           and_then (map_err A2SparseTree (nt_new_candidate env)) (\<lambda>rebuilt.
           and_then (map_err A2SparseTree (nt_mark_all rebuilt (ps_spent_nullifiers s))) (\<lambda>rebuilt.
           and_then (map_err A2SparseTree (nt_root rebuilt)) (\<lambda>expected_root.
           and_then (map_err A2SparseTree (nt_root tree)) (\<lambda>supplied_root.
             if supplied_root \<noteq> expected_root then Inl A2NullifierRootMismatch
             else Inr supplied_root)))))"

definition pa_encode :: "private_anchor \<Rightarrow> bytes" where
  "pa_encode a =
     ascii ''NXPS'' @ to_be_bytes (2 :: u16) @ [0, 0] @ to_be_bytes (pa_genesis_id a)
     @ to_be_bytes (pa_validation_context_id a) @ to_be_bytes (pa_note_tree_parameters a)
     @ [32, 2, 1] @ to_be_bytes (pa_nullifier_tree_candidate a)
     @ to_be_bytes (512 :: u16) @ [1, 1, 0] @ to_be_bytes (pa_next_leaf_index a) @ pa_note_root a
     @ to_be_bytes (pa_spent_nullifier_count a) @ pa_nullifier_root a"

definition pa_id_input :: "private_anchor \<Rightarrow> bytes" where
  "pa_id_input a = nul_terminated ''NOXIS/PRIVATE-STATE-ID/V2'' @ pa_encode a"

definition pa_new ::
  "candidate_env \<Rightarrow> genesis_id \<Rightarrow> validation_context_id \<Rightarrow> id32 \<Rightarrow> private_snapshot \<Rightarrow> nullifier_tree
    \<Rightarrow> private_anchor2_error + private_anchor" where
  "pa_new env genesis context tree_parameters s tree =
     and_then (verify_snapshot_tree env s tree) (\<lambda>nullifier_root.
     and_then (map_err A2Candidate (sparse_candidate_id env)) (\<lambda>candidate.
       let a = \<lparr>pa_genesis_id = genesis, pa_validation_context_id = context,
                 pa_note_tree_parameters = tree_parameters, pa_nullifier_tree_candidate = candidate,
                 pa_next_leaf_index = of_nat (length (ps_commitments s)), pa_note_root = ps_root s,
                 pa_spent_nullifier_count = nt_spent_count tree, pa_nullifier_root = nullifier_root,
                 pa_state_id = 0\<rparr>
       in Inr (a\<lparr>pa_state_id := ce_sha env (pa_id_input a)\<rparr>)))"

definition pa_assert_matches_intent :: "private_anchor \<Rightarrow> private_intent \<Rightarrow> private_anchor_error + unit" where
  "pa_assert_matches_intent a intent =
     (if pi_genesis_id intent \<noteq> pa_genesis_id a then Inl GenesisMismatch
      else if pi_validation_context_id intent \<noteq> pa_validation_context_id a then Inl ValidationContextMismatch
      else if pi_tree_parameters intent \<noteq> pa_note_tree_parameters a then Inl TreeParametersMismatch
      else if pi_pre_state_root intent \<noteq> pa_note_root a then Inl NoteRootMismatch
      else if pi_pre_state_id intent \<noteq> pa_state_id a then Inl StateIdMismatch
      else Inr ())"

subsection \<open>The transition\<close>

datatype private_transition_error =
  TrSnapshot private_state_error
| TrPreAnchor private_anchor2_error
| TrIntent private_anchor_error
| TrSparseTree nullifier_tree_error
| TrPreAnchorMismatch
| TrInputAlreadySpent nat
| TrPostStateMismatch

record private_transition =
  pt_pre_anchor :: private_anchor
  pt_post_anchor :: private_anchor
  pt_post_snapshot :: private_snapshot
  pt_post_tree :: nullifier_tree

definition pair_list :: "'a \<times> 'a \<Rightarrow> 'a list" where
  "pair_list p = [fst p, snd p]"

definition check_unspent :: "nullifier_tree \<Rightarrow> vector list \<Rightarrow> private_transition_error + unit" where
  "check_unspent tree nullifiers =
     try_fold (\<lambda>_ (index, nullifier).
         if nt_is_spent tree nullifier then Inl (TrInputAlreadySpent index) else Inr ())
       () (enumerate 0 nullifiers)"

definition transition_apply ::
  "candidate_env \<Rightarrow> p24_reference \<Rightarrow> private_anchor \<Rightarrow> private_snapshot \<Rightarrow> nullifier_tree \<Rightarrow> private_intent
    \<Rightarrow> private_transition_error + private_transition" where
  "transition_apply env R pre_anchor pre_snapshot pre_tree intent =
     and_then (map_err TrPreAnchor (pa_new env (pa_genesis_id pre_anchor) (pa_validation_context_id pre_anchor)
       (pa_note_tree_parameters pre_anchor) pre_snapshot pre_tree)) (\<lambda>rebuilt.
     if rebuilt \<noteq> pre_anchor then Inl TrPreAnchorMismatch
     else and_then (map_err TrIntent (pa_assert_matches_intent pre_anchor intent)) (\<lambda>_.
     and_then (check_unspent pre_tree (pair_list (pi_nullifiers intent))) (\<lambda>_.
     and_then (map_err TrSparseTree (nt_mark_all pre_tree (pair_list (pi_nullifiers intent)))) (\<lambda>post_tree.
     and_then (map_err TrSnapshot (private_snapshot_new env R
         (ps_commitments pre_snapshot @ pair_list (output_commitments intent))
         (ps_spent_nullifiers pre_snapshot @ pair_list (pi_nullifiers intent)))) (\<lambda>post_snapshot.
     and_then (map_err TrPreAnchor (pa_new env (pa_genesis_id pre_anchor) (pa_validation_context_id pre_anchor)
         (pa_note_tree_parameters pre_anchor) post_snapshot post_tree)) (\<lambda>post_anchor.
       Inr \<lparr>pt_pre_anchor = pre_anchor, pt_post_anchor = post_anchor,
            pt_post_snapshot = post_snapshot, pt_post_tree = post_tree\<rparr>))))))"

definition transition_revalidate ::
  "candidate_env \<Rightarrow> p24_reference \<Rightarrow> private_transition \<Rightarrow> private_anchor \<Rightarrow> private_snapshot
    \<Rightarrow> nullifier_tree \<Rightarrow> private_intent \<Rightarrow> private_transition_error + unit" where
  "transition_revalidate env R t pre_anchor pre_snapshot pre_tree intent =
     and_then (transition_apply env R pre_anchor pre_snapshot pre_tree intent) (\<lambda>expected.
       if pt_pre_anchor expected \<noteq> pt_pre_anchor t \<or> pt_post_anchor expected \<noteq> pt_post_anchor t
         \<or> pt_post_snapshot expected \<noteq> pt_post_snapshot t
       then Inl TrPostStateMismatch
       else
         and_then (map_err TrSparseTree (nt_root (pt_post_tree expected))) (\<lambda>expected_root.
         and_then (map_err TrSparseTree (nt_root (pt_post_tree t))) (\<lambda>root.
           if expected_root \<noteq> root \<or> nt_spent_count (pt_post_tree expected) \<noteq> nt_spent_count (pt_post_tree t)
           then Inl TrPostStateMismatch
           else Inr ())))"

subsection \<open>The note root is the root of the complete tree\<close>

lemma map_of_keys:
  assumes "inj_on g A" "set xs \<subseteq> A" "x \<in> A"
  shows "map_of (map (\<lambda>x. (g x, f x)) xs) (g x) = (if x \<in> set xs then Some (f x) else None)"
  using assms(2) by (induction xs) (use assms(1,3) in \<open>auto dest: inj_onD\<close>)

lemma small_index_inj: "inj_on (of_nat :: nat \<Rightarrow> u32) {..<4096}"
proof (rule inj_onI)
  fix i j :: nat assume ij: "i \<in> {..<4096}" "j \<in> {..<4096}" and eq: "(of_nat i :: u32) = of_nat j"
  have "unat (of_nat i :: u32) = unat (of_nat j :: u32)" by (simp only: eq)
  with ij show "i = j" by (simp add: unat_of_nat)
qed

lemma small_index_half: "i < 4096 \<Longrightarrow> drop_bit 1 (of_nat i :: u32) = of_nat (i div 2)"
proof -
  assume i: "i < 4096"
  then have "unat (drop_bit 1 (of_nat i :: u32)) = unat (of_nat (i div 2) :: u32)"
    by (simp only: unat_drop_bit_eq) (simp add: drop_bit_eq_div unat_of_nat)
  then show ?thesis by (simp only: word_unat_eq_iff)
qed

lemma small_index_double:
  "push_bit 1 (of_nat i :: u32) = of_nat (2 * i)" "push_bit 1 (of_nat i :: u32) OR 1 = of_nat (2 * i + 1)"
  by (simp_all add: push_bit_eq_mult or_one_eq mult.commute)

lemma parents_of_level:
  assumes "n \<le> 1024"
  shows "sorted_list_of_set ((\<lambda>i. of_nat (i div 2) :: u32) ` {0..<n}) = map of_nat [0..<(n + 1) div 2]"
proof -
  have "(\<lambda>i. i div 2) ` {0..<n} = {0..<(n + 1) div 2}"
  proof (intro subset_antisym subsetI)
    fix j assume "j \<in> {0..<(n + 1) div 2}"
    then have "2 * j \<in> {0..<n}" "j = 2 * j div 2" by auto
    then show "j \<in> (\<lambda>i. i div 2) ` {0..<n}" by (rule image_eqI [rotated])
  qed auto
  then have "(\<lambda>i. of_nat (i div 2) :: u32) ` {0..<n} = set (map of_nat [0..<(n + 1) div 2])"
    by (metis (no_types) image_image set_map set_upt)
  moreover have "sorted_wrt (<) (map of_nat [0..<(n + 1) div 2] :: u32 list)"
    using assms by (auto simp: sorted_wrt_iff_nth_less word_less_nat_alt unat_of_nat)
  ultimately show ?thesis
    by (simp only: strict_sorted_iff sorted_list_of_set.idem_if_sorted_distinct)
qed

lemma note_level_eq:
  assumes load: "load_candidate env = Inr R" and xs: "\<forall>x \<in> set xs. digest_wf x"
    and "length xs \<le> 1024"
  defines "nodes k \<equiv> map (\<lambda>i. (of_nat i :: u32, subtree (node_of env R) (padded xs (empty_base env R)) k i))
    [0..<level_width k (length xs)]"
  shows "note_level env R (empty_at (node_of env R) (empty_base env R) k) (nodes k) = Inr (nodes (Suc k))"
proof -
  let ?f = "node_of env R" and ?e = "empty_base env R"
  let ?S = "subtree ?f (padded xs ?e) k" and ?n = "level_width k (length xs)"
  have "level_width k m \<le> m" for m by (induction k) auto
  then have n: "?n \<le> 1024" using assms(3) by (meson order_trans)
  then have sub: "set [0..<?n] \<subseteq> {..<4096}" by auto
  have S: "digest_wf (?S j)" for j
    using note_tree.subtree_total_wf [of "(env, R)"] load xs empty_base_eq(2) [OF load] by (auto simp: padded_def)
  have "map_of (nodes k) (of_nat i) = (if i < ?n then Some (?S i) else None)" if "i < 4096" for i
    unfolding nodes_def using map_of_keys [OF small_index_inj sub, of i ?S] that by simp
  then have get: "(case map_of (nodes k) (of_nat i) of Some d \<Rightarrow> d | None \<Rightarrow> empty_at ?f ?e k) = ?S i"
    if "i < 4096" for i
    using that by (simp add: subtree_empty)
  have "set (map (\<lambda>(index, _). drop_bit 1 index) (nodes k)) = (\<lambda>i. of_nat (i div 2)) ` {0..<?n}"
    unfolding nodes_def set_map set_upt image_image prod.case
    by (rule image_cong [OF refl]) (rule small_index_half, use n in simp)
  then have "sorted_list_of_set (set (map (\<lambda>(index, _). drop_bit 1 index) (nodes k))) =
      map of_nat [0..<level_width (Suc k) (length xs)]"
    using parents_of_level [OF n] by simp
  moreover have "collect_results (\<lambda>parent. and_then (map_err PsTree (ref_node (env, R)
        (case map_of (nodes k) (push_bit 1 parent) of Some d \<Rightarrow> d | None \<Rightarrow> empty_at ?f ?e k)
        (case map_of (nodes k) (push_bit 1 parent OR 1) of Some d \<Rightarrow> d | None \<Rightarrow> empty_at ?f ?e k)))
      (\<lambda>d. Inr (parent, d))) (map of_nat [0..<level_width (Suc k) (length xs)]) = Inr (nodes (Suc k))"
    unfolding nodes_def [of "Suc k"]
  proof (rule collect_results_map, rule ballI)
    fix i assume "i \<in> set [0..<level_width (Suc k) (length xs)]"
    then have i: "2 * i < 4096" "2 * i + 1 < 4096" using n by auto
    show "and_then (map_err PsTree (ref_node (env, R)
        (case map_of (nodes k) (push_bit 1 (of_nat i)) of Some d \<Rightarrow> d | None \<Rightarrow> empty_at ?f ?e k)
        (case map_of (nodes k) (push_bit 1 (of_nat i) OR 1) of Some d \<Rightarrow> d | None \<Rightarrow> empty_at ?f ?e k)))
      (\<lambda>d. Inr (of_nat i, d)) = Inr (of_nat i, subtree ?f (padded xs ?e) (Suc k) i)"
      unfolding small_index_double(2) unfolding small_index_double(1) get [OF i(1)] get [OF i(2)]
      using S load by (simp add: node_of_eq)
  qed
  ultimately show ?thesis unfolding note_level_def Let_def by (simp only:)
qed

lemma note_levels_eq:
  assumes "load_candidate env = Inr R" "\<forall>x \<in> set xs. digest_wf x" "length xs \<le> 1024"
  defines "nodes k \<equiv> map (\<lambda>i. (of_nat i :: u32, subtree (node_of env R) (padded xs (empty_base env R)) k i))
    [0..<level_width k (length xs)]"
  shows "try_fold (\<lambda>nodes e. note_level env R e nodes) (nodes k)
      (map (empty_at (node_of env R) (empty_base env R)) [k..<k + m]) = Inr (nodes (k + m))"
proof (induction m arbitrary: k)
  case (Suc m)
  have "[k..<k + Suc m] = k # [Suc k..<Suc k + m]" by (simp add: upt_conv_Cons del: upt_Suc)
  then show ?case
    using Suc [of "Suc k"] note_level_eq [OF assms(1-3), of k] unfolding nodes_def
    by (simp del: upt_Suc level_width.simps subtree.simps)
qed simp

lemma enumerate_upt: "enumerate 0 xs = map (\<lambda>i. (i, xs ! i)) [0..<length xs]"
  by (rule nth_equalityI) (simp_all add: nth_enumerate_eq)

lemma vector_digest: "vector_wf v \<Longrightarrow> digest_wf (vector_elements v)"
  using vector_elements_wf [of v] by (simp add: vector_wf_def digest_wf_def vector_elements_def)

definition commitments_root :: "candidate_env \<Rightarrow> p24_reference \<Rightarrow> vector list \<Rightarrow> digest" where
  "commitments_root env R cs = note_root env R (map vector_elements cs)"

lemma commitments_root_wf:
  "load_candidate env = Inr R \<Longrightarrow> \<forall>c \<in> set cs. vector_wf c \<Longrightarrow> digest_wf (commitments_root env R cs)"
  unfolding commitments_root_def note_root_def by (rule note_subtree_wf) (auto simp: vector_digest)

lemma root_for_commitments_eq:
  assumes load: "load_candidate env = Inr R" and cs: "\<forall>c \<in> set cs. vector_wf c" and len: "length cs \<le> 1024"
  shows "root_for_commitments env R cs = Inr (commitments_root env R cs)"
proof (cases "cs = []")
  case True
  then have "root_for_commitments env R cs = map_err PsTree (small_tree_root env R [])"
    using ref_empty_values_eq [OF load] by (simp add: root_for_commitments_def small_tree_root_def)
  with True small_tree_root_eq [OF load, of "[]"] show ?thesis by (simp add: commitments_root_def)
next
  case False
  let ?f = "node_of env R" and ?e = "empty_base env R"
  let ?xs = "map (leaf_of env R) (map vector_elements cs)"
  let ?nodes = "\<lambda>k. map (\<lambda>i. (of_nat i :: u32, subtree ?f (padded ?xs ?e) k i)) [0..<level_width k (length ?xs)]"
  have wf: "\<forall>x \<in> set ?xs. digest_wf x" using leaf_of_eq(2) [OF load] cs vector_digest by auto
  have "collect_results (\<lambda>(index, commitment).
      and_then (ok_or (try_from_usize index) PsPanic) (\<lambda>i :: u32.
      and_then (map_err PsTree (ref_leaf env R (vector_elements commitment))) (\<lambda>d. Inr (i, d))))
      (enumerate 0 cs) = Inr (?nodes 0)"
    unfolding enumerate_upt length_map level_width.simps
    by (rule collect_results_map)
      (use leaf_of_eq(1) [OF load] cs vector_digest len in \<open>auto simp: try_from_usize_small padded_def\<close>)
  moreover have "try_fold (\<lambda>nodes e. note_level env R e nodes) (?nodes 0) (map (empty_at ?f ?e) [0..<32]) =
      Inr (?nodes 32)"
    using note_levels_eq [OF load wf, of 0 32] len by simp
  moreover have "level_width 32 (length ?xs) = 1" using False len by (intro level_width_top) auto
  then have "map_of (?nodes 32) 0 = Some (commitments_root env R cs)"
    by (simp add: commitments_root_def note_root_def note_leaves_def)
  ultimately show ?thesis
    using False ref_empty_values_eq [OF load] by (simp add: root_for_commitments_def empty_upt)
qed

subsection \<open>Well-formed snapshots\<close>

lemma adjacent_equal_iff:
  fixes xs :: "'a::linorder list"
  assumes "sorted xs"
  shows "adjacent_equal xs \<longleftrightarrow> \<not> distinct xs"
proof
  assume "adjacent_equal xs"
  then obtain i where "i < length xs - 1" "xs ! i = xs ! Suc i" by (auto simp: adjacent_equal_def)
  moreover from this(1) have "i < length xs" "Suc i < length xs" by linarith+
  ultimately show "\<not> distinct xs" using nth_eq_iff_index_eq [of xs i "Suc i"] by auto
next
  assume "\<not> distinct xs"
  then obtain i j where ij: "i < j" "j < length xs" "xs ! i = xs ! j"
    unfolding distinct_conv_nth by (metis linorder_neqE_nat)
  then have "xs ! i \<le> xs ! Suc i" "xs ! Suc i \<le> xs ! j"
    using sorted_nth_mono [OF assms, of i "Suc i"] sorted_nth_mono [OF assms, of "Suc i" j] by auto
  with ij have "i < length xs - 1" "xs ! i = xs ! Suc i" by auto
  then show "adjacent_equal xs" by (auto simp: adjacent_equal_def)
qed

text \<open>The snapshot of a list of commitments and a set of spent nullifiers.\<close>

definition snapshot_of :: "candidate_env \<Rightarrow> p24_reference \<Rightarrow> vector list \<Rightarrow> vector set \<Rightarrow> private_snapshot" where
  "snapshot_of env R cs S =
     \<lparr>ps_commitments = cs, ps_spent_nullifiers = sorted_list_of_set S,
      ps_root = encode_le32 (commitments_root env R cs)\<rparr>"

definition notes_ok :: "vector list \<Rightarrow> bool" where
  "notes_ok cs \<longleftrightarrow> length cs \<le> 1024 \<and> distinct cs \<and> (\<forall>c \<in> set cs. vector_wf c)"

lemma private_snapshot_new_eq:
  assumes load: "load_candidate env = Inr R" and cs: "\<forall>c \<in> set cs. vector_wf c"
  shows "private_snapshot_new env R cs ns =
    (if 1024 < length cs then Inl (PsTooManyCommitments (length cs))
     else if \<not> distinct cs then Inl PsDuplicateCommitment
     else if \<not> distinct ns then Inl PsDuplicateNullifier
     else Inr (snapshot_of env R cs (set ns)))"
proof -
  have "card (set cs) = length cs \<longleftrightarrow> distinct cs" by (auto simp: card_distinct distinct_card)
  moreover have "adjacent_equal (sort ns) \<longleftrightarrow> \<not> distinct ns" by (simp add: adjacent_equal_iff)
  moreover have "sort ns = sorted_list_of_set (set ns)" if "distinct ns"
    using that by (simp add: sorted_list_of_set_sort_remdups distinct_remdups_id)
  ultimately show ?thesis
    using root_for_commitments_eq [OF load cs] digest_vector [OF commitments_root_wf [OF load cs]]
    by (simp add: private_snapshot_new_def snapshot_of_def)
qed

lemma binary_search_member:
  assumes "sorted_wrt (<) xs"
  shows "binary_search_by_key (\<lambda>n. n) xs k 0 (length xs) \<noteq> None \<longleftrightarrow> k \<in> set xs"
  using binary_search_spec [of "\<lambda>n. n" xs "length xs", where k = k and lo = 0] assms
  by (auto simp: in_set_conv_nth split: option.splits)

lemma ps_is_spent_iff: "finite S \<Longrightarrow> ps_is_spent (snapshot_of env R cs S) n \<longleftrightarrow> n \<in> S"
  using binary_search_member [of "sorted_list_of_set S" n] by (simp add: ps_is_spent_def snapshot_of_def)

subsection \<open>The anchor of a state\<close>

definition anchor_of ::
  "candidate_env \<Rightarrow> p24_reference \<Rightarrow> nullifier_reference \<Rightarrow> id32 \<Rightarrow> genesis_id \<Rightarrow> validation_context_id \<Rightarrow> id32
    \<Rightarrow> vector list \<Rightarrow> vector set \<Rightarrow> private_anchor" where
  "anchor_of env R N candidate genesis context tree_parameters cs S =
     (let a = \<lparr>pa_genesis_id = genesis, pa_validation_context_id = context,
                pa_note_tree_parameters = tree_parameters, pa_nullifier_tree_candidate = candidate,
                pa_next_leaf_index = of_nat (length cs),
                pa_note_root = encode_le32 (commitments_root env R cs),
                pa_spent_nullifier_count = of_nat (card S),
                pa_nullifier_root = encode_le32 (spent_root N S), pa_state_id = 0\<rparr>
      in a\<lparr>pa_state_id := ce_sha env (pa_id_input a)\<rparr>)"

lemma anchor_of_simps [simp]:
  "pa_genesis_id (anchor_of env R N i g c p cs S) = g"
  "pa_validation_context_id (anchor_of env R N i g c p cs S) = c"
  "pa_note_tree_parameters (anchor_of env R N i g c p cs S) = p"
  "pa_nullifier_tree_candidate (anchor_of env R N i g c p cs S) = i"
  "pa_next_leaf_index (anchor_of env R N i g c p cs S) = of_nat (length cs)"
  "pa_note_root (anchor_of env R N i g c p cs S) = encode_le32 (commitments_root env R cs)"
  "pa_spent_nullifier_count (anchor_of env R N i g c p cs S) = of_nat (card S)"
  "pa_nullifier_root (anchor_of env R N i g c p cs S) = encode_le32 (spent_root N S)"
  by (simp_all add: anchor_of_def Let_def)

lemma anchor_of_state_id:
  "pa_state_id (anchor_of env R N i g c p cs S) = ce_sha env (pa_id_input (anchor_of env R N i g c p cs S))"
  by (simp add: anchor_of_def Let_def pa_id_input_def pa_encode_def)

text \<open>A stored tree that belongs to the candidate and represents a set.\<close>

definition tree_ok :: "candidate_env \<Rightarrow> nullifier_reference \<Rightarrow> nullifier_tree \<Rightarrow> vector set \<Rightarrow> bool" where
  "tree_ok env N tree S \<longleftrightarrow>
     nr_load_candidate env = Inr N \<and> nt_reference tree = N \<and> represents tree S \<and> (\<forall>n \<in> S. vector_wf n)"

lemma tree_okD:
  assumes "tree_ok env N tree S"
  shows "nr_load_candidate env = Inr N" "nt_reference tree = N" "represents tree S" "finite S"
    "\<forall>n \<in> S. length n = 64" "unat (nt_spent_count tree) = card S" "card S < 2 ^ 64"
    "nt_spent_count tree = of_nat (card S)"
proof -
  note r = represents_simps [of tree S]
  show "nr_load_candidate env = Inr N" "nt_reference tree = N" "represents tree S"
    using assms by (simp_all add: tree_ok_def)
  then show "finite S" "\<forall>n \<in> S. length n = 64" and count: "unat (nt_spent_count tree) = card S"
    using r by (auto simp: keys_ok_def)
  show "card S < 2 ^ 64" using unsigned_less [of "nt_spent_count tree", where 'a = nat] count by simp
  show "nt_spent_count tree = of_nat (card S)" by (simp add: count [symmetric])
qed

lemma nt_new_loaded:
  assumes "nr_load_candidate env = Inr N"
  shows "\<exists>st. nt_new_candidate env = Inr st \<and> nt_reference st = N"
  using assms by (simp add: nt_new_candidate_def)

lemma nt_mark_set:
  assumes "nr_load_candidate env = Inr N" "finite S" "\<forall>n \<in> S. length n = 64" "card S < 2 ^ 64"
  shows "\<exists>st st'. nt_new_candidate env = Inr st \<and> nt_mark_all st (sorted_list_of_set S) = Inr st'
    \<and> nt_reference st' = N \<and> represents st' S"
proof -
  obtain st where st: "nt_new_candidate env = Inr st" "nt_reference st = N" using nt_new_loaded [OF assms(1)] by blast
  note new = represents_new(1) [OF st(1)]
  have len: "\<forall>n \<in> set (sorted_list_of_set S). length n = 64" using assms(2,3) by simp
  from nt_mark_all_succeeds [OF new len] assms(2,4)
  obtain st' where st': "nt_mark_all st (sorted_list_of_set S) = Inr st'" by auto
  with nt_mark_all_represents(3) [OF new len st'] nt_mark_all_reference [OF new len st'] st assms(2)
  show ?thesis by auto
qed

lemma verify_snapshot_tree_eq:
  assumes "tree_ok env N tree S"
  shows "verify_snapshot_tree env (snapshot_of env R cs S) tree = Inr (encode_le32 (spent_root N S))"
proof -
  note t = tree_okD [OF assms]
  obtain st st' where "nt_new_candidate env = Inr st" "nt_mark_all st (sorted_list_of_set S) = Inr st'"
    "nt_reference st' = N" "represents st' S"
    using nt_mark_set [OF t(1,4,5,7)] by blast
  with represents_root [of st' S] represents_root [OF t(3)] t show ?thesis
    by (simp add: verify_snapshot_tree_def snapshot_of_def Let_def)
qed

lemma sparse_candidate_loaded:
  assumes "nr_load_candidate env = Inr N"
  shows "\<exists>i. sparse_candidate_id env = Inr i"
  using assms by (auto simp: nr_load_candidate_def sparse_candidate_id_def and_then_eq_Inr)

lemma pa_new_eq:
  assumes "tree_ok env N tree S" "sparse_candidate_id env = Inr i"
  shows "pa_new env g c p (snapshot_of env R cs S) tree = Inr (anchor_of env R N i g c p cs S)"
  using verify_snapshot_tree_eq [OF assms(1)] assms(2) tree_okD(8) [OF assms(1)]
  by (simp add: pa_new_def anchor_of_def Let_def snapshot_of_def)

subsection \<open>The transition on every branch\<close>

lemma tree_ok_is_spent: "tree_ok env N tree S \<Longrightarrow> length n = 64 \<Longrightarrow> nt_is_spent tree n \<longleftrightarrow> n \<in> S"
  using represents_simps(5) [of tree S n] by (simp add: tree_ok_def)

lemma tree_ok_mark_pair:
  assumes "tree_ok env N tree S" "vector_wf m" "vector_wf n" "m \<noteq> n" "m \<notin> S" "n \<notin> S"
  shows "if card S + 2 < 2 ^ 64
    then \<exists>tree'. nt_mark_all tree [m, n] = Inr tree' \<and> tree_ok env N tree' (S \<union> {m, n})
    else nt_mark_all tree [m, n] = Inl NtCountOverflow"
proof -
  note t = tree_okD [OF assms(1)]
  have len: "length m = 64" "length n = 64" using assms(2,3) by (simp_all add: vector_wf_def)
  show ?thesis
  proof (cases "Suc (card S) < 2 ^ 64")
    case False
    with mark_spent_eq(2) [OF t(3) len(1) assms(5)] show ?thesis by (simp add: nt_mark_all_def not_less)
  next
    case True
    from mark_spent_eq(3) [OF t(3) len(1) assms(5) True] obtain u t1 where
      t1: "nt_mark_spent tree m = Inr (u, t1)" "represents t1 (insert m S)" "nt_reference t1 = N" using t(2) by blast
    have new: "n \<notin> insert m S" and card: "card (insert m S) = Suc (card S)" using assms(4-6) t(4) by auto
    show ?thesis
    proof (cases "card S + 2 < 2 ^ 64")
      case False
      with mark_spent_eq(2) [OF t1(2) len(2) new] card t1(1) show ?thesis by (simp add: nt_mark_all_def not_less)
    next
      case c: True
      from mark_spent_eq(3) [OF t1(2) len(2) new] card c obtain v t2 where
        "nt_mark_spent t1 n = Inr (v, t2)" "represents t2 (insert n (insert m S))" "nt_reference t2 = N"
        using t1(3) by auto
      moreover have "insert n (insert m S) = S \<union> {m, n}" by auto
      ultimately show ?thesis using c t1(1) assms(1-3) by (auto simp: nt_mark_all_def tree_ok_def)
    qed
  qed
qed

lemma check_unspent_eq:
  assumes "tree_ok env N tree S" "length m = 64" "length n = 64"
  shows "check_unspent tree [m, n] =
    (if m \<in> S then Inl (TrInputAlreadySpent 0) else if n \<in> S then Inl (TrInputAlreadySpent 1) else Inr ())"
  using tree_ok_is_spent [OF assms(1)] assms(2,3) by (simp add: check_unspent_def)

lemma transition_apply_eq:
  fixes g c p
  assumes load: "load_candidate env = Inr R" and tree: "tree_ok env N tree S"
    and cid: "sparse_candidate_id env = Inr i" and okcs: "notes_ok cs" and wf: "intent_wf intent"
    and ns: "pi_nullifiers intent = (m, n)" and os: "output_commitments intent = (x, y)"
  defines "a \<equiv> anchor_of env R N i g c p cs S"
  shows "\<exists>tree'. transition_apply env R a (snapshot_of env R cs S) tree intent =
      and_then (map_err TrIntent (pa_assert_matches_intent a intent)) (\<lambda>_.
        if m \<in> S then Inl (TrInputAlreadySpent 0)
        else if n \<in> S then Inl (TrInputAlreadySpent 1)
        else if 2 ^ 64 \<le> card S + 2 then Inl (TrSparseTree NtCountOverflow)
        else if 1024 < length cs + 2 then Inl (TrSnapshot (PsTooManyCommitments (length cs + 2)))
        else if x \<in> set cs \<or> y \<in> set cs then Inl (TrSnapshot PsDuplicateCommitment)
        else Inr \<lparr>pt_pre_anchor = a, pt_post_anchor = anchor_of env R N i g c p (cs @ [x, y]) (S \<union> {m, n}),
                  pt_post_snapshot = snapshot_of env R (cs @ [x, y]) (S \<union> {m, n}), pt_post_tree = tree'\<rparr>)
    \<and> (m \<notin> S \<longrightarrow> n \<notin> S \<longrightarrow> card S + 2 < 2 ^ 64 \<longrightarrow> tree_ok env N tree' (S \<union> {m, n}))"
proof -
  note t = tree_okD [OF tree]
  have v: "vector_wf m" "vector_wf n" "m \<noteq> n" "vector_wf x" "vector_wf y" "x \<noteq> y"
    using wf ns os by (auto simp: intent_wf_def)
  then have len: "length m = 64" "length n = 64" by (simp_all add: vector_wf_def)
  have cs': "\<forall>d \<in> set (cs @ [x, y]). vector_wf d" using okcs v by (auto simp: notes_ok_def)
  have cs_distinct: "distinct cs" using okcs by (simp add: notes_ok_def)
  have pre: "pa_new env (pa_genesis_id a) (pa_validation_context_id a) (pa_note_tree_parameters a)
      (snapshot_of env R cs S) tree = Inr a"
    using pa_new_eq [OF tree cid] by (simp add: a_def)
  have start: "transition_apply env R a (snapshot_of env R cs S) tree intent =
      and_then (map_err TrIntent (pa_assert_matches_intent a intent)) (\<lambda>_.
      and_then (check_unspent tree [m, n]) (\<lambda>_.
      and_then (map_err TrSparseTree (nt_mark_all tree [m, n])) (\<lambda>post_tree.
      and_then (map_err TrSnapshot (private_snapshot_new env R (cs @ [x, y]) (sorted_list_of_set S @ [m, n]))) (\<lambda>post_snapshot.
      and_then (map_err TrPreAnchor (pa_new env g c p post_snapshot post_tree)) (\<lambda>post_anchor.
        Inr \<lparr>pt_pre_anchor = a, pt_post_anchor = post_anchor,
             pt_post_snapshot = post_snapshot, pt_post_tree = post_tree\<rparr>)))))"
    unfolding transition_apply_def pre
    by (simp add: ns os pair_list_def snapshot_of_def) (simp add: a_def)
  show ?thesis
  proof (cases "m \<in> S \<or> n \<in> S")
    case True
    then show ?thesis unfolding start check_unspent_eq [OF tree len] by auto
  next
    case False
    then have new: "m \<notin> S" "n \<notin> S" by auto
    show ?thesis
    proof (cases "card S + 2 < 2 ^ 64")
      case over: False
      then have "nt_mark_all tree [m, n] = Inl NtCountOverflow"
        using tree_ok_mark_pair [OF tree v(1-3) new] by simp
      with new over show ?thesis unfolding start check_unspent_eq [OF tree len] by (auto simp: not_less)
    next
      case small: True
      then obtain tree' where tree': "nt_mark_all tree [m, n] = Inr tree'" "tree_ok env N tree' (S \<union> {m, n})"
        using tree_ok_mark_pair [OF tree v(1-3) new] by auto
      have ns': "distinct (sorted_list_of_set S @ [m, n])" "set (sorted_list_of_set S @ [m, n]) = S \<union> {m, n}"
        using new v(3) t(4) by auto
      have distinct_iff: "distinct (cs @ [x, y]) \<longleftrightarrow> x \<notin> set cs \<and> y \<notin> set cs" using cs_distinct v(6) by auto
      show ?thesis
        unfolding start check_unspent_eq [OF tree len] private_snapshot_new_eq [OF load cs'] distinct_iff ns'(2)
        using new small tree' ns'(1) pa_new_eq [OF tree'(2) cid, of g c p R "cs @ [x, y]"]
        by (intro exI [of _ tree']) (simp add: not_le)
    qed
  qed
qed

text \<open>Checking a transition again finds the same result.\<close>

lemma revalidate_eq:
  assumes "transition_apply env R a s tree intent = Inr t" "tree_ok env N (pt_post_tree t) S"
  shows "transition_revalidate env R t a s tree intent = Inr ()"
  using assms(1) represents_root [OF tree_okD(3) [OF assms(2)]] by (simp add: transition_revalidate_def)

subsection \<open>What the identities bind\<close>

definition note_collision :: "candidate_env \<Rightarrow> p24_reference \<Rightarrow> bool" where
  "note_collision env R \<longleftrightarrow> node_collision digest_wf (node_of env R)
     \<or> (\<exists>a b. digest_wf a \<and> digest_wf b \<and> a \<noteq> b \<and> leaf_of env R a = leaf_of env R b)"

lemma commitments_root_binds:
  assumes load: "load_candidate env = Inr R" and wf: "\<forall>c \<in> set cs. vector_wf c" "\<forall>c \<in> set ds. vector_wf c"
    and len: "length cs = length ds" "length cs \<le> 1024"
    and eq: "commitments_root env R cs = commitments_root env R ds" and no: "\<not> note_collision env R"
  shows "cs = ds"
proof (rule nth_equalityI [OF len(1)])
  fix j assume j: "j < length cs"
  let ?l = "\<lambda>cs. note_leaves env R (map vector_elements cs)"
  have good: "digest_wf (?l cs k)" "digest_wf (?l ds k)" for k
    using wf vector_digest note_leaves_wf [OF load] by auto
  have "j < 2 ^ 32" using j len(2) by simp
  then have "j div 2 ^ 32 = 0" by (simp only: div_less)
  then have "?l cs j = ?l ds j"
    using note_tree.tree_binds [of "(env, R)" "?l cs" 32 0 "?l ds" j] load good eq no
    by (simp add: commitments_root_def note_root_def note_collision_def)
  then have "leaf_of env R (vector_elements (cs ! j)) = leaf_of env R (vector_elements (ds ! j))"
    using j len(1) by (simp add: note_leaves_def padded_def)
  moreover have v: "vector_wf (cs ! j)" "vector_wf (ds ! j)" using j len(1) wf by auto
  ultimately have "vector_elements (cs ! j) = vector_elements (ds ! j)"
    using no vector_digest [OF v(1)] vector_digest [OF v(2)] by (auto simp: note_collision_def)
  with v show "cs ! j = ds ! j" by (simp add: vector_elements_inject)
qed

lemma spent_root_binds:
  assumes "nr_wf N" "keys_ok S" "keys_ok T" "spent_root N S = spent_root N T" "\<not> spent_collision N"
  shows "S = T"
proof -
  have "n \<in> S \<longleftrightarrow> n \<in> T" if n: "length n = 64" for n
  proof -
    have "spent_leaves N S (key_index n) = spent_leaves N T (key_index n)"
      using spent_tree.tree_binds [OF assms(1), of "spent_leaves N S" 512 0 "spent_leaves N T" "key_index n"]
        spent_leaves_wf [OF assms(1)] assms key_index_top [OF n]
      by (simp add: spent_root_def spent_collision_def)
    with n assms(5) show ?thesis by (auto simp: spent_leaves_key spent_collision_def split: if_splits)
  qed
  with assms(2,3) show ?thesis by (auto simp: keys_ok_def)
qed

lemma pa_encode_inject:
  assumes "pa_encode a = pa_encode b" "length (pa_note_root a) = 64" "length (pa_note_root b) = 64"
  shows "pa_genesis_id a = pa_genesis_id b" "pa_validation_context_id a = pa_validation_context_id b"
    "pa_note_tree_parameters a = pa_note_tree_parameters b" "pa_next_leaf_index a = pa_next_leaf_index b"
    "pa_note_root a = pa_note_root b" "pa_nullifier_root a = pa_nullifier_root b"
  using assms by (simp_all add: pa_encode_def ascii_def)

lemma anchor_id_binds:
  assumes load: "load_candidate env = Inr R" and "notes_ok cs" "notes_ok ds" "keys_ok S" "keys_ok T" and N: "nr_wf N"
    and id: "pa_state_id (anchor_of env R N i g c p cs S) = pa_state_id (anchor_of env R N j h d q ds T)"
    and no: "\<not> collision_between (ce_sha env) {pa_id_input (anchor_of env R N i g c p cs S)}
      {pa_id_input (anchor_of env R N j h d q ds T)}" "\<not> note_collision env R" "\<not> spent_collision N"
  shows "g = h \<and> c = d \<and> p = q \<and> cs = ds \<and> S = T"
proof -
  let ?a = "anchor_of env R N i g c p cs S" and ?b = "anchor_of env R N j h d q ds T"
  have wf: "digest_wf (commitments_root env R cs)" "digest_wf (commitments_root env R ds)"
    "digest_wf (spent_root N S)" "digest_wf (spent_root N T)"
    using assms commitments_root_wf [OF load] spent_subtree_wf [OF N]
    by (auto simp: notes_ok_def spent_root_def)
  have "pa_id_input ?a = pa_id_input ?b" using id no(1) by (simp add: anchor_of_state_id collision_between_def)
  then have eq: "pa_encode ?a = pa_encode ?b" by (simp add: pa_id_input_def)
  have "length (pa_note_root ?a) = 64" "length (pa_note_root ?b) = 64" using wf by (simp_all add: digest_wf_def)
  note f = pa_encode_inject [OF eq this]
  have len: "length cs \<le> 1024" "length ds \<le> 1024" using assms(2,3) by (simp_all add: notes_ok_def)
  have "(of_nat (length cs) :: u64) = of_nat (length ds)" using f(4) by simp
  then have "unat (of_nat (length cs) :: u64) = unat (of_nat (length ds) :: u64)" by (simp only:)
  then have "length cs = length ds" using len by (simp add: unat_of_nat)
  moreover have "commitments_root env R cs = commitments_root env R ds" "spent_root N S = spent_root N T"
    using f(5,6) wf by (auto intro: encode_digest_inject)
  ultimately show ?thesis
    using f(1-3) commitments_root_binds [OF load] spent_root_binds [OF N assms(4,5)] assms(2,3) no len
    by (auto simp: notes_ok_def)
qed

lemma marked_tree_ok:
  assumes "nt_new_candidate env = Inr st0" "\<forall>n \<in> set ns. vector_wf n" "nt_mark_all st0 ns = Inr tree"
  shows "tree_ok env (nt_reference st0) tree (set ns)"
proof -
  have len: "\<forall>n \<in> set ns. length n = 64" using assms(2) by (simp add: vector_wf_def)
  note new = represents_new [OF assms(1)]
  show ?thesis
    using nt_mark_all_represents(3) [OF new(1) len assms(3)] nt_mark_all_reference [OF new(1) len assms(3)] new(2) assms(2)
    by (simp add: tree_ok_def)
qed

subsection \<open>Properties\<close>

text \<open>A snapshot is accepted exactly when it has at most 1024 commitments and no commitment or
  nullifier occurs twice. Its nullifiers are then the sorted set, and the root its level-by-level loop
  computes from the stored nodes only is the root of the complete tree of depth 32 over the hashed
  commitments in append order.\<close>

lemma snapshot_root_is_complete_tree:
  assumes "load_candidate env = Inr R" and "\<forall>c \<in> set cs. vector_wf c"
  shows "private_snapshot_new env R cs ns =
    (if 1024 < length cs then Inl (PsTooManyCommitments (length cs))
     else if \<not> distinct cs then Inl PsDuplicateCommitment
     else if \<not> distinct ns then Inl PsDuplicateNullifier
     else Inr \<lparr>ps_commitments = cs, ps_spent_nullifiers = sorted_list_of_set (set ns),
                ps_root = encode_le32 (subtree (node_of env R)
                  (padded (map (\<lambda>c. leaf_of env R (vector_elements c)) cs) (empty_base env R)) 32 0)\<rparr>)"
  unfolding private_snapshot_new_eq [OF assms] snapshot_of_def commitments_root_def note_root_def
    note_leaves_def map_map comp_def ..

definition sample_vector :: "u32 \<Rightarrow> vector" where
  "sample_vector k = encode_le32 (replicate 16 k)"

lemma sample_vector_wf: "canonical k \<Longrightarrow> vector_wf (sample_vector k)"
  using vector_from_elements_wf [of "replicate 16 k"] by (simp add: sample_vector_def)

lemma sample_vector_inject: "sample_vector j = sample_vector k \<longleftrightarrow> j = k"
proof
  assume "sample_vector j = sample_vector k"
  then have "vector_elements (sample_vector j) = vector_elements (sample_vector k)" by simp
  then show "j = k" unfolding sample_vector_def vector_elements_encode by (simp add: replicate_eq_replicate)
qed simp

lemma sample_canonical: "canonical 1" "canonical 2" "canonical 3" "canonical 4" "canonical 5" "canonical 6"
  by (simp_all add: BABYBEAR_MODULUS_def)


lemma sample_anchor_built:
  assumes "nt_new_candidate sample_env = Inr st0" and k: "canonical k"
  shows "\<exists>s u a. private_snapshot_new sample_env sample_reference [sample_vector k] [sample_vector 3] = Inr s
    \<and> ps_commitments s = [sample_vector k] \<and> nt_mark_all st0 [sample_vector 3] = Inr u
    \<and> pa_new sample_env 1 2 3 s u = Inr a \<and> pa_state_id a = 0"
proof -
  let ?c = "[sample_vector k]" and ?n = "[sample_vector 3]"
  have wf: "\<forall>c \<in> set ?c. vector_wf c" "\<forall>n \<in> set ?n. vector_wf n"
    using k by (simp_all add: sample_vector_wf sample_canonical)
  have snap: "private_snapshot_new sample_env sample_reference ?c ?n =
      Inr (snapshot_of sample_env sample_reference ?c (set ?n))"
    using private_snapshot_new_eq [OF load_sample wf(1), of ?n] by simp
  have len: "\<forall>n \<in> set ?n. length n = 64" using wf(2) by (simp add: vector_wf_def)
  obtain u where u: "nt_mark_all st0 ?n = Inr u"
    using nt_mark_all_succeeds [OF represents_new(1) [OF assms(1)] len] by auto
  note tree = marked_tree_ok [OF assms(1) wf(2) u]
  obtain i where i: "sparse_candidate_id sample_env = Inr i"
    using sparse_candidate_loaded [OF tree_okD(1) [OF tree]] by blast
  have "sample_sha (nul_terminated ''NOXIS/PRIVATE-STATE-ID/V2'' @ xs) = 0" for xs
    by (rule sample_sha_domain) (simp add: nul_terminated_def ascii_def)
  then have "ce_sha sample_env (pa_id_input x) = 0" for x by (simp add: sample_env_simps pa_id_input_def)
  with snap u pa_new_eq [OF tree i, of 1 2 3 sample_reference ?c] show ?thesis
    by (simp add: anchor_of_state_id snapshot_of_def)
qed


end
