(* ===== verification/Private_Ledger.thy ===== *)
theory Private_Ledger
  imports Private_State Checkpoint
begin

text \<open>
  The candidate private ledger of \<^verbatim>\<open>crates/noxis-private-state/src/ledger\<close>: public assets, the
  snapshot, the nullifier tree and their anchor, the two operations that change them, and the
  canonical record \<open>NXPR v1\<close> of a whole state (\<^verbatim>\<open>private_state_record.rs\<close>). The authorizer, a trait of
  the source, is an argument of the operations.
\<close>

declare upt_rec_numeral [simp del]

subsection \<open>The ledger\<close>

datatype private_authorization_error = AuthorizationRejected

datatype private_ledger_error =
  PvStateConstruction private_anchor2_error
| PvAssetAlreadyRegistered asset_id
| PvUnknownAsset asset_id
| PvStateTransition private_transition_error
| PvAuthorization private_authorization_error

type_synonym 'a authorizer =
  "'a \<Rightarrow> private_anchor \<Rightarrow> nullifier_tree \<Rightarrow> private_intent \<Rightarrow> private_authorization_error + unit"

record 'a private_request =
  rq_intent :: private_intent
  rq_authorization :: 'a

record private_receipt =
  rc_pre_state_id :: state_id
  rc_post_state_id :: state_id
  rc_asset_id :: asset_id
  rc_input_nullifiers :: "vector \<times> vector"
  rc_output_commitments :: "vector \<times> vector"

record private_ledger =
  pv_assets :: "(asset_id, asset_definition) fmap"
  pv_snapshot :: private_snapshot
  pv_nullifier_tree :: nullifier_tree
  pv_anchor :: private_anchor

definition private_ledger_new ::
  "candidate_env \<Rightarrow> genesis_id \<Rightarrow> validation_context_id \<Rightarrow> id32 \<Rightarrow> private_snapshot \<Rightarrow> nullifier_tree
    \<Rightarrow> private_ledger_error + private_ledger" where
  "private_ledger_new env genesis context tree_parameters s tree =
     and_then (map_err PvStateConstruction (pa_new env genesis context tree_parameters s tree)) (\<lambda>anchor.
       Inr \<lparr>pv_assets = fmempty, pv_snapshot = s, pv_nullifier_tree = tree, pv_anchor = anchor\<rparr>)"

definition pv_asset_list :: "private_ledger \<Rightarrow> asset_definition list" where
  "pv_asset_list l = map snd (sorted_list_of_fmap (pv_assets l))"

definition pv_register_asset :: "private_ledger \<Rightarrow> asset_definition \<Rightarrow> private_ledger_error + private_ledger" where
  "pv_register_asset l a =
     (if ad_id a |\<in>| fmdom (pv_assets l) then Inl (PvAssetAlreadyRegistered (ad_id a))
      else Inr (l\<lparr>pv_assets := fmupd (ad_id a) a (pv_assets l)\<rparr>))"

definition prepare_transfer ::
  "candidate_env \<Rightarrow> 'a authorizer \<Rightarrow> private_ledger \<Rightarrow> 'a private_request
    \<Rightarrow> private_ledger_error + private_transition" where
  "prepare_transfer env authorizer l request =
     (let intent = rq_intent request
      in if pi_asset_id intent |\<notin>| fmdom (pv_assets l) then Inl (PvUnknownAsset (pi_asset_id intent))
         else
           and_then (map_err (\<lambda>e. PvStateTransition (TrSnapshot (PsTree e))) (load_candidate env)) (\<lambda>reference.
           and_then (map_err PvStateTransition (transition_apply env reference (pv_anchor l)
             (pv_snapshot l) (pv_nullifier_tree l) intent)) (\<lambda>transition.
           and_then (map_err PvAuthorization (authorizer (rq_authorization request) (pv_anchor l)
             (pv_nullifier_tree l) intent)) (\<lambda>_.
           and_then (map_err PvStateTransition (transition_revalidate env reference transition
             (pv_anchor l) (pv_snapshot l) (pv_nullifier_tree l) intent)) (\<lambda>_.
             Inr transition)))))"

definition apply_transfer ::
  "candidate_env \<Rightarrow> 'a authorizer \<Rightarrow> private_ledger \<Rightarrow> 'a private_request
    \<Rightarrow> private_ledger_error + (private_receipt \<times> private_ledger)" where
  "apply_transfer env authorizer l request =
     and_then (prepare_transfer env authorizer l request) (\<lambda>transition.
       let intent = rq_intent request
       in Inr (\<lparr>rc_pre_state_id = pa_state_id (pt_pre_anchor transition),
                rc_post_state_id = pa_state_id (pt_post_anchor transition),
                rc_asset_id = pi_asset_id intent, rc_input_nullifiers = pi_nullifiers intent,
                rc_output_commitments = output_commitments intent\<rparr>,
              l\<lparr>pv_snapshot := pt_post_snapshot transition,
                pv_nullifier_tree := pt_post_tree transition,
                pv_anchor := pt_post_anchor transition\<rparr>))"

subsection \<open>The record of a state\<close>

datatype private_record_error =
  PrTruncated
| PrMagic
| PrVersion
| PrReserved
| PrChecksumMismatch
| PrTrailingBytes
| PrNonCanonical
| PrLengthOverflow
| PrTooManyAssets nat
| PrTooManyNullifiers nat
| PrCount string nat nat
| PrAssetOrder
| PrAssetKind byte
| PrTickerLength nat
| PrTickerUtf8
| PrPrivacy privacy_types_error
| PrAsset asset_error
| PrReference p24_reference_error
| PrTree nullifier_tree_error
| PrSnapshot private_state_error
| PrLedger private_ledger_error
| PrStateIdMismatch state_id state_id
| PrPanic

definition nxpr_reader :: "private_record_error reader_error" where
  "nxpr_reader =
     \<lparr>err_overflow = PrTruncated, err_end = (\<lambda>_. PrTruncated), err_trailing = (\<lambda>_. PrTrailingBytes)\<rparr>"

definition private_record_checksum :: "sha256 \<Rightarrow> bytes \<Rightarrow> id32" where
  "private_record_checksum sha bs = sha (nul_terminated ''NOXIS/PRIVATE-STATE-RECORD/V1'' @ bs)"

definition put_u32 :: "nat \<Rightarrow> private_record_error + bytes" where
  "put_u32 n = and_then (ok_or (try_from_usize n) PrLengthOverflow) (\<lambda>w :: u32. Inr (to_be_bytes w))"

definition put_u16 :: "nat \<Rightarrow> private_record_error + bytes" where
  "put_u16 n = and_then (ok_or (try_from_usize n) PrLengthOverflow) (\<lambda>w :: u16. Inr (to_be_bytes w))"

definition bounded_count :: "nat \<Rightarrow> nat \<Rightarrow> string \<Rightarrow> private_record_error + nat" where
  "bounded_count n maximum field = (if maximum < n then Inl (PrCount field n maximum) else Inr n)"

fun private_kind_tag :: "asset_kind \<Rightarrow> byte" where
  "private_kind_tag NativeBacked = 1"
| "private_kind_tag Synthetic = 2"

definition private_asset_kind :: "byte \<Rightarrow> private_record_error + asset_kind" where
  "private_asset_kind tag =
     (if tag = 1 then Inr NativeBacked else if tag = 2 then Inr Synthetic else Inl (PrAssetKind tag))"

definition private_asset_bytes :: "asset_definition \<Rightarrow> private_record_error + bytes" where
  "private_asset_bytes a =
     and_then (ok_or (try_from_usize (length (ad_ticker a))) PrPanic) (\<lambda>n :: byte.
       Inr (to_be_bytes (ad_id a) @ [private_kind_tag (ad_kind a), n] @ ad_ticker a))"

definition encode_private_ledger :: "candidate_env \<Rightarrow> private_ledger \<Rightarrow> private_record_error + bytes" where
  "encode_private_ledger env l =
     (let commitments = ps_commitments (pv_snapshot l);
          nullifiers = ps_spent_nullifiers (pv_snapshot l);
          assets = pv_asset_list l
      in if 2048 < length nullifiers then Inl (PrTooManyNullifiers (length nullifiers))
         else if 4096 < length assets then Inl (PrTooManyAssets (length assets))
         else
           and_then (put_u32 (length commitments)) (\<lambda>commitment_count.
           and_then (put_u32 (length nullifiers)) (\<lambda>nullifier_count.
           and_then (put_u16 (length assets)) (\<lambda>asset_count.
           and_then (collect_results private_asset_bytes assets) (\<lambda>asset_bytes.
             let bs = ascii ''NXPR'' @ to_be_bytes (1 :: u16) @ [0, 0]
               @ to_be_bytes (pa_genesis_id (pv_anchor l)) @ to_be_bytes (pa_validation_context_id (pv_anchor l))
               @ to_be_bytes (pa_note_tree_parameters (pv_anchor l)) @ to_be_bytes (pa_state_id (pv_anchor l))
               @ commitment_count @ nullifier_count @ asset_count
               @ concat commitments @ concat nullifiers @ concat asset_bytes
             in Inr (bs @ to_be_bytes (private_record_checksum (ce_sha env) bs)))))))"

definition read_vector :: "reader \<Rightarrow> private_record_error + (vector \<times> reader)" where
  "read_vector r =
     and_then (read_array nxpr_reader 64 r) (\<lambda>(bs, r).
     and_then (map_err PrPrivacy (vector_new bs)) (\<lambda>v. Inr (v, r)))"

definition read_private_asset ::
  "asset_id option \<Rightarrow> reader \<Rightarrow> private_record_error + (asset_definition \<times> reader)" where
  "read_private_asset previous r =
     and_then (read_word nxpr_reader r) (\<lambda>(i :: asset_id, r).
     if (case previous of Some q \<Rightarrow> i \<le> q | None \<Rightarrow> False) then Inl PrAssetOrder
     else and_then (read_word nxpr_reader r) (\<lambda>(tag, r).
     and_then (private_asset_kind tag) (\<lambda>kind.
     and_then (read_word nxpr_reader r) (\<lambda>(ticker_length :: byte, r).
     if \<not> (1 \<le> unat ticker_length \<and> unat ticker_length \<le> 16) then Inl (PrTickerLength (unat ticker_length))
     else and_then (read_exact nxpr_reader (unat ticker_length) r) (\<lambda>(ticker, r).
     if \<not> is_utf8 ticker then Inl PrTickerUtf8
     else and_then (map_err PrAsset (AssetDefinition_new i ticker kind)) (\<lambda>a. Inr (a, r)))))))"

fun read_private_assets ::
  "asset_id option \<Rightarrow> nat \<Rightarrow> reader \<Rightarrow> private_record_error + (asset_definition list \<times> reader)" where
  "read_private_assets previous 0 r = Inr ([], r)"
| "read_private_assets previous (Suc n) r =
     and_then (read_private_asset previous r) (\<lambda>(a, r).
     and_then (read_private_assets (Some (ad_id a)) n r) (\<lambda>(as, r). Inr (a # as, r)))"

record private_record =
  pr_genesis_id :: genesis_id
  pr_validation_context_id :: validation_context_id
  pr_tree_parameters :: id32
  pr_state_id :: state_id
  pr_commitments :: "vector list"
  pr_nullifiers :: "vector list"
  pr_assets :: "asset_definition list"

text \<open>The first half of the decoder: the fields of the record.\<close>

definition parse_private_record :: "bytes \<Rightarrow> private_record_error + private_record" where
  "parse_private_record body =
     and_then (read_array nxpr_reader 4 (new_reader body)) (\<lambda>(magic, r).
     if magic \<noteq> ascii ''NXPR'' then Inl PrMagic
     else and_then (read_word nxpr_reader r) (\<lambda>(version :: u16, r).
     if version \<noteq> 1 then Inl PrVersion
     else and_then (read_array nxpr_reader 2 r) (\<lambda>(reserved, r).
     if reserved \<noteq> [0, 0] then Inl PrReserved
     else and_then (read_word nxpr_reader r) (\<lambda>(genesis, r).
     and_then (read_word nxpr_reader r) (\<lambda>(context, r).
     and_then (read_word nxpr_reader r) (\<lambda>(tree_parameters, r).
     and_then (read_word nxpr_reader r) (\<lambda>(state, r).
     and_then (read_word nxpr_reader r) (\<lambda>(commitment_word :: u32, r).
     and_then (bounded_count (unat commitment_word) 1024 ''commitments'') (\<lambda>commitment_count.
     and_then (read_word nxpr_reader r) (\<lambda>(nullifier_word :: u32, r).
     and_then (bounded_count (unat nullifier_word) 2048 ''nullifiers'') (\<lambda>nullifier_count.
     and_then (read_word nxpr_reader r) (\<lambda>(asset_word :: u16, r).
     and_then (bounded_count (unat asset_word) 4096 ''assets'') (\<lambda>asset_count.
     and_then (read_many read_vector commitment_count r) (\<lambda>(commitments, r).
     and_then (read_many read_vector nullifier_count r) (\<lambda>(nullifiers, r).
     and_then (read_private_assets None asset_count r) (\<lambda>(assets, r).
     and_then (finish nxpr_reader r) (\<lambda>_.
       Inr \<lparr>pr_genesis_id = genesis, pr_validation_context_id = context,
            pr_tree_parameters = tree_parameters, pr_state_id = state, pr_commitments = commitments,
            pr_nullifiers = nullifiers, pr_assets = assets\<rparr>)))))))))))))))))"

text \<open>The second half: the whole state is rebuilt from the fields.\<close>

definition rebuild_private_ledger ::
  "candidate_env \<Rightarrow> private_record \<Rightarrow> private_record_error + private_ledger" where
  "rebuild_private_ledger env f =
     and_then (map_err PrReference (load_candidate env)) (\<lambda>reference.
     and_then (map_err PrSnapshot (private_snapshot_new env reference (pr_commitments f) (pr_nullifiers f))) (\<lambda>s.
     and_then (map_err PrTree (nt_new_candidate env)) (\<lambda>tree.
     and_then (map_err PrTree (nt_mark_all tree (ps_spent_nullifiers s))) (\<lambda>tree.
     and_then (map_err PrLedger (private_ledger_new env (pr_genesis_id f) (pr_validation_context_id f)
       (pr_tree_parameters f) s tree)) (\<lambda>l.
     if pa_state_id (pv_anchor l) \<noteq> pr_state_id f
     then Inl (PrStateIdMismatch (pr_state_id f) (pa_state_id (pv_anchor l)))
     else try_fold (\<lambda>l a. map_err PrLedger (pv_register_asset l a)) l (pr_assets f))))))"

definition decode_private_ledger :: "candidate_env \<Rightarrow> bytes \<Rightarrow> private_record_error + private_ledger" where
  "decode_private_ledger env bs =
     (if length bs < 178 then Inl PrTruncated
      else
        let body = take (length bs - 32) bs
        in if to_be_bytes (private_record_checksum (ce_sha env) body) \<noteq> drop (length bs - 32) bs
           then Inl PrChecksumMismatch
           else and_then (parse_private_record body) (\<lambda>fields.
             and_then (rebuild_private_ledger env fields) (\<lambda>l.
             and_then (encode_private_ledger env l) (\<lambda>canonical_bytes.
               if canonical_bytes \<noteq> bs then Inl PrNonCanonical else Inr l))))"

subsection \<open>The invariant and the two operations\<close>

definition pv_inv_at ::
  "candidate_env \<Rightarrow> p24_reference \<Rightarrow> nullifier_reference \<Rightarrow> id32 \<Rightarrow> private_ledger \<Rightarrow> bool" where
  "pv_inv_at env R N i l \<longleftrightarrow>
     (let cs = ps_commitments (pv_snapshot l); S = set (ps_spent_nullifiers (pv_snapshot l)); a = pv_anchor l
      in load_candidate env = Inr R \<and> sparse_candidate_id env = Inr i \<and> notes_ok cs
         \<and> tree_ok env N (pv_nullifier_tree l) S \<and> pv_snapshot l = snapshot_of env R cs S
         \<and> a = anchor_of env R N i (pa_genesis_id a) (pa_validation_context_id a) (pa_note_tree_parameters a) cs S
         \<and> assets_ok (pv_assets l))"

text \<open>A ledger is well formed when its snapshot, tree and anchor are those of one list of commitments
  and one set of spent nullifiers.\<close>

definition pv_inv :: "candidate_env \<Rightarrow> private_ledger \<Rightarrow> bool" where
  "pv_inv env l \<longleftrightarrow> (\<exists>R N i. pv_inv_at env R N i l)"

abbreviation pv_notes :: "private_ledger \<Rightarrow> vector list" where
  "pv_notes l \<equiv> ps_commitments (pv_snapshot l)"

abbreviation pv_spent :: "private_ledger \<Rightarrow> vector set" where
  "pv_spent l \<equiv> set (ps_spent_nullifiers (pv_snapshot l))"

lemma snapshot_of_abs:
  "ps_commitments (snapshot_of env R cs S) = cs"
  "finite S \<Longrightarrow> set (ps_spent_nullifiers (snapshot_of env R cs S)) = S"
  by (simp_all add: snapshot_of_def)

lemma assets_ok_empty: "assets_ok fmempty"
  by (simp add: assets_ok_def)

lemma pv_inv_atI:
  assumes "load_candidate env = Inr R" "sparse_candidate_id env = Inr i" "notes_ok cs" "tree_ok env N tree S"
    "assets_ok m"
  shows "pv_inv_at env R N i \<lparr>pv_assets = m, pv_snapshot = snapshot_of env R cs S, pv_nullifier_tree = tree,
    pv_anchor = anchor_of env R N i g c p cs S\<rparr>"
  using assms tree_okD(4) [OF assms(4)] by (simp add: pv_inv_at_def snapshot_of_def)

lemma pv_inv_atE:
  assumes "pv_inv_at env R N i l"
  obtains g c p cs S where "load_candidate env = Inr R" "sparse_candidate_id env = Inr i" "notes_ok cs"
    "tree_ok env N (pv_nullifier_tree l) S" "assets_ok (pv_assets l)" "pv_snapshot l = snapshot_of env R cs S"
    "pv_anchor l = anchor_of env R N i g c p cs S" "pv_notes l = cs" "pv_spent l = S"
  using assms unfolding pv_inv_at_def Let_def by blast

lemma pv_inv_assets: "pv_inv env l \<Longrightarrow> assets_ok m \<Longrightarrow> pv_inv env (l\<lparr>pv_assets := m\<rparr>)"
  by (auto simp: pv_inv_def pv_inv_at_def Let_def)

lemma private_ledger_new_inv:
  assumes "load_candidate env = Inr R" "notes_ok cs" "tree_ok env N tree S"
    "private_ledger_new env g c p (snapshot_of env R cs S) tree = Inr l"
  shows "pv_inv env l" "l = \<lparr>pv_assets = fmempty, pv_snapshot = snapshot_of env R cs S, pv_nullifier_tree = tree,
    pv_anchor = pv_anchor l\<rparr>"
proof -
  obtain i where i: "sparse_candidate_id env = Inr i" using sparse_candidate_loaded [OF tree_okD(1) [OF assms(3)]] by blast
  have l: "l = \<lparr>pv_assets = fmempty, pv_snapshot = snapshot_of env R cs S, pv_nullifier_tree = tree,
      pv_anchor = anchor_of env R N i g c p cs S\<rparr>"
    using assms(4) pa_new_eq [OF assms(3) i] by (simp add: private_ledger_new_def)
  show "pv_inv env l" unfolding l pv_inv_def
    using pv_inv_atI [OF assms(1) i assms(2,3), of fmempty g c p] assets_ok_empty by blast
  show "l = \<lparr>pv_assets = fmempty, pv_snapshot = snapshot_of env R cs S, pv_nullifier_tree = tree,
    pv_anchor = pv_anchor l\<rparr>" by (subst l) (simp add: l)
qed

lemma pv_register_asset_inv:
  assumes "pv_inv env l" "valid_ticker (ad_ticker a)" "pv_register_asset l a = Inr l'"
  shows "pv_inv env l'"
proof -
  have "assets_ok (pv_assets l)" using assms(1) by (auto simp: pv_inv_def pv_inv_at_def Let_def)
  then have "assets_ok (fmupd (ad_id a) a (pv_assets l))" using assms(2) by (auto simp: assets_ok_def)
  with pv_inv_assets [OF assms(1)] assms(3) show ?thesis by (auto simp: pv_register_asset_def split: if_splits)
qed

lemma apply_transfer_eq:
  assumes inv: "pv_inv env l" and wf: "intent_wf (rq_intent rq)"
    and ns: "pi_nullifiers (rq_intent rq) = (m, n)" and os: "output_commitments (rq_intent rq) = (x, y)"
  shows "\<exists>l'. apply_transfer env authorizer l rq =
      (if pi_asset_id (rq_intent rq) |\<notin>| fmdom (pv_assets l) then Inl (PvUnknownAsset (pi_asset_id (rq_intent rq)))
       else and_then (map_err (PvStateTransition \<circ> TrIntent) (pa_assert_matches_intent (pv_anchor l) (rq_intent rq))) (\<lambda>_.
         if m \<in> pv_spent l then Inl (PvStateTransition (TrInputAlreadySpent 0))
         else if n \<in> pv_spent l then Inl (PvStateTransition (TrInputAlreadySpent 1))
         else if 2 ^ 64 \<le> card (pv_spent l) + 2 then Inl (PvStateTransition (TrSparseTree NtCountOverflow))
         else if 1024 < length (pv_notes l) + 2
           then Inl (PvStateTransition (TrSnapshot (PsTooManyCommitments (length (pv_notes l) + 2))))
         else if x \<in> set (pv_notes l) \<or> y \<in> set (pv_notes l)
           then Inl (PvStateTransition (TrSnapshot PsDuplicateCommitment))
         else and_then (map_err PvAuthorization (authorizer (rq_authorization rq) (pv_anchor l)
             (pv_nullifier_tree l) (rq_intent rq))) (\<lambda>_.
           Inr (\<lparr>rc_pre_state_id = pa_state_id (pv_anchor l), rc_post_state_id = pa_state_id (pv_anchor l'),
                 rc_asset_id = pi_asset_id (rq_intent rq), rc_input_nullifiers = (m, n),
                 rc_output_commitments = (x, y)\<rparr>, l'))))
    \<and> (m \<notin> pv_spent l \<and> n \<notin> pv_spent l \<and> card (pv_spent l) + 2 < 2 ^ 64 \<and> length (pv_notes l) + 2 \<le> 1024
        \<and> x \<notin> set (pv_notes l) \<and> y \<notin> set (pv_notes l) \<longrightarrow>
        pv_inv env l' \<and> pv_notes l' = pv_notes l @ [x, y] \<and> pv_spent l' = pv_spent l \<union> {m, n}
        \<and> pv_assets l' = pv_assets l)"
proof -
  from inv obtain R N i where "pv_inv_at env R N i l" by (auto simp: pv_inv_def)
  then obtain g c p cs S where l: "load_candidate env = Inr R" "sparse_candidate_id env = Inr i" "notes_ok cs"
    "tree_ok env N (pv_nullifier_tree l) S" "assets_ok (pv_assets l)" "pv_snapshot l = snapshot_of env R cs S"
    "pv_anchor l = anchor_of env R N i g c p cs S" and abs: "pv_notes l = cs" "pv_spent l = S"
    by (rule pv_inv_atE)
  let ?a = "pv_anchor l" and ?I = "rq_intent rq" and ?post = "anchor_of env R N i g c p (cs @ [x, y]) (S \<union> {m, n})"
  obtain tree' where
    t: "transition_apply env R ?a (pv_snapshot l) (pv_nullifier_tree l) ?I =
      and_then (map_err TrIntent (pa_assert_matches_intent ?a ?I)) (\<lambda>_.
        if m \<in> S then Inl (TrInputAlreadySpent 0)
        else if n \<in> S then Inl (TrInputAlreadySpent 1)
        else if 2 ^ 64 \<le> card S + 2 then Inl (TrSparseTree NtCountOverflow)
        else if 1024 < length cs + 2 then Inl (TrSnapshot (PsTooManyCommitments (length cs + 2)))
        else if x \<in> set cs \<or> y \<in> set cs then Inl (TrSnapshot PsDuplicateCommitment)
        else Inr \<lparr>pt_pre_anchor = ?a, pt_post_anchor = ?post,
                  pt_post_snapshot = snapshot_of env R (cs @ [x, y]) (S \<union> {m, n}), pt_post_tree = tree'\<rparr>)"
    and tree': "m \<notin> S \<Longrightarrow> n \<notin> S \<Longrightarrow> card S + 2 < 2 ^ 64 \<Longrightarrow> tree_ok env N tree' (S \<union> {m, n})"
    using transition_apply_eq [OF l(1,4,2,3) wf ns os, of g c p] unfolding l(6,7) by blast
  define l' where "l' = l\<lparr>pv_snapshot := snapshot_of env R (cs @ [x, y]) (S \<union> {m, n}), pv_nullifier_tree := tree',
    pv_anchor := ?post\<rparr>"
  have l'_eq: "l' = \<lparr>pv_assets = pv_assets l, pv_snapshot = snapshot_of env R (cs @ [x, y]) (S \<union> {m, n}),
    pv_nullifier_tree = tree', pv_anchor = ?post\<rparr>" by (cases l) (simp add: l'_def)
  have post: "pv_inv env l' \<and> pv_notes l' = cs @ [x, y] \<and> pv_spent l' = S \<union> {m, n} \<and> pv_assets l' = pv_assets l"
    if new: "m \<notin> S" "n \<notin> S" "card S + 2 < 2 ^ 64" "length cs + 2 \<le> 1024" "x \<notin> set cs" "y \<notin> set cs"
  proof -
    have "notes_ok (cs @ [x, y])" using new l(3) wf os by (auto simp: notes_ok_def intent_wf_def)
    from pv_inv_atI [OF l(1,2) this tree' [OF new(1-3)] l(5), of g c p]
    have "pv_inv env l'" by (auto simp: l'_eq pv_inv_def)
    moreover have "finite S" using tree_okD(4) [OF l(4)] .
    ultimately show ?thesis using snapshot_of_abs(2) [of "S \<union> {m, n}"] by (simp add: l'_eq snapshot_of_abs(1))
  qed
  have "apply_transfer env authorizer l rq =
      (if pi_asset_id ?I |\<notin>| fmdom (pv_assets l) then Inl (PvUnknownAsset (pi_asset_id ?I))
       else and_then (map_err (PvStateTransition \<circ> TrIntent) (pa_assert_matches_intent ?a ?I)) (\<lambda>_.
         if m \<in> S then Inl (PvStateTransition (TrInputAlreadySpent 0))
         else if n \<in> S then Inl (PvStateTransition (TrInputAlreadySpent 1))
         else if 2 ^ 64 \<le> card S + 2 then Inl (PvStateTransition (TrSparseTree NtCountOverflow))
         else if 1024 < length cs + 2 then Inl (PvStateTransition (TrSnapshot (PsTooManyCommitments (length cs + 2))))
         else if x \<in> set cs \<or> y \<in> set cs then Inl (PvStateTransition (TrSnapshot PsDuplicateCommitment))
         else and_then (map_err PvAuthorization (authorizer (rq_authorization rq) ?a (pv_nullifier_tree l) ?I)) (\<lambda>_.
           Inr (\<lparr>rc_pre_state_id = pa_state_id ?a, rc_post_state_id = pa_state_id (pv_anchor l'),
                 rc_asset_id = pi_asset_id ?I, rc_input_nullifiers = (m, n), rc_output_commitments = (x, y)\<rparr>, l'))))"
    (is "?lhs = ?rhs")
  proof (cases "transition_apply env R ?a (pv_snapshot l) (pv_nullifier_tree l) ?I")
    case (Inl e)
    then show ?thesis
      by (cases "pa_assert_matches_intent ?a ?I")
        (auto simp: apply_transfer_def prepare_transfer_def Let_def l(1) t split: if_splits)
  next
    case (Inr u)
    then have ok: "pa_assert_matches_intent ?a ?I = Inr ()" "m \<notin> S" "n \<notin> S" "card S + 2 < 2 ^ 64"
      "length cs + 2 \<le> 1024" "x \<notin> set cs" "y \<notin> set cs"
      and u: "u = \<lparr>pt_pre_anchor = ?a, pt_post_anchor = ?post,
                  pt_post_snapshot = snapshot_of env R (cs @ [x, y]) (S \<union> {m, n}), pt_post_tree = tree'\<rparr>"
      using t by (auto simp: and_then_eq_Inr not_le split: if_splits)
    have "transition_revalidate env R u ?a (pv_snapshot l) (pv_nullifier_tree l) ?I = Inr ()"
      using revalidate_eq [OF Inr, of N "S \<union> {m, n}"] tree' [OF ok(2-4)] u by simp
    with Inr ok u show ?thesis
      by (cases "authorizer (rq_authorization rq) ?a (pv_nullifier_tree l) ?I")
        (simp_all add: apply_transfer_def prepare_transfer_def Let_def l(1) ns os l'_def)
  qed
  with post show ?thesis unfolding abs by (intro exI [of _ l']) auto
qed

subsection \<open>Runs of the ledger\<close>

datatype 'a private_input =
  PvRegister asset_definition
| PvTransfer "'a private_request"

definition pv_step ::
  "candidate_env \<Rightarrow> 'a authorizer \<Rightarrow> private_ledger \<Rightarrow> 'a private_input \<Rightarrow> private_ledger_error + private_ledger" where
  "pv_step env authorizer l input =
     (case input of
        PvRegister a \<Rightarrow> pv_register_asset l a
      | PvTransfer rq \<Rightarrow> and_then (apply_transfer env authorizer l rq) (\<lambda>(_, l'). Inr l'))"

fun pv_input_ok :: "'a private_input \<Rightarrow> bool" where
  "pv_input_ok (PvRegister a) \<longleftrightarrow> valid_ticker (ad_ticker a)"
| "pv_input_ok (PvTransfer rq) \<longleftrightarrow> intent_wf (rq_intent rq)"

fun input_nullifiers :: "'a private_input \<Rightarrow> vector list" where
  "input_nullifiers (PvRegister a) = []"
| "input_nullifiers (PvTransfer rq) = pair_list (pi_nullifiers (rq_intent rq))"

fun input_outputs :: "'a private_input \<Rightarrow> vector list" where
  "input_outputs (PvRegister a) = []"
| "input_outputs (PvTransfer rq) = pair_list (output_commitments (rq_intent rq))"

text \<open>The specification: a list of notes that only grows and a set of spent nullifiers, each spent once.\<close>

definition pool_enabled :: "vector list \<times> vector set \<Rightarrow> 'a private_input \<Rightarrow> bool" where
  "pool_enabled pool input \<longleftrightarrow>
     distinct (input_nullifiers input) \<and> set (input_nullifiers input) \<inter> snd pool = {}
     \<and> distinct (fst pool @ input_outputs input)"

definition pool_next :: "vector list \<times> vector set \<Rightarrow> 'a private_input \<Rightarrow> vector list \<times> vector set" where
  "pool_next pool input = (fst pool @ input_outputs input, snd pool \<union> set (input_nullifiers input))"

lemma apply_transfer_Inr:
  assumes "pv_inv env l" "intent_wf (rq_intent rq)" "apply_transfer env authorizer l rq = Inr (receipt, l')"
  shows "pv_inv env l'" "pool_enabled (pv_notes l, pv_spent l) (PvTransfer rq)"
    "(pv_notes l', pv_spent l') = pool_next (pv_notes l, pv_spent l) (PvTransfer rq)" "pv_assets l' = pv_assets l"
    "authorizer (rq_authorization rq) (pv_anchor l) (pv_nullifier_tree l) (rq_intent rq) = Inr ()"
    "pa_assert_matches_intent (pv_anchor l) (rq_intent rq) = Inr ()"
proof -
  obtain m n where ns: "pi_nullifiers (rq_intent rq) = (m, n)" by (cases "pi_nullifiers (rq_intent rq)")
  obtain x y where os: "output_commitments (rq_intent rq) = (x, y)" by (cases "output_commitments (rq_intent rq)")
  have v: "m \<noteq> n" "x \<noteq> y" using assms(2) ns os by (auto simp: intent_wf_def)
  from apply_transfer_eq [OF assms(1,2) ns os, of authorizer] assms(3)
  have r: "m \<notin> pv_spent l" "n \<notin> pv_spent l" "x \<notin> set (pv_notes l)" "y \<notin> set (pv_notes l)" "pv_inv env l'"
    "pv_notes l' = pv_notes l @ [x, y]" "pv_spent l' = pv_spent l \<union> {m, n}" "pv_assets l' = pv_assets l"
    "authorizer (rq_authorization rq) (pv_anchor l) (pv_nullifier_tree l) (rq_intent rq) = Inr ()"
    "pa_assert_matches_intent (pv_anchor l) (rq_intent rq) = Inr ()"
    by (elim exE conjE; simp add: and_then_eq_Inr not_le not_less split: if_splits)+
  have "distinct (pv_notes l)" using assms(1) by (auto simp: pv_inv_def pv_inv_at_def Let_def notes_ok_def)
  with r v show "pv_inv env l'" "pool_enabled (pv_notes l, pv_spent l) (PvTransfer rq)"
    "(pv_notes l', pv_spent l') = pool_next (pv_notes l, pv_spent l) (PvTransfer rq)" "pv_assets l' = pv_assets l"
    "authorizer (rq_authorization rq) (pv_anchor l) (pv_nullifier_tree l) (rq_intent rq) = Inr ()"
    "pa_assert_matches_intent (pv_anchor l) (rq_intent rq) = Inr ()"
    by (auto simp: pool_enabled_def pool_next_def ns os pair_list_def)
qed

interpretation private_machine: refined_machine "pv_step env authorizer" "pv_inv env" pv_input_ok
  "\<lambda>l. (pv_notes l, pv_spent l)" pool_enabled pool_next for env authorizer
proof
  fix l :: private_ledger and input :: "'a private_input" and l'
  assume l: "pv_inv env l" "pv_input_ok input" "pv_step env authorizer l input = Inr l'"
  show "pv_inv env l'"
    using l pv_register_asset_inv apply_transfer_Inr(1)
    by (cases input) (auto simp: pv_step_def and_then_eq_Inr)
  show "pool_enabled (pv_notes l, pv_spent l) input
      \<and> (pv_notes l', pv_spent l') = pool_next (pv_notes l, pv_spent l) input"
  proof (cases input)
    case (PvRegister a)
    have "distinct (pv_notes l)" using l(1) by (auto simp: pv_inv_def pv_inv_at_def Let_def notes_ok_def)
    with l(3) PvRegister show ?thesis
      by (auto simp: pv_step_def pv_register_asset_def pool_enabled_def pool_next_def split: if_splits)
  next
    case (PvTransfer rq)
    with l(2,3) obtain receipt where "intent_wf (rq_intent rq)" "apply_transfer env authorizer l rq = Inr (receipt, l')"
      by (auto simp: pv_step_def and_then_eq_Inr)
    from apply_transfer_Inr(2,3) [OF l(1) this] show ?thesis unfolding PvTransfer ..
  qed
qed

lemma pool_run:
  "guarded_run pool_enabled pool_next (cs, S) is = Some (ds, T) \<Longrightarrow>
    ds = cs @ concat (map input_outputs is) \<and> T = S \<union> set (concat (map input_nullifiers is))
    \<and> distinct (concat (map input_nullifiers is)) \<and> set (concat (map input_nullifiers is)) \<inter> S = {}"
proof (induction "is" arbitrary: cs S)
  case (Cons i "is")
  from Cons.prems have e: "pool_enabled (cs, S) i"
    and r: "guarded_run pool_enabled pool_next (cs @ input_outputs i, S \<union> set (input_nullifiers i)) is = Some (ds, T)"
    using pool_next_def [of "(cs, S)" i] by (simp_all split: if_splits)
  from Cons.IH [OF r] e show ?case by (auto simp: pool_enabled_def)
qed simp

subsection \<open>Reading a record back\<close>

interpretation note_vector: wire_format "\<lambda>v. v" read_vector vector_wf
proof
  fix v and pre rest :: bytes
  assume "vector_wf v" "length pre + length v + length rest < 2 ^ 64"
  moreover from this have "length v = 64" by (simp add: vector_wf_def)
  ultimately show "read_vector (reader_at pre (v @ rest)) = Inr (v, reader_at (pre @ v) rest)"
    by (simp add: read_vector_def wire_simps vector_new_wf)
next
  fix pre inp v r
  assume "read_vector (reader_at pre inp) = Inr (v, r)"
  then show "vector_wf v \<and> (\<exists>rest. inp = v @ rest \<and> r = reader_at (pre @ v) rest)"
    by (auto simp: read_vector_def and_then_eq_Inr vector_new_Inr_iff vector_wf_def dest!: wire_dests)
qed

definition asset_frame :: "asset_definition \<Rightarrow> bytes" where
  "asset_frame a = to_be_bytes (ad_id a) @ [private_kind_tag (ad_kind a), of_nat (length (ad_ticker a))] @ ad_ticker a"

lemma private_asset_kind_iff: "private_asset_kind tag = Inr k \<longleftrightarrow> tag = private_kind_tag k"
  by (cases k) (auto simp: private_asset_kind_def)

lemma private_asset_bytes_eq:
  "valid_ticker (ad_ticker a) \<Longrightarrow> private_asset_bytes a = Inr (asset_frame a)"
  by (simp add: private_asset_bytes_def asset_frame_def valid_ticker_def try_from_usize_small)

lemma asset_frame_length: "valid_ticker (ad_ticker a) \<Longrightarrow> length (asset_frame a) \<le> 50"
  by (simp add: asset_frame_def valid_ticker_def)

lemma read_private_asset_back:
  assumes a: "valid_ticker (ad_ticker a)" and size: "length pre + length (asset_frame a) + length rest < 2 ^ 64"
    and order: "\<forall>q. previous = Some q \<longrightarrow> q < ad_id a"
  shows "read_private_asset previous (reader_at pre (asset_frame a @ rest)) =
    Inr (a, reader_at (pre @ asset_frame a) rest)"
proof -
  have t: "length (ad_ticker a) \<le> 16" "ad_ticker a \<noteq> []" using a by (simp_all add: valid_ticker_def)
  then have u: "unat (of_nat (length (ad_ticker a)) :: byte) = length (ad_ticker a)" by (intro unat_length_byte) simp
  have k: "private_asset_kind (private_kind_tag (ad_kind a)) = Inr (ad_kind a)" by (simp add: private_asset_kind_iff)
  have "\<not> (case previous of Some q \<Rightarrow> ad_id a \<le> q | None \<Rightarrow> False)" using order by (auto split: option.splits)
  with size a t show ?thesis
    by (simp add: read_private_asset_def asset_frame_def wire_simps u k ticker_is_utf8 AssetDefinition_new_self Suc_le_eq)
qed

lemma read_private_asset_only:
  assumes "read_private_asset previous (reader_at pre inp) = Inr (a, r)"
  shows "valid_ticker (ad_ticker a) \<and> (\<exists>rest. r = reader_at (pre @ asset_frame a) rest)"
  using assms
  by (auto simp: read_private_asset_def and_then_eq_Inr asset_frame_def AssetDefinition_new_Inr_iff private_asset_kind_iff
      split: if_splits dest!: wire_dests)

lemma read_private_assets_back:
  assumes "\<forall>a \<in> set xs. valid_ticker (ad_ticker a)" "sorted_wrt (<) (map ad_id xs)"
    "\<forall>q. previous = Some q \<longrightarrow> (\<forall>a \<in> set xs. q < ad_id a)"
    "length pre + length (concat (map asset_frame xs)) + length rest < 2 ^ 64"
  shows "read_private_assets previous (length xs) (reader_at pre (concat (map asset_frame xs) @ rest)) =
    Inr (xs, reader_at (pre @ concat (map asset_frame xs)) rest)"
  using assms by (induction xs arbitrary: pre previous) (simp_all add: read_private_asset_back)

lemma read_private_assets_only:
  assumes "read_private_assets previous n (reader_at pre inp) = Inr (xs, r)"
  shows "\<forall>a \<in> set xs. valid_ticker (ad_ticker a)"
  using assms
proof (induction n arbitrary: pre inp xs previous)
  case (Suc n)
  then obtain a r1 ys where a: "read_private_asset previous (reader_at pre inp) = Inr (a, r1)"
    and ys: "read_private_assets (Some (ad_id a)) n r1 = Inr (ys, r)" and xs: "xs = a # ys"
    by (auto simp: and_then_eq_Inr)
  from read_private_asset_only [OF a] obtain rest where
    v: "valid_ticker (ad_ticker a)" and r1: "r1 = reader_at (pre @ asset_frame a) rest" by blast
  from Suc.IH [OF ys [unfolded r1]] v xs show ?case by simp
qed simp

text \<open>The fields of a record, what the decoder demands of them, and their encoding.\<close>

definition record_fields_ok :: "private_record \<Rightarrow> bool" where
  "record_fields_ok f \<longleftrightarrow> length (pr_commitments f) \<le> 1024 \<and> length (pr_nullifiers f) \<le> 2048
     \<and> length (pr_assets f) \<le> 4096 \<and> (\<forall>v \<in> set (pr_commitments f). vector_wf v)
     \<and> (\<forall>v \<in> set (pr_nullifiers f). vector_wf v) \<and> (\<forall>a \<in> set (pr_assets f). valid_ticker (ad_ticker a))
     \<and> sorted_wrt (<) (map ad_id (pr_assets f))"

definition record_body :: "private_record \<Rightarrow> bytes" where
  "record_body f = ascii ''NXPR'' @ to_be_bytes (1 :: u16) @ [0, 0]
     @ to_be_bytes (pr_genesis_id f) @ to_be_bytes (pr_validation_context_id f)
     @ to_be_bytes (pr_tree_parameters f) @ to_be_bytes (pr_state_id f)
     @ to_be_bytes (of_nat (length (pr_commitments f)) :: u32) @ to_be_bytes (of_nat (length (pr_nullifiers f)) :: u32)
     @ to_be_bytes (of_nat (length (pr_assets f)) :: u16)
     @ concat (pr_commitments f) @ concat (pr_nullifiers f) @ concat (map asset_frame (pr_assets f))"

definition record_of :: "private_ledger \<Rightarrow> private_record" where
  "record_of l =
     \<lparr>pr_genesis_id = pa_genesis_id (pv_anchor l), pr_validation_context_id = pa_validation_context_id (pv_anchor l),
      pr_tree_parameters = pa_note_tree_parameters (pv_anchor l), pr_state_id = pa_state_id (pv_anchor l),
      pr_commitments = ps_commitments (pv_snapshot l), pr_nullifiers = ps_spent_nullifiers (pv_snapshot l),
      pr_assets = pv_asset_list l\<rparr>"

lemma concat_length_le: "(\<And>x. x \<in> set xs \<Longrightarrow> length (f x) \<le> k) \<Longrightarrow> length (concat (map f xs)) \<le> k * length xs"
  by (induction xs) fastforce+

lemma record_parts_length:
  assumes "record_fields_ok f"
  shows "length (concat (pr_commitments f)) \<le> 65536" "length (concat (pr_nullifiers f)) \<le> 131072"
    "length (concat (map asset_frame (pr_assets f))) \<le> 204800"
proof -
  note ok = assms [unfolded record_fields_ok_def]
  show "length (concat (pr_commitments f)) \<le> 65536" "length (concat (pr_nullifiers f)) \<le> 131072"
    using concat_length_le [of "pr_commitments f" "\<lambda>v. v" 64] concat_length_le [of "pr_nullifiers f" "\<lambda>v. v" 64] ok
    by (auto simp: vector_wf_def)
  show "length (concat (map asset_frame (pr_assets f))) \<le> 204800"
    using concat_length_le [of "pr_assets f" asset_frame 50] asset_frame_length ok by fastforce
qed

lemma record_body_length:
  assumes "record_fields_ok f"
  shows "146 \<le> length (record_body f)" "length (record_body f) \<le> 401554"
  using record_parts_length [OF assms] by (simp_all add: record_body_def ascii_def)

lemma parse_private_record_back:
  assumes ok: "record_fields_ok f"
  shows "parse_private_record (record_body f) = Inr f"
proof -
  note len = record_parts_length [OF ok]
  note o = ok [unfolded record_fields_ok_def]
  have magic: "length (ascii ''NXPR'') = 4" by (simp add: ascii_def)
  have reserved: "read_array nxpr_reader 2 (reader_at pre (0 # 0 # rest)) = Inr ([0, 0], reader_at (pre @ [0, 0]) rest)"
    if "length pre + 2 + length rest < 2 ^ 64" for pre rest
    using read_array_back [of "[0, 0]" 2 pre rest nxpr_reader] that by simp
  have u32: "unat (of_nat n :: u32) = n" if "n \<le> 2048" for n using that by (simp add: unat_of_nat)
  have u16: "unat (of_nat n :: u16) = n" if "n \<le> 4096" for n using that by (simp add: unat_of_nat)
  have cs: "read_many read_vector (length (pr_commitments f)) (reader_at pre (concat (pr_commitments f) @ rest)) =
      Inr (pr_commitments f, reader_at (pre @ concat (pr_commitments f)) rest)"
    if "length pre + 65536 + length rest < 2 ^ 64" for pre rest
    using note_vector.read_many_back [of "pr_commitments f" pre rest] o len that by simp
  have ns: "read_many read_vector (length (pr_nullifiers f)) (reader_at pre (concat (pr_nullifiers f) @ rest)) =
      Inr (pr_nullifiers f, reader_at (pre @ concat (pr_nullifiers f)) rest)"
    if "length pre + 131072 + length rest < 2 ^ 64" for pre rest
    using note_vector.read_many_back [of "pr_nullifiers f" pre rest] o len that by simp
  have as: "read_private_assets None (length (pr_assets f)) (reader_at pre (concat (map asset_frame (pr_assets f)))) =
      Inr (pr_assets f, reader_at (pre @ concat (map asset_frame (pr_assets f))) [])"
    if "length pre + 204800 < 2 ^ 64" for pre
    using read_private_assets_back [of "pr_assets f" None pre "[]"] o len that by simp
  have counts: "bounded_count (length (pr_commitments f)) 1024 ''commitments'' = Inr (length (pr_commitments f))"
    "bounded_count (length (pr_nullifiers f)) 2048 ''nullifiers'' = Inr (length (pr_nullifiers f))"
    "bounded_count (length (pr_assets f)) 4096 ''assets'' = Inr (length (pr_assets f))"
    using o by (simp_all add: bounded_count_def)
  have small: "length (pr_commitments f) \<le> 2048" "length (pr_nullifiers f) \<le> 2048" "length (pr_assets f) \<le> 4096"
    using o by simp_all
  show ?thesis
    unfolding parse_private_record_def record_body_def new_reader_at
    using len magic small by (simp add: wire_simps reserved u32 u16 cs ns as counts)
qed

lemma parse_private_record_only:
  assumes "parse_private_record body = Inr f"
  shows "(\<forall>v \<in> set (pr_commitments f). vector_wf v) \<and> (\<forall>v \<in> set (pr_nullifiers f). vector_wf v)
    \<and> (\<forall>a \<in> set (pr_assets f). valid_ticker (ad_ticker a))"
  using assms
  by (auto simp: parse_private_record_def and_then_eq_Inr split: if_splits
      dest!: wire_dests note_vector.read_many_only read_private_assets_only)

lemma pv_asset_list_eq:
  assumes "assets_ok (pv_assets l)"
  shows "map ad_id (pv_asset_list l) = sorted_list_of_fset (fmdom (pv_assets l))"
    "\<forall>a \<in> set (pv_asset_list l). valid_ticker (ad_ticker a)" "assets_map (pv_asset_list l) = pv_assets l"
proof -
  let ?ks = "sorted_list_of_fset (fmdom (pv_assets l))"
  have list: "pv_asset_list l = map (\<lambda>k. the (fmlookup (pv_assets l) k)) ?ks"
    by (simp add: pv_asset_list_def sorted_list_of_fmap_def comp_def)
  have a: "ad_id (the (fmlookup (pv_assets l) k)) = k \<and> valid_ticker (ad_ticker (the (fmlookup (pv_assets l) k)))"
    if "k \<in> set ?ks" for k
    using that assms fmlookup_in_dom [of k "pv_assets l"] by (auto simp: assets_ok_def)
  show ids: "map ad_id (pv_asset_list l) = ?ks" unfolding list map_map comp_def by (intro map_idI) (use a in blast)
  show "\<forall>a \<in> set (pv_asset_list l). valid_ticker (ad_ticker a)" unfolding list using a by auto
  have "map (\<lambda>a. (ad_id a, a)) (pv_asset_list l) = zip (map ad_id (pv_asset_list l)) (pv_asset_list l)"
    by (simp add: zip_map1 zip_same_conv_map)
  also have "\<dots> = sorted_list_of_fmap (pv_assets l)"
    unfolding ids by (simp add: list sorted_list_of_fmap_def zip_map2 zip_same_conv_map)
  finally have "assets_map (pv_asset_list l) = fmap_of_list (sorted_list_of_fmap (pv_assets l))"
    by (simp add: assets_map_def)
  also have "\<dots> = pv_assets l" by (intro fmap_ext) (simp add: fmlookup_of_list)
  finally show "assets_map (pv_asset_list l) = pv_assets l" .
qed

lemma collect_frames:
  "\<forall>a \<in> set xs. valid_ticker (ad_ticker a) \<Longrightarrow> collect_results private_asset_bytes xs = Inr (map asset_frame xs)"
  by (induction xs) (simp_all add: private_asset_bytes_eq)

definition record_fits :: "private_ledger \<Rightarrow> bool" where
  "record_fits l \<longleftrightarrow> length (ps_spent_nullifiers (pv_snapshot l)) \<le> 2048 \<and> length (pv_asset_list l) \<le> 4096"

lemma record_of_ok:
  assumes "pv_inv env l" "record_fits l"
  shows "record_fields_ok (record_of l)"
proof -
  from assms(1) obtain R N i where "pv_inv_at env R N i l" by (auto simp: pv_inv_def)
  then obtain cs S where l: "notes_ok cs" "tree_ok env N (pv_nullifier_tree l) S" "assets_ok (pv_assets l)"
    "pv_notes l = cs" "pv_spent l = S" by (rule pv_inv_atE)
  have "\<forall>n \<in> S. vector_wf n" using l(2) by (simp add: tree_ok_def)
  with l assms(2) pv_asset_list_eq [OF l(3)] show ?thesis
    by (simp add: record_fields_ok_def record_of_def record_fits_def notes_ok_def)
qed

lemma encode_private_ledger_eq:
  assumes "pv_inv env l"
  shows "encode_private_ledger env l =
    (if 2048 < length (ps_spent_nullifiers (pv_snapshot l))
     then Inl (PrTooManyNullifiers (length (ps_spent_nullifiers (pv_snapshot l))))
     else if 4096 < length (pv_asset_list l) then Inl (PrTooManyAssets (length (pv_asset_list l)))
     else Inr (record_body (record_of l)
       @ to_be_bytes (private_record_checksum (ce_sha env) (record_body (record_of l)))))"
proof -
  have a: "assets_ok (pv_assets l)" "length (pv_notes l) \<le> 1024"
    using assms by (auto simp: pv_inv_def pv_inv_at_def Let_def notes_ok_def)
  note frames = collect_frames [OF pv_asset_list_eq(2) [OF a(1)]]
  show ?thesis
  proof (cases "record_fits l")
    case False
    then show ?thesis by (auto simp: encode_private_ledger_def record_fits_def Let_def)
  next
    case True
    have u32: "put_u32 n = Inr (to_be_bytes (of_nat n :: u32))" if "n \<le> 2048" for n
      using that by (simp add: put_u32_def try_from_usize_small)
    have u16: "put_u16 n = Inr (to_be_bytes (of_nat n :: u16))" if "n \<le> 4096" for n
      using that by (simp add: put_u16_def try_from_usize_small)
    from True a(2) u32 u16 show ?thesis
      by (simp add: encode_private_ledger_def Let_def frames record_fits_def record_body_def record_of_def)
  qed
qed

lemma pv_register_all:
  assumes "distinct (map ad_id as)" and "\<forall>a \<in> set as. ad_id a |\<notin>| fmdom (pv_assets l)"
  shows "try_fold (\<lambda>l a. map_err PrLedger (pv_register_asset l a)) l as =
    Inr (l\<lparr>pv_assets := pv_assets l ++\<^sub>f assets_map as\<rparr>)"
  using assms
proof (induction as arbitrary: l)
  case (Cons a as)
  have "fmupd (ad_id a) a (pv_assets l) ++\<^sub>f assets_map as = pv_assets l ++\<^sub>f assets_map (a # as)"
    using Cons.prems(1)
    by (intro fmap_ext) (auto simp: assets_map_def fmlookup_of_list map_of_eq_None_iff fset_of_list.rep_eq
        image_iff split: option.splits)
  moreover have "pv_register_asset l a = Inr (l\<lparr>pv_assets := fmupd (ad_id a) a (pv_assets l)\<rparr>)"
    using Cons.prems(2) by (simp add: pv_register_asset_def)
  moreover have "\<forall>b \<in> set as. ad_id b \<noteq> ad_id a" using Cons.prems(1) by (auto simp: image_iff)
  ultimately show ?case
    using Cons.IH [of "l\<lparr>pv_assets := fmupd (ad_id a) a (pv_assets l)\<rparr>"] Cons.prems by simp
qed (simp add: assets_map_def)

text \<open>Rebuilding the fields of a well-formed ledger gives the ledger, its tree included: the stored
  nodes are determined by the set of nullifiers.\<close>

lemma rebuild_record_of:
  assumes "pv_inv env l"
  shows "rebuild_private_ledger env (record_of l) = Inr l"
proof -
  from assms obtain R N i where "pv_inv_at env R N i l" by (auto simp: pv_inv_def)
  then obtain g c p cs S where l: "load_candidate env = Inr R" "sparse_candidate_id env = Inr i" "notes_ok cs"
    "tree_ok env N (pv_nullifier_tree l) S" "assets_ok (pv_assets l)" "pv_snapshot l = snapshot_of env R cs S"
    "pv_anchor l = anchor_of env R N i g c p cs S" by (rule pv_inv_atE)
  note t = tree_okD [OF l(4)]
  have snap: "private_snapshot_new env R cs (sorted_list_of_set S) = Inr (snapshot_of env R cs S)"
    using private_snapshot_new_eq [OF l(1), of cs "sorted_list_of_set S"] l(3) t(4) by (simp add: notes_ok_def)
  obtain st st' where st: "nt_new_candidate env = Inr st" "nt_mark_all st (sorted_list_of_set S) = Inr st'"
    "nt_reference st' = N" "represents st' S"
    using nt_mark_set [OF t(1,4,5,7)] by blast
  then have tree: "st' = pv_nullifier_tree l" using represents_unique [OF st(4) t(3)] t(2) by simp
  let ?l0 = "\<lparr>pv_assets = fmempty, pv_snapshot = snapshot_of env R cs S, pv_nullifier_tree = pv_nullifier_tree l,
    pv_anchor = pv_anchor l\<rparr>"
  have new: "private_ledger_new env g c p (snapshot_of env R cs S) (pv_nullifier_tree l) = Inr ?l0"
    using pa_new_eq [OF l(4,2)] l(7) by (simp add: private_ledger_new_def)
  have "distinct (map ad_id (pv_asset_list l))"
    unfolding pv_asset_list_eq(1) [OF l(5)] using sorted_fset strict_sorted_iff by blast
  from pv_register_all [OF this, of ?l0]
  have reg: "try_fold (\<lambda>l a. map_err PrLedger (pv_register_asset l a)) ?l0 (pv_asset_list l) = Inr l"
    using l(6) pv_asset_list_eq(3) [OF l(5)] by (cases l) simp
  have fields: "record_of l = \<lparr>pr_genesis_id = g, pr_validation_context_id = c, pr_tree_parameters = p,
      pr_state_id = pa_state_id (pv_anchor l), pr_commitments = cs, pr_nullifiers = sorted_list_of_set S,
      pr_assets = pv_asset_list l\<rparr>"
    unfolding record_of_def l(6) by (simp add: l(7) snapshot_of_def)
  have list: "ps_spent_nullifiers (snapshot_of env R cs S) = sorted_list_of_set S" by (simp add: snapshot_of_def)
  show ?thesis
    unfolding rebuild_private_ledger_def fields
    by (simp add: l(1) snap list st(1,2) tree new reg)
qed

interpretation private_assets: fallible_machine "\<lambda>l a. map_err PrLedger (pv_register_asset l a)" "pv_inv env"
  "\<lambda>a. valid_ticker (ad_ticker a)" for env
proof
  fix l a l'
  assume "pv_inv env l" "valid_ticker (ad_ticker a)" "map_err PrLedger (pv_register_asset l a) = Inr l'"
  then show "pv_inv env l'" using pv_register_asset_inv by simp
qed

lemma rebuild_inv:
  assumes r: "rebuild_private_ledger env f = Inr l" and cs: "\<forall>v \<in> set (pr_commitments f). vector_wf v"
    and ns: "\<forall>v \<in> set (pr_nullifiers f). vector_wf v" and as: "\<forall>a \<in> set (pr_assets f). valid_ticker (ad_ticker a)"
  shows "pv_inv env l"
proof -
  from r obtain R s st tree l0 where
    R: "load_candidate env = Inr R" and s: "private_snapshot_new env R (pr_commitments f) (pr_nullifiers f) = Inr s"
    and st: "nt_new_candidate env = Inr st" "nt_mark_all st (ps_spent_nullifiers s) = Inr tree"
    and l0: "private_ledger_new env (pr_genesis_id f) (pr_validation_context_id f) (pr_tree_parameters f) s tree = Inr l0"
    and l: "try_fold (\<lambda>l a. map_err PrLedger (pv_register_asset l a)) l0 (pr_assets f) = Inr l"
    by (auto simp: rebuild_private_ledger_def and_then_eq_Inr split: if_splits)
  have s: "s = snapshot_of env R (pr_commitments f) (set (pr_nullifiers f))" "notes_ok (pr_commitments f)"
    using private_snapshot_new_eq [OF R cs, of "pr_nullifiers f"] s cs by (auto simp: notes_ok_def split: if_splits)
  then have ns': "set (ps_spent_nullifiers s) = set (pr_nullifiers f)" by (simp add: snapshot_of_abs)
  then have "tree_ok env (nt_reference st) tree (set (pr_nullifiers f))"
    using marked_tree_ok [OF st(1) _ st(2)] ns by simp
  from private_ledger_new_inv(1) [OF R s(2) this] l0 s(1) have "pv_inv env l0" by simp
  from private_assets.run_inv [OF l this as] show ?thesis .
qed

subsection \<open>The codec is exact\<close>

lemma decode_private_ledger_iff:
  "decode_private_ledger env bs = Inr l \<longleftrightarrow> pv_inv env l \<and> encode_private_ledger env l = Inr bs"
proof
  assume "decode_private_ledger env bs = Inr l"
  then obtain f where "parse_private_record (take (length bs - 32) bs) = Inr f"
    "rebuild_private_ledger env f = Inr l" "encode_private_ledger env l = Inr bs"
    by (auto simp: decode_private_ledger_def Let_def and_then_eq_Inr split: if_splits)
  with rebuild_inv parse_private_record_only
  show "pv_inv env l \<and> encode_private_ledger env l = Inr bs" by blast
next
  assume l: "pv_inv env l \<and> encode_private_ledger env l = Inr bs"
  let ?body = "record_body (record_of l)"
  have fits: "record_fits l" and bs: "bs = ?body @ to_be_bytes (private_record_checksum (ce_sha env) ?body)"
    using l encode_private_ledger_eq [of env l] by (auto simp: record_fits_def split: if_splits)
  note ok = record_of_ok [OF conjunct1 [OF l] fits]
  have len: "length bs = length ?body + 32" "146 \<le> length ?body" using record_body_length(1) [OF ok] by (simp_all add: bs)
  then have "take (length bs - 32) bs = ?body"
    "drop (length bs - 32) bs = to_be_bytes (private_record_checksum (ce_sha env) ?body)" by (simp_all add: bs)
  with parse_private_record_back [OF ok] rebuild_record_of [of env l] l len show "decode_private_ledger env bs = Inr l"
    by (simp add: decode_private_ledger_def)
qed

lemma encoded_ledger_length:
  assumes "pv_inv env l" "encode_private_ledger env l = Inr bs"
  shows "178 \<le> length bs" "length bs \<le> 401586"
proof -
  have fits: "record_fits l"
    and bs: "bs = record_body (record_of l) @ to_be_bytes (private_record_checksum (ce_sha env) (record_body (record_of l)))"
    using encode_private_ledger_eq [OF assms(1)] assms(2) by (auto simp: record_fits_def split: if_splits)
  from record_body_length [OF record_of_ok [OF assms(1) fits]] show "178 \<le> length bs" "length bs \<le> 401586"
    by (simp_all add: bs)
qed

subsection \<open>Properties\<close>

text \<open>C13: A private transfer on every branch. On a well-formed ledger, the transfer fails with the first
  of: an unknown asset, an intent that does not name the current anchor, a spent first or second input,
  an exhausted counter, too many notes, a repeated output, and only then the refusal of the authorizer.
  Otherwise it succeeds, the receipt names the identities of both states, and the new ledger is well
  formed, has the two outputs appended and exactly the two nullifiers added, and keeps its assets.\<close>

theorem apply_transfer_on_every_branch:
  assumes "pv_inv env l" and "intent_wf (rq_intent rq)"
    and "pi_nullifiers (rq_intent rq) = (m, n)" and "output_commitments (rq_intent rq) = (x, y)"
  shows "\<exists>l'. apply_transfer env authorizer l rq =
      (if pi_asset_id (rq_intent rq) |\<notin>| fmdom (pv_assets l) then Inl (PvUnknownAsset (pi_asset_id (rq_intent rq)))
       else and_then (map_err (PvStateTransition \<circ> TrIntent) (pa_assert_matches_intent (pv_anchor l) (rq_intent rq))) (\<lambda>_.
         if m \<in> pv_spent l then Inl (PvStateTransition (TrInputAlreadySpent 0))
         else if n \<in> pv_spent l then Inl (PvStateTransition (TrInputAlreadySpent 1))
         else if 2 ^ 64 \<le> card (pv_spent l) + 2 then Inl (PvStateTransition (TrSparseTree NtCountOverflow))
         else if 1024 < length (pv_notes l) + 2
           then Inl (PvStateTransition (TrSnapshot (PsTooManyCommitments (length (pv_notes l) + 2))))
         else if x \<in> set (pv_notes l) \<or> y \<in> set (pv_notes l)
           then Inl (PvStateTransition (TrSnapshot PsDuplicateCommitment))
         else and_then (map_err PvAuthorization (authorizer (rq_authorization rq) (pv_anchor l)
             (pv_nullifier_tree l) (rq_intent rq))) (\<lambda>_.
           Inr (\<lparr>rc_pre_state_id = pa_state_id (pv_anchor l), rc_post_state_id = pa_state_id (pv_anchor l'),
                 rc_asset_id = pi_asset_id (rq_intent rq), rc_input_nullifiers = (m, n),
                 rc_output_commitments = (x, y)\<rparr>, l'))))
    \<and> (m \<notin> pv_spent l \<and> n \<notin> pv_spent l \<and> card (pv_spent l) + 2 < 2 ^ 64 \<and> length (pv_notes l) + 2 \<le> 1024
        \<and> x \<notin> set (pv_notes l) \<and> y \<notin> set (pv_notes l) \<longrightarrow>
        pv_inv env l' \<and> pv_notes l' = pv_notes l @ [x, y] \<and> pv_spent l' = pv_spent l \<union> {m, n}
        \<and> pv_assets l' = pv_assets l)"
  using assms by (rule apply_transfer_eq)

text \<open>A ledger of two notes with one registered asset, and a transfer that spends two nullifiers.\<close>

definition sample_asset :: asset_definition where
  "sample_asset = \<lparr>ad_id = 5, ad_ticker = ascii ''NOX'', ad_kind = Synthetic\<rparr>"

definition sample_request :: "private_ledger \<Rightarrow> unit private_request" where
  "sample_request l =
     \<lparr>rq_intent = \<lparr>pi_circuit_id = 4, pi_genesis_id = pa_genesis_id (pv_anchor l),
        pi_validation_context_id = pa_validation_context_id (pv_anchor l), pi_pre_state_id = pa_state_id (pv_anchor l),
        pi_tree_parameters = pa_note_tree_parameters (pv_anchor l), pi_pre_state_root = pa_note_root (pv_anchor l),
        pi_asset_id = 5, pi_nullifiers = (sample_vector 3, sample_vector 4),
        pi_outputs = (\<lparr>po_commitment = sample_vector 5, po_ciphertext_digest = sample_vector 1\<rparr>,
          \<lparr>po_commitment = sample_vector 6, po_ciphertext_digest = sample_vector 1\<rparr>)\<rparr>,
      rq_authorization = ()\<rparr>"

definition accept_transfers :: "unit authorizer" where
  "accept_transfers authorization anchor tree intent = Inr ()"

lemma sample_ledger:
  "\<exists>l. pv_inv sample_env l \<and> pv_notes l = [sample_vector 1, sample_vector 2] \<and> pv_spent l = {}
    \<and> pv_assets l = fmupd 5 sample_asset fmempty"
proof -
  let ?cs = "[sample_vector 1, sample_vector 2]"
  obtain st0 where st0: "nt_new_candidate sample_env = Inr st0" using nt_new_sample by blast
  have tree: "tree_ok sample_env (nt_reference st0) st0 {}"
    using marked_tree_ok [OF st0, of "[]"] by (simp add: nt_mark_all_def)
  obtain i where i: "sparse_candidate_id sample_env = Inr i"
    using sparse_candidate_loaded [OF tree_okD(1) [OF tree]] by blast
  have cs: "notes_ok ?cs" by (simp add: notes_ok_def sample_vector_wf sample_canonical sample_vector_inject)
  have "assets_ok (fmupd 5 sample_asset fmempty)"
    by (auto simp: assets_ok_def sample_asset_def valid_ticker_def ascii_def is_ascii_uppercase_def)
  from pv_inv_atI [OF load_sample i cs tree this, of 1 2 3] show ?thesis
    unfolding pv_inv_def by (intro exI conjI; assumption?) (simp_all add: snapshot_of_abs)
qed

lemma sample_request_wf:
  assumes "pv_inv sample_env l"
  shows "intent_wf (rq_intent (sample_request l))"
proof -
  from assms obtain R N i where "pv_inv_at sample_env R N i l" by (auto simp: pv_inv_def)
  then obtain g c p cs S where l: "load_candidate sample_env = Inr R" "notes_ok cs"
    "pv_anchor l = anchor_of sample_env R N i g c p cs S" by (rule pv_inv_atE)
  have root: "vector_wf (pa_note_root (pv_anchor l))"
    using commitments_root_wf [OF l(1), of cs] l(2) vector_from_elements_wf by (simp add: l(3) notes_ok_def digest_wf_def)
  have "sample_vector 3 < sample_vector 4" "sample_vector 5 < sample_vector 6" by code_simp+
  with root show ?thesis
    by (simp add: intent_wf_def sample_request_def output_commitments_def sample_vector_wf sample_canonical)
qed

theorem apply_transfer_on_every_branch_witness:
  "\<exists>l l' receipt. pv_inv sample_env l \<and> apply_transfer sample_env accept_transfers l (sample_request l) = Inr (receipt, l')
    \<and> pv_notes l' = map sample_vector [1, 2, 5, 6] \<and> pv_spent l' = {sample_vector 3, sample_vector 4}
    \<and> rc_post_state_id receipt = pa_state_id (pv_anchor l')"
proof -
  obtain l where l: "pv_inv sample_env l" "pv_notes l = [sample_vector 1, sample_vector 2]" "pv_spent l = {}"
    "pv_assets l = fmupd 5 sample_asset fmempty" using sample_ledger by blast
  let ?rq = "sample_request l"
  have ns: "pi_nullifiers (rq_intent ?rq) = (sample_vector 3, sample_vector 4)"
    and os: "output_commitments (rq_intent ?rq) = (sample_vector 5, sample_vector 6)"
    by (simp_all add: sample_request_def output_commitments_def)
  have asset: "pi_asset_id (rq_intent ?rq) |\<in>| fmdom (pv_assets l)" using l(4) by (simp add: sample_request_def)
  have intent: "pa_assert_matches_intent (pv_anchor l) (rq_intent ?rq) = Inr ()"
    by (simp add: pa_assert_matches_intent_def sample_request_def)
  from apply_transfer_on_every_branch [OF l(1) sample_request_wf [OF l(1)] ns os, of accept_transfers] asset intent l
  show ?thesis by (auto simp: sample_vector_inject accept_transfers_def)
qed

text \<open>C9: No note is spent twice and none disappears. From a well-formed ledger, any sequence of asset
  registrations and transfers that the code accepts ends in a well-formed ledger whose notes are the old
  ones followed by all outputs in order, and whose spent set is the old one with all inputs added; the
  inputs of the whole sequence are pairwise different and none of them was spent before.\<close>

theorem private_ledger_never_double_spends:
  assumes "pv_inv env l" and "\<forall>input \<in> set inputs. pv_input_ok input"
    and "try_fold (pv_step env authorizer) l inputs = Inr l'"
  shows "pv_inv env l' \<and> pv_notes l' = pv_notes l @ concat (map input_outputs inputs)
    \<and> pv_spent l' = pv_spent l \<union> set (concat (map input_nullifiers inputs))
    \<and> distinct (concat (map input_nullifiers inputs))
    \<and> set (concat (map input_nullifiers inputs)) \<inter> pv_spent l = {}"
  using private_machine.run_inv [OF assms(3,1,2)] pool_run [OF private_machine.run_refines [OF assms(3,1,2)]] by simp

theorem private_ledger_never_double_spends_witness:
  "\<exists>l l'. pv_inv sample_env l
    \<and> try_fold (pv_step sample_env accept_transfers) l [PvRegister (sample_asset\<lparr>ad_id := 6\<rparr>), PvTransfer (sample_request l)] = Inr l'
    \<and> pv_spent l' = {sample_vector 3, sample_vector 4} \<and> pv_inv sample_env l'"
proof -
  obtain l where l: "pv_inv sample_env l" "pv_notes l = [sample_vector 1, sample_vector 2]" "pv_spent l = {}"
    "pv_assets l = fmupd 5 sample_asset fmempty" using sample_ledger by blast
  let ?a = "sample_asset\<lparr>ad_id := 6\<rparr>" and ?rq = "sample_request l"
  let ?l = "l\<lparr>pv_assets := fmupd 6 ?a (pv_assets l)\<rparr>"
  have a: "valid_ticker (ad_ticker ?a)" by (simp add: sample_asset_def valid_ticker_def ascii_def is_ascii_uppercase_def)
  have reg: "pv_register_asset l ?a = Inr ?l" using l(4) by (simp add: pv_register_asset_def)
  note inv = pv_register_asset_inv [OF l(1) a reg]
  have ns: "pi_nullifiers (rq_intent ?rq) = (sample_vector 3, sample_vector 4)"
    and os: "output_commitments (rq_intent ?rq) = (sample_vector 5, sample_vector 6)"
    by (simp_all add: sample_request_def output_commitments_def)
  have intent: "pa_assert_matches_intent (pv_anchor ?l) (rq_intent ?rq) = Inr ()"
    by (simp add: pa_assert_matches_intent_def sample_request_def)
  from apply_transfer_eq [OF inv sample_request_wf [OF l(1)] ns os, of accept_transfers] intent l
  obtain receipt l' where "apply_transfer sample_env accept_transfers ?l ?rq = Inr (receipt, l')"
    by (auto simp: sample_vector_inject accept_transfers_def sample_request_def)
  then have run: "try_fold (pv_step sample_env accept_transfers) l [PvRegister ?a, PvTransfer ?rq] = Inr l'"
    using reg by (simp add: pv_step_def)
  have "\<forall>input \<in> set [PvRegister ?a, PvTransfer ?rq]. pv_input_ok input" using a sample_request_wf [OF l(1)] by simp
  from private_ledger_never_double_spends [OF l(1) this run] l run ns show ?thesis by (auto simp: pair_list_def)
qed

text \<open>C12: The state record \<open>NXPR v1\<close> is exact. A byte string decodes to a ledger exactly when that
  ledger is well formed and the byte string is its encoding, so every record the encoder writes is read back to
  the same assets, snapshot, tree and anchor, and no other byte string is accepted.\<close>

theorem private_record_codec_exact:
  "decode_private_ledger env bs = Inr l \<longleftrightarrow> pv_inv env l \<and> encode_private_ledger env l = Inr bs"
  by (rule decode_private_ledger_iff)

end
