(* ===== verification/Private_Journal.thy ===== *)
theory Private_Journal
  imports Private_Ledger Frame_Log
begin

text \<open>
  The two append-only journals of the private ledger in \<^verbatim>\<open>crates/noxis-storage\<close>: \<open>NXPL v1\<close>, one record of a
  state per frame (\<^verbatim>\<open>private_state_journal.rs\<close>), and \<open>NXPL v2\<close>, a receipt and the state it led to
  (\<^verbatim>\<open>private_submission_journal.rs\<close>). Both are framed logs whose entries form a chain: sequence numbers count
  up from one and every entry names the state before it. The chain is shared code here: its two sets of
  accessors and error values are the fields of a record.
\<close>

declare upt_rec_numeral [simp del]

subsection \<open>Chained entries\<close>

record ('a, 'e) chain_format =
  cf_offset :: "'a \<Rightarrow> nat"
  cf_sequence :: "'a \<Rightarrow> u64"
  cf_previous :: "'a \<Rightarrow> state_id"
  cf_state_id :: "'a \<Rightarrow> state_id"
  cx_sequence :: "nat \<Rightarrow> u64 \<Rightarrow> u64 \<Rightarrow> 'e"
  cx_predecessor :: "u64 \<Rightarrow> state_id \<Rightarrow> state_id \<Rightarrow> 'e"
  cx_overflow :: 'e

text \<open>The end of the loop body of \<^verbatim>\<open>scan_frames\<close>, after a payload has been decoded.\<close>

definition link_entry :: "('a, 'e) chain_format \<Rightarrow> 'a list \<Rightarrow> 'a \<Rightarrow> 'e + 'a list" where
  "link_entry cf entries entry =
     (if entries = [] then
        if cf_sequence cf entry \<noteq> 1 then Inl (cx_sequence cf (cf_offset cf entry) 1 (cf_sequence cf entry))
        else Inr [entry]
      else
        let previous = last entries
        in and_then (ok_or (checked_add (cf_sequence cf previous) 1) (cx_overflow cf)) (\<lambda>expected.
          if cf_sequence cf entry \<noteq> expected
          then Inl (cx_sequence cf (cf_offset cf entry) expected (cf_sequence cf entry))
          else if cf_previous cf entry \<noteq> cf_state_id cf previous
          then Inl (cx_predecessor cf (cf_sequence cf entry) (cf_state_id cf previous) (cf_previous cf entry))
          else Inr (entries @ [entry])))"

definition chain_scan ::
  "'e frame_format \<Rightarrow> ('a, 'e) chain_format \<Rightarrow> (nat \<Rightarrow> bytes \<Rightarrow> 'e + 'a) \<Rightarrow> bytes
    \<Rightarrow> 'e + 'a list \<times> incomplete_tail option" where
  "chain_scan fmt cf decode content =
     map_err either_error (stream_frames fmt decode (link_entry cf) [] 0 content)"

text \<open>The sequence number of the next entry, which must follow the given state.\<close>

definition saturating_succ :: "u64 \<Rightarrow> u64" where
  "saturating_succ n = (case checked_add n 1 of Some m \<Rightarrow> m | None \<Rightarrow> - 1)"

definition next_sequence :: "('a, 'e) chain_format \<Rightarrow> 'a list \<Rightarrow> state_id \<Rightarrow> 'e + u64" where
  "next_sequence cf entries previous =
     (if entries = [] then Inr 1
      else
        let latest = last entries
        in if cf_state_id cf latest \<noteq> previous
           then Inl (cx_predecessor cf (saturating_succ (cf_sequence cf latest)) (cf_state_id cf latest) previous)
           else ok_or (checked_add (cf_sequence cf latest) 1) (cx_overflow cf))"

text \<open>\<^verbatim>\<open>truncate_verified_incomplete_tail\<close>: the file is scanned again and only the expected tail is cut off.\<close>

definition chain_truncate ::
  "'e frame_format \<Rightarrow> ('a, 'e) chain_format \<Rightarrow> (nat \<Rightarrow> bytes \<Rightarrow> 'e + 'a) \<Rightarrow> 'e \<Rightarrow> bytes \<Rightarrow> incomplete_tail
    \<Rightarrow> ('e + unit) \<times> bytes" where
  "chain_truncate fmt cf decode changed content expected =
     (case chain_scan fmt cf decode content of
        Inl e \<Rightarrow> (Inl e, content)
      | Inr (_, None) \<Rightarrow> (Inl changed, content)
      | Inr (_, Some actual) \<Rightarrow>
          if actual \<noteq> expected then (Inl changed, content)
          else (Inr (), take (it_valid_prefix_length actual) content))"

subsection \<open>The state journal\<close>

definition PRIVATE_STATE_RECORD_MAX_BYTES :: nat where
  "PRIVATE_STATE_RECORD_MAX_BYTES = 146 + 1024 * 64 + 2048 * 64 + 4096 * (32 + 1 + 1 + 16) + 32"

record stored_private_state =
  sp_offset :: nat
  sp_sequence :: u64
  sp_previous_state_id :: state_id
  sp_state :: private_ledger

datatype private_journal_error =
  JnIo string
| JnInvalidMagic nat
| JnUnsupportedFrameVersion nat u16
| JnFrameTooLarge nat u32 u32
| JnChecksumMismatch nat u32 u32
| JnPayloadTruncated
| JnNestedRecordLength nat nat
| JnNestedRecordTooLarge nat
| JnRecord private_record_error
| JnResultingStateMismatch state_id state_id
| JnNestedStateMismatch
| JnSequenceMismatch nat u64 u64
| JnPredecessorMismatch u64 state_id state_id
| JnBaseStateMismatch state_id state_id
| JnSequenceOverflow
| JnOffsetOverflow
| JnIncompleteTailPresent
| JnRecoveryTailChanged

abbreviation state_id_of :: "private_ledger \<Rightarrow> state_id" where
  "state_id_of l \<equiv> pa_state_id (pv_anchor l)"

definition private_journal_format :: "private_journal_error frame_format" where
  "private_journal_format =
     \<lparr>ff_magic = ascii ''NXPL'', ff_version = 1, ff_maximum = of_nat (76 + PRIVATE_STATE_RECORD_MAX_BYTES),
      fe_magic = (\<lambda>offset magic. JnInvalidMagic offset), fe_version = JnUnsupportedFrameVersion,
      fe_too_large = JnFrameTooLarge, fe_checksum = JnChecksumMismatch, fe_overflow = JnOffsetOverflow\<rparr>"

definition private_journal_chain :: "(stored_private_state, private_journal_error) chain_format" where
  "private_journal_chain =
     \<lparr>cf_offset = sp_offset, cf_sequence = sp_sequence, cf_previous = sp_previous_state_id,
      cf_state_id = (\<lambda>x. state_id_of (sp_state x)), cx_sequence = JnSequenceMismatch,
      cx_predecessor = JnPredecessorMismatch, cx_overflow = JnSequenceOverflow\<rparr>"

definition encode_state_payload ::
  "candidate_env \<Rightarrow> u64 \<Rightarrow> state_id \<Rightarrow> bytes \<Rightarrow> private_journal_error + bytes" where
  "encode_state_payload env sequence previous nxpr =
     and_then (ok_or (try_from_usize (length nxpr)) (JnFrameTooLarge 0 (- 1) (ff_maximum private_journal_format)))
       (\<lambda>nxpr_length :: u32.
     and_then (map_err JnRecord (decode_private_ledger env nxpr)) (\<lambda>l.
       Inr (to_be_bytes sequence @ to_be_bytes previous @ to_be_bytes (state_id_of l)
         @ to_be_bytes nxpr_length @ nxpr)))"

definition decode_state_payload ::
  "candidate_env \<Rightarrow> bytes \<Rightarrow> private_journal_error + (u64 \<times> state_id \<times> private_ledger)" where
  "decode_state_payload env payload =
     (if length payload < 76 then Inl JnPayloadTruncated
      else
        let sequence = from_be_bytes (field_at payload 0 8);
            previous = from_be_bytes (field_at payload 8 32);
            resulting = from_be_bytes (field_at payload 40 32);
            nxpr_length = unat (from_be_bytes (field_at payload 72 4) :: u32)
        in if PRIVATE_STATE_RECORD_MAX_BYTES < nxpr_length then Inl (JnNestedRecordTooLarge nxpr_length)
           else
             let nxpr = drop 76 payload
             in if length nxpr \<noteq> nxpr_length then Inl (JnNestedRecordLength nxpr_length (length nxpr))
                else and_then (map_err JnRecord (decode_private_ledger env nxpr)) (\<lambda>l.
                  if state_id_of l \<noteq> resulting then Inl (JnResultingStateMismatch resulting (state_id_of l))
                  else Inr (sequence, previous, l)))"

definition decode_stored_state ::
  "candidate_env \<Rightarrow> nat \<Rightarrow> bytes \<Rightarrow> private_journal_error + stored_private_state" where
  "decode_stored_state env offset payload =
     and_then (decode_state_payload env payload) (\<lambda>(sequence, previous, l).
       Inr \<lparr>sp_offset = offset, sp_sequence = sequence, sp_previous_state_id = previous, sp_state = l\<rparr>)"

definition state_journal_scan ::
  "candidate_env \<Rightarrow> bytes \<Rightarrow> private_journal_error + stored_private_state list \<times> incomplete_tail option" where
  "state_journal_scan env content =
     chain_scan private_journal_format private_journal_chain (decode_stored_state env) content"

definition append_post_state ::
  "candidate_env \<Rightarrow> io_outcome \<Rightarrow> bytes \<Rightarrow> state_id \<Rightarrow> private_ledger \<Rightarrow> (private_journal_error + u64) \<times> bytes" where
  "append_post_state env io content previous l =
     (case
        and_then (state_journal_scan env content) (\<lambda>(entries, tail).
        if tail \<noteq> None then Inl JnIncompleteTailPresent
        else and_then (next_sequence private_journal_chain entries previous) (\<lambda>sequence.
        and_then (map_err JnRecord (encode_private_ledger env l)) (\<lambda>nxpr.
        and_then (map_err JnRecord (decode_private_ledger env nxpr)) (\<lambda>rebuilt.
        if state_id_of rebuilt \<noteq> state_id_of l then Inl JnNestedStateMismatch
        else and_then (encode_state_payload env sequence previous nxpr) (\<lambda>payload.
        and_then (encode_frame private_journal_format payload) (\<lambda>frame. Inr (sequence, frame))))))) of
        Inl e \<Rightarrow> (Inl e, content)
      | Inr (sequence, frame) \<Rightarrow>
          (case append_frame io (\<lambda>writing. JnIo (if writing then ''append private-state journal frame''
              else ''sync private-state journal frame'')) content frame of
             (Inl e, content') \<Rightarrow> (Inl e, content')
           | (Inr _, content') \<Rightarrow> (Inr sequence, content')))"

definition state_journal_recover_from ::
  "candidate_env \<Rightarrow> bytes \<Rightarrow> state_id \<Rightarrow> private_journal_error + stored_private_state list \<times> incomplete_tail option" where
  "state_journal_recover_from env content base =
     and_then (state_journal_scan env content) (\<lambda>(entries, tail).
       case entries of
         [] \<Rightarrow> Inr (entries, tail)
       | first # _ \<Rightarrow>
           if sp_previous_state_id first \<noteq> base then Inl (JnBaseStateMismatch base (sp_previous_state_id first))
           else Inr (entries, tail))"

definition state_journal_truncate ::
  "candidate_env \<Rightarrow> bytes \<Rightarrow> incomplete_tail \<Rightarrow> (private_journal_error + unit) \<times> bytes" where
  "state_journal_truncate env content expected =
     chain_truncate private_journal_format private_journal_chain (decode_stored_state env) JnRecoveryTailChanged
       content expected"

subsection \<open>The submission journal\<close>

record stored_submission =
  sb_offset :: nat
  sb_sequence :: u64
  sb_previous_state_id :: state_id
  sb_resulting_state_id :: state_id
  sb_envelope_id :: id32
  sb_asset_id :: asset_id
  sb_input_nullifiers :: "vector \<times> vector"
  sb_output_commitments :: "vector \<times> vector"
  sb_state :: private_ledger

datatype submission_journal_error =
  SjIo string
| SjRecord private_record_error
| SjPrivacy privacy_types_error
| SjInvalidMagic nat
| SjUnsupportedFrameVersion nat u16
| SjFrameTooLarge nat u32 u32
| SjChecksumMismatch nat u32 u32
| SjPayloadTruncated
| SjNestedRecordTooLarge nat
| SjNestedRecordLength nat nat
| SjResultingStateMismatch state_id state_id
| SjSequenceMismatch nat u64 u64
| SjPredecessorMismatch u64 state_id state_id
| SjSequenceOverflow
| SjOffsetOverflow
| SjIncompleteTailPresent
| SjRecoveryTailChanged
| SjZeroEnvelopeId
| SjUnknownAsset asset_id
| SjNonCanonicalInputNullifierOrder
| SjNonCanonicalOutputCommitmentOrder
| SjCommitmentCountOverflow
| SjNullifierCountOverflow
| SjOutputCommitmentDeltaMismatch nat nat
| SjOutputCommitmentsMismatch
| SjInputNullifierDeltaMismatch nat nat
| SjInputNullifierAlreadySpent
| SjInputNullifierMissingFromSuccessor

text \<open>\<^verbatim>\<open>PrivateSubmissionMetadataV1\<close> is its envelope id.\<close>

definition submission_metadata_new :: "id32 \<Rightarrow> submission_journal_error + id32" where
  "submission_metadata_new envelope_id = (if envelope_id = 0 then Inl SjZeroEnvelopeId else Inr envelope_id)"

definition submission_format :: "submission_journal_error frame_format" where
  "submission_format =
     \<lparr>ff_magic = ascii ''NXPL'', ff_version = 2, ff_maximum = of_nat (396 + PRIVATE_STATE_RECORD_MAX_BYTES),
      fe_magic = (\<lambda>offset magic. SjInvalidMagic offset), fe_version = SjUnsupportedFrameVersion,
      fe_too_large = SjFrameTooLarge, fe_checksum = SjChecksumMismatch, fe_overflow = SjOffsetOverflow\<rparr>"

definition submission_chain :: "(stored_submission, submission_journal_error) chain_format" where
  "submission_chain =
     \<lparr>cf_offset = sb_offset, cf_sequence = sb_sequence, cf_previous = sb_previous_state_id,
      cf_state_id = (\<lambda>x. state_id_of (sb_state x)), cx_sequence = SjSequenceMismatch,
      cx_predecessor = SjPredecessorMismatch, cx_overflow = SjSequenceOverflow\<rparr>"

text \<open>The check of one input of a transition.\<close>

definition validate_input :: "private_ledger \<Rightarrow> private_ledger \<Rightarrow> vector \<Rightarrow> submission_journal_error + unit" where
  "validate_input predecessor successor n =
     (if ps_is_spent (pv_snapshot predecessor) n then Inl SjInputNullifierAlreadySpent
      else if \<not> ps_is_spent (pv_snapshot successor) n then Inl SjInputNullifierMissingFromSuccessor
      else Inr ())"

definition validate_transition ::
  "private_ledger \<Rightarrow> private_ledger \<Rightarrow> id32 \<Rightarrow> asset_id \<Rightarrow> vector \<times> vector \<Rightarrow> vector \<times> vector
    \<Rightarrow> submission_journal_error + unit" where
  "validate_transition predecessor successor envelope_id asset nullifiers outputs =
     (let old_commitments = ps_commitments (pv_snapshot predecessor);
          new_commitments = ps_commitments (pv_snapshot successor);
          old_nullifiers = ps_spent_nullifiers (pv_snapshot predecessor);
          new_nullifiers = ps_spent_nullifiers (pv_snapshot successor)
      in if envelope_id = 0 then Inl SjZeroEnvelopeId
         else if fmlookup (pv_assets predecessor) asset = None then Inl (SjUnknownAsset asset)
         else if snd nullifiers \<le> fst nullifiers then Inl SjNonCanonicalInputNullifierOrder
         else if snd outputs \<le> fst outputs then Inl SjNonCanonicalOutputCommitmentOrder
         else and_then (ok_or (checked_add_usize (length old_commitments) 2) SjCommitmentCountOverflow) (\<lambda>expected.
         if length new_commitments \<noteq> expected
         then Inl (SjOutputCommitmentDeltaMismatch (length old_commitments) (length new_commitments))
         else if drop (length old_commitments) new_commitments \<noteq> pair_list outputs then Inl SjOutputCommitmentsMismatch
         else and_then (ok_or (checked_add_usize (length old_nullifiers) 2) SjNullifierCountOverflow) (\<lambda>expected.
         if length new_nullifiers \<noteq> expected
         then Inl (SjInputNullifierDeltaMismatch (length old_nullifiers) (length new_nullifiers))
         else and_then (validate_input predecessor successor (fst nullifiers)) (\<lambda>_.
         and_then (validate_input predecessor successor (snd nullifiers)) (\<lambda>_.
         if length (filter (\<lambda>n. \<not> ps_is_spent (pv_snapshot predecessor) n) new_nullifiers) \<noteq> 2
         then Inl (SjInputNullifierDeltaMismatch (length old_nullifiers) (length new_nullifiers))
         else Inr ())))))"

definition encode_submission_payload ::
  "candidate_env \<Rightarrow> u64 \<Rightarrow> state_id \<Rightarrow> state_id \<Rightarrow> id32 \<Rightarrow> asset_id \<Rightarrow> vector \<times> vector \<Rightarrow> vector \<times> vector \<Rightarrow> bytes
    \<Rightarrow> submission_journal_error + bytes" where
  "encode_submission_payload env sequence previous resulting envelope_id asset nullifiers outputs nxpr =
     and_then (ok_or (try_from_usize (length nxpr)) (SjFrameTooLarge 0 (- 1) (ff_maximum submission_format)))
       (\<lambda>nxpr_length :: u32.
     and_then (map_err SjRecord (decode_private_ledger env nxpr)) (\<lambda>rebuilt.
     if state_id_of rebuilt \<noteq> resulting then Inl (SjResultingStateMismatch resulting (state_id_of rebuilt))
     else Inr (to_be_bytes sequence @ to_be_bytes previous @ to_be_bytes resulting @ to_be_bytes envelope_id
       @ to_be_bytes asset @ fst nullifiers @ snd nullifiers @ fst outputs @ snd outputs
       @ to_be_bytes nxpr_length @ nxpr)))"

definition decode_submission_payload :: "candidate_env \<Rightarrow> bytes \<Rightarrow> submission_journal_error + stored_submission" where
  "decode_submission_payload env payload =
     (if length payload < 396 then Inl SjPayloadTruncated
      else
        let sequence = from_be_bytes (field_at payload 0 8);
            previous = from_be_bytes (field_at payload 8 32);
            resulting = from_be_bytes (field_at payload 40 32)
        in and_then (submission_metadata_new (from_be_bytes (field_at payload 72 32))) (\<lambda>envelope_id.
           let asset = from_be_bytes (field_at payload 104 32)
           in and_then (map_err SjPrivacy (vector_new (field_at payload 136 64))) (\<lambda>nullifier0.
           and_then (map_err SjPrivacy (vector_new (field_at payload 200 64))) (\<lambda>nullifier1.
           and_then (map_err SjPrivacy (vector_new (field_at payload 264 64))) (\<lambda>output0.
           and_then (map_err SjPrivacy (vector_new (field_at payload 328 64))) (\<lambda>output1.
           let nxpr_length = unat (from_be_bytes (field_at payload 392 4) :: u32)
           in if PRIVATE_STATE_RECORD_MAX_BYTES < nxpr_length then Inl (SjNestedRecordTooLarge nxpr_length)
              else
                let nxpr = drop 396 payload
                in if length nxpr \<noteq> nxpr_length then Inl (SjNestedRecordLength nxpr_length (length nxpr))
                   else and_then (map_err SjRecord (decode_private_ledger env nxpr)) (\<lambda>l.
                     if state_id_of l \<noteq> resulting then Inl (SjResultingStateMismatch resulting (state_id_of l))
                     else Inr \<lparr>sb_offset = 0, sb_sequence = sequence, sb_previous_state_id = previous,
                            sb_resulting_state_id = resulting, sb_envelope_id = envelope_id, sb_asset_id = asset,
                            sb_input_nullifiers = (nullifier0, nullifier1),
                            sb_output_commitments = (output0, output1), sb_state = l\<rparr>)))))))"

definition decode_stored_submission ::
  "candidate_env \<Rightarrow> nat \<Rightarrow> bytes \<Rightarrow> submission_journal_error + stored_submission" where
  "decode_stored_submission env offset payload =
     and_then (decode_submission_payload env payload) (\<lambda>entry. Inr (entry\<lparr>sb_offset := offset\<rparr>))"

definition submission_journal_scan ::
  "candidate_env \<Rightarrow> bytes \<Rightarrow> submission_journal_error + stored_submission list \<times> incomplete_tail option" where
  "submission_journal_scan env content =
     chain_scan submission_format submission_chain (decode_stored_submission env) content"

definition append_submission ::
  "candidate_env \<Rightarrow> io_outcome \<Rightarrow> bytes \<Rightarrow> private_ledger \<Rightarrow> private_ledger \<Rightarrow> id32 \<Rightarrow> asset_id \<Rightarrow> vector \<times> vector
    \<Rightarrow> vector \<times> vector \<Rightarrow> (submission_journal_error + u64) \<times> bytes" where
  "append_submission env io content predecessor successor envelope_id asset nullifiers outputs =
     (case
        and_then (validate_transition predecessor successor envelope_id asset nullifiers outputs) (\<lambda>_.
        and_then (submission_journal_scan env content) (\<lambda>(entries, tail).
        if tail \<noteq> None then Inl SjIncompleteTailPresent
        else and_then (next_sequence submission_chain entries (state_id_of predecessor)) (\<lambda>sequence.
        and_then (map_err SjRecord (encode_private_ledger env successor)) (\<lambda>nxpr.
        and_then (encode_submission_payload env sequence (state_id_of predecessor) (state_id_of successor)
          envelope_id asset nullifiers outputs nxpr) (\<lambda>payload.
        and_then (encode_frame submission_format payload) (\<lambda>frame. Inr (sequence, frame))))))) of
        Inl e \<Rightarrow> (Inl e, content)
      | Inr (sequence, frame) \<Rightarrow>
          (case append_frame io (\<lambda>writing. SjIo (if writing then ''append private-submission journal frame''
              else ''sync private-submission journal frame'')) content frame of
             (Inl e, content') \<Rightarrow> (Inl e, content')
           | (Inr _, content') \<Rightarrow> (Inr sequence, content')))"

text \<open>One round of the loop of \<^verbatim>\<open>recover_from\<close>: the predecessor is the state reached so far.\<close>

definition replay_submission ::
  "private_ledger \<Rightarrow> stored_submission \<Rightarrow> submission_journal_error + private_ledger" where
  "replay_submission predecessor entry =
     (if sb_previous_state_id entry \<noteq> state_id_of predecessor
      then Inl (SjPredecessorMismatch (sb_sequence entry) (state_id_of predecessor) (sb_previous_state_id entry))
      else if sb_resulting_state_id entry \<noteq> state_id_of (sb_state entry)
      then Inl (SjResultingStateMismatch (sb_resulting_state_id entry) (state_id_of (sb_state entry)))
      else and_then (validate_transition predecessor (sb_state entry) (sb_envelope_id entry) (sb_asset_id entry)
        (sb_input_nullifiers entry) (sb_output_commitments entry)) (\<lambda>_. Inr (sb_state entry)))"

definition submission_journal_recover_from ::
  "candidate_env \<Rightarrow> bytes \<Rightarrow> private_ledger
    \<Rightarrow> submission_journal_error + stored_submission list \<times> incomplete_tail option" where
  "submission_journal_recover_from env content base =
     and_then (submission_journal_scan env content) (\<lambda>(entries, tail).
     and_then (try_fold replay_submission base entries) (\<lambda>_. Inr (entries, tail)))"

definition submission_journal_truncate ::
  "candidate_env \<Rightarrow> bytes \<Rightarrow> incomplete_tail \<Rightarrow> (submission_journal_error + unit) \<times> bytes" where
  "submission_journal_truncate env content expected =
     chain_truncate submission_format submission_chain (decode_stored_submission env) SjRecoveryTailChanged
       content expected"

subsection \<open>Chains of entries\<close>

definition linked :: "('a, 'e) chain_format \<Rightarrow> 'a list \<Rightarrow> bool" where
  "linked cf xs \<longleftrightarrow> length xs < 2 ^ 64 \<and> (\<forall>i < length xs. unat (cf_sequence cf (xs ! i)) = Suc i
     \<and> (0 < i \<longrightarrow> cf_previous cf (xs ! i) = cf_state_id cf (xs ! (i - 1))))"

lemma linked_Nil [simp]: "linked cf []"
  by (simp add: linked_def)

lemma linked_snoc:
  "linked cf (xs @ [x]) \<longleftrightarrow> linked cf xs \<and> unat (cf_sequence cf x) = Suc (length xs)
    \<and> (xs \<noteq> [] \<longrightarrow> cf_previous cf x = cf_state_id cf (last xs))"
proof -
  have "unat (cf_sequence cf x) < 2 ^ 64" using unsigned_less [of "cf_sequence cf x", where 'a = nat] by simp
  then show ?thesis
    by (auto simp: linked_def nth_append less_Suc_eq last_conv_nth)
qed

lemma linked_last: "linked cf xs \<Longrightarrow> xs \<noteq> [] \<Longrightarrow> unat (cf_sequence cf (last xs)) = length xs"
  by (auto simp: linked_def last_conv_nth)

lemma link_entry_iff:
  assumes "linked cf xs"
  shows "link_entry cf xs x = Inr ys \<longleftrightarrow> ys = xs @ [x] \<and> linked cf (xs @ [x])"
proof (cases "xs = []")
  case True
  have "cf_sequence cf x = 1 \<longleftrightarrow> unat (cf_sequence cf x) = 1" by (simp add: word_unat_eq_iff)
  with True show ?thesis using linked_snoc [of cf "[]" x] by (auto simp: link_entry_def)
next
  case False
  note n = linked_last [OF assms False]
  show ?thesis
    using False assms n unfolding linked_snoc link_entry_def
    by (auto simp: Let_def and_then_eq_Inr checked_add_Some_iff ok_or_eq_Inr word_unat_eq_iff split: if_splits)
qed

lemma try_fold_link:
  "try_fold (link_entry cf) [] xs = Inr ys \<longleftrightarrow> ys = xs \<and> linked cf xs"
proof (induction xs arbitrary: ys rule: rev_induct)
  case (snoc x xs)
  then show ?case using link_entry_iff [of cf xs x]
    by (auto simp: try_fold_append and_then_eq_Inr linked_snoc)
qed auto

lemma next_sequence_linked:
  assumes "linked cf xs" "length xs + 1 < 2 ^ 64" "xs \<noteq> [] \<Longrightarrow> cf_state_id cf (last xs) = previous"
  shows "\<exists>n. next_sequence cf xs previous = Inr n \<and> unat n = Suc (length xs)"
proof (cases "xs = []")
  case False
  have "unat (cf_sequence cf (last xs)) + unat (1 :: u64) < 2 ^ 64" using linked_last [OF assms(1) False] assms(2) by simp
  then have "\<exists>n. checked_add (cf_sequence cf (last xs)) 1 = Some n \<and> unat n = Suc (length xs)"
    using linked_last [OF assms(1) False] by (auto simp: checked_add_def unat_word_ariths)
  with False assms(3) show ?thesis by (auto simp: next_sequence_def)
qed (simp add: next_sequence_def)

lemma next_sequence_only:
  assumes "linked cf xs" "next_sequence cf xs previous = Inr n"
  shows "unat n = Suc (length xs)" "xs \<noteq> [] \<Longrightarrow> cf_state_id cf (last xs) = previous"
  using assms linked_last [OF assms(1)]
  by (auto simp: next_sequence_def Let_def ok_or_eq_Inr checked_add_Some_iff split: if_splits)

text \<open>A framed log whose entries are chained; moving an entry does not change its links.\<close>

locale chained_log = framed_log fmt decode payload entry_ok locate
  for fmt :: "'e frame_format" and decode :: "nat \<Rightarrow> bytes \<Rightarrow> 'e + 'a" and payload :: "'a \<Rightarrow> bytes"
    and entry_ok :: "'a \<Rightarrow> bool" and locate :: "nat \<Rightarrow> 'a \<Rightarrow> 'a" +
  fixes cf :: "('a, 'e) chain_format"
  assumes locate_link: "cf_sequence cf (locate n x) = cf_sequence cf x" "cf_previous cf (locate n x) = cf_previous cf x"
    "cf_state_id cf (locate n x) = cf_state_id cf x"
begin

lemma length_located: "length (located_frames fmt payload locate n xs) = length xs"
  by (induction xs arbitrary: n) simp_all

lemma located_nth: "i < length xs \<Longrightarrow> \<exists>m. located_frames fmt payload locate n xs ! i = locate m (xs ! i)"
proof (induction xs arbitrary: n i)
  case (Cons x xs)
  then show ?case by (cases i) auto
qed simp

lemma linked_located: "linked cf (located_frames fmt payload locate n xs) \<longleftrightarrow> linked cf xs"
proof -
  have "cf_sequence cf (located_frames fmt payload locate n xs ! i) = cf_sequence cf (xs ! i)"
    "cf_previous cf (located_frames fmt payload locate n xs ! i) = cf_previous cf (xs ! i)"
    "cf_state_id cf (located_frames fmt payload locate n xs ! i) = cf_state_id cf (xs ! i)" if "i < length xs" for i
    using located_nth [OF that, of n] locate_link by auto
  then show ?thesis by (auto simp: linked_def length_located)
qed

lemma fold_located:
  "linked cf xs \<Longrightarrow> try_fold (link_entry cf) [] (located_frames fmt payload locate 0 xs) =
    Inr (located_frames fmt payload locate 0 xs)"
  by (simp add: try_fold_link linked_located)

lemma scan_chain:
  assumes "\<forall>x \<in> set xs. entry_ok x" "linked cf xs" "length (frames_of fmt payload xs) < 2 ^ 64"
  shows "chain_scan fmt cf decode (frames_of fmt payload xs) = Inr (located_frames fmt payload locate 0 xs, None)"
  using assms(2) fold_located
  by (simp add: chain_scan_def stream_complete [OF assms(1,3)] linked_located)

lemma scan_chain_torn:
  assumes "\<forall>x \<in> set xs. entry_ok x" "linked cf xs" "entry_ok x" "0 < k" "k < length (frame_of fmt (payload x))"
    "length (frames_of fmt payload xs) + k < 2 ^ 64"
  shows "chain_scan fmt cf decode (frames_of fmt payload xs @ take k (frame_of fmt (payload x))) =
    Inr (located_frames fmt payload locate 0 xs, Some \<lparr>it_valid_prefix_length = length (frames_of fmt payload xs),
       it_section = torn_section k (payload x)\<rparr>)"
  using assms(2) fold_located
  by (simp add: chain_scan_def stream_torn [OF assms(1,3,4,5,6)] linked_located)

lemma scan_chain_only:
  assumes "chain_scan fmt cf decode content = Inr (xs, tail)"
  shows "(\<forall>x \<in> set xs. entry_ok x) \<and> linked cf xs \<and> located_frames fmt payload locate 0 xs = xs \<and>
    (\<exists>rest. content = frames_of fmt payload xs @ rest \<and>
      (case tail of None \<Rightarrow> rest = []
       | Some t \<Rightarrow> rest \<noteq> [] \<and> it_valid_prefix_length t = length (frames_of fmt payload xs)))"
proof -
  have "stream_frames fmt decode (link_entry cf) [] 0 content = (Inr (xs, tail) :: ('e, 'e) replay_error + _)"
    using assms by (simp add: chain_scan_def)
  from stream_frames_only [OF this] show ?thesis by (auto simp: try_fold_link split: option.splits)
qed

lemma last_located: "xs \<noteq> [] \<Longrightarrow> cf_state_id cf (last (located_frames fmt payload locate n xs)) = cf_state_id cf (last xs)"
  using located_nth [of "length xs - 1" xs n] locate_link(3) length_located [of n xs]
  by (metis diff_less last_conv_nth length_0_conv length_greater_0_conv zero_less_one)

text \<open>The next entry of a complete log.\<close>

lemma next_located:
  assumes "linked cf xs" "next_sequence cf (located_frames fmt payload locate 0 xs) previous = Inr q"
  shows "unat q = Suc (length xs) \<and> (xs \<noteq> [] \<longrightarrow> cf_state_id cf (last xs) = previous)"
  using next_sequence_only [of cf "located_frames fmt payload locate 0 xs" previous q] assms last_located
  by (metis length_located length_0_conv linked_located)

lemma next_located_exists:
  assumes "linked cf xs" "length xs + 1 < 2 ^ 64" "xs \<noteq> [] \<Longrightarrow> cf_state_id cf (last xs) = previous"
  shows "\<exists>q. next_sequence cf (located_frames fmt payload locate 0 xs) previous = Inr q"
proof -
  have "located_frames fmt payload locate 0 xs \<noteq> [] \<Longrightarrow> xs \<noteq> []" by auto
  with next_sequence_linked [of cf "located_frames fmt payload locate 0 xs" previous] assms last_located
  show ?thesis by (auto simp: length_located linked_located)
qed

lemma length_frames_of: "14 * length xs \<le> length (frames_of fmt payload xs)"
  by (induction xs) (simp_all add: length_frame)

lemma truncate_chain:
  assumes "chain_scan fmt cf decode content = Inr (xs, Some t)"
  shows "chain_truncate fmt cf decode changed content t = (Inr (), frames_of fmt payload xs)"
proof -
  from scan_chain_only [OF assms] obtain rest where "content = frames_of fmt payload xs @ rest"
    "it_valid_prefix_length t = length (frames_of fmt payload xs)" by auto
  then show ?thesis using assms by (simp add: chain_truncate_def)
qed

end

subsection \<open>Both journals are chained logs\<close>

text \<open>A ledger that has a record: it is well formed and within the limits of the encoder.\<close>

definition storable_ledger :: "candidate_env \<Rightarrow> private_ledger \<Rightarrow> bool" where
  "storable_ledger env l \<longleftrightarrow> pv_inv env l \<and> is_ok (encode_private_ledger env l)"

definition nxpr_of :: "candidate_env \<Rightarrow> private_ledger \<Rightarrow> bytes" where
  "nxpr_of env l = (case encode_private_ledger env l of Inr bs \<Rightarrow> bs | Inl _ \<Rightarrow> [])"

lemma storable_iff:
  "encode_private_ledger env l = Inr bs \<Longrightarrow> pv_inv env l \<Longrightarrow> storable_ledger env l \<and> nxpr_of env l = bs"
  by (simp add: storable_ledger_def nxpr_of_def is_ok_def)

lemma storable_encode:
  assumes "storable_ledger env l"
  shows "encode_private_ledger env l = Inr (nxpr_of env l)" "decode_private_ledger env (nxpr_of env l) = Inr l"
    "length (nxpr_of env l) \<le> PRIVATE_STATE_RECORD_MAX_BYTES" "length (nxpr_of env l) \<le> 401586"
proof -
  from assms obtain bs where bs: "encode_private_ledger env l = Inr bs" "pv_inv env l"
    by (auto simp: storable_ledger_def is_ok_def split: sum.splits)
  then have eq: "nxpr_of env l = bs" by (simp add: nxpr_of_def)
  show "encode_private_ledger env l = Inr (nxpr_of env l)" "decode_private_ledger env (nxpr_of env l) = Inr l"
    using bs decode_private_ledger_iff by (auto simp: eq)
  show "length (nxpr_of env l) \<le> PRIVATE_STATE_RECORD_MAX_BYTES" "length (nxpr_of env l) \<le> 401586"
    using encoded_ledger_length(2) [OF bs(2,1)] by (simp_all add: eq PRIVATE_STATE_RECORD_MAX_BYTES_def)
qed

lemma decoded_storable: "decode_private_ledger env bs = Inr l \<Longrightarrow> storable_ledger env l \<and> nxpr_of env l = bs"
  using storable_iff by (auto simp: decode_private_ledger_iff)

definition state_payload :: "candidate_env \<Rightarrow> stored_private_state \<Rightarrow> bytes" where
  "state_payload env x =
     to_be_bytes (sp_sequence x) @ to_be_bytes (sp_previous_state_id x) @ to_be_bytes (state_id_of (sp_state x))
     @ to_be_bytes (of_nat (length (nxpr_of env (sp_state x))) :: u32) @ nxpr_of env (sp_state x)"

lemma small_length_u32: "n \<le> 401586 \<Longrightarrow> unat (of_nat n :: u32) = n"
  by (simp add: unat_of_nat)

lemma decode_state_payload_back:
  assumes "storable_ledger env (sp_state x)"
  shows "decode_state_payload env (state_payload env x) = Inr (sp_sequence x, sp_previous_state_id x, sp_state x)"
proof -
  note n = storable_encode [OF assms]
  have "drop 76 (state_payload env x) = nxpr_of env (sp_state x)" by (simp add: state_payload_def)
  with n(2,3) small_length_u32 [OF n(4)] show ?thesis
    by (simp add: decode_state_payload_def Let_def) (simp add: state_payload_def field_at_skip field_at_here)
qed

text \<open>Consecutive fields of a byte string.\<close>

fun fields_at :: "bytes \<Rightarrow> nat \<Rightarrow> nat list \<Rightarrow> bytes" where
  "fields_at bs k [] = []"
| "fields_at bs k (n # ns) = field_at bs k n @ fields_at bs (k + n) ns"

lemma fields_at_concat: "k + sum_list ns \<le> length bs \<Longrightarrow> fields_at bs k ns @ drop (k + sum_list ns) bs = drop k bs"
proof (induction ns arbitrary: k)
  case (Cons n ns)
  from Cons.IH [of "k + n"] Cons.prems drop_field [of k n bs] show ?case by (simp add: add.assoc)
qed simp

lemma field_word:
  fixes w :: "'w::len word"
  assumes "from_be_bytes (field_at bs k n) = w" "8 dvd LENGTH('w)" "n = LENGTH('w) div 8" "k + n \<le> length bs"
  shows "field_at bs k n = to_be_bytes w"
  using to_from_be_bytes [of "field_at bs k n", where 'w = 'w] assms by (simp add: field_at_def)

lemma decode_state_payload_only:
  assumes "decode_state_payload env p = Inr (n, previous, l)"
  shows "storable_ledger env l \<and>
    state_payload env \<lparr>sp_offset = offset, sp_sequence = n, sp_previous_state_id = previous, sp_state = l\<rparr> = p"
proof -
  from assms have len: "76 \<le> length p" and f: "from_be_bytes (field_at p 0 8) = n" "from_be_bytes (field_at p 8 32) = previous"
    "from_be_bytes (field_at p 40 32) = state_id_of l" "unat (from_be_bytes (field_at p 72 4) :: u32) = length (drop 76 p)"
    and l: "decode_private_ledger env (drop 76 p) = Inr l"
    by (auto simp: decode_state_payload_def Let_def and_then_eq_Inr split: if_splits)
  note s = decoded_storable [OF l]
  have "from_be_bytes (field_at p 72 4) = (of_nat (length (nxpr_of env l)) :: u32)"
    using f(4) s by (metis of_nat_unat ucast_id)
  then have w: "field_at p 0 8 = to_be_bytes n" "field_at p 8 32 = to_be_bytes previous"
    "field_at p 40 32 = to_be_bytes (state_id_of l)" "field_at p 72 4 = to_be_bytes (of_nat (length (nxpr_of env l)) :: u32)"
    using len by (auto intro!: field_word f(1-3))
  have "field_at p 0 8 @ field_at p 8 32 @ field_at p 40 32 @ field_at p 72 4 @ drop 76 p = p"
    using fields_at_concat [of 0 "[8, 32, 32, 4]" p] len by simp
  then show ?thesis unfolding w state_payload_def using s by simp
qed

lemma private_formats [simp]:
  "ff_magic private_journal_format = ascii ''NXPL''" "ff_magic submission_format = ascii ''NXPL''"
  "unat (ff_maximum private_journal_format) = 401662" "unat (ff_maximum submission_format) = 401982"
  "length (ascii ''NXPL'') = 4"
  by (simp_all add: private_journal_format_def submission_format_def PRIVATE_STATE_RECORD_MAX_BYTES_def ascii_def)

interpretation state_log: chained_log private_journal_format "decode_stored_state env" "state_payload env"
  "\<lambda>x. storable_ledger env (sp_state x)" "\<lambda>n x. x\<lparr>sp_offset := n\<rparr>" private_journal_chain for env
proof unfold_locales
  fix x n p
  show "storable_ledger env (sp_state x) \<Longrightarrow> decode_stored_state env n (state_payload env x) = Inr (x\<lparr>sp_offset := n\<rparr>)"
    by (cases x) (simp add: decode_stored_state_def decode_state_payload_back)
  show "decode_stored_state env n p = Inr x \<Longrightarrow>
      storable_ledger env (sp_state x) \<and> state_payload env x = p \<and> x\<lparr>sp_offset := n\<rparr> = x"
    by (auto simp: decode_stored_state_def and_then_eq_Inr dest!: decode_state_payload_only)
  show "storable_ledger env (sp_state x) \<Longrightarrow> length (state_payload env x) \<le> unat (ff_maximum private_journal_format)"
    using storable_encode(4) [of env "sp_state x"] by (simp add: state_payload_def)
qed (simp_all add: state_payload_def private_journal_chain_def)

definition submission_payload :: "candidate_env \<Rightarrow> stored_submission \<Rightarrow> bytes" where
  "submission_payload env x =
     to_be_bytes (sb_sequence x) @ to_be_bytes (sb_previous_state_id x) @ to_be_bytes (sb_resulting_state_id x)
     @ to_be_bytes (sb_envelope_id x) @ to_be_bytes (sb_asset_id x)
     @ fst (sb_input_nullifiers x) @ snd (sb_input_nullifiers x)
     @ fst (sb_output_commitments x) @ snd (sb_output_commitments x)
     @ to_be_bytes (of_nat (length (nxpr_of env (sb_state x))) :: u32) @ nxpr_of env (sb_state x)"

definition submission_ok :: "candidate_env \<Rightarrow> stored_submission \<Rightarrow> bool" where
  "submission_ok env x \<longleftrightarrow> storable_ledger env (sb_state x) \<and> sb_resulting_state_id x = state_id_of (sb_state x)
     \<and> sb_envelope_id x \<noteq> 0 \<and> vector_wf (fst (sb_input_nullifiers x)) \<and> vector_wf (snd (sb_input_nullifiers x))
     \<and> vector_wf (fst (sb_output_commitments x)) \<and> vector_wf (snd (sb_output_commitments x))"

lemma decode_submission_payload_back:
  assumes "submission_ok env x"
  shows "decode_submission_payload env (submission_payload env x) = Inr (x\<lparr>sb_offset := 0\<rparr>)"
proof -
  note o = assms [unfolded submission_ok_def]
  note n = storable_encode [OF conjunct1 [OF o]]
  let ?ns = "sb_input_nullifiers x" and ?os = "sb_output_commitments x"
  have len: "length (fst ?ns) = 64" "length (snd ?ns) = 64" "length (fst ?os) = 64" "length (snd ?os) = 64"
    and new: "vector_new (fst ?ns) = Inr (fst ?ns)" "vector_new (snd ?ns) = Inr (snd ?ns)"
      "vector_new (fst ?os) = Inr (fst ?os)" "vector_new (snd ?os) = Inr (snd ?os)"
    using o by (simp_all add: vector_new_wf vector_wf_def)
  let ?p = "submission_payload env x"
  have f: "field_at ?p 0 8 = to_be_bytes (sb_sequence x)" "field_at ?p 8 32 = to_be_bytes (sb_previous_state_id x)"
    "field_at ?p 40 32 = to_be_bytes (sb_resulting_state_id x)" "field_at ?p 72 32 = to_be_bytes (sb_envelope_id x)"
    "field_at ?p 104 32 = to_be_bytes (sb_asset_id x)" "field_at ?p 136 64 = fst ?ns" "field_at ?p 200 64 = snd ?ns"
    "field_at ?p 264 64 = fst ?os" "field_at ?p 328 64 = snd ?os"
    "field_at ?p 392 4 = to_be_bytes (of_nat (length (nxpr_of env (sb_state x))) :: u32)"
    by (simp_all add: submission_payload_def field_at_skip field_at_here len)
  have d: "drop 396 ?p = nxpr_of env (sb_state x)" "\<not> length ?p < 396" by (simp_all add: submission_payload_def len)
  have "decode_submission_payload env ?p =
      Inr \<lparr>sb_offset = 0, sb_sequence = sb_sequence x, sb_previous_state_id = sb_previous_state_id x,
           sb_resulting_state_id = sb_resulting_state_id x, sb_envelope_id = sb_envelope_id x, sb_asset_id = sb_asset_id x,
           sb_input_nullifiers = ?ns, sb_output_commitments = ?os, sb_state = sb_state x\<rparr>"
    using n(2,3) small_length_u32 [OF n(4)] o
    by (simp add: decode_submission_payload_def Let_def submission_metadata_new_def f d new)
  then show ?thesis by simp
qed

lemma decode_submission_payload_only:
  assumes "decode_submission_payload env p = Inr x"
  shows "submission_ok env x \<and> submission_payload env x = p \<and> sb_offset x = 0"
proof -
  let ?l = "sb_state x" and ?ns = "sb_input_nullifiers x" and ?os = "sb_output_commitments x"
  from assms have len: "396 \<le> length p"
    and f: "from_be_bytes (field_at p 0 8) = sb_sequence x" "from_be_bytes (field_at p 8 32) = sb_previous_state_id x"
      "from_be_bytes (field_at p 40 32) = sb_resulting_state_id x" "from_be_bytes (field_at p 72 32) = sb_envelope_id x"
      "from_be_bytes (field_at p 104 32) = sb_asset_id x"
      "unat (from_be_bytes (field_at p 392 4) :: u32) = length (drop 396 p)"
    and v: "vector_new (field_at p 136 64) = Inr (fst ?ns)" "vector_new (field_at p 200 64) = Inr (snd ?ns)"
      "vector_new (field_at p 264 64) = Inr (fst ?os)" "vector_new (field_at p 328 64) = Inr (snd ?os)"
    and l: "decode_private_ledger env (drop 396 p) = Inr ?l"
    and o: "sb_resulting_state_id x = state_id_of ?l" "sb_envelope_id x \<noteq> 0" "sb_offset x = 0"
    by (auto simp: decode_submission_payload_def submission_metadata_new_def Let_def and_then_eq_Inr split: if_splits)
  note s = decoded_storable [OF l]
  have "from_be_bytes (field_at p 392 4) = (of_nat (length (nxpr_of env ?l)) :: u32)"
    using f(6) s by (metis of_nat_unat ucast_id)
  then have w: "field_at p 0 8 = to_be_bytes (sb_sequence x)" "field_at p 8 32 = to_be_bytes (sb_previous_state_id x)"
    "field_at p 40 32 = to_be_bytes (sb_resulting_state_id x)" "field_at p 72 32 = to_be_bytes (sb_envelope_id x)"
    "field_at p 104 32 = to_be_bytes (sb_asset_id x)"
    "field_at p 392 4 = to_be_bytes (of_nat (length (nxpr_of env ?l)) :: u32)"
    using len by (auto intro!: field_word f(1-5))
  have fields: "fst ?ns = field_at p 136 64" "snd ?ns = field_at p 200 64" "fst ?os = field_at p 264 64"
    "snd ?os = field_at p 328 64" using v by (simp_all add: vector_new_Inr_iff)
  have wf: "vector_wf (fst ?ns)" "vector_wf (snd ?ns)" "vector_wf (fst ?os)" "vector_wf (snd ?os)"
    using v len by (auto simp: vector_new_Inr_iff vector_wf_def field_at_def)
  have "field_at p 0 8 @ field_at p 8 32 @ field_at p 40 32 @ field_at p 72 32 @ field_at p 104 32
      @ field_at p 136 64 @ field_at p 200 64 @ field_at p 264 64 @ field_at p 328 64 @ field_at p 392 4 @ drop 396 p = p"
    using fields_at_concat [of 0 "[8, 32, 32, 32, 32, 64, 64, 64, 64, 4]" p] len by simp
  moreover have "submission_payload env x = field_at p 0 8 @ field_at p 8 32 @ field_at p 40 32 @ field_at p 72 32
      @ field_at p 104 32 @ field_at p 136 64 @ field_at p 200 64 @ field_at p 264 64 @ field_at p 328 64
      @ field_at p 392 4 @ drop 396 p"
    unfolding submission_payload_def fields w using s by simp
  ultimately show ?thesis using s o wf by (simp add: submission_ok_def)
qed

interpretation submission_log: chained_log submission_format "decode_stored_submission env" "submission_payload env"
  "submission_ok env" "\<lambda>n x. x\<lparr>sb_offset := n\<rparr>" submission_chain for env
proof unfold_locales
  fix x n p
  show "submission_ok env x \<Longrightarrow> decode_stored_submission env n (submission_payload env x) = Inr (x\<lparr>sb_offset := n\<rparr>)"
    by (cases x) (simp add: decode_stored_submission_def decode_submission_payload_back)
  show "submission_ok env x \<and> submission_payload env x = p \<and> x\<lparr>sb_offset := n\<rparr> = x"
    if "decode_stored_submission env n p = Inr x"
  proof -
    from that obtain y where y: "decode_submission_payload env p = Inr y" "x = y\<lparr>sb_offset := n\<rparr>"
      by (auto simp: decode_stored_submission_def and_then_eq_Inr)
    from decode_submission_payload_only [OF y(1)] y(2) show ?thesis
      by (cases y) (simp add: submission_ok_def submission_payload_def)
  qed
  show "length (submission_payload env x) \<le> unat (ff_maximum submission_format)" if "submission_ok env x"
  proof -
    have "storable_ledger env (sb_state x)" using that by (simp add: submission_ok_def)
    from storable_encode(4) [OF this] that show ?thesis
      by (simp add: submission_payload_def submission_ok_def vector_wf_def)
  qed
qed (simp_all add: submission_payload_def submission_chain_def submission_ok_def)

subsection \<open>Appending\<close>

abbreviation state_file :: "candidate_env \<Rightarrow> stored_private_state list \<Rightarrow> bytes" where
  "state_file env \<equiv> frames_of private_journal_format (state_payload env)"

abbreviation state_frame :: "candidate_env \<Rightarrow> stored_private_state \<Rightarrow> bytes" where
  "state_frame env x \<equiv> frame_of private_journal_format (state_payload env x)"

abbreviation submission_file :: "candidate_env \<Rightarrow> stored_submission list \<Rightarrow> bytes" where
  "submission_file env \<equiv> frames_of submission_format (submission_payload env)"

abbreviation submission_frame :: "candidate_env \<Rightarrow> stored_submission \<Rightarrow> bytes" where
  "submission_frame env x \<equiv> frame_of submission_format (submission_payload env x)"

text \<open>Moving entries changes neither their payloads nor their states.\<close>

lemma located_states:
  "map sp_state (located_frames private_journal_format (state_payload env) (\<lambda>n x. x\<lparr>sp_offset := n\<rparr>) n xs) = map sp_state xs"
  by (induction xs arbitrary: n) simp_all

lemma located_submissions:
  "map (\<lambda>x. x\<lparr>sb_offset := 0\<rparr>) (located_frames submission_format (submission_payload env) (\<lambda>n x. x\<lparr>sb_offset := n\<rparr>) n xs) =
   map (\<lambda>x. x\<lparr>sb_offset := 0\<rparr>) xs"
  by (induction xs arbitrary: n) simp_all

text \<open>
  What an append does to a complete journal: it fails and leaves the file alone, or it writes the frame
  of one new entry that continues the chain, all of it or a prefix.
\<close>

lemma append_post_state_cases:
  assumes ok: "\<forall>x \<in> set xs. storable_ledger env (sp_state x)" "linked private_journal_chain xs"
    and size: "length (state_file env xs) < 2 ^ 64" and l: "pv_inv env l"
  shows "(\<exists>e. append_post_state env io (state_file env xs) previous l = (Inl e, state_file env xs)) \<or>
    (\<exists>x. storable_ledger env l \<and> sp_state x = l \<and> sp_previous_state_id x = previous \<and> linked private_journal_chain (xs @ [x])
      \<and> (case io of
           Synced \<Rightarrow> append_post_state env io (state_file env xs) previous l = (Inr (sp_sequence x), state_file env (xs @ [x]))
         | Torn k \<Rightarrow> \<exists>e. append_post_state env io (state_file env xs) previous l =
             (Inl e, state_file env xs @ take k (state_frame env x))))"
proof -
  let ?ys = "located_frames private_journal_format (state_payload env) (\<lambda>n x. x\<lparr>sp_offset := n\<rparr>) 0 xs"
  have scan: "state_journal_scan env (state_file env xs) = Inr (?ys, None)"
    using state_log.scan_chain [OF ok size] by (simp add: state_journal_scan_def)
  show ?thesis
  proof (cases "next_sequence private_journal_chain ?ys previous")
    case (Inl e)
    then show ?thesis by (auto simp: append_post_state_def scan)
  next
    case (Inr q)
    note q = state_log.next_located [OF ok(2) Inr]
    let ?x = "\<lparr>sp_offset = 0, sp_sequence = q, sp_previous_state_id = previous, sp_state = l\<rparr>"
    have x: "linked private_journal_chain (xs @ [?x])"
      using q ok(2) by (auto simp: linked_snoc private_journal_chain_def)
    show ?thesis
    proof (cases "storable_ledger env l")
      case False
      then obtain e where "encode_private_ledger env l = Inl e"
        using l by (auto simp: storable_ledger_def is_ok_def split: sum.splits)
      then show ?thesis by (auto simp: append_post_state_def scan Inr)
    next
      case True
      note n = storable_encode [OF True]
      have payload: "encode_state_payload env q previous (nxpr_of env l) = Inr (state_payload env ?x)"
        using n small_length_u32 [OF n(4)] by (simp add: encode_state_payload_def state_payload_def try_from_usize_small)
      have frame: "encode_frame private_journal_format (state_payload env ?x) = Inr (state_frame env ?x)"
        using state_log.encode_frame_ok [of env ?x] True by simp
      show ?thesis
        using x True
        by (intro disjI2 exI [of _ ?x])
          (simp add: append_post_state_def scan Inr n payload frame append_frame_def split: io_outcome.splits)
    qed
  qed
qed

lemma append_post_state_ok:
  assumes ok: "\<forall>x \<in> set xs. storable_ledger env (sp_state x)" "linked private_journal_chain xs"
    and size: "length (state_file env xs) < 2 ^ 64" and l: "storable_ledger env l"
    and last: "xs \<noteq> [] \<Longrightarrow> state_id_of (sp_state (last xs)) = previous"
  shows "\<exists>n c. append_post_state env Synced (state_file env xs) previous l = (Inr n, c)"
proof -
  let ?ys = "located_frames private_journal_format (state_payload env) (\<lambda>n x. x\<lparr>sp_offset := n\<rparr>) 0 xs"
  have scan: "state_journal_scan env (state_file env xs) = Inr (?ys, None)"
    using state_log.scan_chain [OF ok size] by (simp add: state_journal_scan_def)
  have "length xs + 1 < 2 ^ 64" using state_log.length_frames_of [of xs env] size by simp
  then obtain q where q: "next_sequence private_journal_chain ?ys previous = Inr q"
    using state_log.next_located_exists [OF ok(2), of previous env] last by (auto simp: private_journal_chain_def)
  note n = storable_encode [OF l]
  let ?x = "\<lparr>sp_offset = 0, sp_sequence = q, sp_previous_state_id = previous, sp_state = l\<rparr>"
  have payload: "encode_state_payload env q previous (nxpr_of env l) = Inr (state_payload env ?x)"
    using n small_length_u32 [OF n(4)] by (simp add: encode_state_payload_def state_payload_def try_from_usize_small)
  have frame: "encode_frame private_journal_format (state_payload env ?x) = Inr (state_frame env ?x)"
    using state_log.encode_frame_ok [of env ?x] l by simp
  show ?thesis by (simp add: append_post_state_def scan q n payload frame append_frame_def)
qed

text \<open>
  What the check of a transition means: the two inputs are exactly what the spent set gains, and the
  list of notes grows by the two outputs. That the notes before them are still the same is not part of the check.
\<close>

lemma pv_inv_spent:
  assumes "pv_inv env l"
  shows "ps_is_spent (pv_snapshot l) n \<longleftrightarrow> n \<in> pv_spent l" "finite (pv_spent l)"
    "length (ps_spent_nullifiers (pv_snapshot l)) = card (pv_spent l)" "card (pv_spent l) < 2 ^ 64"
    "distinct (ps_spent_nullifiers (pv_snapshot l))" "length (pv_notes l) \<le> 1024" "distinct (pv_notes l)"
proof -
  from assms obtain R N i where "pv_inv_at env R N i l" by (auto simp: pv_inv_def)
  then obtain cs S where l: "notes_ok cs" "tree_ok env N (pv_nullifier_tree l) S" "pv_snapshot l = snapshot_of env R cs S"
    "pv_notes l = cs" "pv_spent l = S" by (rule pv_inv_atE)
  note t = tree_okD [OF l(2)]
  show "ps_is_spent (pv_snapshot l) n \<longleftrightarrow> n \<in> pv_spent l" unfolding l(5) unfolding l(3) by (rule ps_is_spent_iff [OF t(4)])
  show "finite (pv_spent l)" "card (pv_spent l) < 2 ^ 64" using t by (simp_all add: l(5))
  show "length (ps_spent_nullifiers (pv_snapshot l)) = card (pv_spent l)" "distinct (ps_spent_nullifiers (pv_snapshot l))"
    using t(4) unfolding l(5) unfolding l(3) by (simp_all add: snapshot_of_def)
  show "length (pv_notes l) \<le> 1024" "distinct (pv_notes l)" using l(1) by (simp_all add: l(4) notes_ok_def)
qed

lemma new_spent_count:
  assumes "finite A" "finite B" "m \<noteq> n" "m \<in> B" "n \<in> B" "m \<notin> A" "n \<notin> A" "card B = card A + 2" "card (B - A) = 2"
  shows "B = A \<union> {m, n}"
proof -
  have "{m, n} \<subseteq> B - A" "card {m, n} = card (B - A)" using assms by auto
  then have diff: "B - A = {m, n}" using assms(2) by (metis card_subset_eq finite_Diff)
  have "card B = card (B \<inter> A) + card (B - A)" using assms(2) by (metis Int_Diff_Un Int_Diff_disjoint card_Un_disjoint finite_Diff finite_Int)
  then have "card (B \<inter> A) = card A" using assms(8,9) by simp
  then have "B \<inter> A = A" using assms(1) by (metis card_subset_eq inf_le2)
  with diff show ?thesis by auto
qed

lemma guard_Inr: "(if b then Inl e else r) = Inr y \<longleftrightarrow> \<not> b \<and> r = Inr y"
  by simp

lemma validate_transition_iff:
  assumes p: "pv_inv env p" and s: "pv_inv env s"
  shows "validate_transition p s e a (m, n) (x, y) = Inr () \<longleftrightarrow>
    e \<noteq> 0 \<and> a |\<in>| fmdom (pv_assets p) \<and> m < n \<and> x < y
    \<and> (\<exists>cs. length cs = length (pv_notes p) \<and> pv_notes s = cs @ [x, y])
    \<and> m \<notin> pv_spent p \<and> n \<notin> pv_spent p \<and> pv_spent s = pv_spent p \<union> {m, n}"
proof -
  note P = pv_inv_spent [OF p] and S = pv_inv_spent [OF s]
  have grown: "(\<exists>cs. length cs = length (pv_notes p) \<and> pv_notes s = cs @ [x, y]) \<longleftrightarrow>
      length (pv_notes s) = length (pv_notes p) + 2 \<and> drop (length (pv_notes p)) (pv_notes s) = [x, y]"
  proof
    assume r: "length (pv_notes s) = length (pv_notes p) + 2 \<and> drop (length (pv_notes p)) (pv_notes s) = [x, y]"
    then have "pv_notes s = take (length (pv_notes p)) (pv_notes s) @ [x, y]" by (metis append_take_drop_id)
    moreover have "length (take (length (pv_notes p)) (pv_notes s)) = length (pv_notes p)" using r by simp
    ultimately show "\<exists>cs. length cs = length (pv_notes p) \<and> pv_notes s = cs @ [x, y]" by blast
  qed auto
  have asset: "fmlookup (pv_assets p) a = None \<longleftrightarrow> a |\<notin>| fmdom (pv_assets p)" using fmlookup_dom_iff [of a "pv_assets p"] by auto
  let ?new = "filter (\<lambda>n. n \<notin> pv_spent p) (ps_spent_nullifiers (pv_snapshot s))"
  have "distinct ?new" "set ?new = pv_spent s - pv_spent p" using S(5) by auto
  then have diff: "length ?new = card (pv_spent s - pv_spent p)" by (metis distinct_card)
  have spent: "card (pv_spent s) = card (pv_spent p) + 2 \<and> m \<in> pv_spent s \<and> n \<in> pv_spent s \<and> card (pv_spent s - pv_spent p) = 2
      \<longleftrightarrow> pv_spent s = pv_spent p \<union> {m, n}" if "m < n" "m \<notin> pv_spent p" "n \<notin> pv_spent p"
  proof
    assume "card (pv_spent s) = card (pv_spent p) + 2 \<and> m \<in> pv_spent s \<and> n \<in> pv_spent s \<and> card (pv_spent s - pv_spent p) = 2"
    then show "pv_spent s = pv_spent p \<union> {m, n}" using new_spent_count [OF P(2) S(2)] that by auto
  next
    assume eq: "pv_spent s = pv_spent p \<union> {m, n}"
    have "m \<noteq> n" using that by auto
    moreover have "pv_spent s - pv_spent p = {m, n}" unfolding eq using that by auto
    moreover have "card (pv_spent p \<union> {m, n}) = card (pv_spent p) + 2"
      using that P(2) \<open>m \<noteq> n\<close> by (subst card_Un_disjoint) auto
    ultimately show "card (pv_spent s) = card (pv_spent p) + 2 \<and> m \<in> pv_spent s \<and> n \<in> pv_spent s \<and> card (pv_spent s - pv_spent p) = 2"
      using eq by simp
  qed
  have add: "checked_add_usize (length (pv_notes p)) 2 = Some (length (pv_notes p) + 2)" using P(6) by simp
  have eq: "validate_transition p s e a (m, n) (x, y) = Inr () \<longleftrightarrow>
    e \<noteq> 0 \<and> fmlookup (pv_assets p) a \<noteq> None \<and> m < n \<and> x < y
    \<and> length (pv_notes s) = length (pv_notes p) + 2 \<and> drop (length (pv_notes p)) (pv_notes s) = [x, y]
    \<and> card (pv_spent s) = card (pv_spent p) + 2 \<and> card (pv_spent p) + 2 < 2 ^ 64
    \<and> m \<notin> pv_spent p \<and> m \<in> pv_spent s \<and> n \<notin> pv_spent p \<and> n \<in> pv_spent s \<and> card (pv_spent s - pv_spent p) = 2"
    by (simp add: validate_transition_def Let_def add P(1,3) S(1,3) diff pair_list_def validate_input_def and_then_eq_Inr
        checked_add_usize_Some_iff not_le guard_Inr) auto
  show ?thesis
  proof
    assume "validate_transition p s e a (m, n) (x, y) = Inr ()"
    note v = this [unfolded eq]
    then show "e \<noteq> 0 \<and> a |\<in>| fmdom (pv_assets p) \<and> m < n \<and> x < y
      \<and> (\<exists>cs. length cs = length (pv_notes p) \<and> pv_notes s = cs @ [x, y])
      \<and> m \<notin> pv_spent p \<and> n \<notin> pv_spent p \<and> pv_spent s = pv_spent p \<union> {m, n}"
      using spent unfolding grown asset by blast
  next
    assume r: "e \<noteq> 0 \<and> a |\<in>| fmdom (pv_assets p) \<and> m < n \<and> x < y
      \<and> (\<exists>cs. length cs = length (pv_notes p) \<and> pv_notes s = cs @ [x, y])
      \<and> m \<notin> pv_spent p \<and> n \<notin> pv_spent p \<and> pv_spent s = pv_spent p \<union> {m, n}"
    then have "card (pv_spent s) = card (pv_spent p) + 2 \<and> m \<in> pv_spent s \<and> n \<in> pv_spent s \<and> card (pv_spent s - pv_spent p) = 2"
      using spent by blast
    with r S(4) show "validate_transition p s e a (m, n) (x, y) = Inr ()" unfolding eq grown asset by auto
  qed
qed

definition new_submission ::
  "u64 \<Rightarrow> private_ledger \<Rightarrow> private_ledger \<Rightarrow> id32 \<Rightarrow> asset_id \<Rightarrow> vector \<times> vector \<Rightarrow> vector \<times> vector \<Rightarrow> stored_submission" where
  "new_submission q p s e a ns os =
     \<lparr>sb_offset = 0, sb_sequence = q, sb_previous_state_id = state_id_of p, sb_resulting_state_id = state_id_of s,
      sb_envelope_id = e, sb_asset_id = a, sb_input_nullifiers = ns, sb_output_commitments = os, sb_state = s\<rparr>"

lemma append_submission_eq:
  assumes ok: "\<forall>x \<in> set xs. submission_ok env x" "linked submission_chain xs"
    and size: "length (submission_file env xs) < 2 ^ 64" and s: "storable_ledger env s"
    and v: "validate_transition p s e a ns os = Inr ()"
    and wf: "vector_wf (fst ns)" "vector_wf (snd ns)" "vector_wf (fst os)" "vector_wf (snd os)"
    and q: "next_sequence submission_chain (located_frames submission_format (submission_payload env)
      (\<lambda>n x. x\<lparr>sb_offset := n\<rparr>) 0 xs) (state_id_of p) = Inr q"
  shows "submission_ok env (new_submission q p s e a ns os)" "linked submission_chain (xs @ [new_submission q p s e a ns os])"
    "replay_submission p (new_submission q p s e a ns os) = Inr s"
    "case io of
       Synced \<Rightarrow> append_submission env io (submission_file env xs) p s e a ns os =
         (Inr q, submission_file env (xs @ [new_submission q p s e a ns os]))
     | Torn k \<Rightarrow> \<exists>err. append_submission env io (submission_file env xs) p s e a ns os =
         (Inl err, submission_file env xs @ take k (submission_frame env (new_submission q p s e a ns os)))"
proof -
  let ?x = "new_submission q p s e a ns os"
  note n = storable_encode [OF s]
  have "e \<noteq> 0" using v by (auto simp: validate_transition_def Let_def split: if_splits)
  then show ok': "submission_ok env ?x" using s wf by (simp add: submission_ok_def new_submission_def)
  show "linked submission_chain (xs @ [?x])"
    using submission_log.next_located [OF ok(2) q] ok(2)
    by (auto simp: linked_snoc submission_chain_def new_submission_def)
  show "replay_submission p ?x = Inr s" using v by (simp add: replay_submission_def new_submission_def)
  have scan: "submission_journal_scan env (submission_file env xs) =
      Inr (located_frames submission_format (submission_payload env) (\<lambda>n x. x\<lparr>sb_offset := n\<rparr>) 0 xs, None)"
    using submission_log.scan_chain [OF ok size] by (simp add: submission_journal_scan_def)
  have payload: "encode_submission_payload env q (state_id_of p) (state_id_of s) e a ns os (nxpr_of env s) =
      Inr (submission_payload env ?x)"
    using n small_length_u32 [OF n(4)]
    by (simp add: encode_submission_payload_def submission_payload_def new_submission_def try_from_usize_small)
  have frame: "encode_frame submission_format (submission_payload env ?x) = Inr (submission_frame env ?x)"
    using submission_log.encode_frame_ok [OF ok'] .
  show "case io of
       Synced \<Rightarrow> append_submission env io (submission_file env xs) p s e a ns os = (Inr q, submission_file env (xs @ [?x]))
     | Torn k \<Rightarrow> \<exists>err. append_submission env io (submission_file env xs) p s e a ns os =
         (Inl err, submission_file env xs @ take k (submission_frame env ?x))"
    by (simp add: append_submission_def v scan q n payload frame append_frame_def split: io_outcome.splits)
qed

lemma append_submission_cases:
  assumes ok: "\<forall>x \<in> set xs. submission_ok env x" "linked submission_chain xs"
    and size: "length (submission_file env xs) < 2 ^ 64" and s: "pv_inv env s"
    and wf: "vector_wf (fst ns)" "vector_wf (snd ns)" "vector_wf (fst os)" "vector_wf (snd os)"
  shows "(\<exists>err. append_submission env io (submission_file env xs) p s e a ns os = (Inl err, submission_file env xs)) \<or>
    (\<exists>x. submission_ok env x \<and> sb_state x = s \<and> linked submission_chain (xs @ [x]) \<and> replay_submission p x = Inr s
      \<and> (case io of
           Synced \<Rightarrow> append_submission env io (submission_file env xs) p s e a ns os =
             (Inr (sb_sequence x), submission_file env (xs @ [x]))
         | Torn k \<Rightarrow> \<exists>err. append_submission env io (submission_file env xs) p s e a ns os =
             (Inl err, submission_file env xs @ take k (submission_frame env x))))"
proof -
  let ?ys = "located_frames submission_format (submission_payload env) (\<lambda>n x. x\<lparr>sb_offset := n\<rparr>) 0 xs"
  have scan: "submission_journal_scan env (submission_file env xs) = Inr (?ys, None)"
    using submission_log.scan_chain [OF ok size] by (simp add: submission_journal_scan_def)
  show ?thesis
  proof (cases "validate_transition p s e a ns os")
    case (Inl err)
    then show ?thesis by (simp add: append_submission_def)
  next
    case (Inr u)
    then have v: "validate_transition p s e a ns os = Inr ()" by simp
    show ?thesis
    proof (cases "next_sequence submission_chain ?ys (state_id_of p)")
      case (Inl err)
      then show ?thesis by (simp add: append_submission_def v scan)
    next
      case q: (Inr q)
      show ?thesis
      proof (cases "storable_ledger env s")
        case False
        then obtain err where "encode_private_ledger env s = Inl err"
          using s by (auto simp: storable_ledger_def is_ok_def split: sum.splits)
        then show ?thesis by (auto simp: append_submission_def v scan q)
      next
        case True
        note r = append_submission_eq [OF ok size True v wf q]
        have "sb_state (new_submission q p s e a ns os) = s" "sb_sequence (new_submission q p s e a ns os) = q"
          by (simp_all add: new_submission_def)
        with r(1-3) r(4) [of io] show ?thesis
          by (intro disjI2 exI [of _ "new_submission q p s e a ns os"]) (simp split: io_outcome.splits)
      qed
    qed
  qed
qed

end
