(* ===== verification/Private_Store.thy ===== *)
theory Private_Store
  imports Private_Journal
begin

text \<open>
  The two durable stores of the private ledger in \<^verbatim>\<open>crates/noxis-storage\<close>: \<^verbatim>\<open>private_state_store.rs\<close> over the state
  journal and \<^verbatim>\<open>private_submission_store.rs\<close> over the submission journal, and the offline migration from the
  first to the second. Both keep an immutable base record, a journal that is authoritative after its first
  entry, and a cache that is replaced by rename. They repeat the same functions over their own
  journal; here the journal operations are the fields of a record. The locale \<open>private_journal\<close> states
  what a store relies on, and proves once what a crash at any point can do.
\<close>

subsection \<open>Files, outcomes and errors\<close>

text \<open>The three files of a store, absent or with their content. Locks and temporary files are not part of it.\<close>

record store_files =
  sf_cache :: "bytes option"
  sf_base :: "bytes option"
  sf_journal :: "bytes option"

datatype store_operation =
  InspectState | ReadState | CreateTemporary | WriteTemporary | SyncTemporary | PublishRename | RemoveTemporary

text \<open>
  What the operating system did with a publication: it was renamed into place and can be read back, it
  failed before the rename, or it was renamed and reading it back failed.
\<close>

datatype publish_io = Published | PublishFailed store_operation | PublishUnread store_operation

datatype 'e private_store_error =
  StoreAlreadyInitialized
| StoreUnexpectedSidecar
| StorePublishedStateMismatch
| StoreMissingJournalBase
| StoreJournalBaseMismatch state_id state_id
| StoreJournalCacheMismatch state_id state_id
| StoreJournalTailPresent
| StoreOversized nat
| StoreIo store_operation
| StoreRecord private_record_error
| StoreJournal 'e
| StoreInvalidRecord private_record_error
| StoreLedger private_ledger_error
| StorePanic

type_synonym state_store_error = "private_journal_error private_store_error"
type_synonym submission_store_error = "submission_journal_error private_store_error"

text \<open>The journal as the store uses it: scan, recover from a base, truncate, append.\<close>

record ('x, 'e, 'm) journal_ops =
  jo_state :: "'x \<Rightarrow> private_ledger"
  jo_scan :: "bytes \<Rightarrow> 'e + 'x list \<times> incomplete_tail option"
  jo_recover :: "bytes \<Rightarrow> private_ledger \<Rightarrow> 'e + 'x list \<times> incomplete_tail option"
  jo_truncate :: "bytes \<Rightarrow> incomplete_tail \<Rightarrow> ('e + unit) \<times> bytes"
  jo_append :: "io_outcome \<Rightarrow> bytes \<Rightarrow> private_ledger \<Rightarrow> private_ledger \<Rightarrow> 'm \<Rightarrow> private_receipt \<Rightarrow> ('e + u64) \<times> bytes"

definition state_ops :: "candidate_env \<Rightarrow> (stored_private_state, private_journal_error, unit) journal_ops" where
  "state_ops env =
     \<lparr>jo_state = sp_state, jo_scan = state_journal_scan env,
      jo_recover = (\<lambda>content base. state_journal_recover_from env content (state_id_of base)),
      jo_truncate = state_journal_truncate env,
      jo_append = (\<lambda>io content predecessor successor _ _.
        append_post_state env io content (state_id_of predecessor) successor)\<rparr>"

definition submission_ops :: "candidate_env \<Rightarrow> (stored_submission, submission_journal_error, id32) journal_ops" where
  "submission_ops env =
     \<lparr>jo_state = sb_state, jo_scan = submission_journal_scan env, jo_recover = submission_journal_recover_from env,
      jo_truncate = submission_journal_truncate env,
      jo_append = (\<lambda>io content predecessor successor metadata receipt.
        append_submission env io content predecessor successor metadata (rc_asset_id receipt)
          (rc_input_nullifiers receipt) (rc_output_commitments receipt))\<rparr>"

subsection \<open>Records on disk\<close>

definition read_state :: "candidate_env \<Rightarrow> bytes option \<Rightarrow> 'e private_store_error + private_ledger" where
  "read_state env file =
     (case file of
        None \<Rightarrow> Inl (StoreIo InspectState)
      | Some bs \<Rightarrow>
          if PRIVATE_STATE_RECORD_MAX_BYTES < length bs then Inl (StoreOversized (length bs))
          else map_err StoreInvalidRecord (decode_private_ledger env bs))"

definition publish_state ::
  "candidate_env \<Rightarrow> publish_io \<Rightarrow> private_ledger \<Rightarrow> bytes option \<Rightarrow> ('e private_store_error + unit) \<times> bytes option" where
  "publish_state env io l file =
     (case encode_private_ledger env l of
        Inl e \<Rightarrow> (Inl (StoreRecord e), file)
      | Inr encoded \<Rightarrow>
          (case io of
             PublishFailed operation \<Rightarrow> (Inl (StoreIo operation), file)
           | PublishUnread operation \<Rightarrow> (Inl (StoreIo operation), Some encoded)
           | Published \<Rightarrow>
               (and_then (read_state env (Some encoded)) (\<lambda>recovered.
                and_then (map_err StoreRecord (encode_private_ledger env recovered)) (\<lambda>bs.
                if bs \<noteq> encoded then Inl StorePublishedStateMismatch else Inr ())), Some encoded)))"

definition read_journal_base :: "candidate_env \<Rightarrow> bytes option \<Rightarrow> 'e private_store_error + private_ledger" where
  "read_journal_base env file = (if file = None then Inl StoreMissingJournalBase else read_state env file)"

definition write_or_validate_journal_base ::
  "candidate_env \<Rightarrow> publish_io \<Rightarrow> private_ledger \<Rightarrow> bytes option \<Rightarrow> ('e private_store_error + unit) \<times> bytes option" where
  "write_or_validate_journal_base env io l file =
     (if file \<noteq> None then
        (and_then (read_state env file) (\<lambda>base.
         if state_id_of base \<noteq> state_id_of l then Inl (StoreJournalBaseMismatch (state_id_of base) (state_id_of l))
         else Inr ()), file)
      else publish_state env io l file)"

subsection \<open>Opening\<close>

definition cut_journal_tail ::
  "('x, 'e, 'm) journal_ops \<Rightarrow> bytes \<Rightarrow> incomplete_tail option \<Rightarrow> private_ledger
    \<Rightarrow> ('e private_store_error + private_ledger) \<times> bytes" where
  "cut_journal_tail ops journal tail l =
     (case tail of
        None \<Rightarrow> (Inr l, journal)
      | Some t \<Rightarrow>
          (case jo_truncate ops journal t of
             (Inl e, journal') \<Rightarrow> (Inl (StoreJournal e), journal')
           | (Inr _, journal') \<Rightarrow> (Inr l, journal')))"

definition recover_authoritative_state ::
  "('x, 'e, 'm) journal_ops \<Rightarrow> candidate_env \<Rightarrow> bytes \<Rightarrow> bytes option \<Rightarrow> private_ledger option
    \<Rightarrow> ('e private_store_error + private_ledger) \<times> bytes" where
  "recover_authoritative_state ops env journal base_file cache =
     (case jo_scan ops journal of
        Inl e \<Rightarrow> (Inl (StoreJournal e), journal)
      | Inr (entries, tail) \<Rightarrow>
          if entries \<noteq> [] then
            (case and_then (read_journal_base env base_file) (\<lambda>base. map_err StoreJournal (jo_recover ops journal base)) of
               Inl e \<Rightarrow> (Inl e, journal)
             | Inr (verified, tail) \<Rightarrow>
                 if verified = [] then (Inl StorePanic, journal)
                 else cut_journal_tail ops journal tail (jo_state ops (last verified)))
          else
            (case cache of
               None \<Rightarrow> (Inl StorePanic, journal)
             | Some l \<Rightarrow>
                 if tail \<noteq> None \<and> base_file = None then (Inl StoreMissingJournalBase, journal)
                 else
                   (case
                      (if base_file \<noteq> None then
                         and_then (read_journal_base env base_file) (\<lambda>base.
                         if state_id_of base \<noteq> state_id_of l
                         then Inl (StoreJournalBaseMismatch (state_id_of base) (state_id_of l)) else Inr ())
                       else Inr ()) of
                      Inl e \<Rightarrow> (Inl e, journal)
                    | Inr _ \<Rightarrow> cut_journal_tail ops journal tail l)))"

text \<open>The start of \<^verbatim>\<open>open\<close>: only an empty journal needs a readable cache.\<close>

definition cached_state ::
  "('x, 'e, 'm) journal_ops \<Rightarrow> candidate_env \<Rightarrow> bytes \<Rightarrow> bytes option \<Rightarrow> 'e private_store_error + private_ledger option" where
  "cached_state ops env journal cache_file =
     and_then (map_err StoreJournal (jo_scan ops journal)) (\<lambda>(entries, _).
       if entries \<noteq> [] then Inr (case read_state env cache_file of
         Inr l \<Rightarrow> Some l | Inl (_ :: 'e private_store_error) \<Rightarrow> None)
       else and_then (read_state env cache_file) (\<lambda>l. Inr (Some l)))"

definition store_open ::
  "('x, 'e, 'm) journal_ops \<Rightarrow> candidate_env \<Rightarrow> publish_io \<Rightarrow> store_files
    \<Rightarrow> ('e private_store_error + private_ledger) \<times> store_files" where
  "store_open ops env io files =
     (let journal = (case sf_journal files of Some c \<Rightarrow> c | None \<Rightarrow> []);
          files = files\<lparr>sf_journal := Some journal\<rparr>
      in case cached_state ops env journal (sf_cache files) of
           Inl e \<Rightarrow> (Inl e, files)
         | Inr cache \<Rightarrow>
             (case recover_authoritative_state ops env journal (sf_base files) cache of
                (Inl e, journal') \<Rightarrow> (Inl e, files\<lparr>sf_journal := Some journal'\<rparr>)
              | (Inr l, journal') \<Rightarrow>
                  let files = files\<lparr>sf_journal := Some journal'\<rparr>
                  in if map_option state_id_of cache \<noteq> Some (state_id_of l) then
                       (case publish_state env io l (sf_cache files) of
                          (Inl e, cache_file) \<Rightarrow> (Inl e, files\<lparr>sf_cache := cache_file\<rparr>)
                        | (Inr _, cache_file) \<Rightarrow> (Inr l, files\<lparr>sf_cache := cache_file\<rparr>))
                     else (Inr l, files)))"

definition store_initialize ::
  "candidate_env \<Rightarrow> publish_io \<Rightarrow> private_ledger \<Rightarrow> store_files \<Rightarrow> ('e private_store_error + private_ledger) \<times> store_files" where
  "store_initialize env io l files =
     (if sf_cache files \<noteq> None then (Inl StoreAlreadyInitialized, files)
      else if sf_base files \<noteq> None \<or> sf_journal files \<noteq> None then (Inl StoreUnexpectedSidecar, files)
      else
        (case publish_state env io l (sf_cache files) of
           (Inl e, cache_file) \<Rightarrow> (Inl e, files\<lparr>sf_cache := cache_file\<rparr>)
         | (Inr _, cache_file) \<Rightarrow> (Inr l, files\<lparr>sf_cache := cache_file, sf_journal := Some []\<rparr>)))"

subsection \<open>Transfers\<close>

text \<open>An open store is its files and the state in memory. The journal file exists since it was opened.\<close>

abbreviation journal_of :: "store_files \<Rightarrow> bytes" where
  "journal_of files \<equiv> (case sf_journal files of Some c \<Rightarrow> c | None \<Rightarrow> [])"

definition prepare_journal_base ::
  "('x, 'e, 'm) journal_ops \<Rightarrow> candidate_env \<Rightarrow> publish_io \<Rightarrow> private_ledger \<Rightarrow> store_files
    \<Rightarrow> ('e private_store_error + unit) \<times> store_files" where
  "prepare_journal_base ops env io l files =
     (case jo_scan ops (journal_of files) of
        Inl e \<Rightarrow> (Inl (StoreJournal e), files)
      | Inr (entries, tail) \<Rightarrow>
          if tail \<noteq> None then (Inl StoreJournalTailPresent, files)
          else if entries \<noteq> [] then
            (and_then (read_journal_base env (sf_base files)) (\<lambda>base.
             and_then (map_err StoreJournal (jo_recover ops (journal_of files) base)) (\<lambda>(verified, _).
             if verified = [] then Inl StorePanic
             else
               let recovered = state_id_of (jo_state ops (last verified))
               in if recovered \<noteq> state_id_of l then Inl (StoreJournalCacheMismatch recovered (state_id_of l))
                  else Inr ())), files)
          else
            (case write_or_validate_journal_base env io l (sf_base files) of
               (r, base_file) \<Rightarrow> (r, files\<lparr>sf_base := base_file\<rparr>)))"

text \<open>The three writes of a transfer have their own outcomes: base record, journal frame, cache.\<close>

record transfer_io =
  ti_base :: publish_io
  ti_append :: io_outcome
  ti_cache :: publish_io

definition store_apply_transfer ::
  "('x, 'e, 'm) journal_ops \<Rightarrow> candidate_env \<Rightarrow> transfer_io \<Rightarrow> 'a authorizer \<Rightarrow> 'm \<Rightarrow> 'a private_request
    \<Rightarrow> private_ledger \<Rightarrow> store_files \<Rightarrow> ('e private_store_error + private_receipt) \<times> private_ledger \<times> store_files" where
  "store_apply_transfer ops env io authorizer metadata request l files =
     (case apply_transfer env authorizer l request of
        Inl e \<Rightarrow> (Inl (StoreLedger e), l, files)
      | Inr (receipt, candidate) \<Rightarrow>
          (case prepare_journal_base ops env (ti_base io) l files of
             (Inl e, files) \<Rightarrow> (Inl e, l, files)
           | (Inr _, files) \<Rightarrow>
               (case jo_append ops (ti_append io) (journal_of files) l candidate metadata receipt of
                  (Inl e, journal) \<Rightarrow> (Inl (StoreJournal e), l, files\<lparr>sf_journal := Some journal\<rparr>)
                | (Inr _, journal) \<Rightarrow>
                    let files = files\<lparr>sf_journal := Some journal\<rparr>
                    in (case publish_state env (ti_cache io) candidate (sf_cache files) of
                          (Inl e, cache_file) \<Rightarrow> (Inl e, l, files\<lparr>sf_cache := cache_file\<rparr>)
                        | (Inr _, cache_file) \<Rightarrow> (Inr receipt, candidate, files\<lparr>sf_cache := cache_file\<rparr>)))))"

subsection \<open>The two stores\<close>

definition state_store_initialize ::
  "candidate_env \<Rightarrow> publish_io \<Rightarrow> private_ledger \<Rightarrow> store_files \<Rightarrow> (state_store_error + private_ledger) \<times> store_files" where
  "state_store_initialize = store_initialize"

definition state_store_open ::
  "candidate_env \<Rightarrow> publish_io \<Rightarrow> store_files \<Rightarrow> (state_store_error + private_ledger) \<times> store_files" where
  "state_store_open env = store_open (state_ops env) env"

definition state_store_apply_transfer ::
  "candidate_env \<Rightarrow> transfer_io \<Rightarrow> 'a authorizer \<Rightarrow> 'a private_request \<Rightarrow> private_ledger \<Rightarrow> store_files
    \<Rightarrow> (state_store_error + private_receipt) \<times> private_ledger \<times> store_files" where
  "state_store_apply_transfer env io authorizer request =
     store_apply_transfer (state_ops env) env io authorizer () request"

definition submission_store_initialize ::
  "candidate_env \<Rightarrow> publish_io \<Rightarrow> private_ledger \<Rightarrow> store_files \<Rightarrow> (submission_store_error + private_ledger) \<times> store_files" where
  "submission_store_initialize = store_initialize"

definition initialize_with_authenticated_base ::
  "candidate_env \<Rightarrow> publish_io \<Rightarrow> publish_io \<Rightarrow> private_ledger \<Rightarrow> store_files
    \<Rightarrow> (submission_store_error + private_ledger) \<times> store_files" where
  "initialize_with_authenticated_base env io_cache io_base l files =
     (case submission_store_initialize env io_cache l files of
        (Inl e, files) \<Rightarrow> (Inl e, files)
      | (Inr l, files) \<Rightarrow>
          (case prepare_journal_base (submission_ops env) env io_base l files of
             (Inl e, files) \<Rightarrow> (Inl e, files)
           | (Inr _, files) \<Rightarrow> (Inr l, files)))"

definition submission_store_open ::
  "candidate_env \<Rightarrow> publish_io \<Rightarrow> store_files \<Rightarrow> (submission_store_error + private_ledger) \<times> store_files" where
  "submission_store_open env = store_open (submission_ops env) env"

definition submission_store_apply_transfer ::
  "candidate_env \<Rightarrow> transfer_io \<Rightarrow> 'a authorizer \<Rightarrow> id32 \<Rightarrow> 'a private_request \<Rightarrow> private_ledger \<Rightarrow> store_files
    \<Rightarrow> (submission_store_error + private_receipt) \<times> private_ledger \<times> store_files" where
  "submission_store_apply_transfer env io authorizer metadata request =
     store_apply_transfer (submission_ops env) env io authorizer metadata request"

definition submissions :: "candidate_env \<Rightarrow> store_files \<Rightarrow> submission_store_error + stored_submission list" where
  "submissions env files =
     and_then (map_err StoreJournal (submission_journal_scan env (journal_of files))) (\<lambda>(entries, tail).
     if tail \<noteq> None then Inl StoreJournalTailPresent
     else if entries = [] then Inr []
     else and_then (read_journal_base env (sf_base files)) (\<lambda>base.
     and_then (map_err StoreJournal (submission_journal_recover_from env (journal_of files) base)) (\<lambda>(recovered, tail).
     if tail \<noteq> None then Inl StoreJournalTailPresent else Inr recovered)))"

record submission_status =
  ss_state_id :: state_id
  ss_commitment_count :: nat
  ss_spent_nullifier_count :: nat
  ss_durable_submission_count :: nat

definition submission_store_status ::
  "candidate_env \<Rightarrow> private_ledger \<Rightarrow> store_files \<Rightarrow> submission_store_error + submission_status" where
  "submission_store_status env l files =
     and_then (submissions env files) (\<lambda>entries.
       Inr \<lparr>ss_state_id = state_id_of l, ss_commitment_count = length (ps_commitments (pv_snapshot l)),
            ss_spent_nullifier_count = length (ps_spent_nullifiers (pv_snapshot l)),
            ss_durable_submission_count = length entries\<rparr>)"

subsection \<open>Migration\<close>

datatype migration_error =
  MgSamePath string
| MgSource state_store_error
| MgTarget submission_store_error
| MgStateMismatch state_id state_id
| MgUnexpectedTargetHistory

record migration_receipt =
  mg_source_state_id :: state_id
  mg_target_state_id :: state_id

text \<open>
  The writes of a migration: the repaired cache of the source, cache and base of the target, its repaired cache.
  The two paths are those of disjoint sets of files.
\<close>

record migration_io =
  mi_source :: publish_io
  mi_cache :: publish_io
  mi_base :: publish_io
  mi_reopen :: publish_io

definition migrate_store ::
  "candidate_env \<Rightarrow> migration_io \<Rightarrow> string \<Rightarrow> string \<Rightarrow> store_files \<Rightarrow> store_files
    \<Rightarrow> (migration_error + migration_receipt) \<times> store_files \<times> store_files" where
  "migrate_store env io source_path target_path source target =
     (if source_path = target_path then (Inl (MgSamePath source_path), source, target)
      else
        (case state_store_open env (mi_source io) source of
           (Inl e, source) \<Rightarrow> (Inl (MgSource e), source, target)
         | (Inr l, source) \<Rightarrow>
             (case initialize_with_authenticated_base env (mi_cache io) (mi_base io) l target of
                (Inl e, target) \<Rightarrow> (Inl (MgTarget e), source, target)
              | (Inr _, target) \<Rightarrow>
                  (case submission_store_open env (mi_reopen io) target of
                     (Inl e, target) \<Rightarrow> (Inl (MgTarget e), source, target)
                   | (Inr l', target) \<Rightarrow>
                       if state_id_of l' \<noteq> state_id_of l
                       then (Inl (MgStateMismatch (state_id_of l) (state_id_of l')), source, target)
                       else
                         (case submissions env target of
                            Inl e \<Rightarrow> (Inl (MgTarget e), source, target)
                          | Inr entries \<Rightarrow>
                              if entries \<noteq> [] then (Inl MgUnexpectedTargetHistory, source, target)
                              else (Inr \<lparr>mg_source_state_id = state_id_of l, mg_target_state_id = state_id_of l'\<rparr>,
                                source, target))))))"

subsection \<open>What a store relies on\<close>

lemma read_state_storable: "storable_ledger env l \<Longrightarrow> read_state env (Some (nxpr_of env l)) = Inr l"
  using storable_encode [of env l] by (simp add: read_state_def)

lemma publish_state_storable:
  assumes "storable_ledger env l"
  shows "publish_state env io l file =
    (case io of
       Published \<Rightarrow> (Inr (), Some (nxpr_of env l))
     | PublishFailed operation \<Rightarrow> (Inl (StoreIo operation), file)
     | PublishUnread operation \<Rightarrow> (Inl (StoreIo operation), Some (nxpr_of env l)))"
  using storable_encode [OF assms]
  by (simp add: publish_state_def read_state_storable [OF assms] split: publish_io.splits)

lemma publish_state_cases:
  assumes "pv_inv env l" "publish_state env io l file = (r, file')"
  shows "(\<exists>e. r = Inl e \<and> file' = file) \<or> storable_ledger env l \<and> file' = Some (nxpr_of env l)"
proof (cases "storable_ledger env l")
  case True
  then show ?thesis using assms(2) by (auto simp: publish_state_storable [OF True] split: publish_io.splits)
next
  case False
  then obtain e where "encode_private_ledger env l = Inl e"
    using assms(1) by (auto simp: storable_ledger_def is_ok_def split: sum.splits)
  then show ?thesis using assms(2) by (auto simp: publish_state_def)
qed

definition receipt_wf :: "private_receipt \<Rightarrow> bool" where
  "receipt_wf r \<longleftrightarrow> vector_wf (fst (rc_input_nullifiers r)) \<and> vector_wf (snd (rc_input_nullifiers r))
     \<and> vector_wf (fst (rc_output_commitments r)) \<and> vector_wf (snd (rc_output_commitments r))"

lemma apply_transfer_receipt:
  assumes "apply_transfer env authorizer l rq = Inr (r, s)"
  shows "rc_asset_id r = pi_asset_id (rq_intent rq)" "rc_input_nullifiers r = pi_nullifiers (rq_intent rq)"
    "rc_output_commitments r = output_commitments (rq_intent rq)" "pi_asset_id (rq_intent rq) |\<in>| fmdom (pv_assets l)"
  using assms by (auto simp: apply_transfer_def prepare_transfer_def Let_def and_then_eq_Inr split: if_splits)

text \<open>A file that ends in a partial frame and is cut back to a complete one.\<close>

definition torn_journal ::
  "('x, 'e, 'm) journal_ops \<Rightarrow> bytes \<Rightarrow> bytes \<Rightarrow> private_ledger \<Rightarrow> private_ledger list \<Rightarrow> bool" where
  "torn_journal ops c c0 b ls \<longleftrightarrow>
     (\<exists>xs t. jo_scan ops c = Inr (xs, Some t) \<and> jo_recover ops c b = Inr (xs, Some t) \<and> map (jo_state ops) xs = ls
       \<and> jo_truncate ops c t = (Inr (), c0))"

text \<open>The records a store has on disk when its journal starts at \<open>b\<close> and passes through \<open>ls\<close>.\<close>

definition records_ok :: "candidate_env \<Rightarrow> store_files \<Rightarrow> private_ledger \<Rightarrow> private_ledger list \<Rightarrow> bool" where
  "records_ok env files b ls \<longleftrightarrow> storable_ledger env b \<and>
     (if ls = [] then sf_cache files = Some (nxpr_of env b) \<and> (sf_base files = None \<or> sf_base files = Some (nxpr_of env b))
      else sf_base files = Some (nxpr_of env b))"

text \<open>
  \<open>good c b ls\<close> stands for: the file \<open>c\<close> is a complete journal that starts from the ledger \<open>b\<close> and passes through the
  ledgers \<open>ls\<close>. A store is clean in state \<open>l\<close> when its journal is complete and ends in \<open>l\<close>; it is recoverable when at
  most a partial frame follows.
\<close>

definition store_clean ::
  "candidate_env \<Rightarrow> (bytes \<Rightarrow> private_ledger \<Rightarrow> private_ledger list \<Rightarrow> bool) \<Rightarrow> store_files \<Rightarrow> private_ledger \<Rightarrow> bool" where
  "store_clean env good files l \<longleftrightarrow>
     (\<exists>c b ls. sf_journal files = Some c \<and> length c < 2 ^ 64 \<and> good c b ls \<and> records_ok env files b ls \<and> l = last (b # ls))"

definition store_recoverable ::
  "candidate_env \<Rightarrow> ('x, 'e, 'm) journal_ops \<Rightarrow> (bytes \<Rightarrow> private_ledger \<Rightarrow> private_ledger list \<Rightarrow> bool) \<Rightarrow> store_files
    \<Rightarrow> private_ledger \<Rightarrow> bool" where
  "store_recoverable env ops good files l \<longleftrightarrow>
     (\<exists>c b ls. length (journal_of files) < 2 ^ 64 \<and> length c < 2 ^ 64 \<and> good c b ls \<and> records_ok env files b ls
       \<and> l = last (b # ls)
       \<and> (journal_of files = c \<or> torn_journal ops (journal_of files) c b ls \<and> sf_base files \<noteq> None))"

text \<open>\<open>accepts\<close> says when the journal takes a transition.\<close>

locale private_journal =
  fixes env :: candidate_env
    and ops :: "('x, 'e, 'm) journal_ops"
    and good :: "bytes \<Rightarrow> private_ledger \<Rightarrow> private_ledger list \<Rightarrow> bool"
    and accepts :: "private_ledger \<Rightarrow> private_ledger \<Rightarrow> 'm \<Rightarrow> private_receipt \<Rightarrow> bool"
  assumes good_empty: "good [] b []"
    and good_scan: "good c b ls \<Longrightarrow> length c < 2 ^ 64 \<Longrightarrow>
      \<exists>xs. jo_scan ops c = Inr (xs, None) \<and> jo_recover ops c b = Inr (xs, None) \<and> map (jo_state ops) xs = ls"
    and good_storable: "good c b ls \<Longrightarrow> \<forall>l \<in> set ls. storable_ledger env l"
    and append_cases: "good c b ls \<Longrightarrow> length c < 2 ^ 64 \<Longrightarrow> p = last (b # ls) \<Longrightarrow> pv_inv env s \<Longrightarrow> receipt_wf r \<Longrightarrow>
      (\<exists>err. jo_append ops io c p s m r = (Inl err, c)) \<or>
      (\<exists>f. good (c @ f) b (ls @ [s])
        \<and> (\<forall>k. 0 < k \<longrightarrow> k < length f \<longrightarrow> length c + k < 2 ^ 64 \<longrightarrow> torn_journal ops (c @ take k f) c b ls)
        \<and> (case io of
             Synced \<Rightarrow> \<exists>n. jo_append ops io c p s m r = (Inr n, c @ f)
           | Torn k \<Rightarrow> \<exists>err. jo_append ops io c p s m r = (Inl err, c @ take k f)))"
    and append_ok: "good c b ls \<Longrightarrow> length c < 2 ^ 64 \<Longrightarrow> p = last (b # ls) \<Longrightarrow> storable_ledger env s \<Longrightarrow> receipt_wf r \<Longrightarrow>
      accepts p s m r \<Longrightarrow> \<exists>n c'. jo_append ops Synced c p s m r = (Inr n, c')"
begin

lemma clean_recoverable:
  assumes "store_clean env good files l"
  shows "store_recoverable env ops good files l"
proof -
  from assms obtain c b ls where d: "sf_journal files = Some c" "length c < 2 ^ 64" "good c b ls" "records_ok env files b ls"
    "l = last (b # ls)" unfolding store_clean_def by blast
  then have "journal_of files = c" by simp
  with d show ?thesis unfolding store_recoverable_def by (metis (no_types, lifting))
qed

lemma last_storable:
  assumes "good c b ls" "records_ok env files b ls"
  shows "storable_ledger env (last (b # ls))"
  using good_storable [OF assms(1)] assms(2) last_in_set [of "b # ls"] by (auto simp: records_ok_def)

lemma clean_storable:
  assumes "store_clean env good files l"
  shows "storable_ledger env l"
  using assms last_storable unfolding store_clean_def by blast

lemma recoverable_scan:
  assumes good: "good c b ls" "length c < 2 ^ 64"
    and j: "journal = c \<or> torn_journal ops journal c b ls \<and> sf_base files \<noteq> None"
  obtains xs tail where "jo_scan ops journal = Inr (xs, tail)" "jo_recover ops journal b = Inr (xs, tail)"
    "map (jo_state ops) xs = ls"
    "case tail of None \<Rightarrow> journal = c | Some t \<Rightarrow> jo_truncate ops journal t = (Inr (), c) \<and> sf_base files \<noteq> None"
proof (cases "journal = c")
  case True
  obtain xs where "jo_scan ops c = Inr (xs, None)" "jo_recover ops c b = Inr (xs, None)" "map (jo_state ops) xs = ls"
    using good_scan [OF good] by blast
  with True that [of xs None] show ?thesis by simp
next
  case False
  then have torn: "torn_journal ops journal c b ls" "sf_base files \<noteq> None" using j by simp_all
  then obtain xs t where "jo_scan ops journal = Inr (xs, Some t)" "jo_recover ops journal b = Inr (xs, Some t)"
    "map (jo_state ops) xs = ls" "jo_truncate ops journal t = (Inr (), c)" unfolding torn_journal_def by blast
  with torn(2) that [of xs "Some t"] show ?thesis by simp
qed

text \<open>Recovery returns the last state of the journal and leaves a complete file.\<close>

lemma recover_recoverable:
  assumes good: "good c b ls" "length c < 2 ^ 64" and rec: "records_ok env files b ls"
    and j: "journal = c \<or> torn_journal ops journal c b ls \<and> sf_base files \<noteq> None"
    and cache: "ls = [] \<Longrightarrow> cache = Some b"
  shows "recover_authoritative_state ops env journal (sf_base files) cache = (Inr (last (b # ls)), c)"
proof -
  obtain xs tail where
    scan: "jo_scan ops journal = Inr (xs, tail)" "jo_recover ops journal b = Inr (xs, tail)" "map (jo_state ops) xs = ls"
    and tail: "case tail of None \<Rightarrow> journal = c | Some t \<Rightarrow> jo_truncate ops journal t = (Inr (), c) \<and> sf_base files \<noteq> None"
    using recoverable_scan [OF good j] .
  have cut: "cut_journal_tail ops journal tail l = (Inr l, c)" for l
    using tail by (auto simp: cut_journal_tail_def split: option.splits)
  have base: "storable_ledger env b" using rec by (simp add: records_ok_def)
  note read = read_state_storable [OF base]
  show ?thesis
  proof (cases "ls = []")
    case True
    then have xs: "xs = []" and c: "cache = Some b" using scan(3) cache by simp_all
    have t: "\<not> (tail \<noteq> None \<and> sf_base files = None)" using tail by (auto split: option.splits)
    have "sf_base files = None \<or> sf_base files = Some (nxpr_of env b)" using rec True by (simp add: records_ok_def)
    then show ?thesis using t cut [of b]
      by (elim disjE) (simp_all add: recover_authoritative_state_def scan(1) xs c read_journal_base_def read True)
  next
    case False
    then have "sf_base files = Some (nxpr_of env b)" "xs \<noteq> []" using rec scan(3) by (auto simp: records_ok_def)
    moreover have "jo_state ops (last xs) = last ls" using scan(3) \<open>xs \<noteq> []\<close> by (auto simp: last_map)
    ultimately show ?thesis using False
      by (simp add: recover_authoritative_state_def scan cut read_journal_base_def read)
  qed
qed

lemma records_ok_simps:
  "records_ok env (files\<lparr>sf_journal := j\<rparr>) b ls = records_ok env files b ls"
  "ls \<noteq> [] \<Longrightarrow> records_ok env (files\<lparr>sf_cache := f\<rparr>) b ls = records_ok env files b ls"
  by (simp_all add: records_ok_def)

text \<open>Opening a recoverable store: it finds the last state, and the files are clean afterwards, even when the
  repaired cache cannot be written.\<close>

lemma open_at:
  assumes good: "good c b ls" "length c < 2 ^ 64" and rec: "records_ok env files b ls" and l: "l = last (b # ls)"
    and j: "journal_of files = c \<or> torn_journal ops (journal_of files) c b ls \<and> sf_base files \<noteq> None"
  shows "\<exists>r files'. store_open ops env io files = (r, files') \<and> store_clean env good files' l \<and> sf_journal files' = Some c
    \<and> (r = Inr l \<or> (\<exists>e. r = Inl e) \<and> io \<noteq> Published)"
proof -
  obtain xs tail where scan: "jo_scan ops (journal_of files) = Inr (xs, tail)" "map (jo_state ops) xs = ls"
    using recoverable_scan [OF good j] .
  have stor: "storable_ledger env l" unfolding l by (rule last_storable [OF good(1) rec])
  have "\<exists>cache. cached_state ops env (journal_of files) (sf_cache files) = Inr cache \<and> (ls = [] \<longrightarrow> cache = Some b)"
    using rec scan(2) read_state_storable [of env b, where 'a = 'e] by (auto simp: cached_state_def scan(1) records_ok_def)
  then obtain cache where read: "cached_state ops env (journal_of files) (sf_cache files) = Inr cache"
    and first: "ls = [] \<Longrightarrow> cache = Some b" by blast
  note recovered = recover_recoverable [OF good rec j first, folded l]
  let ?files = "files\<lparr>sf_journal := Some c\<rparr>"
  have clean: "store_clean env good ?files l"
    unfolding store_clean_def using good rec l by (auto simp: records_ok_simps)
  have eq: "store_open ops env io files =
      (if map_option state_id_of cache \<noteq> Some (state_id_of l) then
         (case publish_state env io l (sf_cache files) of
            (Inl e, f) \<Rightarrow> (Inl e, ?files\<lparr>sf_cache := f\<rparr>) | (Inr _, f) \<Rightarrow> (Inr l, ?files\<lparr>sf_cache := f\<rparr>))
       else (Inr l, ?files))"
    by (cases "map_option state_id_of cache = Some (state_id_of l)") (simp_all add: store_open_def Let_def read recovered)
  show ?thesis
  proof (cases "map_option state_id_of cache = Some (state_id_of l)")
    case True
    then show ?thesis using eq clean by auto
  next
    case False
    then have "ls \<noteq> []" using first l by auto
    then have "store_clean env good (?files\<lparr>sf_cache := f\<rparr>) l" for f
      unfolding store_clean_def using good rec l by (auto simp: records_ok_simps)
    then show ?thesis using eq False clean
      by (cases io) (simp_all add: publish_state_storable [OF stor])
  qed
qed

lemma open_recoverable:
  assumes "store_recoverable env ops good files l"
  shows "\<exists>r files'. store_open ops env io files = (r, files') \<and> store_clean env good files' l
    \<and> (r = Inr l \<or> (\<exists>e. r = Inl e) \<and> io \<noteq> Published)"
  using assms open_at [of _ _ _ files l io] unfolding store_recoverable_def by blast

lemma open_clean:
  assumes "store_clean env good files l"
  shows "\<exists>r files'. store_open ops env io files = (r, files') \<and> store_clean env good files' l
    \<and> sf_journal files' = sf_journal files \<and> (r = Inr l \<or> (\<exists>e. r = Inl e) \<and> io \<noteq> Published)"
proof -
  from assms obtain c b ls where j: "sf_journal files = Some c" and good: "good c b ls" "length c < 2 ^ 64"
    and rec: "records_ok env files b ls" and l: "l = last (b # ls)" unfolding store_clean_def by blast
  then show ?thesis using open_at [OF good rec l, of io] by auto
qed

text \<open>A new store is clean.\<close>

lemma initialize_clean:
  assumes "storable_ledger env l"
    "store_initialize env io l \<lparr>sf_cache = None, sf_base = None, sf_journal = None\<rparr> = (r, files)"
  shows "(\<exists>e. r = Inl e) \<and> io \<noteq> Published \<or>
    r = Inr l \<and> store_clean env good files l \<and> sf_journal files = Some []"
proof -
  have "store_clean env good \<lparr>sf_cache = Some (nxpr_of env l), sf_base = None, sf_journal = Some []\<rparr> l"
    unfolding store_clean_def using good_empty [of l] assms(1)
    by (intro exI [of _ "[]"] exI [of _ l]) (simp add: records_ok_def)
  then show ?thesis
    using assms(2) by (cases io) (auto simp: store_initialize_def publish_state_storable [OF assms(1)])
qed

text \<open>A transfer on a clean store, for every outcome of its writes.\<close>

lemma prepare_clean:
  assumes "store_clean env good files l"
  shows "\<exists>r files'. prepare_journal_base ops env io l files = (r, files') \<and> store_clean env good files' l
    \<and> sf_journal files' = sf_journal files \<and> (r = Inr () \<and> sf_base files' \<noteq> None \<or> (\<exists>e. r = Inl e) \<and> io \<noteq> Published)"
proof -
  from assms obtain c b ls where j: "sf_journal files = Some c" and good: "good c b ls" "length c < 2 ^ 64"
    and rec: "records_ok env files b ls" and l: "l = last (b # ls)" unfolding store_clean_def by blast
  obtain xs where scan: "jo_scan ops c = Inr (xs, None)" "jo_recover ops c b = Inr (xs, None)" "map (jo_state ops) xs = ls"
    using good_scan [OF good] by blast
  have base: "storable_ledger env b" using rec by (simp add: records_ok_def)
  note read = read_state_storable [OF base]
  show ?thesis
  proof (cases "ls = []")
    case False
    then have "sf_base files = Some (nxpr_of env b)" "xs \<noteq> []" using rec scan(3) by (auto simp: records_ok_def)
    moreover have "jo_state ops (last xs) = l" using scan(3) False \<open>xs \<noteq> []\<close> l by (auto simp: last_map)
    ultimately show ?thesis using assms by (simp add: prepare_journal_base_def j scan read_journal_base_def read)
  next
    case True
    then have xs: "xs = []" and lb: "l = b" using scan(3) l by simp_all
    have clean: "store_clean env good (files\<lparr>sf_base := f\<rparr>) l" if "f = None \<or> f = Some (nxpr_of env b)" for f
      unfolding store_clean_def using j good rec True lb that
      by (intro exI [of _ c] exI [of _ b] exI [of _ "[]"]) (auto simp: records_ok_def)
    have eq: "prepare_journal_base ops env io l files =
        (case write_or_validate_journal_base env io b (sf_base files) of (r, f) \<Rightarrow> (r, files\<lparr>sf_base := f\<rparr>))"
      by (simp add: prepare_journal_base_def j scan(1) xs lb)
    show ?thesis
    proof (cases "sf_base files")
      case None
      then have eq: "prepare_journal_base ops env io l files =
          (case publish_state env io b None of (r, f) \<Rightarrow> (r, files\<lparr>sf_base := f\<rparr>))"
        by (simp add: eq write_or_validate_journal_base_def)
      show ?thesis using clean [of None] clean [of "Some (nxpr_of env b)"] eq
        by (cases io) (simp_all add: publish_state_storable [OF base])
    next
      case (Some f)
      then have "f = nxpr_of env b" using rec True by (simp add: records_ok_def)
      then show ?thesis using clean [of "Some f"] Some
        by (simp add: eq write_or_validate_journal_base_def read)
    qed
  qed
qed

lemma apply_clean:
  fixes authorizer :: "'a authorizer" and io :: transfer_io
  assumes clean: "store_clean env good files l" and wf: "intent_wf (rq_intent rq)"
    and run: "store_apply_transfer ops env io authorizer m rq l files = (r, l', files')"
    and size: "length (journal_of files') < 2 ^ 64"
  shows "(\<exists>e. r = Inl e \<and> l' = l \<and> (store_recoverable env ops good files' l \<or>
       (\<exists>receipt s. apply_transfer env authorizer l rq = Inr (receipt, s) \<and> store_recoverable env ops good files' s)))
    \<or> (\<exists>receipt. r = Inr receipt \<and> apply_transfer env authorizer l rq = Inr (receipt, l') \<and> store_clean env good files' l')"
proof (cases "apply_transfer env authorizer l rq")
  case (Inl e)
  then show ?thesis using run clean_recoverable [OF clean] by (auto simp: store_apply_transfer_def)
next
  case (Inr rs)
  obtain receipt s where rs: "rs = (receipt, s)" by (cases rs)
  note ap = Inr [unfolded rs]
  have inv: "pv_inv env l" using clean_storable [OF clean] by (simp add: storable_ledger_def)
  have s: "pv_inv env s" using apply_transfer_Inr(1) [OF inv wf ap] .
  have rwf: "receipt_wf receipt" using apply_transfer_receipt [OF ap] wf by (simp add: receipt_wf_def intent_wf_def)
  from prepare_clean [OF clean, of "ti_base io"] obtain p files1 where
    p: "prepare_journal_base ops env (ti_base io) l files = (p, files1)" and c1: "store_clean env good files1 l"
    and p_cases: "p = Inr () \<and> sf_base files1 \<noteq> None \<or> (\<exists>e. p = Inl e)" by blast
  show ?thesis
  proof (cases p)
    case (Inl e)
    then show ?thesis using run ap p clean_recoverable [OF c1] by (auto simp: store_apply_transfer_def)
  next
    case (Inr u)
    then have p1: "p = Inr ()" and base: "sf_base files1 \<noteq> None" using p_cases by auto
    from c1 obtain c b ls where j: "sf_journal files1 = Some c" and good: "good c b ls" "length c < 2 ^ 64"
      and rec: "records_ok env files1 b ls" and l: "l = last (b # ls)" unfolding store_clean_def by blast
    have step: "store_apply_transfer ops env io authorizer m rq l files =
        (case jo_append ops (ti_append io) c l s m receipt of
           (Inl e, journal) \<Rightarrow> (Inl (StoreJournal e), l, files1\<lparr>sf_journal := Some journal\<rparr>)
         | (Inr _, journal) \<Rightarrow>
             (case publish_state env (ti_cache io) s (sf_cache files1) of
                (Inl e, cache_file) \<Rightarrow> (Inl e, l, files1\<lparr>sf_journal := Some journal, sf_cache := cache_file\<rparr>)
              | (Inr _, cache_file) \<Rightarrow> (Inr receipt, s, files1\<lparr>sf_journal := Some journal, sf_cache := cache_file\<rparr>)))"
      by (simp add: store_apply_transfer_def ap p p1 j Let_def split: prod.split sum.split)
    have after: "store_clean env good (files1\<lparr>sf_journal := Some c', sf_cache := f\<rparr>) s"
      if "good c' b (ls @ [s])" "length c' < 2 ^ 64" for c' f
    proof -
      have "sf_base files1 = Some (nxpr_of env b)" "storable_ledger env b"
        using rec base by (auto simp: records_ok_def split: if_splits)
      then have "records_ok env (files1\<lparr>sf_journal := Some c', sf_cache := f\<rparr>) b (ls @ [s])" by (simp add: records_ok_def)
      with that show ?thesis unfolding store_clean_def
        by (intro exI [of _ c'] exI [of _ b] exI [of _ "ls @ [s]"]) simp
    qed
    from append_cases [OF good l s rwf, of "ti_append io" m]
    show ?thesis
    proof (elim disjE exE conjE)
      fix e
      assume "jo_append ops (ti_append io) c l s m receipt = (Inl e, c)"
      then have "r = Inl (StoreJournal e)" "l' = l" "files' = files1\<lparr>sf_journal := Some c\<rparr>" using run step by simp_all
      moreover have "files1\<lparr>sf_journal := Some c\<rparr> = files1" using j by (cases files1) simp
      ultimately show ?thesis using clean_recoverable [OF c1] by simp
    next
      fix f
      assume f: "good (c @ f) b (ls @ [s])"
        and torn: "\<forall>k. 0 < k \<longrightarrow> k < length f \<longrightarrow> length c + k < 2 ^ 64 \<longrightarrow> torn_journal ops (c @ take k f) c b ls"
        and io: "case ti_append io of Synced \<Rightarrow> \<exists>n. jo_append ops (ti_append io) c l s m receipt = (Inr n, c @ f)
           | Torn k \<Rightarrow> \<exists>err. jo_append ops (ti_append io) c l s m receipt = (Inl err, c @ take k f)"
      have stor: "storable_ledger env s" using good_storable [OF f] by simp
      show ?thesis
      proof (cases "ti_append io")
        case Synced
        then obtain n where n: "jo_append ops (ti_append io) c l s m receipt = (Inr n, c @ f)" using io by auto
        have "journal_of files' = c @ f"
          using run step n by (auto simp: publish_state_storable [OF stor] split: publish_io.splits)
        then have len: "length (c @ f) < 2 ^ 64" using size by simp
        have same: "store_clean env good (files1\<lparr>sf_journal := Some (c @ f)\<rparr>) s"
          using after [OF f len, of "sf_cache files1"] by simp
        show ?thesis
          using run step n after [OF f len] clean_recoverable [OF after [OF f len]] clean_recoverable [OF same] ap
          by (cases "ti_cache io") (auto simp: publish_state_storable [OF stor])
      next
        case (Torn k)
        then obtain e where e: "jo_append ops (ti_append io) c l s m receipt = (Inl e, c @ take k f)" using io by auto
        then have res: "r = Inl (StoreJournal e)" "l' = l" "files' = files1\<lparr>sf_journal := Some (c @ take k f)\<rparr>"
          using run step by simp_all
        have len: "length c + length (take k f) < 2 ^ 64" using size res(3) by simp
        consider "k = 0" | "0 < k" "k < length f" | "length f \<le> k" by linarith
        then show ?thesis
        proof cases
          case 1
          then have "files' = files1" using res(3) j by (cases files1) simp
          then show ?thesis using res clean_recoverable [OF c1] by simp
        next
          case 2
          then have "torn_journal ops (c @ take k f) c b ls" using torn len by simp
          then have "store_recoverable env ops good files' l"
            unfolding store_recoverable_def res(3)
            using good rec l base len by (intro exI [of _ c] exI [of _ b] exI [of _ ls]) (simp add: records_ok_simps)
          then show ?thesis using res by simp
        next
          case 3
          then have "files' = files1\<lparr>sf_journal := Some (c @ f), sf_cache := sf_cache files1\<rparr>" "length (c @ f) < 2 ^ 64"
            using res(3) len by simp_all
          then show ?thesis using res clean_recoverable [OF after [OF f, of "sf_cache files1"]] ap by auto
        qed
      qed
    qed
  qed
qed

lemma apply_succeeds:
  fixes authorizer :: "'a authorizer"
  assumes clean: "store_clean env good files l" and wf: "intent_wf (rq_intent rq)"
    and ap: "apply_transfer env authorizer l rq = Inr (receipt, s)"
    and s: "storable_ledger env s" "accepts l s m receipt"
  shows "\<exists>files'. store_apply_transfer ops env \<lparr>ti_base = Published, ti_append = Synced, ti_cache = Published\<rparr>
      authorizer m rq l files = (Inr receipt, s, files')"
proof -
  have rwf: "receipt_wf receipt" using apply_transfer_receipt [OF ap] wf by (simp add: receipt_wf_def intent_wf_def)
  from prepare_clean [OF clean, of Published] obtain files1 where
    p: "prepare_journal_base ops env Published l files = (Inr (), files1)" and c1: "store_clean env good files1 l" by auto
  from c1 obtain c b ls where j: "sf_journal files1 = Some c" and good: "good c b ls" "length c < 2 ^ 64"
    and l: "l = last (b # ls)" unfolding store_clean_def by blast
  from append_ok [OF good l s(1) rwf s(2)] obtain n c' where "jo_append ops Synced c l s m receipt = (Inr n, c')" by blast
  then show ?thesis by (simp add: store_apply_transfer_def ap p j publish_state_storable [OF s(1)])
qed

end

subsection \<open>Both journals are what a store relies on\<close>

definition state_good :: "candidate_env \<Rightarrow> bytes \<Rightarrow> private_ledger \<Rightarrow> private_ledger list \<Rightarrow> bool" where
  "state_good env c b ls \<longleftrightarrow>
     (\<exists>xs. c = state_file env xs \<and> (\<forall>x \<in> set xs. storable_ledger env (sp_state x)) \<and> linked private_journal_chain xs
       \<and> map sp_state xs = ls \<and> (xs \<noteq> [] \<longrightarrow> sp_previous_state_id (hd xs) = state_id_of b))"

lemma state_recover:
  assumes "state_journal_scan env c = Inr (located_frames private_journal_format (state_payload env)
      (\<lambda>n x. x\<lparr>sp_offset := n\<rparr>) 0 xs, tail)" "xs \<noteq> [] \<longrightarrow> sp_previous_state_id (hd xs) = base"
  shows "state_journal_recover_from env c base = Inr (located_frames private_journal_format (state_payload env)
      (\<lambda>n x. x\<lparr>sp_offset := n\<rparr>) 0 xs, tail)"
  using assms by (cases xs) (simp_all add: state_journal_recover_from_def)

lemma state_torn:
  assumes ok: "\<forall>x \<in> set xs. storable_ledger env (sp_state x)" "linked private_journal_chain xs"
    and hd: "xs \<noteq> [] \<longrightarrow> sp_previous_state_id (hd xs) = state_id_of b"
    and x: "storable_ledger env (sp_state x)" and k: "0 < k" "k < length (state_frame env x)"
    and size: "length (state_file env xs) + k < 2 ^ 64"
  shows "torn_journal (state_ops env) (state_file env xs @ take k (state_frame env x)) (state_file env xs) b (map sp_state xs)"
proof -
  let ?c = "state_file env xs @ take k (state_frame env x)"
    and ?ys = "located_frames private_journal_format (state_payload env) (\<lambda>n x. x\<lparr>sp_offset := n\<rparr>) 0 xs"
  obtain t where scan: "state_journal_scan env ?c = Inr (?ys, Some t)"
    using state_log.scan_chain_torn [OF ok x k size] by (auto simp: state_journal_scan_def)
  have "state_journal_truncate env ?c t = (Inr (), state_file env ?ys)"
    using state_log.truncate_chain [OF scan [unfolded state_journal_scan_def]] by (simp add: state_journal_truncate_def)
  then have "state_journal_truncate env ?c t = (Inr (), state_file env xs)" using state_log.frames_of_located by simp
  with scan state_recover [OF scan hd] show ?thesis
    by (auto simp: torn_journal_def state_ops_def located_states)
qed

interpretation state_store: private_journal env "state_ops env" "state_good env" "\<lambda>p s m r. True" for env
proof unfold_locales
  fix b c :: _ and ls p s r io m
  show "state_good env [] b []" by (auto simp: state_good_def intro!: exI [of _ "[]"])
  assume g: "state_good env c b ls"
  then obtain xs where c: "c = state_file env xs" and ok: "\<forall>x \<in> set xs. storable_ledger env (sp_state x)"
    "linked private_journal_chain xs" and ls: "map sp_state xs = ls"
    and hd: "xs \<noteq> [] \<longrightarrow> sp_previous_state_id (hd xs) = state_id_of b" unfolding state_good_def by blast
  show "\<forall>l \<in> set ls. storable_ledger env l" using ok(1) ls by auto
  assume size: "length c < 2 ^ 64"
  let ?ys = "located_frames private_journal_format (state_payload env) (\<lambda>n x. x\<lparr>sp_offset := n\<rparr>) 0 xs"
  have scan: "state_journal_scan env c = Inr (?ys, None)"
    using state_log.scan_chain [OF ok] size c by (simp add: state_journal_scan_def)
  from scan state_recover [OF scan hd] ls
  show "\<exists>xs. jo_scan (state_ops env) c = Inr (xs, None) \<and> jo_recover (state_ops env) c b = Inr (xs, None)
      \<and> map (jo_state (state_ops env)) xs = ls"
    by (auto simp: state_ops_def located_states)
  assume p: "p = last (b # ls)"
  then have last: "xs \<noteq> [] \<Longrightarrow> state_id_of (sp_state (last xs)) = state_id_of p" using ls by (auto simp: last_map)
  assume "receipt_wf r"
  show "\<exists>n c'. jo_append (state_ops env) Synced c p s m r = (Inr n, c')" if "storable_ledger env s"
    using append_post_state_ok [OF ok _ that last] size c by (simp add: state_ops_def)
  show "(\<exists>err. jo_append (state_ops env) io c p s m r = (Inl err, c)) \<or>
      (\<exists>f. state_good env (c @ f) b (ls @ [s])
        \<and> (\<forall>k. 0 < k \<longrightarrow> k < length f \<longrightarrow> length c + k < 2 ^ 64 \<longrightarrow> torn_journal (state_ops env) (c @ take k f) c b ls)
        \<and> (case io of
             Synced \<Rightarrow> \<exists>n. jo_append (state_ops env) io c p s m r = (Inr n, c @ f)
           | Torn k \<Rightarrow> \<exists>err. jo_append (state_ops env) io c p s m r = (Inl err, c @ take k f)))" if s: "pv_inv env s"
    using append_post_state_cases [OF ok size [unfolded c] s, of io "state_id_of p"]
  proof (elim disjE exE conjE)
    fix e
    assume "append_post_state env io (state_file env xs) (state_id_of p) s = (Inl e, state_file env xs)"
    then show ?thesis by (simp add: state_ops_def c)
  next
    fix x
    assume x: "storable_ledger env s" "sp_state x = s" "sp_previous_state_id x = state_id_of p"
      "linked private_journal_chain (xs @ [x])"
      and io: "case io of
           Synced \<Rightarrow> append_post_state env io (state_file env xs) (state_id_of p) s = (Inr (sp_sequence x), state_file env (xs @ [x]))
         | Torn k \<Rightarrow> \<exists>e. append_post_state env io (state_file env xs) (state_id_of p) s =
             (Inl e, state_file env xs @ take k (state_frame env x))"
    have first: "sp_previous_state_id (hd (xs @ [x])) = state_id_of b" using hd x(3) p ls by (cases xs) auto
    have "state_good env (c @ state_frame env x) b (ls @ [s])"
      unfolding state_good_def using ok(1) x ls first c by (intro exI [of _ "xs @ [x]"]) auto
    moreover have "torn_journal (state_ops env) (c @ take k (state_frame env x)) c b ls"
      if "0 < k" "k < length (state_frame env x)" "length c + k < 2 ^ 64" for k
      using state_torn [OF ok hd _ that(1,2)] that(3) x(1,2) c ls by simp
    ultimately show ?thesis using io
      by (intro disjI2 exI [of _ "state_frame env x"]) (auto simp: state_ops_def c split: io_outcome.splits)
  qed
qed

definition submission_good :: "candidate_env \<Rightarrow> bytes \<Rightarrow> private_ledger \<Rightarrow> private_ledger list \<Rightarrow> bool" where
  "submission_good env c b ls \<longleftrightarrow>
     (\<exists>xs. c = submission_file env xs \<and> (\<forall>x \<in> set xs. submission_ok env x) \<and> linked submission_chain xs
       \<and> map sb_state xs = ls \<and> try_fold replay_submission b xs = Inr (last (b # ls)))"

lemma replay_located:
  "try_fold replay_submission b (located_frames submission_format (submission_payload env) (\<lambda>n x. x\<lparr>sb_offset := n\<rparr>) n xs) =
   try_fold replay_submission b xs"
proof (induction xs arbitrary: b n)
  case (Cons x xs)
  have "replay_submission b (x\<lparr>sb_offset := n\<rparr>) = replay_submission b x" by (simp add: replay_submission_def)
  then show ?case using Cons.IH by (cases "replay_submission b x") simp_all
qed simp

lemma located_submission_states:
  "map sb_state (located_frames submission_format (submission_payload env) (\<lambda>n x. x\<lparr>sb_offset := n\<rparr>) n xs) = map sb_state xs"
  by (induction xs arbitrary: n) simp_all

lemma submission_recover:
  assumes "submission_journal_scan env c = Inr (located_frames submission_format (submission_payload env)
      (\<lambda>n x. x\<lparr>sb_offset := n\<rparr>) 0 xs, tail)" "try_fold replay_submission b xs = Inr l"
  shows "submission_journal_recover_from env c b = Inr (located_frames submission_format (submission_payload env)
      (\<lambda>n x. x\<lparr>sb_offset := n\<rparr>) 0 xs, tail)"
  using assms by (simp add: submission_journal_recover_from_def replay_located)

lemma submission_torn:
  assumes ok: "\<forall>x \<in> set xs. submission_ok env x" "linked submission_chain xs"
    and run: "try_fold replay_submission b xs = Inr l" and x: "submission_ok env x"
    and k: "0 < k" "k < length (submission_frame env x)" and size: "length (submission_file env xs) + k < 2 ^ 64"
  shows "torn_journal (submission_ops env) (submission_file env xs @ take k (submission_frame env x))
    (submission_file env xs) b (map sb_state xs)"
proof -
  let ?c = "submission_file env xs @ take k (submission_frame env x)"
    and ?ys = "located_frames submission_format (submission_payload env) (\<lambda>n x. x\<lparr>sb_offset := n\<rparr>) 0 xs"
  obtain t where scan: "submission_journal_scan env ?c = Inr (?ys, Some t)"
    using submission_log.scan_chain_torn [OF ok x k size] by (auto simp: submission_journal_scan_def)
  have "submission_journal_truncate env ?c t = (Inr (), submission_file env ?ys)"
    using submission_log.truncate_chain [OF scan [unfolded submission_journal_scan_def]]
    by (simp add: submission_journal_truncate_def)
  then have "submission_journal_truncate env ?c t = (Inr (), submission_file env xs)"
    using submission_log.frames_of_located by simp
  with scan submission_recover [OF scan run] show ?thesis
    by (auto simp: torn_journal_def submission_ops_def located_submission_states)
qed

interpretation submission_store: private_journal env "submission_ops env" "submission_good env"
  "\<lambda>p s m r. validate_transition p s m (rc_asset_id r) (rc_input_nullifiers r) (rc_output_commitments r) = Inr ()" for env
proof unfold_locales
  fix b c :: _ and ls p s r io m
  show "submission_good env [] b []" by (auto simp: submission_good_def intro!: exI [of _ "[]"])
  assume g: "submission_good env c b ls"
  then obtain xs where c: "c = submission_file env xs" and ok: "\<forall>x \<in> set xs. submission_ok env x"
    "linked submission_chain xs" and ls: "map sb_state xs = ls"
    and run: "try_fold replay_submission b xs = Inr (last (b # ls))" unfolding submission_good_def by blast
  show "\<forall>l \<in> set ls. storable_ledger env l" using ok(1) ls by (auto simp: submission_ok_def)
  assume size: "length c < 2 ^ 64"
  let ?ys = "located_frames submission_format (submission_payload env) (\<lambda>n x. x\<lparr>sb_offset := n\<rparr>) 0 xs"
  have scan: "submission_journal_scan env c = Inr (?ys, None)"
    using submission_log.scan_chain [OF ok] size c by (simp add: submission_journal_scan_def)
  from scan submission_recover [OF scan run] ls
  show "\<exists>xs. jo_scan (submission_ops env) c = Inr (xs, None) \<and> jo_recover (submission_ops env) c b = Inr (xs, None)
      \<and> map (jo_state (submission_ops env)) xs = ls"
    by (auto simp: submission_ops_def located_submission_states)
  assume p: "p = last (b # ls)" and r: "receipt_wf r"
  let ?ns = "rc_input_nullifiers r" and ?os = "rc_output_commitments r"
  have wf: "vector_wf (fst ?ns)" "vector_wf (snd ?ns)" "vector_wf (fst ?os)" "vector_wf (snd ?os)"
    using r by (simp_all add: receipt_wf_def)
  show "\<exists>n c'. jo_append (submission_ops env) Synced c p s m r = (Inr n, c')"
    if "storable_ledger env s" "validate_transition p s m (rc_asset_id r) ?ns ?os = Inr ()"
  proof -
    have "length xs + 1 < 2 ^ 64" using submission_log.length_frames_of [of xs env] size c by simp
    moreover have "xs \<noteq> [] \<Longrightarrow> cf_state_id submission_chain (last xs) = state_id_of p"
      using ls p by (auto simp: submission_chain_def last_map)
    ultimately obtain q where q: "next_sequence submission_chain ?ys (state_id_of p) = Inr q"
      using submission_log.next_located_exists [OF ok(2), of "state_id_of p" env] by blast
    from append_submission_eq(4) [OF ok size [unfolded c] that wf q, of Synced] show ?thesis
      by (simp add: submission_ops_def c)
  qed
  show "(\<exists>err. jo_append (submission_ops env) io c p s m r = (Inl err, c)) \<or>
      (\<exists>f. submission_good env (c @ f) b (ls @ [s])
        \<and> (\<forall>k. 0 < k \<longrightarrow> k < length f \<longrightarrow> length c + k < 2 ^ 64 \<longrightarrow> torn_journal (submission_ops env) (c @ take k f) c b ls)
        \<and> (case io of
             Synced \<Rightarrow> \<exists>n. jo_append (submission_ops env) io c p s m r = (Inr n, c @ f)
           | Torn k \<Rightarrow> \<exists>err. jo_append (submission_ops env) io c p s m r = (Inl err, c @ take k f)))" if s: "pv_inv env s"
    using append_submission_cases [OF ok size [unfolded c] s wf, of io p m "rc_asset_id r"]
  proof (elim disjE exE conjE)
    fix e
    assume "append_submission env io (submission_file env xs) p s m (rc_asset_id r) ?ns ?os = (Inl e, submission_file env xs)"
    then show ?thesis by (simp add: submission_ops_def c)
  next
    fix x
    assume x: "submission_ok env x" "sb_state x = s" "linked submission_chain (xs @ [x])" "replay_submission p x = Inr s"
      and io: "case io of
           Synced \<Rightarrow> append_submission env io (submission_file env xs) p s m (rc_asset_id r) ?ns ?os =
             (Inr (sb_sequence x), submission_file env (xs @ [x]))
         | Torn k \<Rightarrow> \<exists>err. append_submission env io (submission_file env xs) p s m (rc_asset_id r) ?ns ?os =
             (Inl err, submission_file env xs @ take k (submission_frame env x))"
    have "submission_good env (c @ submission_frame env x) b (ls @ [s])"
      unfolding submission_good_def using ok(1) x ls c run p
      by (intro exI [of _ "xs @ [x]"]) (auto simp: try_fold_append)
    moreover have "torn_journal (submission_ops env) (c @ take k (submission_frame env x)) c b ls"
      if "0 < k" "k < length (submission_frame env x)" "length c + k < 2 ^ 64" for k
      using submission_torn [OF ok run x(1) that(1,2)] that(3) c ls by simp
    ultimately show ?thesis using io
      by (intro disjI2 exI [of _ "submission_frame env x"]) (auto simp: submission_ops_def c split: io_outcome.splits)
  qed
qed

subsection \<open>What a recovered history says\<close>

definition submission_inputs :: "stored_submission \<Rightarrow> vector list" where
  "submission_inputs x = pair_list (sb_input_nullifiers x)"

interpretation replay: refined_machine replay_submission "pv_inv env" "submission_ok env" pv_spent
  "\<lambda>S x. distinct (submission_inputs x) \<and> set (submission_inputs x) \<inter> S = {}"
  "\<lambda>S x. S \<union> set (submission_inputs x)" for env
proof
  fix p x s
  assume p: "pv_inv env p" and x: "submission_ok env x" and r: "replay_submission p x = Inr s"
  then have s: "s = sb_state x" and v: "validate_transition p s (sb_envelope_id x) (sb_asset_id x)
      (sb_input_nullifiers x) (sb_output_commitments x) = Inr ()"
    by (auto simp: replay_submission_def and_then_eq_Inr split: if_splits)
  show inv: "pv_inv env s" using x s by (simp add: submission_ok_def storable_ledger_def)
  obtain m n where ns: "sb_input_nullifiers x = (m, n)" by (cases "sb_input_nullifiers x")
  obtain a b where os: "sb_output_commitments x = (a, b)" by (cases "sb_output_commitments x")
  from v [unfolded ns os validate_transition_iff [OF p inv]]
  show "(distinct (submission_inputs x) \<and> set (submission_inputs x) \<inter> pv_spent p = {})
      \<and> pv_spent s = pv_spent p \<union> set (submission_inputs x)"
    by (auto simp: submission_inputs_def ns pair_list_def)
qed

lemma guarded_inputs:
  "guarded_run (\<lambda>S x. distinct (f x) \<and> set (f x) \<inter> S = {}) (\<lambda>S x. S \<union> set (f x)) S xs = Some T \<Longrightarrow>
    T = S \<union> set (concat (map f xs)) \<and> distinct (concat (map f xs)) \<and> set (concat (map f xs)) \<inter> S = {}"
proof (induction xs arbitrary: S)
  case (Cons x xs)
  then have e: "distinct (f x)" "set (f x) \<inter> S = {}"
    and r: "guarded_run (\<lambda>S x. distinct (f x) \<and> set (f x) \<inter> S = {}) (\<lambda>S x. S \<union> set (f x)) (S \<union> set (f x)) xs = Some T"
    by (simp_all split: if_splits)
  from Cons.IH [OF r] e show ?case by auto
qed simp

lemma replay_last: "try_fold replay_submission b xs = Inr l \<Longrightarrow> l = last (b # map sb_state xs)"
proof (induction xs arbitrary: b)
  case (Cons x xs)
  then obtain s where "replay_submission b x = Inr s" "try_fold replay_submission s xs = Inr l" by (auto simp: and_then_eq_Inr)
  moreover from this have "s = sb_state x" by (auto simp: replay_submission_def and_then_eq_Inr split: if_splits)
  ultimately show ?case using Cons.IH by simp
qed simp

subsection \<open>Accepted transfers are recorded\<close>

lemma transfer_validates:
  assumes l: "pv_inv env l" and wf: "intent_wf (rq_intent rq)" and ap: "apply_transfer env authorizer l rq = Inr (receipt, s)"
    and e: "e \<noteq> 0"
  shows "validate_transition l s e (rc_asset_id receipt) (rc_input_nullifiers receipt) (rc_output_commitments receipt) = Inr ()"
proof -
  note r = apply_transfer_receipt [OF ap] and t = apply_transfer_Inr [OF l wf ap]
  obtain m n where ns: "pi_nullifiers (rq_intent rq) = (m, n)" by (cases "pi_nullifiers (rq_intent rq)")
  obtain x y where os: "output_commitments (rq_intent rq) = (x, y)" by (cases "output_commitments (rq_intent rq)")
  have "m < n" "x < y" using wf by (simp_all add: intent_wf_def ns os)
  with e r t(2,3) show ?thesis
    unfolding r ns os validate_transition_iff [OF l t(1)]
    by (auto simp: pool_enabled_def pool_next_def pair_list_def ns os intro!: exI [of _ "pv_notes l"])
qed

lemma state_store_survives_crashes:
  assumes "store_clean env (state_good env) files l" and "intent_wf (rq_intent rq)"
    and "state_store_apply_transfer env io authorizer rq l files = (r, l', files')"
    and "length (journal_of files') < 2 ^ 64"
  shows "\<exists>s. store_recoverable env (state_ops env) (state_good env) files' s
    \<and> (s = l \<or> (\<exists>receipt. apply_transfer env authorizer l rq = Inr (receipt, s)))
    \<and> (case r of Inl e \<Rightarrow> l' = l | Inr receipt \<Rightarrow> l' = s \<and> apply_transfer env authorizer l rq = Inr (receipt, s))"
  using state_store.apply_clean [OF assms(1,2) assms(3) [unfolded state_store_apply_transfer_def] assms(4)]
    state_store.clean_recoverable by (elim disjE exE conjE) auto

subsection \<open>Properties\<close>

text \<open>C10: Recovery accepts only histories without double spends. Whatever bytes the submission journal
  contains, if recovery from a well-formed base accepts them, the inputs of all accepted entries are pairwise different and
  unspent in the base, and the final state is well formed and has exactly the spent set of the base with
  those inputs added.\<close>

theorem recovered_history_spends_once:
  assumes "pv_inv env base" and "submission_journal_recover_from env content base = Inr (entries, tail)"
  shows "pv_inv env (last (base # map sb_state entries))
    \<and> pv_spent (last (base # map sb_state entries)) =
        pv_spent base \<union> set (concat (map (\<lambda>x. pair_list (sb_input_nullifiers x)) entries))
    \<and> distinct (concat (map (\<lambda>x. pair_list (sb_input_nullifiers x)) entries))
    \<and> set (concat (map (\<lambda>x. pair_list (sb_input_nullifiers x)) entries)) \<inter> pv_spent base = {}"
proof -
  from assms(2) obtain l where scan: "submission_journal_scan env content = Inr (entries, tail)"
    and run: "try_fold replay_submission base entries = Inr l"
    by (auto simp: submission_journal_recover_from_def and_then_eq_Inr)
  have ok: "\<forall>x \<in> set entries. submission_ok env x"
    using submission_log.scan_chain_only [OF scan [unfolded submission_journal_scan_def]] by blast
  note l = replay_last [OF run]
  show ?thesis
    using replay.run_inv [OF run assms(1) ok] guarded_inputs [OF replay.run_refines [OF run assms(1) ok]]
    unfolding l submission_inputs_def by simp
qed

text \<open>C11: A crash at any point of a private transfer loses nothing that was acknowledged and invents nothing.
  For every outcome of the three writes of a transfer on a clean store (base record, journal frame with
  any number of bytes written, cache), reopening succeeds and finds either the state before or the state the
  ledger computes for the transfer; if the transfer was acknowledged it is the latter, and if it failed the state in memory is
  unchanged.\<close>

theorem submission_store_survives_crashes:
  assumes "store_clean env (submission_good env) files l" and "intent_wf (rq_intent rq)"
    and "submission_store_apply_transfer env io authorizer metadata rq l files = (r, l', files')"
    and "length (journal_of files') < 2 ^ 64"
  shows "\<exists>s files''. submission_store_open env Published files' = (Inr s, files'')
    \<and> store_clean env (submission_good env) files'' s
    \<and> (s = l \<or> (\<exists>receipt. apply_transfer env authorizer l rq = Inr (receipt, s)))
    \<and> (case r of Inl e \<Rightarrow> l' = l | Inr receipt \<Rightarrow> l' = s \<and> apply_transfer env authorizer l rq = Inr (receipt, s))"
proof -
  have opens: "\<exists>files''. submission_store_open env Published files' = (Inr s, files'') \<and> store_clean env (submission_good env) files'' s"
    if "store_recoverable env (submission_ops env) (submission_good env) files' s" for s
    using submission_store.open_recoverable [OF that, of Published] by (auto simp: submission_store_open_def)
  from submission_store.apply_clean [OF assms(1,2) assms(3) [unfolded submission_store_apply_transfer_def] assms(4)]
  show ?thesis
  proof (elim disjE exE conjE)
    fix e
    assume "r = Inl e" "l' = l" "store_recoverable env (submission_ops env) (submission_good env) files' l"
    then show ?thesis using opens [of l] by auto
  next
    fix e receipt s
    assume "r = Inl e" "l' = l" "apply_transfer env authorizer l rq = Inr (receipt, s)"
      "store_recoverable env (submission_ops env) (submission_good env) files' s"
    then show ?thesis using opens [of s] by auto
  next
    fix receipt
    assume "r = Inr receipt" "apply_transfer env authorizer l rq = Inr (receipt, l')"
      "store_clean env (submission_good env) files' l'"
    then show ?thesis using opens [OF submission_store.clean_recoverable, of l'] by auto
  qed
qed


text \<open>C15: When no write fails, the store records every transfer the ledger accepts: on a clean store, with a
  nonzero envelope id and a successor state within the limits of the state record, the transfer is acknowledged with the
  receipt and the state of the ledger.\<close>

theorem submission_store_commits:
  assumes "store_clean env (submission_good env) files l" and "intent_wf (rq_intent rq)"
    and "apply_transfer env authorizer l rq = Inr (receipt, s)" and "storable_ledger env s" and "metadata \<noteq> 0"
  shows "\<exists>files'. submission_store_apply_transfer env \<lparr>ti_base = Published, ti_append = Synced, ti_cache = Published\<rparr>
      authorizer metadata rq l files = (Inr receipt, s, files')"
proof -
  have "pv_inv env l" using submission_store.clean_storable [OF assms(1)] by (simp add: storable_ledger_def)
  from submission_store.apply_succeeds [OF assms(1-4) transfer_validates [OF this assms(2,3,5)]]
  show ?thesis by (simp add: submission_store_apply_transfer_def)
qed

text \<open>The sample ledger, its transfer, and a store that holds it.\<close>

lemma sample_storable:
  assumes "pv_inv sample_env l" "card (pv_spent l) \<le> 2048" "fmdom (pv_assets l) = {|5|}"
  shows "storable_ledger sample_env l"
proof -
  have ok: "assets_ok (pv_assets l)" using assms(1) by (auto simp: pv_inv_def pv_inv_at_def Let_def)
  have "length (pv_asset_list l) = length (map ad_id (pv_asset_list l))" by simp
  also have "\<dots> = 1" unfolding pv_asset_list_eq(1) [OF ok] assms(3) by (simp add: sorted_list_of_fset.rep_eq)
  finally have "length (pv_asset_list l) = 1" .
  with pv_inv_spent(3) [OF assms(1)] assms(2) encode_private_ledger_eq [OF assms(1)] assms(1) show ?thesis
    by (simp add: storable_ledger_def is_ok_def)
qed

lemma sample_transfer:
  "\<exists>l receipt s. storable_ledger sample_env l \<and> intent_wf (rq_intent (sample_request l))
    \<and> apply_transfer sample_env accept_transfers l (sample_request l) = Inr (receipt, s) \<and> storable_ledger sample_env s
    \<and> pv_spent s = {sample_vector 3, sample_vector 4}"
proof -
  obtain l where l: "pv_inv sample_env l" "pv_notes l = [sample_vector 1, sample_vector 2]" "pv_spent l = {}"
    "pv_assets l = fmupd 5 sample_asset fmempty" using sample_ledger by blast
  let ?rq = "sample_request l"
  have ns: "pi_nullifiers (rq_intent ?rq) = (sample_vector 3, sample_vector 4)"
    and os: "output_commitments (rq_intent ?rq) = (sample_vector 5, sample_vector 6)"
    by (simp_all add: sample_request_def output_commitments_def)
  have asset: "pi_asset_id (rq_intent ?rq) |\<in>| fmdom (pv_assets l)" using l(4) by (simp add: sample_request_def)
  have intent: "pa_assert_matches_intent (pv_anchor l) (rq_intent ?rq) = Inr ()"
    by (simp add: pa_assert_matches_intent_def sample_request_def)
  note wf = sample_request_wf [OF l(1)]
  from apply_transfer_eq [OF l(1) wf ns os, of accept_transfers] asset intent l
  obtain receipt s where s: "apply_transfer sample_env accept_transfers l ?rq = Inr (receipt, s)"
    "pv_inv sample_env s" "pv_spent s = {sample_vector 3, sample_vector 4}" "pv_assets s = pv_assets l"
    by (auto simp: sample_vector_inject accept_transfers_def)
  have "storable_ledger sample_env l" "storable_ledger sample_env s"
    using l s sample_vector_inject by (auto intro!: sample_storable simp: card_insert_if)
  with wf s show ?thesis by blast
qed

definition sample_files :: "private_ledger \<Rightarrow> store_files" where
  "sample_files l = \<lparr>sf_cache = Some (nxpr_of sample_env l), sf_base = None, sf_journal = Some []\<rparr>"

lemma sample_clean:
  assumes "storable_ledger sample_env l"
  shows "store_clean sample_env (submission_good sample_env) (sample_files l) l"
    "store_clean sample_env (state_good sample_env) (sample_files l) l"
  using assms submission_store.good_empty state_store.good_empty unfolding store_clean_def
  by (auto simp: records_ok_def sample_files_def intro!: exI [of _ "[]"] exI [of _ l])

abbreviation good_io :: transfer_io where
  "good_io \<equiv> \<lparr>ti_base = Published, ti_append = Synced, ti_cache = Published\<rparr>"

theorem submission_store_commits_witness:
  "\<exists>l receipt s files'. apply_transfer sample_env accept_transfers l (sample_request l) = Inr (receipt, s)
    \<and> submission_store_apply_transfer sample_env good_io accept_transfers 1 (sample_request l) l (sample_files l) =
        (Inr receipt, s, files')"
proof -
  obtain l receipt s where l: "storable_ledger sample_env l" "intent_wf (rq_intent (sample_request l))"
    "apply_transfer sample_env accept_transfers l (sample_request l) = Inr (receipt, s)" "storable_ledger sample_env s"
    using sample_transfer by blast
  have "(1 :: id32) \<noteq> 0" by simp
  from submission_store_commits [OF sample_clean(1) [OF l(1)] l(2-4) this] l(3) show ?thesis by blast
qed

abbreviation receipt_entry :: "private_ledger \<Rightarrow> private_ledger \<Rightarrow> private_receipt \<Rightarrow> stored_submission" where
  "receipt_entry l s receipt \<equiv> new_submission 1 l s 1 (rc_asset_id receipt) (rc_input_nullifiers receipt) (rc_output_commitments receipt)"

lemma sample_append:
  assumes l: "storable_ledger sample_env l" "intent_wf (rq_intent (sample_request l))"
    "apply_transfer sample_env accept_transfers l (sample_request l) = Inr (receipt, s)" "storable_ledger sample_env s"
  shows "submission_good sample_env (submission_file sample_env [receipt_entry l s receipt]) l [s]"
    "\<exists>err. jo_append (submission_ops sample_env) (Torn k) [] l s 1 receipt =
      (Inl err, take k (submission_frame sample_env (receipt_entry l s receipt)))"
proof -
  have inv: "pv_inv sample_env l" using l(1) by (simp add: storable_ledger_def)
  have wf: "receipt_wf receipt" using apply_transfer_receipt [OF l(3)] l(2) by (simp add: receipt_wf_def intent_wf_def)
  have v: "validate_transition l s 1 (rc_asset_id receipt) (rc_input_nullifiers receipt) (rc_output_commitments receipt) = Inr ()"
    by (rule transfer_validates [OF inv l(2,3)]) simp
  have q: "next_sequence submission_chain (located_frames submission_format (submission_payload sample_env)
      (\<lambda>n x. x\<lparr>sb_offset := n\<rparr>) 0 []) (state_id_of l) = Inr 1" by (simp add: next_sequence_def)
  note e = append_submission_eq [OF _ _ _ l(4) v _ _ _ _ q, simplified, OF wf [unfolded receipt_wf_def, THEN conjunct1]
    wf [unfolded receipt_wf_def, THEN conjunct2, THEN conjunct1] wf [unfolded receipt_wf_def, THEN conjunct2, THEN conjunct2, THEN conjunct1]
    wf [unfolded receipt_wf_def, THEN conjunct2, THEN conjunct2, THEN conjunct2]]
  show "submission_good sample_env (submission_file sample_env [receipt_entry l s receipt]) l [s]"
    unfolding submission_good_def using e(1-3)
    by (intro exI [of _ "[receipt_entry l s receipt]"]) (simp add: new_submission_def)
  show "\<exists>err. jo_append (submission_ops sample_env) (Torn k) [] l s 1 receipt =
      (Inl err, take k (submission_frame sample_env (receipt_entry l s receipt)))"
    using e(4) [of "Torn k"] by (simp add: submission_ops_def)
qed

lemma sample_file_small:
  "storable_ledger sample_env s \<Longrightarrow> receipt_wf receipt \<Longrightarrow> length (submission_file sample_env [receipt_entry l s receipt]) < 2 ^ 64"
  using storable_encode(4) [of sample_env s] submission_log.length_frame [of "sample_env" "receipt_entry l s receipt"]
  by (simp add: submission_payload_def new_submission_def receipt_wf_def vector_wf_def)

theorem recovered_history_spends_once_witness:
  "\<exists>base content entries. pv_inv sample_env base \<and> length entries = 1
    \<and> submission_journal_recover_from sample_env content base = Inr (entries, None)
    \<and> distinct (concat (map (\<lambda>x. pair_list (sb_input_nullifiers x)) entries))"
proof -
  obtain l receipt s where l: "storable_ledger sample_env l" "intent_wf (rq_intent (sample_request l))"
    "apply_transfer sample_env accept_transfers l (sample_request l) = Inr (receipt, s)" "storable_ledger sample_env s"
    using sample_transfer by blast
  have wf: "receipt_wf receipt" using apply_transfer_receipt [OF l(3)] l(2) by (simp add: receipt_wf_def intent_wf_def)
  have inv: "pv_inv sample_env l" using l(1) by (simp add: storable_ledger_def)
  let ?c = "submission_file sample_env [receipt_entry l s receipt]"
  from submission_store.good_scan [OF sample_append(1) [OF l] sample_file_small [OF l(4) wf]]
  obtain xs where xs: "submission_journal_recover_from sample_env ?c l = Inr (xs, None)" "map sb_state xs = [s]"
    by (auto simp: submission_ops_def)
  have "length xs = 1" using arg_cong [OF xs(2), of length] by simp
  with recovered_history_spends_once [OF inv xs(1)] xs(1) inv show ?thesis by blast
qed

lemma encode_frame_long: "encode_frame fmt payload = Inr frame \<Longrightarrow> 5 < length frame"
  by (auto simp: encode_frame_def and_then_eq_Inr split: if_splits)

theorem submission_store_survives_crashes_witness:
  "\<exists>l files' s files''. submission_store_apply_transfer sample_env (good_io\<lparr>ti_append := Torn 5\<rparr>) accept_transfers 1
      (sample_request l) l (sample_files l) = (Inl (StoreJournal (SjIo ''append private-submission journal frame'')), l, files')
    \<and> submission_store_open sample_env Published files' = (Inr s, files'')"
proof -
  obtain l receipt s where l: "storable_ledger sample_env l" "intent_wf (rq_intent (sample_request l))"
    "apply_transfer sample_env accept_transfers l (sample_request l) = Inr (receipt, s)" "storable_ledger sample_env s"
    using sample_transfer by blast
  note clean = sample_clean(1) [OF l(1)]
  let ?f = "submission_frame sample_env (receipt_entry l s receipt)"
  from submission_store.prepare_clean [OF clean, of Published] obtain files1 where
    p: "prepare_journal_base (submission_ops sample_env) sample_env Published l (sample_files l) = (Inr (), files1)"
    and j: "sf_journal files1 = Some []" by (auto simp: sample_files_def)
  obtain e where a: "jo_append (submission_ops sample_env) (Torn 5) [] l s 1 receipt = (Inl e, take 5 ?f)"
    using sample_append(2) [OF l] by blast
  have "5 < length ?f" using submission_log.length_frame [of sample_env] by simp
  then have e: "e = SjIo ''append private-submission journal frame''"
    using a by (auto simp: submission_ops_def append_submission_def append_frame_def submission_journal_scan_def chain_scan_def
        and_then_eq_Inr encode_frame_long split: sum.splits)
  have run: "submission_store_apply_transfer sample_env (good_io\<lparr>ti_append := Torn 5\<rparr>) accept_transfers 1
      (sample_request l) l (sample_files l) = (Inl (StoreJournal e), l, files1\<lparr>sf_journal := Some (take 5 ?f)\<rparr>)"
    by (simp add: submission_store_apply_transfer_def store_apply_transfer_def l(3) p j a)
  have "length (journal_of (files1\<lparr>sf_journal := Some (take 5 ?f)\<rparr>)) < 2 ^ 64" by simp
  from submission_store_survives_crashes [OF clean l(2) run this] run e show ?thesis by blast
qed


text \<open>
  The check of a transition does not compare the notes before the two outputs, nor the registered assets. A
  record whose older notes were exchanged and whose asset was dropped, with a matching state id, passes.
\<close>

lemma validate_ignores_old_notes:
  "\<exists>p s. pv_inv sample_env p \<and> pv_inv sample_env s \<and> pv_notes p = [sample_vector 1, sample_vector 2]
    \<and> pv_notes s = [sample_vector 2, sample_vector 1, sample_vector 5, sample_vector 6]
    \<and> 5 |\<in>| fmdom (pv_assets p) \<and> pv_assets s = fmempty
    \<and> validate_transition p s 1 5 (sample_vector 3, sample_vector 4) (sample_vector 5, sample_vector 6) = Inr ()"
proof -
  obtain p where p: "pv_inv sample_env p" "pv_notes p = [sample_vector 1, sample_vector 2]" "pv_spent p = {}"
    "pv_assets p = fmupd 5 sample_asset fmempty" using sample_ledger by blast
  let ?cs = "[sample_vector 2, sample_vector 1, sample_vector 5, sample_vector 6]" and ?ns = "[sample_vector 3, sample_vector 4]"
  obtain st0 where st0: "nt_new_candidate sample_env = Inr st0" using nt_new_sample by blast
  have wf: "\<forall>n \<in> set ?ns. vector_wf n" by (simp add: sample_vector_wf sample_canonical)
  then have len: "\<forall>n \<in> set ?ns. length n = 64" by (simp add: vector_wf_def)
  have "distinct ?ns" by (simp add: sample_vector_inject)
  then obtain tree where "nt_mark_all st0 ?ns = Inr tree"
    using nt_mark_all_succeeds [OF represents_new(1) [OF st0] len] by auto
  note tree = marked_tree_ok [OF st0 wf this]
  obtain i where i: "sparse_candidate_id sample_env = Inr i"
    using sparse_candidate_loaded [OF tree_okD(1) [OF tree]] by blast
  have cs: "notes_ok ?cs" by (simp add: notes_ok_def sample_vector_wf sample_canonical sample_vector_inject)
  let ?s = "\<lparr>pv_assets = fmempty, pv_snapshot = snapshot_of sample_env sample_reference ?cs (set ?ns),
    pv_nullifier_tree = tree, pv_anchor = anchor_of sample_env sample_reference (nt_reference st0) i 1 2 3 ?cs (set ?ns)\<rparr>"
  have s: "pv_inv sample_env ?s" using pv_inv_atI [OF load_sample i cs tree assets_ok_empty] unfolding pv_inv_def by blast
  have order: "sample_vector 3 < sample_vector 4" "sample_vector 5 < sample_vector 6" by code_simp+
  have "pv_notes ?s = ?cs" "pv_spent ?s = set ?ns" by (simp_all add: snapshot_of_abs del: set_simps)
  then have "validate_transition p ?s 1 5 (sample_vector 3, sample_vector 4) (sample_vector 5, sample_vector 6) = Inr ()"
    unfolding validate_transition_iff [OF p(1) s] using p order by auto
  moreover have "5 |\<in>| fmdom (pv_assets p)" "pv_assets ?s = fmempty" using p(4) by simp_all
  ultimately show ?thesis using p s \<open>pv_notes ?s = ?cs\<close> by blast
qed

end
