(* ===== verification/Spec2Isabelle.thy ===== *)
theory Spec2Isabelle
  imports Comet_App Persistent_Ledger Private_Store
begin

text \<open>
  A verification of the Noxis node, \<^verbatim>\<open>src/crates\<close>: a private-note ledger whose transactions are ordered by
  CometBFT, executed deterministically, and written to append-only files.

  \<^bold>\<open>The program and its model.\<close> Every Rust function is a HOL function of the same name where HOL allows it
  (constructors carry their type as a prefix, e.g. \<open>RecordChain_new\<close>; fields carry a short prefix). A
  \<^verbatim>\<open>Result\<close> is a value of a sum type with \<open>Inl\<close> for the error, early returns are \<open>and_then\<close>, loops are folds or
  recursive functions that terminate. A function that mutates returns the new state with its result,
  also on its error paths. Fixed-width integers are words; \<^verbatim>\<open>usize\<close> is \<open>nat\<close> with the 64-bit bound
  written out where the source checks it. A file is the list of its bytes; every write takes an I/O outcome that says
  whether it reached the disk or after how many bytes it stopped. A panic of the source is a separate error
  value, so that its absence can be proved.

  \<^item> \<open>Prelude\<close>, \<open>Wire\<close>, \<open>Machine\<close>: results and checked arithmetic, big-endian bytes, the byte reader
    shared by all decoders with the locale \<open>wire_format\<close> (what encoders and decoders promise each other), and
    machines whose steps may fail with the locales \<open>fallible_machine\<close> (invariants) and \<open>refined_machine\<close>
    (simulation of a guarded specification).
  \<^item> \<open>Noxis_Types\<close>, \<open>Crypto\<close>: \<^verbatim>\<open>noxis-types\<close>, \<^verbatim>\<open>noxis-crypto\<close>. SHA-256 is the parameter \<open>sha\<close>; proof verifiers,
    mint policies and signature checks are arguments, as in the source.
  \<^item> \<open>Merkle\<close>: \<^verbatim>\<open>noxis-merkle\<close>, the append-only commitment tree, its root, proofs and their verification; the
    locale \<open>membership_log\<close> states what a client may rely on.
  \<^item> \<open>Ledger\<close>, \<open>Ledger_Snapshot\<close>: \<^verbatim>\<open>noxis-ledger\<close>, the two-phase transition, snapshots and the state id.
  \<^item> \<open>Codec\<close>, \<open>Record_Chain\<close>: \<^verbatim>\<open>noxis-codec\<close>, \<^verbatim>\<open>noxis-record-chain\<close>.
  \<^item> \<open>Consensus\<close>, \<open>Finality\<close>, \<open>Consensus_Codec\<close>, \<open>Engine\<close>: \<^verbatim>\<open>noxis-consensus\<close>: validator sets, headers, finality
    certificates, their codecs, and the CometBFT boundary.
  \<^item> \<open>Execution\<close>: \<^verbatim>\<open>noxis-execution\<close>, the block executor and its simulation overlay.
  \<^item> \<open>Frame_Log\<close>, \<open>Block_Journal\<close>, \<open>Record_Log\<close>: the framing of all logs of \<^verbatim>\<open>noxis-storage\<close> with the locale
    \<open>framed_log\<close>, and its instances: the block journal, the state-record log, the transaction log.
  \<^item> \<open>Persistent_Execution\<close>: \<^verbatim>\<open>persistent_execution.rs\<close>, blocks that are executed, appended and replayed.
  \<^item> \<open>Checkpoint\<close>, \<open>Checkpoint_Store\<close>, \<open>Persistent_Ledger\<close>: \<^verbatim>\<open>noxis-checkpoint\<close>, \<^verbatim>\<open>checkpoint_store.rs\<close> and the durable
    ledger of \<^verbatim>\<open>noxis-storage/src/lib.rs\<close>.
  \<^item> \<open>Comet_App\<close>: \<^verbatim>\<open>noxis-comet-abci\<close>, all handlers of the application core, its mempool and height mapping.
  \<^item> \<open>Babybear\<close>, \<open>Tree_Params\<close>, \<open>Digest_Tree\<close>, \<open>Poseidon2\<close>: the hash of the private branch: field arithmetic on \<^verbatim>\<open>u32\<close>,
    the parameter candidates of \<^verbatim>\<open>noxis-tree-params\<close>, binary trees over digests with the locale \<open>hash_tree\<close>, and the two
    evaluators \<^verbatim>\<open>noxis-poseidon2-core\<close> and \<^verbatim>\<open>noxis-poseidon2-reference\<close>. SHA-256, base64 and the embedded
    texts are fields of one parameter record.
  \<^item> \<open>Privacy_Types\<close>, \<open>Nullifier_Tree\<close>: \<^verbatim>\<open>noxis-privacy-types\<close> and the sparse nullifier tree of depth 512
    (\<^verbatim>\<open>noxis-nullifier-tree-reference\<close>, \<^verbatim>\<open>noxis-nullifier-tree-state\<close>).
  \<^item> \<open>Private_State\<close>, \<open>Private_Ledger\<close>: \<^verbatim>\<open>noxis-private-state\<close>: snapshots, the two anchors, the transition of one
    transfer, the private ledger with its authorizer as an argument, and its record \<open>NXPR v1\<close>.
  \<^item> \<open>Private_Journal\<close>, \<open>Private_Store\<close>: the private branch of \<^verbatim>\<open>noxis-storage\<close>: the journals of post-states
    (\<open>NXPL v1\<close>, \<^verbatim>\<open>private_state_journal.rs\<close>) and of submissions (\<open>NXPL v2\<close>, \<^verbatim>\<open>private_submission_journal.rs\<close>) with the
    locale \<open>chained_log\<close> over \<open>framed_log\<close>; the two stores over them (\<^verbatim>\<open>private_state_store.rs\<close>,
    \<^verbatim>\<open>private_submission_store.rs\<close>) with the locale \<open>private_journal\<close>, and the migration from one to the other
    (\<^verbatim>\<open>private_submission_migration.rs\<close>). The source repeats the code of the store for each journal; the model has it
    once, over a record of journal operations, with one instance per store.

  \<^bold>\<open>What is proved.\<close>
  \<^item> The ledger refines an abstract ledger of notes, nullifiers and supplies: no double spend, issued
    supply is the sum of the mints, notes are append-only, a prepared transition always commits.
  \<^item> The Merkle tree equals the complete binary tree over its leaves; its proofs are complete and sound; roots,
    state ids, intent ids, block ids and application hashes bind what they commit to, where an
    attack is exhibited as a collision of \<open>sha\<close> between two listed inputs.
  \<^item> Every decoder accepts exactly the encodings of well-formed values.
  \<^item> Two conflicting finality certificates convict validators with more voting power than the tolerated third.
  \<^item> Simulation agrees with execution; a proposal the node prepares is accepted by every node in the same state.
  \<^item> Storage: after any sequence of appends with any I/O outcome a log recovers to a prefix that contains
    everything acknowledged; durable state is exactly the re-execution of the log; commits are idempotent
    and all-or-nothing; a crash during an ABCI commit is recoverable; publication of checkpoints is atomic, and
    checkpoints never change what recovery computes.
  \<^item> Private branch: the fast Poseidon2 kernel computes the same function as the dense reference and both stay
    inside the field; the sampler of capacity vectors ends; the sparse nullifier tree is a set of spent
    nullifiers whose root is that of the complete tree and whose proofs decide membership up to a collision.
    The private ledger refines a growing list of notes and a set of nullifiers spent once each, its state id
    commits to the whole state, and its record is decoded to exactly the ledger that was encoded.
  \<^item> Private storage: a store survives a crash at any write of a transfer and reopens in the state before or after it,
    after it if it was acknowledged; whatever bytes the submission journal holds, recovery accepts them only as a
    history that spends every nullifier once; transfers that the ledger accepts are recorded when no write
    fails; migration keeps the state and leaves the source clean.

  \<^bold>\<open>Bounds.\<close> No definition uses fuel: scans recurse on the length of the remaining input, tree walks on the
  depth. Theorems about files assume fewer than \<open>2 ^ 64\<close> bytes, the range of the file offsets.

  \<^bold>\<open>Not modelled.\<close> Failures of reads and of opening a file (they abort the operation with an error and change
  nothing), path locks and directory syncs, the concurrent use of one directory by several processes, error display
  text; the protobuf framing and the socket server of \<^verbatim>\<open>noxis-comet-abci\<close>, process configuration and
  command line (\<^verbatim>\<open>noxis-config\<close>, \<^verbatim>\<open>noxis-runtime\<close>, \<^verbatim>\<open>noxis-node\<close>); the packet and proof-bundle crates of the private
  transfer; third-party ciphers and proof systems around which \<^verbatim>\<open>noxis-wallet-crypto\<close>, \<^verbatim>\<open>noxis-wallet-keystore\<close> and
  \<^verbatim>\<open>noxis-stark-experiment\<close> are built.
\<close>

end
